(* ===== verification/Prelude.thy ===== *)
theory Prelude
  imports Main "HOL-Library.AList" "HOL-Library.Multiset"
begin

text \<open>
  What every component of the development shares: the outcome of a fallible JavaScript
  computation, sequencing of such outcomes, decimal notation of integers, and generic
  lemmas about association lists (the representation of JavaScript objects).

  \<^item> \<open>thrown\<close> is what a JavaScript computation can throw or a promise can be rejected with.
    \<open>GenericError\<close> is a plain \<open>Error\<close>, whatever its message.
    \<open>Rejected\<close> carries the error code of the native binding, \<open>UnhandledErrorEvent\<close> is what an
    event emitter throws for an \<open>error\<close> event nobody listens to.
    \<open>OutsideModel\<close> is no JavaScript error: an operation returns it where the source text
    would compute with a value the model has no representation for (a fractional number, a
    code unit above 255). No theorem claims anything about such runs except that they are
    reported as such.
  \<^item> \<open>'a res\<close> is the outcome itself, \<open>Inl\<close> the exception and \<open>Inr\<close> the value.
\<close>

section \<open>Collections of rewrite rules\<close>

named_theorems js_simps "evaluation of JavaScript values and objects"
named_theorems loop_simps "evaluation of the polling loop's operations"
named_theorems rx_simps "evaluation of observables and of their execution"

section \<open>Outcomes of fallible computations\<close>

datatype thrown =
    TypeError
  | SyntaxError
  | URIError
  | GenericError
  | Rejected int
  | UnhandledErrorEvent
  | OutsideModel

type_synonym 'a res = "thrown + 'a"

definition andThen :: "'a res \<Rightarrow> ('a \<Rightarrow> 'b res) \<Rightarrow> 'b res" where
  "andThen r f = (case r of Inl e \<Rightarrow> Inl e | Inr x \<Rightarrow> f x)"

lemma andThen_simps [simp]:
  "andThen (Inl e) f = Inl e"
  "andThen (Inr x) f = f x"
  by (simp_all add: andThen_def)

lemma andThen_eq_Inr: "andThen r f = Inr y \<longleftrightarrow> (\<exists>x. r = Inr x \<and> f x = Inr y)"
  by (cases r) auto

lemma andThen_assoc: "andThen (andThen r f) g = andThen r (\<lambda>x. andThen (f x) g)"
  by (cases r) simp_all

text \<open>
  JavaScript's \<open>a && b\<close> on boolean operands: the right operand is evaluated, and can
  throw, only when the left one is true.
\<close>

definition and_also :: "bool res \<Rightarrow> bool res \<Rightarrow> bool res" where
  "and_also a b = andThen a (\<lambda>x. if x then b else Inr False)"

lemma and_also_simps [simp]:
  "and_also (Inl e) b = Inl e"
  "and_also (Inr True) b = b"
  "and_also (Inr False) b = Inr False"
  by (simp_all add: and_also_def)

lemma and_also_Inr [simp]: "and_also (Inr x) (Inr y) = Inr (x \<and> y)"
  by (cases x) simp_all

lemma and_also_True: "and_also a b = Inr True \<longleftrightarrow> a = Inr True \<and> b = Inr True"
  by (cases a; cases "projr a") (auto simp: and_also_def)

text \<open>\<open>xs.filter(p)\<close> for a predicate that may throw: the first throw ends the loop.\<close>

fun filter_res :: "('a \<Rightarrow> bool res) \<Rightarrow> 'a list \<Rightarrow> 'a list res" where
  "filter_res p [] = Inr []"
| "filter_res p (x # xs) =
     andThen (p x) (\<lambda>b. andThen (filter_res p xs) (\<lambda>ys. Inr (if b then x # ys else ys)))"

lemma filter_res_total:
  "(\<And>x. x \<in> set xs \<Longrightarrow> p x = Inr (q x)) \<Longrightarrow> filter_res p xs = Inr (filter q xs)"
  by (induction xs) simp_all

lemma filter_res_filter:
  "filter_res p xs = Inr ys \<Longrightarrow> ys = filter (\<lambda>x. p x = Inr True) xs"
  by (induction xs arbitrary: ys) (auto simp: andThen_eq_Inr)

lemma filter_res_Inr_elem:
  "filter_res p xs = Inr ys \<Longrightarrow> x \<in> set xs \<Longrightarrow> \<exists>b. p x = Inr b"
  by (induction xs arbitrary: ys) (auto simp: andThen_eq_Inr)

lemma filter_full_iff: "length xs = length (filter p xs) \<longleftrightarrow> (\<forall>x \<in> set xs. p x)"
  by (metis filter_True length_filter_less nat_neq_iff)

text \<open>\<open>xs.map(f)\<close> for a function that may throw.\<close>

fun map_res :: "('a \<Rightarrow> 'b res) \<Rightarrow> 'a list \<Rightarrow> 'b list res" where
  "map_res f [] = Inr []"
| "map_res f (x # xs) = andThen (f x) (\<lambda>y. andThen (map_res f xs) (\<lambda>ys. Inr (y # ys)))"

lemma map_res_total:
  "(\<And>x. x \<in> set xs \<Longrightarrow> f x = Inr (g x)) \<Longrightarrow> map_res f xs = Inr (map g xs)"
  by (induction xs) simp_all

lemma map_res_Inr: "map_res f xs = Inr ys \<longleftrightarrow> map f xs = map Inr ys"
  by (induction xs arbitrary: ys) (auto simp: andThen_eq_Inr Cons_eq_map_conv)

lemma map_res_elem: "map_res f xs = Inr ys \<Longrightarrow> y \<in> set ys \<Longrightarrow> \<exists>x \<in> set xs. f x = Inr y"
  by (induction xs arbitrary: ys) (auto simp: andThen_eq_Inr)

section \<open>Decimal notation\<close>

definition digit_char :: "nat \<Rightarrow> char" where
  "digit_char d = char_of (48 + d)"

definition is_digit :: "char \<Rightarrow> bool" where
  "is_digit c \<longleftrightarrow> 48 \<le> (of_char c :: nat) \<and> (of_char c :: nat) \<le> 57"

definition digit_val :: "char \<Rightarrow> nat" where
  "digit_val c = of_char c - 48"

lemma digit_char_digit [simp]: "d < 10 \<Longrightarrow> is_digit (digit_char d)"
  by (simp add: is_digit_def digit_char_def)

lemma digit_val_char [simp]: "d < 10 \<Longrightarrow> digit_val (digit_char d) = d"
  by (simp add: digit_val_def digit_char_def)

lemma of_char_digit_char [simp]: "d < 10 \<Longrightarrow> of_char (digit_char d) = (48 + d :: nat)"
  by (simp add: digit_char_def)

lemma digit_char_table [js_simps]:
  "digit_char 0 = CHR ''0''" "digit_char (Suc 0) = CHR ''1''" "digit_char 1 = CHR ''1''"
  "digit_char 2 = CHR ''2''" "digit_char 3 = CHR ''3''" "digit_char 4 = CHR ''4''"
  "digit_char 5 = CHR ''5''" "digit_char 6 = CHR ''6''" "digit_char 7 = CHR ''7''"
  "digit_char 8 = CHR ''8''" "digit_char 9 = CHR ''9''"
  by (simp_all add: digit_char_def char_of_def bit_Suc_0_iff)

fun nat_str :: "nat \<Rightarrow> string" where
  "nat_str n = (if n < 10 then [digit_char n] else nat_str (n div 10) @ [digit_char (n mod 10)])"

declare nat_str.simps [simp del]

definition int_str :: "int \<Rightarrow> string" where
  "int_str i = (if i < 0 then ''-'' @ nat_str (nat (- i)) else nat_str (nat i))"

definition digits_val :: "string \<Rightarrow> nat" where
  "digits_val ds = foldl (\<lambda>n c. 10 * n + digit_val c) 0 ds"

lemma nat_str_digits: "list_all is_digit (nat_str n)"
proof (induction n rule: nat_str.induct)
  case (1 n)
  then show ?case by (subst nat_str.simps) simp
qed

lemma nat_str_nonempty [simp]: "nat_str n \<noteq> []"
  by (subst nat_str.simps) simp

lemma digits_val_append: "digits_val (xs @ [c]) = 10 * digits_val xs + digit_val c"
  by (simp add: digits_val_def)

lemma digits_val_nat_str [simp]: "digits_val (nat_str n) = n"
proof (induction n rule: nat_str.induct)
  case (1 n)
  show ?case
  proof (cases "n < 10")
    case True
    then show ?thesis by (subst nat_str.simps) (simp add: digits_val_def)
  next
    case False
    with 1 show ?thesis by (subst nat_str.simps) (simp add: digits_val_append)
  qed
qed

lemma nat_str_inject [simp]: "nat_str m = nat_str n \<longleftrightarrow> m = n"
  by (metis digits_val_nat_str)

lemma nat_str_leading: "hd (nat_str n) = CHR ''0'' \<Longrightarrow> n = 0"
proof (induction n rule: nat_str.induct)
  case (1 n)
  show ?case
  proof (cases "n < 10")
    case True
    with "1.prems" have "of_char (digit_char n) = (48 :: nat)"
      by (simp add: nat_str.simps [of n])
    with True show ?thesis by simp
  next
    case False
    with "1.prems" have "hd (nat_str (n div 10)) = CHR ''0''"
      by (simp add: nat_str.simps [of n])
    with "1.IH" False have "n div 10 = 0" by simp
    with False show ?thesis by simp
  qed
qed

section \<open>Association lists\<close>

lemma map_of_update [simp]: "map_of (AList.update k v xs) = (map_of xs)(k \<mapsto> v)"
  by (rule update_conv')

lemma map_of_delete [simp]: "map_of (AList.delete k xs) = (map_of xs)(k := None)"
  by (rule delete_conv')

text \<open>Writing the entries of one object over another, one by one.\<close>

definition put_all :: "('k \<times> 'v) list \<Rightarrow> ('k \<times> 'v) list \<Rightarrow> ('k \<times> 'v) list" where
  "put_all acc es = fold (\<lambda>(k, v). AList.update k v) es acc"

lemma put_all_simps [simp]:
  "put_all acc [] = acc"
  "put_all acc ((k, v) # es) = put_all (AList.update k v acc) es"
  by (simp_all add: put_all_def)

lemma map_of_put_all: "distinct (map fst es) \<Longrightarrow> map_of (put_all acc es) = map_of acc ++ map_of es"
proof (induction es arbitrary: acc)
  case Nil
  then show ?case by simp
next
  case (Cons e es)
  obtain k v where e: "e = (k, v)" by (cases e)
  with Cons.prems have k: "map_of es k = None" and d: "distinct (map fst es)"
    by (auto simp: map_of_eq_None_iff)
  have "map_of (put_all acc (e # es)) = (map_of acc)(k \<mapsto> v) ++ map_of es"
    using Cons.IH [OF d, of "AList.update k v acc"] by (simp add: e fun_upd_def)
  also have "\<dots> = map_of acc ++ map_of (e # es)"
    using k by (auto simp: e fun_eq_iff map_add_def split: option.split)
  finally show ?case .
qed

lemma distinct_put_all: "distinct (map fst acc) \<Longrightarrow> distinct (map fst (put_all acc es))"
  by (induction es arbitrary: acc) (auto simp: distinct_update)

lemma keys_put_all: "fst ` set (put_all acc es) = fst ` set acc \<union> fst ` set es"
proof (induction es arbitrary: acc)
  case Nil
  then show ?case by simp
next
  case (Cons e es)
  then show ?case by (cases e) (simp add: dom_update)
qed

end
