(* ===== verification/JsValue.thy ===== *)
theory JsValue
  imports Prelude
begin

text \<open>
  JavaScript values as the library handles them: what \<open>JSON.parse\<close> yields, what the native
  binding passes to a callback and what a caller passes to a method. An object is the list
  of its own enumerable properties in creation order, without repeated keys; the operations
  below are the language's own (property read, \<open>hasOwnProperty\<close>, \<open>Object.keys\<close>, spread,
  computed property, \<open>delete\<close>), written once and used by every component.

  Not represented: functions and symbols as values, fractional numbers, code units above
  255, and properties found on a prototype. The names the library reads off a value of
  unknown shape (\<open>type\<close>, \<open>files\<close>, \<open>about\<close>, \<open>sid\<close>, \<open>serial\<close>, \<open>\<dots>\<close>) are on no built-in
  prototype; where it reads a computed name (a serial number) a built-in method found there
  spreads to nothing, as \<open>undefined\<close> does. The one exception is the key \<open>__proto__\<close>, whose
  assignment replaces the prototype: serial numbers are assumed different from it.
\<close>

section \<open>Values\<close>

datatype js =
    JUndef
  | JNull
  | JBool bool
  | JNum int
  | JStr string
  | JArr "js list"
  | JObj "(string \<times> js) list"

type_synonym jsobj = "(string \<times> js) list"

text \<open>The \<open>typeof\<close> operator and the conversion of a condition to a boolean.\<close>

fun typeof :: "js \<Rightarrow> string" where
  "typeof JUndef = ''undefined''"
| "typeof JNull = ''object''"
| "typeof (JBool b) = ''boolean''"
| "typeof (JNum n) = ''number''"
| "typeof (JStr s) = ''string''"
| "typeof (JArr xs) = ''object''"
| "typeof (JObj ps) = ''object''"

fun truthy :: "js \<Rightarrow> bool" where
  "truthy JUndef = False"
| "truthy JNull = False"
| "truthy (JBool b) = b"
| "truthy (JNum n) = (n \<noteq> 0)"
| "truthy (JStr s) = (s \<noteq> [])"
| "truthy (JArr xs) = True"
| "truthy (JObj ps) = True"

fun is_array :: "js \<Rightarrow> bool" where
  "is_array (JArr xs) = True"
| "is_array _ = False"

fun is_object :: "js \<Rightarrow> bool" where
  "is_object (JObj ps) = True"
| "is_object _ = False"

lemma typeof_string_iff: "typeof v = ''string'' \<longleftrightarrow> (\<exists>s. v = JStr s)"
  by (cases v) auto

lemma typeof_number_iff: "typeof v = ''number'' \<longleftrightarrow> (\<exists>n. v = JNum n)"
  by (cases v) auto

lemma is_array_iff: "is_array v \<longleftrightarrow> (\<exists>xs. v = JArr xs)"
  by (cases v) auto

lemma is_object_iff: "is_object v \<longleftrightarrow> (\<exists>ps. v = JObj ps)"
  by (cases v) auto

text \<open>Conversion to a property key (strings, and the primitives that print as one).\<close>

fun to_key :: "js \<Rightarrow> string res" where
  "to_key JUndef = Inr ''undefined''"
| "to_key JNull = Inr ''null''"
| "to_key (JBool b) = Inr (if b then ''true'' else ''false'')"
| "to_key (JNum n) = Inr (int_str n)"
| "to_key (JStr s) = Inr s"
| "to_key (JArr xs) = Inl OutsideModel"
| "to_key (JObj ps) = Inl OutsideModel"

section \<open>Own properties\<close>

text \<open>
  A key is an array index when it is the canonical decimal form of a number below
  \<open>2\<^sup>3\<^sup>2 - 1\<close>; such keys come first, in ascending order, when properties are enumerated.
\<close>

definition key_index :: "string \<Rightarrow> nat option" where
  "key_index k =
     (let n = digits_val k
      in if list_all is_digit k \<and> k = nat_str n \<and> n < 4294967295 then Some n else None)"

fun own_prop :: "js \<Rightarrow> string \<Rightarrow> js option" where
  "own_prop (JObj ps) k = map_of ps k"
| "own_prop (JArr xs) k =
     (if k = ''length'' then Some (JNum (int (length xs)))
      else case key_index k of
             Some i \<Rightarrow> if i < length xs then Some (xs ! i) else None
           | None \<Rightarrow> None)"
| "own_prop (JStr s) k =
     (if k = ''length'' then Some (JNum (int (length s)))
      else case key_index k of
             Some i \<Rightarrow> if i < length s then Some (JStr [s ! i]) else None
           | None \<Rightarrow> None)"
| "own_prop _ k = None"

text \<open>The read \<open>v.k\<close>: only \<open>undefined\<close> and \<open>null\<close> have no properties at all.\<close>

definition get_prop :: "js \<Rightarrow> string \<Rightarrow> js res" where
  "get_prop v k =
     (case v of
        JUndef \<Rightarrow> Inl TypeError
      | JNull \<Rightarrow> Inl TypeError
      | _ \<Rightarrow> Inr (case own_prop v k of Some x \<Rightarrow> x | None \<Rightarrow> JUndef))"

text \<open>
  The call \<open>v.hasOwnProperty(k)\<close>. A value that carries a data property of that name hides
  the method, and calling plain data throws.
\<close>

definition has_own :: "js \<Rightarrow> string \<Rightarrow> bool res" where
  "has_own v k =
     (case v of
        JUndef \<Rightarrow> Inl TypeError
      | JNull \<Rightarrow> Inl TypeError
      | _ \<Rightarrow> (case own_prop v ''hasOwnProperty'' of
                Some _ \<Rightarrow> Inl TypeError
              | None \<Rightarrow> Inr (own_prop v k \<noteq> None)))"

text \<open>The own enumerable properties in enumeration order.\<close>

definition object_entries :: "jsobj \<Rightarrow> jsobj" where
  "object_entries ps =
     sort_key (\<lambda>(k, _). the (key_index k)) (filter (\<lambda>(k, _). key_index k \<noteq> None) ps)
     @ filter (\<lambda>(k, _). key_index k = None) ps"

fun own_entries :: "js \<Rightarrow> jsobj" where
  "own_entries (JObj ps) = object_entries ps"
| "own_entries (JArr xs) = zip (map nat_str [0..<length xs]) xs"
| "own_entries (JStr s) = zip (map nat_str [0..<length s]) (map (\<lambda>c. JStr [c]) s)"
| "own_entries _ = []"

definition object_keys :: "js \<Rightarrow> string list res" where
  "object_keys v =
     (case v of
        JUndef \<Rightarrow> Inl TypeError
      | JNull \<Rightarrow> Inl TypeError
      | _ \<Rightarrow> Inr (map fst (own_entries v)))"

text \<open>\<open>{...acc, ...v}\<close> with \<open>acc\<close> the properties already written.\<close>

definition spread :: "jsobj \<Rightarrow> js \<Rightarrow> jsobj" where
  "spread acc v = put_all acc (own_entries v)"

section \<open>Rewrite rules\<close>

lemma get_prop_simps [simp, js_simps]:
  "get_prop JUndef k = Inl TypeError"
  "get_prop JNull k = Inl TypeError"
  "get_prop (JObj ps) k = Inr (case map_of ps k of Some x \<Rightarrow> x | None \<Rightarrow> JUndef)"
  by (simp_all add: get_prop_def)

lemma get_prop_Inr: "get_prop v k = Inr x \<Longrightarrow> v \<noteq> JUndef \<and> v \<noteq> JNull"
  by (auto simp: get_prop_def split: js.splits)

lemma get_prop_no_throw: "v \<noteq> JUndef \<Longrightarrow> v \<noteq> JNull \<Longrightarrow> \<exists>x. get_prop v k = Inr x"
  by (cases v) (simp_all add: get_prop_def)

lemma has_own_simps [simp, js_simps]:
  "has_own JUndef k = Inl TypeError"
  "has_own JNull k = Inl TypeError"
  "has_own (JObj ps) k =
     (if map_of ps ''hasOwnProperty'' = None then Inr (map_of ps k \<noteq> None) else Inl TypeError)"
  by (simp_all add: has_own_def split: option.split)

text \<open>A key the method finds is a property the read returns.\<close>

lemma has_own_get: "has_own v k = Inr True \<Longrightarrow> \<exists>x. own_prop v k = Some x \<and> get_prop v k = Inr x"
  by (cases v) (auto simp: has_own_def get_prop_def split: option.splits if_splits)

lemma key_index_nat_str: "n < 4294967295 \<Longrightarrow> key_index (nat_str n) = Some n"
  by (simp add: key_index_def Let_def nat_str_digits)

lemma key_index_SomeD: "key_index k = Some n \<Longrightarrow> k = nat_str n"
  by (auto simp: key_index_def Let_def split: if_splits)

section \<open>Enumeration keeps the properties\<close>

lemma set_object_entries [simp]: "set (object_entries ps) = set ps"
  by (auto simp: object_entries_def)

lemma mset_object_entries: "mset (object_entries ps) = mset ps"
proof -
  have "mset (filter (\<lambda>x. key_index (fst x) \<noteq> None) ps)
        + mset (filter (\<lambda>x. key_index (fst x) = None) ps) = mset ps"
    by (induction ps) auto
  then show ?thesis by (simp add: object_entries_def case_prod_unfold)
qed

lemma distinct_object_entries:
  assumes "distinct (map fst ps)"
  shows "distinct (map fst (object_entries ps))"
proof -
  have "mset (map fst (object_entries ps)) = mset (map fst ps)"
    by (simp add: mset_object_entries)
  then show ?thesis using assms mset_eq_imp_distinct_iff by blast
qed

lemma map_of_object_entries:
  assumes "distinct (map fst ps)"
  shows "map_of (object_entries ps) = map_of ps"
  using assms distinct_object_entries map_of_inject_set set_object_entries by blast

lemma map_of_spread:
  "distinct (map fst ps) \<Longrightarrow> map_of (spread acc (JObj ps)) = map_of acc ++ map_of ps"
  by (simp add: spread_def map_of_put_all distinct_object_entries map_of_object_entries)

lemma distinct_spread: "distinct (map fst acc) \<Longrightarrow> distinct (map fst (spread acc v))"
  by (simp add: spread_def distinct_put_all)

lemma spread_simps [simp, js_simps]:
  "spread acc JUndef = acc"
  "spread acc JNull = acc"
  "spread acc (JBool b) = acc"
  "spread acc (JNum n) = acc"
  by (simp_all add: spread_def)

section \<open>Well-formed values\<close>

lemma size_member: "(k, v) \<in> set ps \<Longrightarrow> size v < size (JObj ps)"
  by (induction ps) auto

lemma size_element: "v \<in> set xs \<Longrightarrow> size v < size (JArr xs)"
  by (induction xs) auto

text \<open>No object inside the value repeats a key: what every JavaScript object satisfies.\<close>

fun wf_js :: "js \<Rightarrow> bool" where
  "wf_js (JArr xs) = list_all wf_js xs"
| "wf_js (JObj ps) = (distinct (map fst ps) \<and> list_all (\<lambda>(k, v). wf_js v) ps)"
| "wf_js _ = True"

lemma wf_js_member: "wf_js (JObj ps) \<Longrightarrow> map_of ps k = Some v \<Longrightarrow> wf_js v"
  by (auto simp: list_all_iff dest!: map_of_SomeD)

lemma wf_js_get: "wf_js v \<Longrightarrow> get_prop v k = Inr x \<Longrightarrow> wf_js x"
  by (cases v)
    (auto simp: get_prop_def list_all_iff dest!: map_of_SomeD split: option.splits if_splits)

section \<open>Objects as stores of properties\<close>

text \<open>
  What the components that keep records in an object rely on: reading back what was written,
  deleted or spread into it. \<open>valid\<close> is the absence of repeated keys.
\<close>

locale property_map =
  fixes look :: "'m \<Rightarrow> string \<Rightarrow> js option"
    and put :: "string \<Rightarrow> js \<Rightarrow> 'm \<Rightarrow> 'm"
    and del :: "string \<Rightarrow> 'm \<Rightarrow> 'm"
    and merge :: "'m \<Rightarrow> 'm \<Rightarrow> 'm"
    and valid :: "'m \<Rightarrow> bool"
  assumes look_put: "look (put k v m) = (look m)(k \<mapsto> v)"
    and look_del: "look (del k m) = (look m)(k := None)"
    and look_merge: "valid n \<Longrightarrow> look (merge m n) = look m ++ look n"
    and valid_put: "valid m \<Longrightarrow> valid (put k v m)"
    and valid_del: "valid m \<Longrightarrow> valid (del k m)"
    and valid_merge: "valid m \<Longrightarrow> valid (merge m n)"
begin

definition holds_all :: "(string \<Rightarrow> js \<Rightarrow> bool) \<Rightarrow> 'm \<Rightarrow> bool" where
  "holds_all P m \<longleftrightarrow> valid m \<and> (\<forall>k v. look m k = Some v \<longrightarrow> P k v)"

lemma holds_all_put: "holds_all P m \<Longrightarrow> P k v \<Longrightarrow> holds_all P (put k v m)"
  by (simp add: holds_all_def look_put valid_put)

lemma holds_all_del: "holds_all P m \<Longrightarrow> holds_all P (del k m)"
  by (simp add: holds_all_def look_del valid_del)

lemma holds_all_merge: "holds_all P m \<Longrightarrow> holds_all P n \<Longrightarrow> holds_all P (merge m n)"
  by (auto simp: holds_all_def look_merge valid_merge map_add_Some_iff)

lemma holds_all_look: "holds_all P m \<Longrightarrow> look m k = Some v \<Longrightarrow> P k v"
  by (simp add: holds_all_def)

lemma look_put_other: "k' \<noteq> k \<Longrightarrow> look (put k v m) k' = look m k'"
  by (simp add: look_put)

end

interpretation obj: property_map map_of AList.update AList.delete
    "\<lambda>m n. spread m (JObj n)" "\<lambda>m. distinct (map fst m)"
  by unfold_locales
    (simp_all add: map_of_spread distinct_spread distinct_update distinct_delete)

end
