(* ===== verification/Json.thy ===== *)
theory Json
  imports JsValue
begin

text \<open>
  \<open>JSON.stringify\<close> and \<open>JSON.parse\<close>, which the client applies to every request body and to
  every text the native binding returns.

  Printing first puts a value in the form that survives (\<open>json_norm\<close>: members that are
  \<open>undefined\<close> are dropped, \<open>undefined\<close> elements become \<open>null\<close>, members come in enumeration
  order) and prints that. Parsing is a lexer, recursive on the text, and a parser, recursive
  on the tokens, that keeps the open arrays and objects on an explicit stack, so that both
  are total without fuel. \<open>json_roundtrip\<close> says that parsing what was printed gives the
  normal form back. A number with a fraction or an exponent, an integer beyond
  \<open>2\<^sup>5\<^sup>3 - 1\<close> and an escaped code unit above 255 are \<open>OutsideModel\<close>.
\<close>

section \<open>Printing\<close>

function json_norm :: "js \<Rightarrow> js" where
  "json_norm JUndef = JNull"
| "json_norm JNull = JNull"
| "json_norm (JBool b) = JBool b"
| "json_norm (JNum n) = JNum n"
| "json_norm (JStr s) = JStr s"
| "json_norm (JArr xs) = JArr (map json_norm xs)"
| "json_norm (JObj ps) =
     JObj (map (\<lambda>(k, v). (k, json_norm v)) (filter (\<lambda>(k, v). v \<noteq> JUndef) (object_entries ps)))"
  by pat_completeness auto

termination
  by (relation "measure size") (auto simp: size_element size_member simp del: js.size)

definition hex_char :: "nat \<Rightarrow> char" where
  "hex_char d = char_of (if d < 10 then 48 + d else 87 + d)"

definition quote_char :: char where "quote_char = CHR 0x22"
definition backslash :: char where "backslash = CHR 0x5C"

definition escape_char :: "char \<Rightarrow> string" where
  "escape_char c =
     (let n = (of_char c :: nat) in
      if n = 34 \<or> n = 92 then [backslash, c]
      else if n = 8 then [backslash, CHR ''b'']
      else if n = 9 then [backslash, CHR ''t'']
      else if n = 10 then [backslash, CHR ''n'']
      else if n = 12 then [backslash, CHR ''f'']
      else if n = 13 then [backslash, CHR ''r'']
      else if n < 32 then [backslash, CHR ''u'', CHR ''0'', CHR ''0'',
                           hex_char (n div 16), hex_char (n mod 16)]
      else [c])"

definition quote_str :: "string \<Rightarrow> string" where
  "quote_str s = quote_char # concat (map escape_char s) @ [quote_char]"

fun print_js :: "js \<Rightarrow> string"
  and print_elems :: "js list \<Rightarrow> string"
  and print_members :: "jsobj \<Rightarrow> string"
where
  "print_js JUndef = ''null''"
| "print_js JNull = ''null''"
| "print_js (JBool b) = (if b then ''true'' else ''false'')"
| "print_js (JNum n) = int_str n"
| "print_js (JStr s) = quote_str s"
| "print_js (JArr xs) = ''['' @ print_elems xs @ '']''"
| "print_js (JObj ps) = ''{'' @ print_members ps @ ''}''"
| "print_elems [] = []"
| "print_elems [x] = print_js x"
| "print_elems (x # y # xs) = print_js x @ '','' @ print_elems (y # xs)"
| "print_members [] = []"
| "print_members [(k, v)] = quote_str k @ '':'' @ print_js v"
| "print_members ((k, v) # p # ps) =
     quote_str k @ '':'' @ print_js v @ '','' @ print_members (p # ps)"

definition json_stringify :: "js \<Rightarrow> string" where
  "json_stringify v = print_js (json_norm v)"

section \<open>Lexing\<close>

datatype token =
    TLBrace | TRBrace | TLBrack | TRBrack | TColon | TComma
  | TStr string | TNum int | TTrue | TFalse | TNull

definition hex_val :: "char \<Rightarrow> nat option" where
  "hex_val c =
     (let n = (of_char c :: nat) in
      if 48 \<le> n \<and> n \<le> 57 then Some (n - 48)
      else if 97 \<le> n \<and> n \<le> 102 then Some (n - 87)
      else if 65 \<le> n \<and> n \<le> 70 then Some (n - 55)
      else None)"

definition hex4 :: "char \<Rightarrow> char \<Rightarrow> char \<Rightarrow> char \<Rightarrow> nat option" where
  "hex4 a b c d =
     (case (hex_val a, hex_val b, hex_val c, hex_val d) of
        (Some w, Some x, Some y, Some z) \<Rightarrow> Some (((w * 16 + x) * 16 + y) * 16 + z)
      | _ \<Rightarrow> None)"

definition unescape :: "char \<Rightarrow> char option" where
  "unescape e =
     (if e = quote_char \<or> e = backslash \<or> e = CHR ''/'' then Some e
      else if e = CHR ''b'' then Some (char_of (8 :: nat))
      else if e = CHR ''f'' then Some (char_of (12 :: nat))
      else if e = CHR ''n'' then Some (char_of (10 :: nat))
      else if e = CHR ''r'' then Some (char_of (13 :: nat))
      else if e = CHR ''t'' then Some (char_of (9 :: nat))
      else None)"

definition cons_char :: "char \<Rightarrow> (string \<times> string) res \<Rightarrow> (string \<times> string) res" where
  "cons_char c r = andThen r (\<lambda>(s, rest). Inr (c # s, rest))"

text \<open>The body of a string literal: its contents and the text after the closing quote.\<close>

fun scan_str :: "string \<Rightarrow> (string \<times> string) res" where
  "scan_str [] = Inl SyntaxError"
| "scan_str (c # cs) =
     (if c = quote_char then Inr ([], cs)
      else if c = backslash then
        (case cs of
           [] \<Rightarrow> Inl SyntaxError
         | e # es \<Rightarrow>
             if e = CHR ''u'' then
               (case es of
                  a # b # x # y # rest \<Rightarrow>
                    (case hex4 a b x y of
                       None \<Rightarrow> Inl SyntaxError
                     | Some n \<Rightarrow> if n < 256 then cons_char (char_of n) (scan_str rest)
                                 else Inl OutsideModel)
                | _ \<Rightarrow> Inl SyntaxError)
             else (case unescape e of
                     None \<Rightarrow> Inl SyntaxError
                   | Some z \<Rightarrow> cons_char z (scan_str es)))
      else if (of_char c :: nat) < 32 then Inl SyntaxError
      else cons_char c (scan_str cs))"

text \<open>An unsigned integer literal and the text after it.\<close>

definition max_safe :: nat where "max_safe = 9007199254740991"

definition scan_nat :: "string \<Rightarrow> (nat \<times> string) res" where
  "scan_nat cs =
     (let ds = takeWhile is_digit cs; rest = dropWhile is_digit cs in
      if ds = [] \<or> (hd ds = CHR ''0'' \<and> length ds > 1) then Inl SyntaxError
      else if rest \<noteq> [] \<and> hd rest \<in> {CHR ''.'', CHR ''e'', CHR ''E''} then Inl OutsideModel
      else if digits_val ds > max_safe then Inl OutsideModel
      else Inr (digits_val ds, rest))"

definition is_blank :: "char \<Rightarrow> bool" where
  "is_blank c \<longleftrightarrow> (of_char c :: nat) \<in> {9, 10, 13, 32}"

lemma cons_char_Inr: "cons_char c r = Inr (s, rest) \<longleftrightarrow> (\<exists>t. r = Inr (t, rest) \<and> s = c # t)"
  by (auto simp: cons_char_def andThen_eq_Inr)

lemma scan_str_length: "scan_str cs = Inr (s, rest) \<Longrightarrow> length rest < length cs"
proof (induction cs arbitrary: s rule: scan_str.induct)
  case (2 c cs)
  then show ?case
    by (fastforce simp: cons_char_Inr split: if_splits list.splits option.splits)
qed simp

lemma scan_nat_length: "scan_nat cs = Inr (n, rest) \<Longrightarrow> length rest < length cs"
proof -
  assume "scan_nat cs = Inr (n, rest)"
  then have "rest = dropWhile is_digit cs" "takeWhile is_digit cs \<noteq> []"
    by (auto simp: scan_nat_def Let_def split: if_splits)
  moreover have "length (takeWhile is_digit cs) + length (dropWhile is_digit cs) = length cs"
    by (metis length_append takeWhile_dropWhile_id)
  ultimately show ?thesis by (cases "takeWhile is_digit cs") auto
qed

definition cons_tok :: "token \<Rightarrow> token list res \<Rightarrow> token list res" where
  "cons_tok t r = andThen r (\<lambda>ts. Inr (t # ts))"

function lex :: "string \<Rightarrow> token list res" where
  "lex [] = Inr []"
| "lex (c # cs) =
     (if is_blank c then lex cs
      else if c = CHR ''{'' then cons_tok TLBrace (lex cs)
      else if c = CHR ''}'' then cons_tok TRBrace (lex cs)
      else if c = CHR ''['' then cons_tok TLBrack (lex cs)
      else if c = CHR '']'' then cons_tok TRBrack (lex cs)
      else if c = CHR '':'' then cons_tok TColon (lex cs)
      else if c = CHR '','' then cons_tok TComma (lex cs)
      else if c = quote_char then
        (case scan_str cs of Inl e \<Rightarrow> Inl e | Inr (s, rest) \<Rightarrow> cons_tok (TStr s) (lex rest))
      else if c = CHR ''-'' then
        (case scan_nat cs of Inl e \<Rightarrow> Inl e | Inr (n, rest) \<Rightarrow> cons_tok (TNum (- int n)) (lex rest))
      else if is_digit c then
        (case scan_nat (c # cs) of
           Inl e \<Rightarrow> Inl e | Inr (n, rest) \<Rightarrow> cons_tok (TNum (int n)) (lex rest))
      else if c = CHR ''t'' \<and> take 3 cs = ''rue'' then cons_tok TTrue (lex (drop 3 cs))
      else if c = CHR ''f'' \<and> take 4 cs = ''alse'' then cons_tok TFalse (lex (drop 4 cs))
      else if c = CHR ''n'' \<and> take 3 cs = ''ull'' then cons_tok TNull (lex (drop 3 cs))
      else Inl SyntaxError)"
  by pat_completeness auto
termination
  by (relation "measure length") (auto dest!: scan_str_length scan_nat_length)

section \<open>Parsing\<close>

text \<open>What is still open: an array with its elements so far, an object with its members so
  far and the key whose value is being read.\<close>

datatype frame =
    FArr "js list"
  | FObj jsobj string

text \<open>
  \<open>parse_value\<close> expects a value next; \<open>parse_after v\<close> has just completed the value \<open>v\<close> and
  hands it to the innermost open frame.
\<close>

fun parse_value :: "token list \<Rightarrow> frame list \<Rightarrow> js res"
  and parse_after :: "js \<Rightarrow> frame list \<Rightarrow> token list \<Rightarrow> js res"
where
  "parse_value [] fs = Inl SyntaxError"
| "parse_value (t # ts) fs =
     (case t of
        TNull \<Rightarrow> parse_after JNull fs ts
      | TTrue \<Rightarrow> parse_after (JBool True) fs ts
      | TFalse \<Rightarrow> parse_after (JBool False) fs ts
      | TNum n \<Rightarrow> parse_after (JNum n) fs ts
      | TStr s \<Rightarrow> parse_after (JStr s) fs ts
      | TLBrack \<Rightarrow> (case ts of
                     TRBrack # ts' \<Rightarrow> parse_after (JArr []) fs ts'
                   | _ \<Rightarrow> parse_value ts (FArr [] # fs))
      | TLBrace \<Rightarrow> (case ts of
                     TRBrace # ts' \<Rightarrow> parse_after (JObj []) fs ts'
                   | TStr k # TColon # ts' \<Rightarrow> parse_value ts' (FObj [] k # fs)
                   | _ \<Rightarrow> Inl SyntaxError)
      | _ \<Rightarrow> Inl SyntaxError)"
| "parse_after v [] ts = (if ts = [] then Inr v else Inl SyntaxError)"
| "parse_after v (FArr xs # fs) ts =
     (case ts of
        TComma # ts' \<Rightarrow> parse_value ts' (FArr (xs @ [v]) # fs)
      | TRBrack # ts' \<Rightarrow> parse_after (JArr (xs @ [v])) fs ts'
      | _ \<Rightarrow> Inl SyntaxError)"
| "parse_after v (FObj ps k # fs) ts =
     (case ts of
        TComma # TStr k' # TColon # ts' \<Rightarrow> parse_value ts' (FObj (AList.update k v ps) k' # fs)
      | TRBrace # ts' \<Rightarrow> parse_after (JObj (AList.update k v ps)) fs ts'
      | _ \<Rightarrow> Inl SyntaxError)"

definition json_parse :: "string \<Rightarrow> js res" where
  "json_parse s = andThen (lex s) (\<lambda>ts. parse_value ts [])"

section \<open>Lexing what was printed\<close>

lemma of_char_quote [simp]: "of_char quote_char = (34::nat)" by (simp add: quote_char_def)
lemma of_char_backslash [simp]: "of_char backslash = (92::nat)" by (simp add: backslash_def)

lemma char_code_iff: "c = d \<longleftrightarrow> (of_char c :: nat) = of_char d"
  by simp

lemma hex_val_char: "d < 16 \<Longrightarrow> hex_val (hex_char d) = Some d"
  by (simp add: hex_val_def hex_char_def Let_def)

lemma hex4_control:
  "n < 32 \<Longrightarrow> hex4 (CHR ''0'') (CHR ''0'') (hex_char (n div 16)) (hex_char (n mod 16)) = Some n"
  by (simp add: hex4_def hex_val_char) (simp add: hex_val_def)

lemma scan_escape: "scan_str (escape_char c @ cs) = cons_char c (scan_str cs)"
proof -
  define n where "n = (of_char c :: nat)"
  have c: "c = char_of n" and "n < 256" by (auto simp: n_def)
  note defs = char_code_iff quote_char_def backslash_def
  consider "n = 34 \<or> n = 92" | "n = 8 \<or> n = 9 \<or> n = 10 \<or> n = 12 \<or> n = 13"
    | "n < 32" "n \<notin> {8, 9, 10, 12, 13}" | "n \<ge> 32" "n \<noteq> 34" "n \<noteq> 92"
    by (cases "n < 32"; cases "n \<in> {8, 9, 10, 12, 13}"; cases "n = 34 \<or> n = 92") auto
  then show ?thesis
  proof cases
    case 1
    then show ?thesis
      by (auto simp: escape_char_def n_def unescape_def quote_char_def backslash_def Let_def char_code_iff)
  next
    case 2
    then show ?thesis
      by (elim disjE)
        (simp_all add: c escape_char_def unescape_def quote_char_def backslash_def Let_def char_code_iff)
  next
    case 3
    then show ?thesis using \<open>n < 256\<close>
      by (simp add: escape_char_def n_def [symmetric] Let_def hex4_control quote_char_def backslash_def c)
  next
    case 4
    then show ?thesis
      by (auto simp: escape_char_def n_def Let_def quote_char_def backslash_def char_code_iff)
  qed
qed

lemma scan_quoted: "scan_str (concat (map escape_char s) @ quote_char # rest) = Inr (s, rest)"
  by (induction s) (simp_all add: scan_escape cons_char_def del: scan_str.simps(2), simp)

lemma lex_quote: "lex (quote_str s @ rest) = cons_tok (TStr s) (lex rest)"
  by (simp add: quote_str_def scan_quoted) (simp add: quote_char_def is_blank_def)

definition delim :: "string \<Rightarrow> bool" where
  "delim rest \<longleftrightarrow> rest = [] \<or> hd rest \<in> {CHR '','', CHR '']'', CHR ''}''}"

lemma scan_nat_str: "n \<le> max_safe \<Longrightarrow> delim rest \<Longrightarrow> scan_nat (nat_str n @ rest) = Inr (n, rest)"
proof -
  assume n: "n \<le> max_safe" and d: "delim rest"
  have nd: "rest \<noteq> [] \<Longrightarrow> \<not> is_digit (hd rest)" 
    using d by (auto simp: delim_def is_digit_def)
  have t: "takeWhile is_digit (nat_str n @ rest) = nat_str n"
    and r: "dropWhile is_digit (nat_str n @ rest) = rest"
    using nat_str_digits [of n] nd
    by (cases rest; simp add: list_all_iff takeWhile_append2 dropWhile_append2 takeWhile_eq_all_conv)+
  have z: "hd (nat_str n) = CHR ''0'' \<Longrightarrow> length (nat_str n) = 1"
    using nat_str_leading [of n] by (auto simp: nat_str.simps [of 0])
  show ?thesis
    using n d z by (auto simp: scan_nat_def Let_def t r delim_def)
qed

lemma nat_str_hd_digit: "is_digit (hd (nat_str n))"
  using nat_str_digits [of n] by (cases "nat_str n") auto

lemma lex_nat: 
  assumes "n \<le> max_safe" "delim rest" 
  shows "lex (nat_str n @ rest) = cons_tok (TNum (int n)) (lex rest)"
proof -
  obtain c cs where e: "nat_str n = c # cs" by (cases "nat_str n") auto
  then have d: "is_digit c" using nat_str_hd_digit [of n] by simp
  then have "\<not> is_blank c" "c \<noteq> quote_char" "c \<notin> {CHR ''{'', CHR ''}'', CHR ''['', CHR '']'', CHR '':'', CHR '','', CHR ''-''}"
    by (auto simp: is_digit_def is_blank_def)
  with d scan_nat_str [OF assms] show ?thesis by (simp add: e)
qed

lemma lex_int: 
  assumes "\<bar>n\<bar> \<le> int max_safe" "delim rest" 
  shows "lex (int_str n @ rest) = cons_tok (TNum n) (lex rest)"
proof (cases "n < 0")
  case True
  then have "scan_nat (nat_str (nat (- n)) @ rest) = Inr (nat (- n), rest)"
    using assms by (intro scan_nat_str) auto
  with True show ?thesis by (simp add: int_str_def is_blank_def quote_char_def)
next
  case False
  with assms lex_nat [of "nat n" rest] show ?thesis by (simp add: int_str_def)
qed

text \<open>A value in normal form, with every number exactly representable.\<close>

fun json_normal :: "js \<Rightarrow> bool" where
  "json_normal JUndef = False"
| "json_normal (JNum n) = (\<bar>n\<bar> \<le> int max_safe)"
| "json_normal (JArr xs) = list_all json_normal xs"
| "json_normal (JObj ps) = (distinct (map fst ps) \<and> list_all (\<lambda>(k, v). json_normal v) ps)"
| "json_normal _ = True"

text \<open>The tokens of a printed value.\<close>

fun toks :: "js \<Rightarrow> token list"
  and toks_elems :: "js list \<Rightarrow> token list"
  and toks_members :: "jsobj \<Rightarrow> token list"
where
  "toks JUndef = [TNull]"
| "toks JNull = [TNull]"
| "toks (JBool b) = [if b then TTrue else TFalse]"
| "toks (JNum n) = [TNum n]"
| "toks (JStr s) = [TStr s]"
| "toks (JArr xs) = TLBrack # toks_elems xs @ [TRBrack]"
| "toks (JObj ps) = TLBrace # toks_members ps @ [TRBrace]"
| "toks_elems [] = []"
| "toks_elems [x] = toks x"
| "toks_elems (x # y # xs) = toks x @ TComma # toks_elems (y # xs)"
| "toks_members [] = []"
| "toks_members [(k, v)] = TStr k # TColon # toks v"
| "toks_members ((k, v) # p # ps) =
     TStr k # TColon # toks v @ TComma # toks_members (p # ps)"

definition app_toks :: "token list \<Rightarrow> token list res \<Rightarrow> token list res" where
  "app_toks ts r = andThen r (\<lambda>us. Inr (ts @ us))"

lemma app_toks_simps [simp]:
  "app_toks [] r = r"
  "app_toks (t # ts) r = cons_tok t (app_toks ts r)"
  "app_toks (ts @ us) r = app_toks ts (app_toks us r)"
  by (cases r; simp add: app_toks_def cons_tok_def)+

lemma lex_punct:
  "lex (CHR '','' # cs) = cons_tok TComma (lex cs)"
  "lex (CHR '']'' # cs) = cons_tok TRBrack (lex cs)"
  "lex (CHR ''}'' # cs) = cons_tok TRBrace (lex cs)"
  "lex (CHR ''['' # cs) = cons_tok TLBrack (lex cs)"
  "lex (CHR ''{'' # cs) = cons_tok TLBrace (lex cs)"
  "lex (CHR '':'' # cs) = cons_tok TColon (lex cs)"
  by (simp_all add: is_blank_def)

lemma delim_punct [simp]:
  "delim []" "delim (CHR '','' # cs)" "delim (CHR '']'' # cs)" "delim (CHR ''}'' # cs)"
  by (simp_all add: delim_def)

lemma lex_word:
  "lex (CHR ''t'' # CHR ''r'' # CHR ''u'' # CHR ''e'' # rest) = cons_tok TTrue (lex rest)"
  "lex (CHR ''f'' # CHR ''a'' # CHR ''l'' # CHR ''s'' # CHR ''e'' # rest) =
     cons_tok TFalse (lex rest)"
  "lex (CHR ''n'' # CHR ''u'' # CHR ''l'' # CHR ''l'' # rest) = cons_tok TNull (lex rest)"
  by (simp_all add: is_blank_def quote_char_def is_digit_def)

lemma lex_print:
  "json_normal v \<Longrightarrow> delim rest \<Longrightarrow> lex (print_js v @ rest) = app_toks (toks v) (lex rest)"
  "list_all json_normal xs \<Longrightarrow> delim rest \<Longrightarrow>
     lex (print_elems xs @ rest) = app_toks (toks_elems xs) (lex rest)"
  "list_all (\<lambda>(k, v). json_normal v) ps \<Longrightarrow> delim rest \<Longrightarrow>
     lex (print_members ps @ rest) = app_toks (toks_members ps) (lex rest)"
proof (induction v and xs and ps arbitrary: rest and rest and rest
    rule: print_js_print_elems_print_members.induct)
qed (simp_all add: lex_int lex_quote lex_punct lex_word del: lex.simps(2) split: if_splits)

lemma lex_print_closed: "json_normal v \<Longrightarrow> lex (print_js v) = Inr (toks v)"
  using lex_print(1) [of v "[]"] by (simp add: app_toks_def)

text \<open>The tokens of a value never start with a closing token.\<close>

lemma toks_hd: "\<exists>t ts. toks v = t # ts \<and> t \<notin> {TRBrack, TRBrace, TComma, TColon}"
  by (cases v) auto

lemma update_new: "k \<notin> fst ` set ps \<Longrightarrow> AList.update k v ps = ps @ [(k, v)]"
  by (induction ps) auto


lemma update_last:
  "distinct (map fst ps) \<Longrightarrow> ps \<noteq> [] \<Longrightarrow>
     AList.update (fst (last ps)) (snd (last ps)) (butlast ps) = ps"
  by (cases ps rule: rev_cases) (auto simp: update_new)

lemma toks_elems_hd:
  "\<exists>t ts. toks_elems (x # xs) = t # ts \<and> t \<notin> {TRBrack, TRBrace, TComma, TColon}"
  using toks_hd [of x] by (cases xs) auto

lemma toks_members_hd: "\<exists>ts. toks_members ((k, v) # ps) = TStr k # TColon # ts"
  by (cases ps) auto

section \<open>Parsing the tokens of a value\<close>

lemma parse_after_simps [simp]:
  "parse_after v (FArr xs # fs) (TComma # ts) = parse_value ts (FArr (xs @ [v]) # fs)"
  "parse_after v (FArr xs # fs) (TRBrack # ts) = parse_after (JArr (xs @ [v])) fs ts"
  "parse_after v (FObj ps k # fs) (TComma # TStr k' # TColon # ts) =
     parse_value ts (FObj (AList.update k v ps) k' # fs)"
  "parse_after v (FObj ps k # fs) (TRBrace # ts) =
     parse_after (JObj (AList.update k v ps)) fs ts"
  by simp_all

lemma parse_value_simps [simp]:
  "parse_value (TNull # ts) fs = parse_after JNull fs ts"
  "parse_value (TTrue # ts) fs = parse_after (JBool True) fs ts"
  "parse_value (TFalse # ts) fs = parse_after (JBool False) fs ts"
  "parse_value (TNum n # ts) fs = parse_after (JNum n) fs ts"
  "parse_value (TStr s # ts) fs = parse_after (JStr s) fs ts"
  "parse_value (TLBrack # TRBrack # ts) fs = parse_after (JArr []) fs ts"
  "parse_value (TLBrace # TRBrace # ts) fs = parse_after (JObj []) fs ts"
  "parse_value (TLBrace # TStr k # TColon # ts) fs = parse_value ts (FObj [] k # fs)"
  by simp_all

lemma parse_value_array:
  "t \<noteq> TRBrack \<Longrightarrow> parse_value (TLBrack # t # ts) fs = parse_value (t # ts) (FArr [] # fs)"
  by (cases t) simp_all

declare parse_after.simps(2,3) [simp del] parse_value.simps(2) [simp del]

lemma parse_toks:
  "json_normal v \<Longrightarrow> parse_value (toks v @ ts) fs = parse_after v fs ts"
  "list_all json_normal ys \<Longrightarrow> ys \<noteq> [] \<Longrightarrow>
     parse_value (toks_elems ys @ ts) (FArr xs # fs) =
       parse_after (last ys) (FArr (xs @ butlast ys) # fs) ts"
  "list_all (\<lambda>(k, v). json_normal v) qs \<Longrightarrow> distinct (map fst (ps @ qs)) \<Longrightarrow> qs \<noteq> [] \<Longrightarrow>
     parse_value (tl (tl (toks_members qs)) @ ts) (FObj ps (fst (hd qs)) # fs) =
       parse_after (snd (last qs)) (FObj (ps @ butlast qs) (fst (last qs)) # fs) ts"
proof (induction v and ys and qs arbitrary: ts fs and xs ts fs and ps ts fs
    rule: toks_toks_elems_toks_members.induct)
  case (6 xs)
  show ?case
  proof (cases "xs = []")
    case False
    then obtain t us
      where t: "toks_elems xs = t # us" "t \<notin> {TRBrack, TRBrace, TComma, TColon}"
      by (metis neq_Nil_conv toks_elems_hd)
    have "parse_value (toks_elems xs @ TRBrack # ts) (FArr [] # fs) = parse_after (JArr xs) fs ts"
      using 6 False by simp
    with t show ?thesis by (simp add: parse_value_array)
  qed simp
next
  case (7 ps)
  show ?case
  proof (cases ps)
    case (Cons p qs)
    obtain k v where p: "p = (k, v)" by (cases p)
    with toks_members_hd obtain us where us: "toks_members ps = TStr k # TColon # us"
      unfolding Cons by blast
    have "parse_value (us @ TRBrace # ts) (FObj [] k # fs) =
            parse_after (snd (last ps)) (FObj (butlast ps) (fst (last ps)) # fs) (TRBrace # ts)"
      using "7.IH" [of "[]" "TRBrace # ts" fs] "7.prems" us by (simp add: Cons p)
    moreover have "AList.update (fst (last ps)) (snd (last ps)) (butlast ps) = ps"
      using "7.prems" Cons by (intro update_last) simp_all
    ultimately show ?thesis by (simp add: us)
  qed simp
next
  case (13 k v p qs)
  obtain k' v' where p: "p = (k', v')" by (cases p)
  with toks_members_hd obtain us where us: "toks_members (p # qs) = TStr k' # TColon # us"
    by blast
  have "parse_value (us @ ts) (FObj (ps @ [(k, v)]) k' # fs) =
      parse_after (snd (last (p # qs))) (FObj (ps @ (k, v) # butlast (p # qs)) (fst (last (p # qs))) # fs) ts"
    using "13.IH"(2) [of "ps @ [(k, v)]" ts fs] "13.prems" by (simp add: us [unfolded p] p)
  moreover have "AList.update k v ps = ps @ [(k, v)]"
    using "13.prems" by (intro update_new) auto
  ultimately show ?case using "13.IH"(1) "13.prems" by (simp add: us [unfolded p] p)
qed simp_all

lemma json_roundtrip_normal: "json_normal v \<Longrightarrow> json_parse (print_js v) = Inr v"
  using parse_toks(1) [of v "[]" "[]"] by (simp add: json_parse_def lex_print_closed)

section \<open>The round trip\<close>

text \<open>A value whose numbers are exactly representable and whose objects repeat no key.\<close>

fun json_safe :: "js \<Rightarrow> bool" where
  "json_safe (JNum n) = (\<bar>n\<bar> \<le> int max_safe)"
| "json_safe (JArr xs) = list_all json_safe xs"
| "json_safe (JObj ps) = (distinct (map fst ps) \<and> list_all (\<lambda>(k, v). json_safe v) ps)"
| "json_safe _ = True"

lemma json_norm_normal: "json_safe v \<Longrightarrow> json_normal (json_norm v)"
proof (induction v rule: json_norm.induct)
  case (6 xs)
  then show ?case by (auto simp: list_all_iff)
next
  case (7 ps)
  have d: "distinct (map fst (filter (\<lambda>(k, v). v \<noteq> JUndef) (object_entries ps)))"
    using 7 by (simp add: distinct_map_filter distinct_object_entries)
  have m: "map fst (map (\<lambda>(k, v). (k, json_norm v)) qs) = map fst qs" for qs
    by (induction qs) auto
  have "json_normal (json_norm v)" if "(k, v) \<in> set ps" "v \<noteq> JUndef" for k v
    using 7 that by (fastforce simp: list_all_iff)
  then show ?case using d by (auto simp only: json_norm.simps json_normal.simps m list_all_iff) auto
qed simp_all

text \<open>
  Parsing the text printed for a value gives the value's normal form: what
  \<open>JSON.parse(JSON.stringify(v))\<close> computes, for every value with exactly representable
  numbers.
\<close>

theorem json_roundtrip: "json_safe v \<Longrightarrow> json_parse (json_stringify v) = Inr (json_norm v)"
  by (simp add: json_stringify_def json_norm_normal json_roundtrip_normal)

theorem json_roundtrip_witness:
  "json_parse (json_stringify (JObj [(''b'', JArr [JNum (- 7), JUndef]), (''10'', JStr ''x''), (''u'', JUndef)]))
   = Inr (JObj [(''10'', JStr ''x''), (''b'', JArr [JNum (- 7), JNull])])"
proof -
  let ?v = "JObj [(''b'', JArr [JNum (- 7), JUndef]), (''10'', JStr ''x''), (''u'', JUndef)]"
  have safe: "json_safe ?v" by (simp add: max_safe_def)
  have norm: "json_norm ?v = JObj [(''10'', JStr ''x''), (''b'', JArr [JNum (- 7), JNull])]"
    by (simp add: object_entries_def key_index_def Let_def is_digit_def digits_val_def
        digit_val_def nat_str.simps js_simps)
  show ?thesis using json_roundtrip [OF safe] unfolding norm .
qed

end
