(* ===== verification/Types.thy ===== *)
theory Types
  imports Json
begin

text \<open>
  The types of \<open>bindings/node/lib/src/types.ts\<close>: string unions as datatypes, interfaces as
  records, the \<open>Events\<close> union as a datatype, and for each of them the JavaScript value a
  well-typed program passes around at run time (\<open>_js\<close>). The compiler erases the types; the
  run-time guards of \<open>event.ts\<close> and \<open>update.ts\<close> see the values only. \<open>native_call\<close> lists
  the calls of the \<open>Binding\<close> interface that change something on the native side.
\<close>

section \<open>Methods and event names\<close>

datatype meth = GET | POST | DELETE

fun meth_str :: "meth \<Rightarrow> string" where
  "meth_str GET = ''GET''"
| "meth_str POST = ''POST''"
| "meth_str DELETE = ''DELETE''"

datatype linq_event = Ev_heartbeat | Ev_alert | Ev_error | Ev_new | Ev_ctrlc

fun event_name :: "linq_event \<Rightarrow> string" where
  "event_name Ev_heartbeat = ''heartbeat''"
| "event_name Ev_alert = ''alert''"
| "event_name Ev_error = ''error''"
| "event_name Ev_new = ''new''"
| "event_name Ev_ctrlc = ''ctrlc''"

lemma meth_str_inject [simp]: "meth_str m = meth_str m' \<longleftrightarrow> m = m'"
  by (cases m; cases m') simp_all

lemma event_name_inject [simp]: "event_name e = event_name e' \<longleftrightarrow> e = e'"
  by (cases e; cases e') simp_all

section \<open>Device summaries\<close>

record device_summary =
  sum_serial :: string
  sum_type :: string
  sum_birth :: int
  sum_uptime :: int
  sum_lastSeen :: int
  sum_transport :: int

definition summary_js :: "device_summary \<Rightarrow> js" where
  "summary_js d = JObj
     [(''serial'', JStr (sum_serial d)), (''type'', JStr (sum_type d)),
      (''birth'', JNum (sum_birth d)), (''uptime'', JNum (sum_uptime d)),
      (''lastSeen'', JNum (sum_lastSeen d)), (''transport'', JNum (sum_transport d))]"

type_synonym devices_summary = "(string \<times> device_summary) list"

definition devices_summary_js :: "devices_summary \<Rightarrow> js" where
  "devices_summary_js ds = JObj (map (\<lambda>(k, d). (k, summary_js d)) ds)"

section \<open>Data carried by events\<close>

record event_data_about =
  ab_siteId :: string
  ab_prjVersion :: string
  ab_productKey :: string
  ab_product :: string
  ab_mqxVersion :: string
  ab_atxVersion :: string
  ab_sslVersion :: string
  ab_webVersion :: string
  ab_mfg :: string
  ab_user :: string
  ab_mac :: string
  ab_sid :: string

text \<open>\<open>Omit<EventDataAbout, "serial">\<close>, the form in which a device reports itself.\<close>

definition about_fields :: "event_data_about \<Rightarrow> jsobj" where
  "about_fields a =
     [(''siteId'', JStr (ab_siteId a)), (''prjVersion'', JStr (ab_prjVersion a)),
      (''productKey'', JStr (ab_productKey a)), (''product'', JStr (ab_product a)),
      (''mqxVersion'', JStr (ab_mqxVersion a)), (''atxVersion'', JStr (ab_atxVersion a)),
      (''sslVersion'', JStr (ab_sslVersion a)), (''webVersion'', JStr (ab_webVersion a)),
      (''mfg'', JStr (ab_mfg a)), (''user'', JStr (ab_user a)), (''mac'', JStr (ab_mac a)),
      (''sid'', JStr (ab_sid a))]"

definition about_response_js :: "event_data_about \<Rightarrow> js" where
  "about_response_js a = JObj [(''about'', JObj (about_fields a))]"

definition about_js :: "event_data_about \<Rightarrow> string \<Rightarrow> js" where
  "about_js a serial = JObj (about_fields a @ [(''serial'', JStr serial)])"

record event_data_alert =
  al_who :: string
  al_what :: string
  al_where :: string
  al_when :: int
  al_mesg :: string
  al_serial :: string
  al_name :: string
  al_param :: int
  al_from :: string
  al_subject :: string
  al_user :: string
  al_password :: string
  al_server :: string
  al_port :: int
  al_to :: "string list"

definition alert_fields :: "event_data_alert \<Rightarrow> jsobj" where
  "alert_fields a =
     [(''who'', JStr (al_who a)), (''what'', JStr (al_what a)), (''where'', JStr (al_where a)),
      (''when'', JNum (al_when a)), (''mesg'', JStr (al_mesg a)), (''serial'', JStr (al_serial a)),
      (''name'', JStr (al_name a)), (''param'', JNum (al_param a)), (''from'', JStr (al_from a)),
      (''subject'', JStr (al_subject a)), (''user'', JStr (al_user a)),
      (''password'', JStr (al_password a)), (''server'', JStr (al_server a)),
      (''port'', JNum (al_port a)), (''to'', JArr (map JStr (al_to a)))]"

record event_data_error =
  er_serial :: string
  er_errorCode :: int
  er_errorMessage :: string

definition error_fields :: "event_data_error \<Rightarrow> jsobj" where
  "error_fields e =
     [(''serial'', JStr (er_serial e)), (''errorCode'', JNum (er_errorCode e)),
      (''errorMessage'', JStr (er_errorMessage e))]"

datatype log_level = TRACE | DEBUG | INFO | WARN | ERROR | FATAL

fun level_str :: "log_level \<Rightarrow> string" where
  "level_str TRACE = ''TRACE''"
| "level_str DEBUG = ''DEBUG''"
| "level_str INFO = ''INFO''"
| "level_str WARN = ''WARN''"
| "level_str ERROR = ''ERROR''"
| "level_str FATAL = ''FATAL''"

record log_data =
  lg_level :: log_level
  lg_message :: string
  lg_category :: string
  lg_file :: string
  lg_line :: int
  lg_tick :: int

definition log_fields :: "log_data \<Rightarrow> jsobj" where
  "log_fields l =
     [(''level'', JStr (level_str (lg_level l))), (''message'', JStr (lg_message l)),
      (''category'', JStr (lg_category l)), (''file'', JStr (lg_file l)),
      (''line'', JNum (lg_line l)), (''tick'', JNum (lg_tick l))]"

section \<open>The union of events\<close>

datatype event =
    EventNew string
  | EventAbout event_data_about string
  | EventHeartbeat string
  | EventAlert event_data_alert
  | EventError event_data_error
  | EventCtrlc
  | EventLog log_data

fun event_type :: "event \<Rightarrow> string" where
  "event_type (EventNew s) = ''_new''"
| "event_type (EventAbout a s) = ''new''"
| "event_type (EventHeartbeat s) = ''heartbeat''"
| "event_type (EventAlert a) = ''alert''"
| "event_type (EventError e) = ''error''"
| "event_type EventCtrlc = ''ctrlc''"
| "event_type (EventLog l) = ''log''"

fun event_fields :: "event \<Rightarrow> jsobj" where
  "event_fields (EventNew s) = [(''serial'', JStr s)]"
| "event_fields (EventAbout a s) = (''serial'', JStr s) # about_fields a"
| "event_fields (EventHeartbeat s) = [(''serial'', JStr s)]"
| "event_fields (EventAlert a) = alert_fields a"
| "event_fields (EventError e) = error_fields e"
| "event_fields EventCtrlc = []"
| "event_fields (EventLog l) = log_fields l"

definition event_js :: "event \<Rightarrow> js" where
  "event_js e = JObj ((''type'', JStr (event_type e)) # event_fields e)"

section \<open>Updates\<close>

datatype update_type = Firmware | Website

fun update_type_str :: "update_type \<Rightarrow> string" where
  "update_type_str Firmware = ''firmware''"
| "update_type_str Website = ''website''"

record update_packet =
  up_type :: update_type
  up_size :: int
  up_offset :: int
  up_payload :: string
  up_md5 :: string

definition update_js :: "update_packet \<Rightarrow> js" where
  "update_js u = JObj
     [(''type'', JStr (update_type_str (up_type u))), (''size'', JNum (up_size u)),
      (''offset'', JNum (up_offset u)), (''payload'', JStr (up_payload u)),
      (''md5'', JStr (up_md5 u))]"

record update_dashboard =
  dash_first :: "update_packet list"
  dash_second :: "update_packet list"

definition dashboard_js :: "update_dashboard \<Rightarrow> js" where
  "dashboard_js d = JObj [(''files'', JArr
     [JObj [(''update'', JArr (map update_js (dash_first d)))],
      JObj [(''update'', JArr (map update_js (dash_second d)))]])]"

definition update_response_js :: "js \<Rightarrow> int \<Rightarrow> js" where
  "update_response_js response remaining =
     JObj [(''response'', response), (''remaining'', JNum remaining)]"

section \<open>Calls on the native binding\<close>

text \<open>
  The calls of \<open>Binding\<close> with an effect. Its queries (\<open>version\<close>, \<open>devices\<close>, \<open>deviceCount\<close>,
  \<open>nodeCount\<close>, \<open>isRunning\<close>) change nothing; their answers are inputs of the model.
\<close>

datatype native_call =
    CRegisterCallback
  | CRoot string
  | CListen string
  | CConnect string
  | CClose int
  | CDeviceRemove string
  | CScan
  | CPoll int
  | CEarlyDestruct
  | CSend string string string string

end
