(* ===== verification/Reactive.thy ===== *)
theory Reactive
  imports JsValue
begin

text \<open>
  Asynchronous computations and observables. One datatype, \<open>act\<close>, describes what an async
  function or an observable does from subscription on: emit a value, run a synchronous
  piece of code on the state, send a native request and continue when its promise settles,
  complete or fail. \<open>exec\<close> runs such a description on the state until every branch has
  finished or waits for a promise, and hands back the waiting continuations.

  The package \<open>rxjs\<close> is not part of the repository. Its operators are a parameter of every
  definition that uses them (the record \<open>rx\<close>), and the locale \<open>rxjs\<close> states what its
  documentation promises of them, operator by operator, for the uses the library makes.
  \<open>rx_ref\<close> is a concrete record that satisfies the promises.
\<close>

section \<open>Descriptions of asynchronous computations\<close>

text \<open>A native request: serial number, method, path and body.\<close>

type_synonym request = "string \<times> string \<times> string \<times> string"

datatype 's act =
    Done
  | Fail thrown
  | Open
  | Emit js "'s act"
  | Eff "'s \<Rightarrow> 's \<times> 's act"
  | Await request "string res \<Rightarrow> 's act"
  | Fork "'s act" "'s act"

text \<open>
  \<open>Open\<close> is a source that has no value at the moment and has not completed. \<open>Fork a b\<close> runs
  the inner observable \<open>a\<close> beside the rest \<open>b\<close> of its source. A promise is a computation that
  emits its value once and completes, or fails.
\<close>

type_synonym 's step = "'s \<Rightarrow> 's \<times> js res"

definition promise_of :: "js res \<Rightarrow> 's act" where
  "promise_of r = (case r of Inl e \<Rightarrow> Fail e | Inr v \<Rightarrow> Emit v Done)"

lemma promise_of_simps [simp, rx_simps]:
  "promise_of (Inl e) = Fail e"
  "promise_of (Inr v) = Emit v Done"
  by (simp_all add: promise_of_def)

text \<open>Synchronous code in an async function, then the rest of the function.\<close>

definition sync :: "'s step \<Rightarrow> (js \<Rightarrow> 's act) \<Rightarrow> 's act" where
  "sync f k = Eff (\<lambda>s. case f s of (s', Inl e) \<Rightarrow> (s', Fail e) | (s', Inr v) \<Rightarrow> (s', k v))"

text \<open>\<open>await p\<close> followed by the rest of the async function.\<close>

primrec await :: "'s act \<Rightarrow> (js \<Rightarrow> 's act) \<Rightarrow> 's act" where
  "await Done f = Done"
| "await (Fail e) f = Fail e"
| "await Open f = Open"
| "await (Emit v a) f = f v"
| "await (Eff g) f = Eff (\<lambda>s. map_prod id (\<lambda>a. await a f) (g s))"
| "await (Await r k) f = Await r (\<lambda>x. await (k x) f)"
| "await (Fork a b) f = Fork a (await b f)"

section \<open>The operators of rxjs\<close>

record 's rx =
  rx_of :: "js \<Rightarrow> 's act"
  rx_from :: "js \<Rightarrow> 's act"
  rx_fromPromise :: "'s act \<Rightarrow> 's act"
  rx_defer :: "(unit \<Rightarrow> 's act) \<Rightarrow> 's act"
  rx_empty :: "'s act"
  rx_concat :: "'s act \<Rightarrow> 's act \<Rightarrow> 's act"
  rx_map :: "(js \<Rightarrow> 's step) \<Rightarrow> 's act \<Rightarrow> 's act"
  rx_tap :: "(js \<Rightarrow> 's step) \<Rightarrow> 's act \<Rightarrow> 's act"
  rx_filter :: "(js \<Rightarrow> bool res) \<Rightarrow> 's act \<Rightarrow> 's act"
  rx_takeWhile :: "(js \<Rightarrow> 's \<Rightarrow> bool res) \<Rightarrow> 's act \<Rightarrow> 's act"
  rx_takeUntil :: "('s \<Rightarrow> bool) \<Rightarrow> 's act \<Rightarrow> 's act"
  rx_catchError :: "(thrown \<Rightarrow> 's act) \<Rightarrow> 's act \<Rightarrow> 's act"
  rx_switchMap :: "(js \<Rightarrow> 's act) \<Rightarrow> 's act \<Rightarrow> 's act"
  rx_concatMap :: "(js \<Rightarrow> 's act) \<Rightarrow> 's act \<Rightarrow> 's act"
  rx_mergeMap :: "(js \<Rightarrow> 's act) \<Rightarrow> 's act \<Rightarrow> 's act"

text \<open>A synchronous source of the given values.\<close>

definition emit_all :: "js list \<Rightarrow> 's act \<Rightarrow> 's act" where
  "emit_all vs a = foldr Emit vs a"

lemma emit_all_simps [simp]:
  "emit_all [] a = a"
  "emit_all (v # vs) a = Emit v (emit_all vs a)"
  by (simp_all add: emit_all_def)

text \<open>An operator of one source does nothing where the source emits nothing.\<close>

definition passes :: "('s act \<Rightarrow> 's act) \<Rightarrow> bool" where
  "passes f \<longleftrightarrow>
     f Done = Done \<and> f Open = Open \<and>
     (\<forall>g. f (Eff g) = Eff (\<lambda>s. map_prod id f (g s))) \<and>
     (\<forall>r k. f (Await r k) = Await r (\<lambda>x. f (k x)))"

definition fails_through :: "('s act \<Rightarrow> 's act) \<Rightarrow> bool" where
  "fails_through f \<longleftrightarrow> (\<forall>e. f (Fail e) = Fail e)"

lemma passesD:
  assumes "passes f"
  shows "f Done = Done" "f Open = Open" "f (Eff g) = Eff (\<lambda>s. map_prod id f (g s))"
    "f (Await r k) = Await r (\<lambda>x. f (k x))"
  using assms unfolding passes_def by blast+

lemma fails_throughD: "fails_through f \<Longrightarrow> f (Fail e) = Fail e"
  by (simp add: fails_through_def)

locale rxjs =
  fixes rx :: "'s rx"
  assumes of_law: "rx_of rx v = Emit v Done"
    and from_array: "rx_from rx (JArr vs) = emit_all vs Done"
    and from_object: "map_of ps ''length'' = None \<Longrightarrow> rx_from rx (JObj ps) = Fail TypeError"
    and from_promise: "rx_fromPromise rx a = a"
    and defer_law: "rx_defer rx u = u ()"
    and empty_law: "rx_empty rx = Done"
    and concat_emit: "rx_concat rx (Emit v a) b = Emit v (rx_concat rx a b)"
    and concat_done: "rx_concat rx Done b = b"
    and concat_fail: "rx_concat rx (Fail e) b = Fail e"
    and concat_eff: "rx_concat rx (Eff g) b = Eff (\<lambda>s. map_prod id (\<lambda>a. rx_concat rx a b) (g s))"
    and concat_await: "rx_concat rx (Await r k) b = Await r (\<lambda>x. rx_concat rx (k x) b)"
    and map_passes: "passes (rx_map rx f)" "fails_through (rx_map rx f)"
    and map_emit: "rx_map rx f (Emit v a) = sync (f v) (\<lambda>w. Emit w (rx_map rx f a))"
    and tap_passes: "passes (rx_tap rx t)" "fails_through (rx_tap rx t)"
    and tap_emit: "rx_tap rx t (Emit v a) = sync (t v) (\<lambda>_. Emit v (rx_tap rx t a))"
    and filter_passes: "passes (rx_filter rx p)" "fails_through (rx_filter rx p)"
    and filter_emit:
      "rx_filter rx p (Emit v a) =
         (case p v of Inl e \<Rightarrow> Fail e
          | Inr b \<Rightarrow> if b then Emit v (rx_filter rx p a) else rx_filter rx p a)"
    and takeWhile_passes: "passes (rx_takeWhile rx q)" "fails_through (rx_takeWhile rx q)"
    and takeWhile_emit:
      "rx_takeWhile rx q (Emit v a) =
         Eff (\<lambda>s. (s, case q v s of Inl e \<Rightarrow> Fail e
                      | Inr b \<Rightarrow> if b then Emit v (rx_takeWhile rx q a) else Done))"
    and takeUntil_emit:
      "rx_takeUntil rx n (Emit v a) =
         Eff (\<lambda>s. (s, if n s then Done else Emit v (rx_takeUntil rx n a)))"
    and takeUntil_open: "rx_takeUntil rx n Open = Eff (\<lambda>s. (s, if n s then Done else Open))"
    and catch_passes: "passes (rx_catchError rx h)"
    and catch_emit: "rx_catchError rx h (Emit v a) = Emit v (rx_catchError rx h a)"
    and catch_fail: "rx_catchError rx h (Fail e) = h e"
    and switch_passes: "passes (rx_switchMap rx m)" "fails_through (rx_switchMap rx m)"
    and switch_last: "rx_switchMap rx m (Emit v Done) = m v"
    and concatMap_array:
      "rx_concatMap rx m (emit_all vs Done) = foldr (\<lambda>v a. rx_concat rx (m v) a) vs Done"
    and concatMap_fail: "rx_concatMap rx m (Fail e) = Fail e"
    and mergeMap_passes: "passes (rx_mergeMap rx m)" "fails_through (rx_mergeMap rx m)"
    and mergeMap_emit: "rx_mergeMap rx m (Emit v a) = Fork (m v) (rx_mergeMap rx m a)"
begin

lemmas sources = of_law from_array from_promise defer_law empty_law

lemmas concat_laws = concat_emit concat_done concat_fail concat_eff concat_await

lemmas map_laws = map_emit map_passes(1) [THEN passesD(1)] map_passes(1) [THEN passesD(2)]
  map_passes(1) [THEN passesD(3)] map_passes(1) [THEN passesD(4)]
  map_passes(2) [THEN fails_throughD]

lemmas tap_laws = tap_emit tap_passes(1) [THEN passesD(1)] tap_passes(1) [THEN passesD(2)]
  tap_passes(1) [THEN passesD(3)] tap_passes(1) [THEN passesD(4)]
  tap_passes(2) [THEN fails_throughD]

lemmas filter_laws = filter_emit filter_passes(1) [THEN passesD(1)]
  filter_passes(1) [THEN passesD(2)] filter_passes(1) [THEN passesD(3)]
  filter_passes(1) [THEN passesD(4)] filter_passes(2) [THEN fails_throughD]

lemmas takeWhile_laws = takeWhile_emit takeWhile_passes(1) [THEN passesD(1)]
  takeWhile_passes(1) [THEN passesD(2)] takeWhile_passes(1) [THEN passesD(3)]
  takeWhile_passes(2) [THEN fails_throughD]

lemmas catch_laws = catch_emit catch_fail catch_passes [THEN passesD(1)]
  catch_passes [THEN passesD(2)] catch_passes [THEN passesD(3)] catch_passes [THEN passesD(4)]

lemmas switch_laws = switch_last switch_passes(1) [THEN passesD(1)]
  switch_passes(1) [THEN passesD(2)] switch_passes(1) [THEN passesD(3)]
  switch_passes(1) [THEN passesD(4)] switch_passes(2) [THEN fails_throughD]

lemmas mergeMap_laws = mergeMap_emit mergeMap_passes(1) [THEN passesD(1)]
  mergeMap_passes(1) [THEN passesD(2)] mergeMap_passes(1) [THEN passesD(3)]
  mergeMap_passes(2) [THEN fails_throughD]

lemma concat_sync: "rx_concat rx (sync f k) b = sync f (\<lambda>v. rx_concat rx (k v) b)"
  by (auto simp: sync_def concat_laws fun_eq_iff split: prod.split sum.split)

lemma map_sync: "rx_map rx h (sync f k) = sync f (\<lambda>v. rx_map rx h (k v))"
  by (auto simp: sync_def map_laws fun_eq_iff split: prod.split sum.split)

lemma switch_sync: "rx_switchMap rx m (sync f k) = sync f (\<lambda>v. rx_switchMap rx m (k v))"
  by (auto simp: sync_def switch_laws fun_eq_iff split: prod.split sum.split)

lemma catch_sync:
  "rx_catchError rx h (sync f k) =
     Eff (\<lambda>s. case f s of (s', Inl e) \<Rightarrow> (s', h e) | (s', Inr v) \<Rightarrow> (s', rx_catchError rx h (k v)))"
  by (auto simp: sync_def catch_laws fun_eq_iff split: prod.split sum.split)

lemma tap_sync: "rx_tap rx t (sync f k) = sync f (\<lambda>v. rx_tap rx t (k v))"
  by (auto simp: sync_def tap_laws fun_eq_iff split: prod.split sum.split)

lemmas sync_laws = concat_sync map_sync switch_sync tap_sync

lemmas operator_laws = sources concat_laws map_laws tap_laws filter_laws takeWhile_laws
  catch_laws switch_laws mergeMap_laws

end

section \<open>Execution\<close>

text \<open>What a subscriber does with a value, an error and the completion.\<close>

record 's observer =
  on_next :: "js \<Rightarrow> 's \<Rightarrow> 's"
  on_error :: "thrown \<Rightarrow> 's \<Rightarrow> 's"
  on_complete :: "'s \<Rightarrow> 's"

type_synonym 's parked = "request \<times> (string res \<Rightarrow> 's act)"

text \<open>
  \<open>exec a obs issue s\<close>: the state after running \<open>a\<close> for the subscriber \<open>obs\<close> as far as it
  goes without a promise, the requests it now waits for (\<open>issue\<close> is what issuing a request
  does to the state) with their continuations, and how the observable stands. An inner
  observable that fails ends the whole: the rest is not run, and what other inner observables
  still wait for goes to nobody (\<open>mute\<close>). A completed source with inner observables that still
  wait counts as \<open>Completed\<close> at once; the one subscriber for which this happens has no callback
  for the completion.
\<close>

datatype status = Live | Completed | Failed

definition mute :: "'s parked list \<Rightarrow> 's parked list" where
  "mute ps = map (\<lambda>(r, _). (r, \<lambda>_. Open)) ps"

primrec exec :: "'s act \<Rightarrow> 's observer \<Rightarrow> (request \<Rightarrow> 's \<Rightarrow> 's) \<Rightarrow> 's
    \<Rightarrow> 's \<times> 's parked list \<times> status" where
  "exec Done obs issue s = (on_complete obs s, [], Completed)"
| "exec (Fail e) obs issue s = (on_error obs e s, [], Failed)"
| "exec Open obs issue s = (s, [], Live)"
| "exec (Emit v a) obs issue s = exec a obs issue (on_next obs v s)"
| "exec (Eff g) obs issue s = (case map_prod id exec (g s) of (s', run) \<Rightarrow> run obs issue s')"
| "exec (Await r k) obs issue s = (issue r s, [(r, k)], Live)"
| "exec (Fork a b) obs issue s =
     (case exec a (obs\<lparr>on_complete := id\<rparr>) issue s of (s1, ps, st1) \<Rightarrow>
        if st1 = Failed then (s1, mute ps, Failed)
        else case exec b obs issue s1 of (s2, qs, st2) \<Rightarrow>
               (s2, if st2 = Failed then mute (ps @ qs) else ps @ qs, st2))"

lemma exec_Eff [simp, rx_simps]:
  "exec (Eff g) obs issue s = (let (s', a) = g s in exec a obs issue s')"
  by (simp add: case_prod_unfold Let_def)

declare exec.simps(5) [simp del]

lemma exec_sync [simp, rx_simps]:
  "exec (sync f k) obs issue s =
     (case f s of (s', Inl e) \<Rightarrow> exec (Fail e) obs issue s' | (s', Inr v) \<Rightarrow> exec (k v) obs issue s')"
  by (auto simp: sync_def Let_def split: prod.split sum.split)

lemma await_promise_of [simp]:
  "await (promise_of r) f = (case r of Inl e \<Rightarrow> Fail e | Inr v \<Rightarrow> f v)"
  by (cases r) simp_all

text \<open>
  \<open>answer\<close>: a computation with at most one request outstanding, run against a list of answers
  to its requests, the first answer to the first request and so on.
\<close>

fun answer :: "'s act \<Rightarrow> 's observer \<Rightarrow> (request \<Rightarrow> 's \<Rightarrow> 's) \<Rightarrow> 's \<Rightarrow> string res list
    \<Rightarrow> 's \<times> 's parked list \<times> status" where
  "answer a obs issue s [] = exec a obs issue s"
| "answer a obs issue s (x # xs) =
     (case exec a obs issue s of
        (s', [(r, k)], Live) \<Rightarrow> answer (k x) obs issue s' xs
      | out \<Rightarrow> out)"

section \<open>What an execution keeps\<close>

text \<open>\<open>keeps R a\<close>: every synchronous piece of \<open>a\<close> takes a state to one in relation \<open>R\<close>.\<close>

primrec keeps :: "('s \<Rightarrow> 's \<Rightarrow> bool) \<Rightarrow> 's act \<Rightarrow> bool" where
  "keeps R Done = True"
| "keeps R (Fail e) = True"
| "keeps R Open = True"
| "keeps R (Emit v a) = keeps R a"
| "keeps R (Eff g) = (\<forall>s. R s (fst (g s)) \<and> snd (map_prod id (keeps R) (g s)))"
| "keeps R (Await r k) = (\<forall>x. keeps R (k x))"
| "keeps R (Fork a b) = (keeps R a \<and> keeps R b)"

lemma keeps_Eff [simp]: "keeps R (Eff g) \<longleftrightarrow> (\<forall>s. R s (fst (g s)) \<and> keeps R (snd (g s)))"
  by simp

declare keeps.simps(5) [simp del]

lemma keeps_sync [simp]:
  "keeps R (sync f k) \<longleftrightarrow> (\<forall>s. R s (fst (f s)) \<and> (\<forall>v. snd (f s) = Inr v \<longrightarrow> keeps R (k v)))"
proof -
  let ?g = "\<lambda>s. case f s of (s', Inl e) \<Rightarrow> (s', Fail e) | (s', Inr v) \<Rightarrow> (s', k v)"
  have "(R s (fst (?g s)) \<and> keeps R (snd (?g s)))
      = (R s (fst (f s)) \<and> (\<forall>v. snd (f s) = Inr v \<longrightarrow> keeps R (k v)))" for s
    by (cases "f s"; cases "snd (f s)") auto
  then show ?thesis by (simp add: sync_def)
qed

definition obs_keeps :: "('s \<Rightarrow> 's \<Rightarrow> bool) \<Rightarrow> 's observer \<Rightarrow> bool" where
  "obs_keeps R obs \<longleftrightarrow> (\<forall>s v e. R s (on_next obs v s) \<and> R s (on_error obs e s) \<and> R s (on_complete obs s))"

lemma obs_keeps_inner: "obs_keeps R obs \<Longrightarrow> (\<And>s. R s s) \<Longrightarrow> obs_keeps R (obs\<lparr>on_complete := id\<rparr>)"
  by (simp add: obs_keeps_def)

text \<open>
  A projection \<open>f\<close> of the state that the code and the subscriber leave alone and a request
  extends by itself: afterwards it has grown by exactly the requests now waited for, and the
  waiting continuations are of the same kind.
\<close>

lemma mute_simps [simp]:
  "concat (map (\<lambda>p. h (fst p)) (mute ps)) = concat (map (\<lambda>p. h (fst p)) ps)"
  "mute (ps @ qs) = mute ps @ mute qs" "mute [] = []"
  "(\<forall>p \<in> set (mute ps). \<forall>x. keeps R (snd p x)) \<longleftrightarrow> True"
  by (induction ps) (auto simp: mute_def)

lemma exec_accounts:
  assumes "keeps (\<lambda>s s'. f s' = f s) a" and "obs_keeps (\<lambda>s s'. f s' = f s) obs"
    and "\<And>r s. f (iss r s) = f s @ h r"
    and "exec a obs iss s = (s', ps, fin)"
  shows "f s' = f s @ concat (map (\<lambda>p. h (fst p)) ps)
         \<and> (\<forall>p \<in> set ps. \<forall>x. keeps (\<lambda>s s'. f s' = f s) (snd p x))"
  using assms(1,2,4)
proof (induction a arbitrary: obs s s' ps fin)
  case (Eff g)
  obtain t b where gs: "g s = (t, b)" by fastforce
  then have "b \<in> Basic_BNFs.snds (g s)" by (simp add: snds.simps)
  moreover have "f (fst (g s)) = f s \<and> keeps (\<lambda>s s'. f s' = f s) (snd (g s))"
    using Eff.prems(1) unfolding keeps_Eff by blast
  with gs have "f t = f s" "keeps (\<lambda>s s'. f s' = f s) b" by simp_all
  moreover from Eff.prems(3) gs have "exec b obs iss t = (s', ps, fin)" by simp
  ultimately show ?case using Eff.IH [of "g s" b obs t s' ps fin] Eff.prems(2) by simp
next
  case (Await r k)
  then have "s' = iss r s" "ps = [(r, k)]" by simp_all
  with Await.prems(1) show ?case by (simp add: assms(3))
next
  case (Fork a b)
  obtain s1 ps1 fin1 where a: "exec a (obs\<lparr>on_complete := id\<rparr>) iss s = (s1, ps1, fin1)"
    by (metis prod_cases3)
  obtain s2 ps2 fin2 where b: "exec b obs iss s1 = (s2, ps2, fin2)" by (metis prod_cases3)
  have obs': "obs_keeps (\<lambda>s s'. f s' = f s) (obs\<lparr>on_complete := id\<rparr>)"
    using Fork.prems(2) by (simp add: obs_keeps_inner)
  from Fork.prems(1) have kp: "keeps (\<lambda>s s'. f s' = f s) a" "keeps (\<lambda>s s'. f s' = f s) b"
    by simp_all
  from Fork.prems(3) a b consider "fin1 = Failed" "s' = s1" "ps = mute ps1"
    | "s' = s2" "ps = mute (ps1 @ ps2)" | "s' = s2" "ps = ps1 @ ps2"
    by (simp split: if_splits)
  then show ?case
    using Fork.IH(1) [OF kp(1) obs' a] Fork.IH(2) [OF kp(2) Fork.prems(2) b]
    by cases (simp_all add: ball_Un mute_simps)
next
  case (Emit v a)
  from Emit.prems(2) have "f (on_next obs v s) = f s" by (simp add: obs_keeps_def)
  with Emit.IH [of obs "on_next obs v s" s' ps fin] Emit.prems show ?case by simp
next
  case Done
  then show ?case by (simp add: obs_keeps_def) metis
next
  case (Fail e)
  then show ?case by (simp add: obs_keeps_def) metis
next
  case Open
  then show ?case by simp
qed

section \<open>A reference record of operators\<close>

primrec ref_concat :: "'s act \<Rightarrow> 's act \<Rightarrow> 's act" where
  "ref_concat Done b = b"
| "ref_concat (Fail e) b = Fail e"
| "ref_concat Open b = Open"
| "ref_concat (Emit v a) b = Emit v (ref_concat a b)"
| "ref_concat (Eff g) b = Eff (\<lambda>s. map_prod id (\<lambda>a. ref_concat a b) (g s))"
| "ref_concat (Await r k) b = Await r (\<lambda>x. ref_concat (k x) b)"
| "ref_concat (Fork a c) b = Fork a (ref_concat c b)"

text \<open>
  The operators of one source: \<open>on_value v rest rest'\<close> says what becomes of an emitted \<open>v\<close>
  whose source goes on as \<open>rest\<close>, which the operator turns into \<open>rest'\<close>.
\<close>

primrec pointwise :: "(js \<Rightarrow> 's act \<Rightarrow> 's act \<Rightarrow> 's act) \<Rightarrow> (thrown \<Rightarrow> 's act) \<Rightarrow> 's act \<Rightarrow> 's act"
where
  "pointwise h c Done = Done"
| "pointwise h c (Fail e) = c e"
| "pointwise h c Open = Open"
| "pointwise h c (Emit v a) = h v a (pointwise h c a)"
| "pointwise h c (Eff g) = Eff (\<lambda>s. map_prod id (pointwise h c) (g s))"
| "pointwise h c (Await r k) = Await r (\<lambda>x. pointwise h c (k x))"
| "pointwise h c (Fork a b) = Fork (pointwise h c a) (pointwise h c b)"

primrec ref_takeUntil :: "('s \<Rightarrow> bool) \<Rightarrow> 's act \<Rightarrow> 's act" where
  "ref_takeUntil n Done = Done"
| "ref_takeUntil n (Fail e) = Fail e"
| "ref_takeUntil n Open = Eff (\<lambda>s. (s, if n s then Done else Open))"
| "ref_takeUntil n (Emit v a) = Eff (\<lambda>s. (s, if n s then Done else Emit v (ref_takeUntil n a)))"
| "ref_takeUntil n (Eff g) = Eff (\<lambda>s. map_prod id (ref_takeUntil n) (g s))"
| "ref_takeUntil n (Await r k) = Await r (\<lambda>x. ref_takeUntil n (k x))"
| "ref_takeUntil n (Fork a b) = Fork (ref_takeUntil n a) (ref_takeUntil n b)"

definition rx_ref :: "'s rx" where
  "rx_ref = \<lparr>
     rx_of = (\<lambda>v. Emit v Done),
     rx_from = (\<lambda>v. case v of JArr vs \<Rightarrow> emit_all vs Done | _ \<Rightarrow> Fail TypeError),
     rx_fromPromise = (\<lambda>p. p),
     rx_defer = (\<lambda>u. u ()),
     rx_empty = Done,
     rx_concat = ref_concat,
     rx_map = (\<lambda>f. pointwise (\<lambda>v _ r. sync (f v) (\<lambda>w. Emit w r)) Fail),
     rx_tap = (\<lambda>f. pointwise (\<lambda>v _ r. sync (f v) (\<lambda>_. Emit v r)) Fail),
     rx_filter = (\<lambda>p. pointwise (\<lambda>v _ r. case p v of Inl e \<Rightarrow> Fail e
                                     | Inr b \<Rightarrow> if b then Emit v r else r) Fail),
     rx_takeWhile = (\<lambda>q. pointwise (\<lambda>v _ r. Eff (\<lambda>s. (s, case q v s of Inl e \<Rightarrow> Fail e
                                     | Inr b \<Rightarrow> if b then Emit v r else Done))) Fail),
     rx_takeUntil = ref_takeUntil,
     rx_catchError = (\<lambda>h. pointwise (\<lambda>v _ r. Emit v r) h),
     rx_switchMap = (\<lambda>m. pointwise (\<lambda>v a r. case a of Done \<Rightarrow> m v | _ \<Rightarrow> r) Fail),
     rx_concatMap = (\<lambda>m. pointwise (\<lambda>v _ r. ref_concat (m v) r) Fail),
     rx_mergeMap = (\<lambda>m. pointwise (\<lambda>v _ r. Fork (m v) r) Fail)\<rparr>"

lemma passes_pointwise: "passes (pointwise h c)" "fails_through (pointwise h Fail)"
  by (simp_all add: passes_def fails_through_def)

lemma pointwise_emit_all:
  "pointwise (\<lambda>v _ r. ref_concat (m v) r) Fail (emit_all vs Done)
     = foldr (\<lambda>v a. ref_concat (m v) a) vs Done"
  by (induction vs) simp_all

interpretation ref: rxjs rx_ref
  by unfold_locales
    (simp_all add: rx_ref_def passes_pointwise pointwise_emit_all fun_eq_iff split: sum.split)

end
