(* ===== verification/Event.thy ===== *)
theory Event
  imports Types Reactive
begin

text \<open>
  \<open>bindings/node/lib/src/event.ts\<close>: the run-time guards for the data of native callbacks, the
  views of the event stream by type, the decoration of an about response and the operator
  that ends the stream at shutdown. The operators of rxjs are the parameter \<open>rx\<close>.
\<close>

section \<open>Guards\<close>

definition isEventDataNew :: "js \<Rightarrow> bool" where
  "isEventDataNew data \<longleftrightarrow> typeof data = ''string''"

definition isEventDataAbout :: "js \<Rightarrow> bool res" where
  "isEventDataAbout data =
     and_also (has_own data ''serial'')
    (and_also (has_own data ''product'')
    (and_also (has_own data ''prjVersion'')
    (and_also (has_own data ''atxVersion'')
              (has_own data ''siteId''))))"

definition isEventDataHeartbeat :: "js \<Rightarrow> bool" where
  "isEventDataHeartbeat data \<longleftrightarrow> typeof data = ''string''"

definition isEventDataAlert :: "js \<Rightarrow> bool res" where
  "isEventDataAlert data =
     and_also (has_own data ''who'')
    (and_also (has_own data ''what'')
    (and_also (has_own data ''where'')
    (and_also (has_own data ''when'')
    (and_also (has_own data ''mesg'')
              (has_own data ''serial'')))))"

definition isEventDataError :: "js \<Rightarrow> bool res" where
  "isEventDataError data =
     and_also (has_own data ''serial'')
    (and_also (has_own data ''errorCode'')
              (has_own data ''errorMessage''))"

section \<open>Views of the event stream\<close>

text \<open>\<open>e.type === key\<close>.\<close>

definition type_is :: "string \<Rightarrow> js \<Rightarrow> bool res" where
  "type_is key e = andThen (get_prop e ''type'') (\<lambda>t. Inr (t = JStr key))"

definition whenEvent :: "'s rx \<Rightarrow> string \<Rightarrow> 's act \<Rightarrow> 's act" where
  "whenEvent rx key source = rx_filter rx (type_is key) source"

definition whenNew :: "'s rx \<Rightarrow> 's act \<Rightarrow> 's act" where
  "whenNew rx source = whenEvent rx ''_new'' source"

definition whenAbout :: "'s rx \<Rightarrow> 's act \<Rightarrow> 's act" where
  "whenAbout rx source = whenEvent rx ''new'' source"

definition whenHeartbeat :: "'s rx \<Rightarrow> 's act \<Rightarrow> 's act" where
  "whenHeartbeat rx source = whenEvent rx ''heartbeat'' source"

definition whenAlert :: "'s rx \<Rightarrow> 's act \<Rightarrow> 's act" where
  "whenAlert rx source = whenEvent rx ''alert'' source"

definition whenError :: "'s rx \<Rightarrow> 's act \<Rightarrow> 's act" where
  "whenError rx source = whenEvent rx ''error'' source"

definition whenCtrlc :: "'s rx \<Rightarrow> 's act \<Rightarrow> 's act" where
  "whenCtrlc rx source = whenEvent rx ''ctrlc'' source"

section \<open>Requests and about responses\<close>

type_synonym 's sender = "js \<Rightarrow> meth \<Rightarrow> string \<Rightarrow> js \<Rightarrow> 's act"

definition request :: "'s rx \<Rightarrow> 's sender \<Rightarrow> meth \<Rightarrow> string \<Rightarrow> js \<Rightarrow> 's act \<Rightarrow> 's act" where
  "request rx s m path data source =
     rx_switchMap rx
       (\<lambda>v. case get_prop v ''serial'' of
              Inl e \<Rightarrow> Fail e
            | Inr serial \<Rightarrow> rx_fromPromise rx (s serial m path data)) source"

text \<open>\<open>{ type: "new", serial: response.about.sid, ...response.about }\<close>.\<close>

definition about_event :: "js \<Rightarrow> js res" where
  "about_event response =
     andThen (get_prop response ''about'') (\<lambda>about.
     andThen (get_prop about ''sid'') (\<lambda>sid.
       Inr (JObj (spread [(''type'', JStr ''new''), (''serial'', sid)] about))))"

definition mapAboutResponse :: "'s rx \<Rightarrow> 's act \<Rightarrow> 's act" where
  "mapAboutResponse rx source = rx_map rx (\<lambda>response s. (s, about_event response)) source"

definition still_running :: "('s \<Rightarrow> bool) \<Rightarrow> js \<Rightarrow> 's \<Rightarrow> bool res" where
  "still_running running v s =
     andThen (get_prop v ''type'') (\<lambda>t. Inr (t \<noteq> JStr ''ctrlc'' \<and> running s))"

definition takeWhileRunning :: "'s rx \<Rightarrow> ('s \<Rightarrow> bool) \<Rightarrow> 's act \<Rightarrow> 's act" where
  "takeWhileRunning rx running source = rx_takeWhile rx (still_running running) source"

section \<open>Guards and typed data\<close>

lemma event_js_type [simp]: "get_prop (event_js e) ''type'' = Inr (JStr (event_type e))"
  by (simp add: event_js_def)

lemma type_is_event [simp]: "type_is key (event_js e) = Inr (event_type e = key)"
  by (simp add: type_is_def)

lemma still_running_event [simp]:
  "still_running running (event_js e) s = Inr (e \<noteq> EventCtrlc \<and> running s)"
  by (cases e) (simp_all add: still_running_def)

text \<open>
  The guards accept everything the declared types allow: string serial numbers, alert data,
  error data and decorated about data.
\<close>

lemma guards_accept:
  "isEventDataNew (JStr s)" "isEventDataHeartbeat (JStr s)"
  "isEventDataAlert (JObj (alert_fields a)) = Inr True"
  "isEventDataError (JObj (error_fields e)) = Inr True"
  "isEventDataAbout (about_js b s) = Inr True"
  by (simp_all add: isEventDataNew_def isEventDataHeartbeat_def isEventDataAlert_def
      isEventDataError_def isEventDataAbout_def alert_fields_def error_fields_def
      about_js_def about_fields_def)

text \<open>
  The decorated event of an about response: the response's own fields win over the \<open>type\<close>
  and the \<open>serial\<close> the client adds, and nothing else is added or lost.
\<close>

theorem about_event_fields:
  assumes "map_of resp ''about'' = Some (JObj about)" and "distinct (map fst about)"
  shows "\<exists>ps. about_event (JObj resp) = Inr (JObj ps) \<and> distinct (map fst ps) \<and>
           map_of ps = [''type'' \<mapsto> JStr ''new'',
                        ''serial'' \<mapsto> (case map_of about ''sid'' of Some v \<Rightarrow> v | None \<Rightarrow> JUndef)]
                       ++ map_of about"
  using assms by (simp add: about_event_def map_of_spread distinct_spread fun_upd_twist)

theorem about_event_fields_witness:
  "\<exists>ps. about_event (JObj [(''about'', JObj [(''sid'', JStr ''A1''), (''serial'', JStr ''B2'')])])
           = Inr (JObj ps)
         \<and> map_of ps ''type'' = Some (JStr ''new'') \<and> map_of ps ''serial'' = Some (JStr ''B2'')"
  using about_event_fields [of "[(''about'', JObj [(''sid'', JStr ''A1''), (''serial'', JStr ''B2'')])]"
      "[(''sid'', JStr ''A1''), (''serial'', JStr ''B2'')]"]
  by (auto simp: map_add_def)

lemma put_all_fresh:
  "distinct (map fst (acc @ es)) \<Longrightarrow> put_all acc es = acc @ es"
proof (induction es arbitrary: acc)
  case (Cons e es)
  then show ?case by (cases e) (simp add: update_new)
qed simp

lemma object_entries_no_index:
  "list_all (\<lambda>(k, _). key_index k = None) ps \<Longrightarrow> object_entries ps = ps"
proof -
  assume a: "list_all (\<lambda>(k, _). key_index k = None) ps"
  then have "filter (\<lambda>(k, _). key_index k \<noteq> None) ps = []"
    by (auto simp: filter_empty_conv list_all_iff)
  moreover from a have "filter (\<lambda>(k, _). key_index k = None) ps = ps"
    by (simp add: filter_id_conv list_all_iff)
  ultimately show ?thesis by (simp add: object_entries_def)
qed

lemma key_index_nondigit: "\<not> is_digit (hd k) \<Longrightarrow> k \<noteq> [] \<Longrightarrow> key_index k = None"
  by (cases k) (simp_all add: key_index_def Let_def)

lemma about_event_typed:
  "about_event (about_response_js a) = Inr (event_js (EventAbout a (ab_sid a)))"
proof -
  have "object_entries (about_fields a) = about_fields a"
    by (rule object_entries_no_index) (simp add: about_fields_def key_index_nondigit is_digit_def)
  moreover have "map_of (about_fields a) ''sid'' = Some (JStr (ab_sid a))"
    by (simp add: about_fields_def)
  ultimately show ?thesis
    by (simp add: about_event_def about_response_js_def spread_def event_js_def)
      (simp add: put_all_fresh about_fields_def)
qed

section \<open>The views over a run of typed events\<close>

context rxjs
begin

lemma filter_events:
  "whenEvent rx key (emit_all (map event_js es) Open) =
     emit_all (map event_js (filter (\<lambda>e. event_type e = key) es)) Open"
  unfolding whenEvent_def by (induction es) (simp_all add: filter_laws)

text \<open>
  While the client is running, the events before the first \<open>ctrlc\<close> pass in order, the \<open>ctrlc\<close>
  itself is dropped and the stream completes there; without one it stays open.
\<close>

lemma exec_takeWhileRunning:
  assumes keep: "\<And>v s. running (on_next obs v s) = running s" and run: "running s"
  shows "exec (takeWhileRunning rx running (emit_all (map event_js es) Open)) obs issue s =
           (let s' = fold (\<lambda>e. on_next obs (event_js e)) (takeWhile (\<lambda>e. e \<noteq> EventCtrlc) es) s
            in if EventCtrlc \<in> set es then (on_complete obs s', [], Completed) else (s', [], Live))"
  using run unfolding takeWhileRunning_def
  by (induction es arbitrary: s) (simp_all add: takeWhile_laws keep)

end

text \<open>
  Each typed view of a run of events delivers exactly the events of its type, all of them,
  in order.
\<close>

theorem views_select_by_type:
  assumes "rxjs rx"
  shows "whenNew rx (emit_all (map event_js es) Open)
           = emit_all (map event_js (filter (\<lambda>e. event_type e = ''_new'') es)) Open
         \<and> whenAbout rx (emit_all (map event_js es) Open)
           = emit_all (map event_js (filter (\<lambda>e. event_type e = ''new'') es)) Open
         \<and> whenHeartbeat rx (emit_all (map event_js es) Open)
           = emit_all (map event_js (filter (\<lambda>e. event_type e = ''heartbeat'') es)) Open
         \<and> whenAlert rx (emit_all (map event_js es) Open)
           = emit_all (map event_js (filter (\<lambda>e. event_type e = ''alert'') es)) Open
         \<and> whenError rx (emit_all (map event_js es) Open)
           = emit_all (map event_js (filter (\<lambda>e. event_type e = ''error'') es)) Open
         \<and> whenCtrlc rx (emit_all (map event_js es) Open)
           = emit_all (map event_js (filter (\<lambda>e. event_type e = ''ctrlc'') es)) Open"
  unfolding whenNew_def whenAbout_def whenHeartbeat_def whenAlert_def whenError_def whenCtrlc_def
  by (simp add: rxjs.filter_events [OF assms])

theorem views_select_by_type_witness:
  "whenHeartbeat rx_ref (emit_all (map event_js [EventNew ''a'', EventHeartbeat ''b'', EventCtrlc]) Open)
     = Emit (event_js (EventHeartbeat ''b'')) (Open :: unit act)"
  using views_select_by_type [OF ref.rxjs_axioms [where 'a = unit],
      of "[EventNew ''a'', EventHeartbeat ''b'', EventCtrlc]"] by simp

end
