(* ===== verification/Registry.thy ===== *)
theory Registry
  imports Event
begin

text \<open>
  The table of devices of the class \<open>Linq\<close> (\<open>_devices\<close> in \<open>Linq.ts\<close>): the getter that merges
  it with the native summary, the entry an about response writes, the entry \<open>refresh\<close>
  writes, and \<open>remove\<close>. The table is a JavaScript object keyed by serial number whose values
  are objects; the native summary is the value parsed from \<open>netw.devices()\<close>.
\<close>

section \<open>Operations\<close>

text \<open>\<open>this._devices[k]\<close>.\<close>

definition dev_at :: "jsobj \<Rightarrow> string \<Rightarrow> js" where
  "dev_at ds k = (case map_of ds k of Some v \<Rightarrow> v | None \<Rightarrow> JUndef)"

definition merge_device :: "jsobj \<Rightarrow> js \<Rightarrow> string \<Rightarrow> js res" where
  "merge_device ds summaries k =
     andThen (get_prop summaries k)
       (\<lambda>sum. Inr (JObj (spread (spread [] (dev_at ds k)) sum)))"

text \<open>\<open>(acc, cur) => ({ [cur.serial]: cur, ...acc })\<close>, and \<open>reduce\<close> over it.\<close>

definition rekey :: "jsobj \<Rightarrow> js \<Rightarrow> jsobj res" where
  "rekey acc cur =
     andThen (get_prop cur ''serial'') (\<lambda>v.
     andThen (to_key v) (\<lambda>k. Inr (spread [(k, cur)] (JObj acc))))"

fun reduce_res :: "('b \<Rightarrow> 'a \<Rightarrow> 'b res) \<Rightarrow> 'b \<Rightarrow> 'a list \<Rightarrow> 'b res" where
  "reduce_res f acc [] = Inr acc"
| "reduce_res f acc (x # xs) = andThen (f acc x) (\<lambda>acc'. reduce_res f acc' xs)"

definition devices_of :: "js \<Rightarrow> jsobj \<Rightarrow> jsobj res" where
  "devices_of summaries ds =
     andThen (object_keys summaries) (\<lambda>ks.
     andThen (map_res (merge_device ds summaries) (ks @ map fst (object_entries ds)))
       (reduce_res rekey []))"

text \<open>The getter: the table it returns is also the one it stores.\<close>

definition devices :: "string \<Rightarrow> jsobj \<Rightarrow> jsobj res" where
  "devices text ds = andThen (json_parse text) (\<lambda>summaries. devices_of summaries ds)"

text \<open>The \<open>tap\<close> of the constructor: \<open>self._devices[event.sid] = { ...event, ...sid }\<close>.\<close>

definition store_about :: "string \<Rightarrow> js \<Rightarrow> jsobj \<Rightarrow> jsobj res" where
  "store_about text event ds =
     andThen (json_parse text) (\<lambda>sum.
     andThen (get_prop event ''sid'') (\<lambda>sidv.
     andThen (to_key sidv) (\<lambda>k.
     andThen (get_prop sum k) (\<lambda>x.
       let sid = (if truthy x then x else JObj [])
       in Inr (AList.update k (JObj (spread (spread [] event) sid)) ds)))))"

text \<open>The end of \<open>refresh\<close>: \<open>let { about } = \<dots>\<close>, the merged entry, and the value returned.\<close>

definition store_refresh :: "string \<Rightarrow> js \<Rightarrow> jsobj \<Rightarrow> (jsobj \<times> js) res" where
  "store_refresh serial response ds =
     andThen (get_prop response ''about'') (\<lambda>about.
       Inr (AList.update serial (JObj (spread (spread [] (dev_at ds serial)) about)) ds, about))"

definition remove_device :: "string \<Rightarrow> jsobj \<Rightarrow> jsobj" where
  "remove_device sid ds = (if truthy (dev_at ds sid) then AList.delete sid ds else ds)"

section \<open>Well-formed tables\<close>

text \<open>Every entry is an object whose \<open>serial\<close> is the key it is stored under.\<close>

definition entry_ok :: "string \<Rightarrow> js \<Rightarrow> bool" where
  "entry_ok k v \<longleftrightarrow>
     (\<exists>ps. v = JObj ps \<and> distinct (map fst ps) \<and> map_of ps ''serial'' = Some (JStr k))"

definition keyed :: "jsobj \<Rightarrow> bool" where
  "keyed ds \<longleftrightarrow> obj.holds_all entry_ok ds"

lemma keyed_iff:
  "keyed ds \<longleftrightarrow> distinct (map fst ds) \<and> (\<forall>k v. map_of ds k = Some v \<longrightarrow> entry_ok k v)"
  by (simp add: keyed_def obj.holds_all_def)

lemmas keyed_intros = obj.holds_all_put [of entry_ok, folded keyed_def]
  obj.holds_all_del [of entry_ok, folded keyed_def]
  obj.holds_all_merge [of entry_ok, folded keyed_def]

lemma keyed_Nil [simp]: "keyed []"
  by (simp add: keyed_iff)

text \<open>The fields a table holds for a key: none for an unknown key.\<close>

definition entry_of :: "jsobj \<Rightarrow> string \<Rightarrow> string \<rightharpoonup> js" where
  "entry_of ds k = (case map_of ds k of Some (JObj ps) \<Rightarrow> map_of ps | _ \<Rightarrow> Map.empty)"

lemma entry_of_put [simp]: "entry_of (AList.update k (JObj ps) ds) = (entry_of ds)(k := map_of ps)"
  by (auto simp: entry_of_def fun_eq_iff)

lemma keyed_entry:
  "keyed ds \<Longrightarrow> map_of ds k = Some v \<Longrightarrow>
     \<exists>ps. v = JObj ps \<and> distinct (map fst ps) \<and> map_of ps = entry_of ds k
          \<and> entry_of ds k ''serial'' = Some (JStr k)"
  unfolding keyed_iff entry_ok_def entry_of_def by fastforce

lemma spread_nil_entry:
  assumes "keyed ds"
  shows "map_of (spread [] (dev_at ds k)) = entry_of ds k"
    and "distinct (map fst (spread [] (dev_at ds k)))"
proof -
  show "map_of (spread [] (dev_at ds k)) = entry_of ds k"
    using keyed_entry [OF assms, of k]
    by (cases "map_of ds k") (auto simp: dev_at_def entry_of_def map_of_spread)
qed (simp add: distinct_spread)

lemma merge_device_keyed:
  assumes "keyed ds" "keyed sums"
  shows "\<exists>ps. merge_device ds (JObj sums) k = Inr (JObj ps) \<and> distinct (map fst ps)
           \<and> map_of ps = entry_of ds k ++ entry_of sums k"
proof (cases "map_of sums k")
  case None
  with spread_nil_entry [OF assms(1), of k] show ?thesis
    by (simp add: merge_device_def entry_of_def)
next
  case (Some v)
  with keyed_entry [OF assms(2)] obtain qs
    where "v = JObj qs" "distinct (map fst qs)" "map_of qs = entry_of sums k" by blast
  with Some spread_nil_entry [OF assms(1), of k] show ?thesis
    by (simp add: merge_device_def map_of_spread distinct_spread)
qed

section \<open>The getter\<close>

lemma reduce_rekey:
  assumes "distinct (map fst acc)"
    and "\<And>cur. cur \<in> set curs \<Longrightarrow> get_prop cur ''serial'' = Inr (JStr (key cur))"
  shows "\<exists>ds. reduce_res rekey acc curs = Inr ds \<and> distinct (map fst ds)
           \<and> map_of ds = map_of (map (\<lambda>c. (key c, c)) curs) ++ map_of acc"
  using assms
proof (induction curs arbitrary: acc)
  case (Cons c curs)
  let ?acc = "spread [(key c, c)] (JObj acc)"
  have c: "rekey acc c = Inr ?acc" using Cons.prems(2) by (simp add: rekey_def)
  have d: "distinct (map fst ?acc)" by (simp add: distinct_spread)
  have "map_of ?acc = [key c \<mapsto> c] ++ map_of acc"
    using Cons.prems(1) by (simp add: map_of_spread)
  moreover from Cons.IH [OF d] Cons.prems(2) obtain ds where
    "reduce_res rekey ?acc curs = Inr ds" "distinct (map fst ds)"
    "map_of ds = map_of (map (\<lambda>c. (key c, c)) curs) ++ map_of ?acc" by auto
  ultimately show ?case
    by (simp add: c fun_eq_iff map_add_def split: option.split)
qed simp


lemma dom_map_of_keys: "map_of (map (\<lambda>k. (k, f k)) ks) k = (if k \<in> set ks then Some (f k) else None)"
  by (induction ks) auto

lemma set_entry_keys: "k \<in> set (map fst (object_entries ds)) \<longleftrightarrow> map_of ds k \<noteq> None"
  by (metis map_of_eq_None_iff set_map set_object_entries)

text \<open>
  The getter on a well-formed table and a well-formed summary: the union of the keys, and
  under each key the fields of the table overridden by those of the summary.
\<close>

definition merged :: "jsobj \<Rightarrow> jsobj \<Rightarrow> jsobj \<Rightarrow> bool" where
  "merged ds sums out \<longleftrightarrow> keyed out
     \<and> (\<forall>k. map_of out k \<noteq> None \<longleftrightarrow> map_of ds k \<noteq> None \<or> map_of sums k \<noteq> None)
     \<and> (\<forall>k. entry_of out k = entry_of ds k ++ entry_of sums k)"

lemma serial_merged:
  assumes "keyed ds" "keyed sums" "map_of ds k \<noteq> None \<or> map_of sums k \<noteq> None"
  shows "(entry_of ds k ++ entry_of sums k) ''serial'' = Some (JStr k)"
  using keyed_entry [OF assms(1), of k] keyed_entry [OF assms(2), of k] assms(3)
  by (cases "map_of sums k") (auto simp: map_add_def entry_of_def)

lemma devices_of_merged:
  assumes ds: "keyed ds" and sums: "keyed sums"
  shows "\<exists>out. devices_of (JObj sums) ds = Inr out \<and> merged ds sums out"
proof -
  define ks where "ks = map fst (object_entries sums) @ map fst (object_entries ds)"
  have ks: "k \<in> set ks \<longleftrightarrow> map_of ds k \<noteq> None \<or> map_of sums k \<noteq> None" for k
    using set_entry_keys [of k sums] set_entry_keys [of k ds] by (auto simp: ks_def)
  obtain m where m: "\<And>k. merge_device ds (JObj sums) k = Inr (JObj (m k))"
    "\<And>k. distinct (map fst (m k))" "\<And>k. map_of (m k) = entry_of ds k ++ entry_of sums k"
    using merge_device_keyed [OF ds sums] by metis
  let ?cur = "\<lambda>k. JObj (m k)"
  have keys: "get_prop (?cur k) ''serial'' = Inr (JStr k)" if "k \<in> set ks" for k
    using serial_merged [OF ds sums] that by (simp add: m ks)
  define key where "key c = (case get_prop c ''serial'' of Inr (JStr k) \<Rightarrow> k | _ \<Rightarrow> [])" for c
  have key: "key (?cur k) = k" if "k \<in> set ks" for k
    using keys [OF that] by (simp add: key_def)
  have "get_prop c ''serial'' = Inr (JStr (key c))" if "c \<in> set (map ?cur ks)" for c
    using that keys key by auto
  then obtain out where
    out: "reduce_res rekey [] (map ?cur ks) = Inr out" "distinct (map fst out)"
      "map_of out = map_of (map (\<lambda>c. (key c, c)) (map ?cur ks))"
    using reduce_rekey [of "[]" "map ?cur ks" key] by auto
  have pairs: "map (\<lambda>c. (key c, c)) (map ?cur ks) = map (\<lambda>k. (k, ?cur k)) ks"
    using key by simp
  have look: "map_of out k = (if k \<in> set ks then Some (?cur k) else None)" for k
    unfolding out(3) pairs by (rule dom_map_of_keys)
  have "devices_of (JObj sums) ds = Inr out"
    using out(1) m(1) map_res_total [of ks "merge_device ds (JObj sums)" ?cur]
    by (simp add: devices_of_def object_keys_def ks_def)
  moreover have "keyed out"
    using out(2) serial_merged [OF ds sums] ks m
    by (auto simp: keyed_iff look entry_ok_def split: if_splits)
  moreover have "entry_of out k = entry_of ds k ++ entry_of sums k" for k
    using ks [of k] by (cases "k \<in> set ks") (simp_all add: entry_of_def look m)
  ultimately show ?thesis by (auto simp: merged_def look ks)
qed

lemma merged_again:
  assumes "merged ds sums out" "merged out sums out'"
  shows "entry_of out' = entry_of out \<and> (\<forall>k. map_of out' k \<noteq> None \<longleftrightarrow> map_of out k \<noteq> None)"
  using assms by (auto simp: merged_def fun_eq_iff map_add_def split: option.split)

text \<open>
  C15. The getter \<open>devices\<close> on a well-formed table and a well-formed native summary: it returns a
  well-formed table with the keys of both, and under each key the fields known from about
  responses overridden by those of the summary. Asking again changes nothing.
\<close>

theorem devices_getter:
  assumes "json_parse text = Inr (JObj sums)" and "keyed sums" and "keyed ds"
  shows "\<exists>out. devices text ds = Inr out \<and> keyed out
           \<and> (\<forall>k. map_of out k \<noteq> None \<longleftrightarrow> map_of ds k \<noteq> None \<or> map_of sums k \<noteq> None)
           \<and> (\<forall>k. entry_of out k = entry_of ds k ++ entry_of sums k)
           \<and> (\<exists>out'. devices text out = Inr out' \<and> entry_of out' = entry_of out
                \<and> (\<forall>k. map_of out' k \<noteq> None \<longleftrightarrow> map_of out k \<noteq> None))"
proof -
  from devices_of_merged [OF assms(3,2)] obtain out where
    out: "devices_of (JObj sums) ds = Inr out" "merged ds sums out" by blast
  then have "keyed out" by (simp add: merged_def)
  from devices_of_merged [OF this assms(2)] obtain out' where
    out': "devices_of (JObj sums) out = Inr out'" "merged out sums out'" by blast
  from merged_again [OF out(2) out'(2)] out out'(1) show ?thesis
    by (simp add: devices_def assms(1) merged_def)
qed

lemma keyed_single:
  "keyed [(k, JObj ps)] \<longleftrightarrow> distinct (map fst ps) \<and> map_of ps ''serial'' = Some (JStr k)"
  by (simp add: keyed_iff entry_ok_def)

definition sample_about :: "string \<Rightarrow> event_data_about" where
  "sample_about sid = \<lparr>ab_siteId = ''Altronix Site ID'', ab_prjVersion = ''2.00.00'',
     ab_productKey = ''LINQ2'', ab_product = ''LINQ2'', ab_mqxVersion = ''4.2'', ab_atxVersion = ''2.00'',
     ab_sslVersion = ''3.9'', ab_webVersion = ''2.00'', ab_mfg = ''Altronix'', ab_user = ''admin'',
     ab_mac = ''0:0:0'', ab_sid = sid\<rparr>"

definition sample_summary :: js where
  "sample_summary = JObj [(''A1'', JObj [(''serial'', JStr ''A1''), (''uptime'', JNum 7)])]"

lemma parse_sample_summary: "json_parse (json_stringify sample_summary) = Inr sample_summary"
proof -
  have "json_norm sample_summary = sample_summary"
    by (simp add: sample_summary_def object_entries_no_index key_index_def Let_def is_digit_def
        digits_val_def digit_val_def nat_str.simps js_simps)
  moreover have "json_normal sample_summary"
    by (simp add: sample_summary_def max_safe_def)
  ultimately show ?thesis by (simp add: json_stringify_def json_roundtrip_normal)
qed

theorem devices_getter_witness:
  "\<exists>out. devices (json_stringify sample_summary)
            [(''A1'', JObj [(''sid'', JStr ''A1''), (''serial'', JStr ''A1'')])] = Inr out
         \<and> entry_of out ''A1'' ''sid'' = Some (JStr ''A1'') \<and> entry_of out ''A1'' ''uptime'' = Some (JNum 7)"
proof -
  let ?ds = "[(''A1'', JObj [(''sid'', JStr ''A1''), (''serial'', JStr ''A1'')])]"
  let ?sums = "[(''A1'', JObj [(''serial'', JStr ''A1''), (''uptime'', JNum 7)])]"
  have "json_parse (json_stringify sample_summary) = Inr (JObj ?sums)"
    using parse_sample_summary by (simp add: sample_summary_def)
  moreover have "keyed ?sums" "keyed ?ds" by (simp_all add: keyed_single)
  ultimately have "\<exists>out. devices (json_stringify sample_summary) ?ds = Inr out
      \<and> (\<forall>k. entry_of out k = entry_of ?ds k ++ entry_of ?sums k)"
    using devices_getter by blast
  then show ?thesis by (auto simp: entry_of_def)
qed

section \<open>The entry of an about response\<close>

lemma store_about_typed:
  assumes "json_parse text = Inr (JObj sums)" and "keyed sums" and "keyed ds"
  shows "\<exists>ds'. store_about text (event_js (EventAbout a (ab_sid a))) ds = Inr ds' \<and> keyed ds'
           \<and> entry_of ds' (ab_sid a) =
               map_of ((''type'', JStr ''new'') # (''serial'', JStr (ab_sid a)) # about_fields a)
               ++ entry_of sums (ab_sid a)
           \<and> (\<forall>k. k \<noteq> ab_sid a \<longrightarrow> map_of ds' k = map_of ds k)"
proof -
  let ?ev = "(''type'', JStr ''new'') # (''serial'', JStr (ab_sid a)) # about_fields a"
  have ev: "distinct (map fst ?ev)" "map_of ?ev ''sid'' = Some (JStr (ab_sid a))"
    "map_of ?ev ''serial'' = Some (JStr (ab_sid a))"
    by (simp_all add: about_fields_def)
  define ps where "ps = spread (spread [] (JObj ?ev))
     (case map_of sums (ab_sid a) of Some v \<Rightarrow> v | None \<Rightarrow> JObj [])"
  have ps: "distinct (map fst ps)" "map_of ps = map_of ?ev ++ entry_of sums (ab_sid a)"
    using keyed_entry [OF assms(2), of "ab_sid a"] ev(1)
    by (auto simp: ps_def distinct_spread map_of_spread entry_of_def split: option.split)
  have "map_of ps ''serial'' = Some (JStr (ab_sid a))"
    using keyed_entry [OF assms(2), of "ab_sid a"] ev(3)
    by (cases "map_of sums (ab_sid a)") (auto simp: ps(2) map_add_def entry_of_def)
  with ps(1) have ok: "entry_ok (ab_sid a) (JObj ps)" by (simp add: entry_ok_def)
  have "store_about text (event_js (EventAbout a (ab_sid a))) ds
      = Inr (AList.update (ab_sid a) (JObj ps) ds)"
    using keyed_entry [OF assms(2), of "ab_sid a"] ev
    by (auto simp: store_about_def assms(1) event_js_def Let_def ps_def split: option.split)
  with ok ps(2) assms(3) show ?thesis
    by (auto intro: keyed_intros)
qed

text \<open>
  A well-typed about response stores under its \<open>sid\<close> the decorated event's fields
  overridden by the native summary of that device, touches no other entry, and keeps the table
  well-formed.
\<close>

theorem store_about_entry:
  assumes "json_parse text = Inr (JObj sums)" and "keyed sums" and "keyed ds"
  shows "\<exists>ds'. store_about text (event_js (EventAbout a (ab_sid a))) ds = Inr ds' \<and> keyed ds'
           \<and> entry_of ds' (ab_sid a) =
               map_of ((''type'', JStr ''new'') # (''serial'', JStr (ab_sid a)) # about_fields a)
               ++ entry_of sums (ab_sid a)
           \<and> (\<forall>k. k \<noteq> ab_sid a \<longrightarrow> map_of ds' k = map_of ds k)"
  by (rule store_about_typed [OF assms])

lemma parse_summary:
  "json_parse (json_stringify sample_summary)
     = Inr (JObj [(''A1'', JObj [(''serial'', JStr ''A1''), (''uptime'', JNum 7)])])"
  by (simp add: parse_sample_summary) (simp add: sample_summary_def)

theorem store_about_entry_witness:
  "\<exists>ds'. store_about (json_stringify sample_summary)
            (event_js (EventAbout (sample_about ''A1'') ''A1'')) [] = Inr ds'
         \<and> entry_of ds' ''A1'' ''uptime'' = Some (JNum 7) \<and> map_of ds' ''B2'' = None"
proof -
  have "keyed [(''A1'', JObj [(''serial'', JStr ''A1''), (''uptime'', JNum 7)])]"
    by (simp add: keyed_single)
  from store_about_entry [OF parse_summary this keyed_Nil, of "sample_about ''A1''"]
  show ?thesis by (auto simp: entry_of_def sample_about_def)
qed


section \<open>Refreshing and removing\<close>

text \<open>
  Refreshing a known device merges the reported fields over its entry, leaves every other
  entry alone and keeps the table well-formed, as long as the report does not rename it.
\<close>

theorem refresh_known_device:
  assumes "get_prop response ''about'' = Inr (JObj about)" and "distinct (map fst about)"
    and "keyed ds" and "map_of ds serial \<noteq> None"
    and "map_of about ''serial'' \<in> {None, Some (JStr serial)}"
  shows "\<exists>ds'. store_refresh serial response ds = Inr (ds', JObj about) \<and> keyed ds'
           \<and> entry_of ds' serial = entry_of ds serial ++ map_of about
           \<and> (\<forall>k. k \<noteq> serial \<longrightarrow> map_of ds' k = map_of ds k)"
proof -
  define ps where "ps = spread (spread [] (dev_at ds serial)) (JObj about)"
  have ps: "distinct (map fst ps)" "map_of ps = entry_of ds serial ++ map_of about"
    using spread_nil_entry [OF assms(3), of serial] assms(2)
    by (simp_all add: ps_def distinct_spread map_of_spread)
  moreover have "map_of ps ''serial'' = Some (JStr serial)"
  proof -
    obtain v where "map_of ds serial = Some v" using assms(4) by blast
    from keyed_entry [OF assms(3) this] have "entry_of ds serial ''serial'' = Some (JStr serial)"
      by blast
    with assms(5) show ?thesis by (auto simp: ps(2) map_add_def)
  qed
  ultimately have "entry_ok serial (JObj ps)" by (simp add: entry_ok_def)
  then have "keyed (AList.update serial (JObj ps) ds)"
    using assms(3) by (auto intro: keyed_intros)
  with ps(2) show ?thesis by (simp add: store_refresh_def assms(1) ps_def)
qed

theorem refresh_known_device_witness:
  "\<exists>ds'. store_refresh ''A1'' (JObj [(''about'', JObj [(''uptime'', JNum 9)])])
            [(''A1'', JObj [(''serial'', JStr ''A1''), (''uptime'', JNum 7)])]
            = Inr (ds', JObj [(''uptime'', JNum 9)])
         \<and> entry_of ds' ''A1'' = [''serial'' \<mapsto> JStr ''A1'', ''uptime'' \<mapsto> JNum 9]"
  using refresh_known_device [of "JObj [(''about'', JObj [(''uptime'', JNum 9)])]"
      "[(''uptime'', JNum 9)]" "[(''A1'', JObj [(''serial'', JStr ''A1''), (''uptime'', JNum 7)])]"
      "''A1''"]
  by (auto simp: keyed_single entry_of_def fun_eq_iff map_add_def)


text \<open>
  Refreshing a device the table does not hold stores an entry without a \<open>serial\<close> (an about
  report has none), and the next \<open>devices\<close> files it under the key \<open>undefined\<close> instead of its
  serial number, unless the native summary knows it.
\<close>

theorem refresh_unknown_device_is_misfiled:
  assumes "json_parse text = Inr (JObj [])"
  shows "\<exists>ds out. store_refresh serial (about_response_js a) [] = Inr (ds, JObj (about_fields a))
           \<and> map_of ds serial \<noteq> None
           \<and> devices text ds = Inr out \<and> map_of out ''undefined'' \<noteq> None
           \<and> (serial \<noteq> ''undefined'' \<longrightarrow> map_of out serial = None)"
proof -
  have about: "object_entries (about_fields a) = about_fields a"
    by (rule object_entries_no_index) (simp add: about_fields_def key_index_nondigit is_digit_def)
  then have sp: "spread [] (JObj (about_fields a)) = about_fields a"
    by (simp add: spread_def put_all_fresh) (simp add: about_fields_def)
  let ?ds = "[(serial, JObj (about_fields a))]"
  have "store_refresh serial (about_response_js a) [] = Inr (?ds, JObj (about_fields a))"
    by (simp add: store_refresh_def about_response_js_def dev_at_def sp)
  moreover have "devices text ?ds = Inr [(''undefined'', JObj (about_fields a))]"
  proof -
    have "object_entries ?ds = ?ds" by (simp add: object_entries_def)
    moreover have "get_prop (JObj (about_fields a)) ''serial'' = Inr JUndef"
      by (simp add: about_fields_def)
    ultimately show ?thesis
      by (simp add: devices_def assms devices_of_def object_keys_def object_entries_def
          merge_device_def dev_at_def sp rekey_def spread_def [of "[(''undefined'', _)]"])
  qed
  ultimately show ?thesis by auto
qed

lemma parse_empty_summary: "json_parse (json_stringify (JObj [])) = Inr (JObj [])"
  using json_roundtrip_normal [of "JObj []"] by (simp add: json_stringify_def object_entries_def)

theorem refresh_unknown_device_is_misfiled_witness:
  "\<exists>ds out. store_refresh ''A1'' (about_response_js (sample_about ''A1'')) []
              = Inr (ds, JObj (about_fields (sample_about ''A1'')))
           \<and> devices (json_stringify (JObj [])) ds = Inr out \<and> map_of out ''A1'' = None"
  using refresh_unknown_device_is_misfiled [OF parse_empty_summary, of "''A1''" "sample_about ''A1''"]
  by auto


text \<open>
  After \<open>remove\<close> the table has no entry for the device, every other entry is as before, and
  a native summary without the device does not bring it back.
\<close>

theorem remove_forgets_device:
  assumes "keyed ds" and "json_parse text = Inr (JObj sums)" and "keyed sums"
    and "map_of sums sid = None"
  shows "map_of (remove_device sid ds) = (map_of ds)(sid := None) \<and> keyed (remove_device sid ds)
         \<and> (\<exists>out. devices text (remove_device sid ds) = Inr out \<and> map_of out sid = None)"
proof -
  have look: "map_of (remove_device sid ds) = (map_of ds)(sid := None)"
    using keyed_entry [OF assms(1), of sid]
    by (cases "map_of ds sid") (auto simp: remove_device_def dev_at_def)
  have k: "keyed (remove_device sid ds)"
    using assms(1) by (auto simp: remove_device_def intro: keyed_intros)
  from devices_of_merged [OF this assms(3)] obtain out where
    "devices_of (JObj sums) (remove_device sid ds) = Inr out"
    "merged (remove_device sid ds) sums out" by blast
  moreover from this(2) have "map_of out sid = None"
    using look assms(4) unfolding merged_def by (metis fun_upd_same)
  ultimately have "devices text (remove_device sid ds) = Inr out \<and> map_of out sid = None"
    by (simp add: devices_def assms(2))
  with look k show ?thesis by blast
qed

theorem remove_forgets_device_witness:
  "map_of (remove_device ''B2'' [(''A1'', JObj [(''serial'', JStr ''A1'')]),
                                 (''B2'', JObj [(''serial'', JStr ''B2'')])]) ''B2'' = None"
proof -
  have "keyed [(''A1'', JObj [(''serial'', JStr ''A1'')]), (''B2'', JObj [(''serial'', JStr ''B2'')])]"
    by (auto simp: keyed_iff entry_ok_def split: if_splits)
  from remove_forgets_device [OF this parse_empty_summary, of "''B2''"] show ?thesis by simp
qed

end
