(* ===== verification/Loop.thy ===== *)
theory Loop
  imports Types
begin

text \<open>
  The polling loop of the class \<open>Linq\<close> (\<open>run\<close>, \<open>tick\<close>, \<open>shutdown\<close> in \<open>Linq.ts\<close>): the fields
  of the instance it uses, and the parts of the JavaScript runtime it relies on (pending
  timeouts, settled promises). A timeout's callback calls \<open>netw.poll(ms)\<close>, during which the
  native library calls back into JavaScript; so one turn of the loop is two steps, the call
  of \<open>poll\<close> and its return, and anything may happen in between. The operations work on any
  extension of the record, so that the whole client uses them.
\<close>

section \<open>State and operations\<close>

record loop =
  running :: bool
  shutdownTimer :: "nat option"
  shutdownPromise :: "nat option"
  shutdownResolve :: "nat option"
  timers :: "(nat \<times> int) list"
  nextId :: nat
  resolved :: "nat list"
  inPoll :: "int option"
  calls :: "native_call list"

definition init_loop :: loop where
  "init_loop = \<lparr>running = True, shutdownTimer = None, shutdownPromise = None,
     shutdownResolve = None, timers = [], nextId = 0, resolved = [], inPoll = None, calls = []\<rparr>"

definition native :: "native_call \<Rightarrow> 'a loop_scheme \<Rightarrow> 'a loop_scheme" where
  "native c s = s\<lparr>calls := calls s @ [c]\<rparr>"

text \<open>\<open>self.shutdownTimer = setTimeout(callback, ms)\<close>: the body of the local function \<open>poll\<close>.\<close>

definition arm_timer :: "int \<Rightarrow> 'a loop_scheme \<Rightarrow> 'a loop_scheme" where
  "arm_timer ms s = s\<lparr>timers := timers s @ [(nextId s, ms)], shutdownTimer := Some (nextId s),
     nextId := Suc (nextId s)\<rparr>"

text \<open>\<open>run\<close>: the promise's executor runs before the promise is assigned.\<close>

definition run_loop :: "int \<Rightarrow> 'a loop_scheme \<Rightarrow> 'a loop_scheme" where
  "run_loop ms s =
     (let p = nextId s;
          s1 = arm_timer ms (s\<lparr>nextId := Suc p, shutdownResolve := Some p\<rparr>)
      in s1\<lparr>shutdownPromise := Some p\<rparr>)"

definition tick :: "int \<Rightarrow> 'a loop_scheme \<Rightarrow> 'a loop_scheme" where
  "tick ms s = run_loop ms s"

text \<open>\<open>this.shutdownResolve()\<close>: resolving a settled promise again does nothing.\<close>

definition resolve_shutdown :: "'a loop_scheme \<Rightarrow> 'a loop_scheme res" where
  "resolve_shutdown s =
     (case shutdownResolve s of
        None \<Rightarrow> Inl TypeError
      | Some p \<Rightarrow> Inr (if p \<in> set (resolved s) then s else s\<lparr>resolved := resolved s @ [p]\<rparr>))"

definition shutdown :: "'a loop_scheme \<Rightarrow> 'a loop_scheme res" where
  "shutdown s =
     (let s1 = s\<lparr>running := False\<rparr> in
      case shutdownTimer s1 of
        None \<Rightarrow> Inr s1
      | Some t \<Rightarrow>
          resolve_shutdown (native CEarlyDestruct
            (s1\<lparr>timers := filter (\<lambda>(t', _). t' \<noteq> t) (timers s1), shutdownTimer := None\<rparr>)))"

text \<open>A due timeout fires: its callback calls \<open>netw.poll(ms)\<close>.\<close>

definition timer_fire :: "nat \<Rightarrow> 'a loop_scheme \<Rightarrow> 'a loop_scheme option" where
  "timer_fire t s =
     (case (inPoll s, map_of (timers s) t) of
        (None, Some ms) \<Rightarrow>
          Some (native (CPoll ms)
            (s\<lparr>timers := filter (\<lambda>(t', _). t' \<noteq> t) (timers s), inPoll := Some ms\<rparr>))
      | _ \<Rightarrow> None)"

text \<open>
  \<open>poll\<close> returns and the callback goes on: \<open>native_running\<close> is the answer of
  \<open>netw.isRunning()\<close>.
\<close>

definition timer_return :: "bool \<Rightarrow> 'a loop_scheme \<Rightarrow> 'a loop_scheme res option" where
  "timer_return native_running s =
     (case inPoll s of
        None \<Rightarrow> None
      | Some ms \<Rightarrow>
          let s1 = s\<lparr>inPoll := None\<rparr> in
          Some (if native_running \<and> running s1 then Inr (arm_timer ms s1)
                else resolve_shutdown (native CEarlyDestruct (s1\<lparr>running := False\<rparr>))))"

section \<open>Steps\<close>

text \<open>One turn of a started loop, or a shutdown; then the same with further calls of \<open>run\<close>.\<close>

inductive turn :: "loop \<Rightarrow> loop \<Rightarrow> bool" where
  stop: "shutdown s = Inr s' \<Longrightarrow> turn s s'"
| fire: "timer_fire t s = Some s' \<Longrightarrow> turn s s'"
| return: "timer_return b s = Some (Inr s') \<Longrightarrow> turn s s'"

inductive_cases turnE: "turn s s'"

inductive turns :: "loop \<Rightarrow> loop \<Rightarrow> bool" where
  turns_refl: "turns s s"
| turns_step: "turns s s' \<Longrightarrow> turn s' s'' \<Longrightarrow> turns s s''"

text \<open>A client that calls \<open>run(ms)\<close> once, and one that calls it whenever it likes.\<close>

definition once :: "int \<Rightarrow> loop \<Rightarrow> bool" where
  "once ms s \<longleftrightarrow> turns (run_loop ms init_loop) s"

inductive anyhow :: "loop \<Rightarrow> bool" where
  anyhow_init: "anyhow init_loop"
| anyhow_run: "anyhow s \<Longrightarrow> anyhow (run_loop ms s)"
| anyhow_turn: "anyhow s \<Longrightarrow> turn s s' \<Longrightarrow> anyhow s'"

lemmas op_defs = run_loop_def arm_timer_def native_def resolve_shutdown_def shutdown_def
  timer_fire_def timer_return_def Let_def

section \<open>The client that runs once\<close>

text \<open>
  Its states: waiting for the timeout, inside \<open>poll\<close>, inside \<open>poll\<close> after a shutdown from
  within, stopped. The run's promise is number 0.
\<close>

datatype phase = Waiting | Polling | Leaving | Stopped

fun in_phase :: "int \<Rightarrow> phase \<Rightarrow> loop \<Rightarrow> bool" where
  "in_phase ms Waiting s =
     (running s \<and> inPoll s = None \<and> (\<exists>t. timers s = [(t, ms)] \<and> shutdownTimer s = Some t)
      \<and> CEarlyDestruct \<notin> set (calls s) \<and> resolved s = [])"
| "in_phase ms Polling s =
     (running s \<and> inPoll s = Some ms \<and> timers s = [] \<and> shutdownTimer s \<noteq> None
      \<and> CEarlyDestruct \<notin> set (calls s) \<and> resolved s = [])"
| "in_phase ms Leaving s =
     (\<not> running s \<and> inPoll s = Some ms \<and> timers s = []
      \<and> CEarlyDestruct \<in> set (calls s) \<and> resolved s = [0])"
| "in_phase ms Stopped s =
     (\<not> running s \<and> inPoll s = None \<and> timers s = []
      \<and> CEarlyDestruct \<in> set (calls s) \<and> resolved s = [0])"

fun no_poll_after_destroy :: "native_call list \<Rightarrow> bool" where
  "no_poll_after_destroy [] = True"
| "no_poll_after_destroy (c # cs) =
     ((c = CEarlyDestruct \<longrightarrow> (\<forall>ms. CPoll ms \<notin> set cs)) \<and> no_poll_after_destroy cs)"

lemma no_poll_after_destroy_snoc:
  "no_poll_after_destroy (cs @ [c]) \<longleftrightarrow>
     no_poll_after_destroy cs \<and> (CEarlyDestruct \<in> set cs \<longrightarrow> (\<forall>ms. c \<noteq> CPoll ms))"
  by (induction cs) auto

definition once_inv :: "int \<Rightarrow> loop \<Rightarrow> bool" where
  "once_inv ms s \<longleftrightarrow> (\<exists>ph. in_phase ms ph s) \<and> shutdownResolve s = Some 0
     \<and> shutdownPromise s = Some 0 \<and> no_poll_after_destroy (calls s)"

lemma once_inv_init: "once_inv ms (run_loop ms init_loop)"
  unfolding once_inv_def
  by (intro conjI exI [of _ Waiting]) (simp_all add: op_defs init_loop_def)

lemma phase_turn:
  assumes "in_phase ms ph s" "shutdownResolve s = Some 0" "turn s s'"
  shows "\<exists>ph'. in_phase ms ph' s'
           \<and> (ph', ph) \<in> {(Polling, Waiting), (Stopped, Waiting), (Waiting, Polling),
                (Leaving, Polling), (Stopped, Polling), (Leaving, Leaving),
                (Stopped, Leaving), (Stopped, Stopped)}"
  using assms(3)
proof (cases rule: turn.cases)
  case stop
  with assms(1,2) show ?thesis
    by (cases ph; force simp: op_defs split: option.splits if_splits)
next
  case (fire t)
  with assms(1,2) show ?thesis
    by (cases ph; force simp: op_defs split: option.splits if_splits)
next
  case (return b)
  with assms(1,2) show ?thesis
    by (cases ph; force simp: op_defs split: option.splits if_splits)
qed

lemma once_inv_turn:
  assumes "once_inv ms s" "turn s s'"
  shows "once_inv ms s'"
proof -
  from assms(1) obtain ph where ph: "in_phase ms ph s" and r: "shutdownResolve s = Some 0"
    and p: "shutdownPromise s = Some 0" and safe: "no_poll_after_destroy (calls s)"
    by (auto simp: once_inv_def)
  from phase_turn [OF ph r assms(2)] have "\<exists>ph'. in_phase ms ph' s'" by blast
  moreover from assms(2) r have "shutdownResolve s' = Some 0"
    by cases (auto simp: op_defs split: option.splits if_splits)
  moreover from assms(2) p have "shutdownPromise s' = Some 0"
    by cases (auto simp: op_defs split: option.splits if_splits)
  moreover have "no_poll_after_destroy (calls s')"
    using assms(2)
  proof (cases rule: turn.cases)
    case stop
    with safe r show ?thesis
      by (auto simp: op_defs no_poll_after_destroy_snoc split: option.splits if_splits)
  next
    case (fire t)
    with ph have "CEarlyDestruct \<notin> set (calls s)"
      by (cases ph) (auto simp: op_defs split: option.splits)
    with fire safe show ?thesis
      by (auto simp: op_defs no_poll_after_destroy_snoc split: option.splits if_splits)
  next
    case (return b)
    with safe r show ?thesis
      by (auto simp: op_defs no_poll_after_destroy_snoc split: option.splits if_splits)
  qed
  ultimately show ?thesis by (simp add: once_inv_def)
qed

lemma turns_inv: "turns s s' \<Longrightarrow> once_inv ms s \<Longrightarrow> once_inv ms s'"
  by (induction rule: turns.induct) (auto intro: once_inv_turn)

lemma once_once_inv: "once ms s \<Longrightarrow> once_inv ms s"
  unfolding once_def using once_inv_init turns_inv by blast

lemma once_phase: "once ms s \<Longrightarrow> \<exists>ph. in_phase ms ph s"
  using once_once_inv once_inv_def by blast

lemma once_turn: "once ms s \<Longrightarrow> turn s s' \<Longrightarrow> once ms s'"
  unfolding once_def by (rule turns_step)

lemma once_start: "once ms (run_loop ms init_loop)"
  unfolding once_def by (rule turns_refl)

text \<open>The states a witness below walks through: the start, one poll, a shutdown within it.\<close>

definition polled :: "int \<Rightarrow> loop" where
  "polled ms = (run_loop ms init_loop)\<lparr>timers := [], inPoll := Some ms, calls := [CPoll ms]\<rparr>"

lemma polled_fire: "timer_fire 1 (run_loop ms init_loop) = Some (polled ms)"
  by (simp add: polled_def op_defs init_loop_def)

lemma once_polled: "once ms (polled ms)"
  using once_turn once_start turn.fire polled_fire by blast

definition left :: "int \<Rightarrow> loop" where
  "left ms = (polled ms)\<lparr>running := False, shutdownTimer := None, resolved := [0],
     calls := [CPoll ms, CEarlyDestruct]\<rparr>"

lemma left_shutdown: "shutdown (polled ms) = Inr (left ms)"
  by (simp add: left_def polled_def op_defs init_loop_def)

lemma once_left: "once ms (left ms)"
  using once_turn once_polled turn.stop left_shutdown by blast

text \<open>
  C12. A client that calls \<open>run\<close> once never polls the native library after having released it
  with \<open>earlyDestruct\<close>, whatever the order of timeouts, returns and shutdowns.
\<close>

theorem run_once_no_poll_after_destroy:
  assumes "once ms s"
  shows "no_poll_after_destroy (calls s)"
  using once_once_inv [OF assms] by (simp add: once_inv_def)

theorem run_once_no_poll_after_destroy_witness:
  "no_poll_after_destroy [CPoll 5, CEarlyDestruct]"
  using run_once_no_poll_after_destroy [OF once_left [of 5]] by (simp add: left_def)

text \<open>
  Such a client has at most one timeout pending, polls at the period it asked for, and its
  promise is settled exactly when the library has been released.
\<close>

theorem run_once_single_timer:
  assumes "once ms s"
  shows "length (timers s) \<le> 1 \<and> (timers s \<noteq> [] \<longrightarrow> inPoll s = None \<and> running s)
         \<and> (\<forall>(t, m) \<in> set (timers s). m = ms \<and> shutdownTimer s = Some t)
         \<and> (0 \<in> set (resolved s) \<longleftrightarrow> CEarlyDestruct \<in> set (calls s))
         \<and> (running s \<longleftrightarrow> CEarlyDestruct \<notin> set (calls s))"
proof -
  from once_phase [OF assms] obtain ph where "in_phase ms ph s" ..
  then show ?thesis by (cases ph) auto
qed

theorem run_once_single_timer_witness:
  "length (timers (polled 5)) \<le> 1 \<and> (0 \<in> set (resolved (polled 5)) \<longleftrightarrow>
     CEarlyDestruct \<in> set (calls (polled 5)))"
  using run_once_single_timer [OF once_polled [of 5]] by blast

text \<open>
  C13. Progress: unless the loop has stopped, it can go on. A waiting loop's timeout can fire, a
  poll can return whatever the native side answers, and where it answers that it has shut
  down, or the client has, the return stops the loop for good: it clears every timeout,
  releases the library and settles the promise.
\<close>

theorem run_once_progress:
  assumes "once ms s"
  shows "(timers s = [] \<and> inPoll s = None \<and> 0 \<in> set (resolved s))
         \<or> (\<exists>t s'. timer_fire t s = Some s' \<and> inPoll s' = Some ms)
         \<or> (\<forall>b. \<exists>s'. timer_return b s = Some (Inr s') \<and>
              (if b \<and> running s then timers s' \<noteq> [] else
                 timers s' = [] \<and> inPoll s' = None \<and> 0 \<in> set (resolved s')
                 \<and> \<not> running s' \<and> last (calls s') = CEarlyDestruct))"
proof -
  from once_once_inv [OF assms] obtain ph where "in_phase ms ph s" "shutdownResolve s = Some 0"
    by (auto simp: once_inv_def)
  then show ?thesis by (cases ph) (auto simp: op_defs split: option.splits)
qed

theorem run_once_progress_witness:
  "\<forall>b. \<exists>s'. timer_return b (polled 5) = Some (Inr s')"
  using run_once_progress [OF once_polled [of 5]]
  by (auto simp: polled_def timer_fire_def)

lemma stopping_turns:
  assumes "turns s s'" "once ms s" "\<not> running s"
  shows "once ms s' \<and> \<not> running s'
         \<and> filter (\<lambda>c. c \<noteq> CEarlyDestruct) (calls s') = filter (\<lambda>c. c \<noteq> CEarlyDestruct) (calls s)"
  using assms
proof (induction rule: turns.induct)
  case (turns_step s s' s'')
  then have IH: "once ms s'" "\<not> running s'"
    "filter (\<lambda>c. c \<noteq> CEarlyDestruct) (calls s') = filter (\<lambda>c. c \<noteq> CEarlyDestruct) (calls s)"
    by auto
  from once_phase [OF IH(1)] IH(2) have "timers s' = []"
    by (metis in_phase.simps phase.exhaust)
  with turns_step.hyps(2) IH(2,3) have "\<not> running s'' \<and>
    filter (\<lambda>c. c \<noteq> CEarlyDestruct) (calls s'') = filter (\<lambda>c. c \<noteq> CEarlyDestruct) (calls s)"
    by cases (auto simp: op_defs split: option.splits if_splits)
  with IH(1) turns_step.hyps(2) show ?case by (blast intro: once_turn)
qed simp

text \<open>
  A shutdown is final: once the client has stopped running, no later turn polls the native
  library again, and the client does not start running again.
\<close>

theorem shutdown_is_final:
  assumes "once ms s" and "shutdown s = Inr s'" and "turns s' s''"
  shows "\<not> running s'' \<and> filter (\<lambda>c. \<exists>m. c = CPoll m) (calls s'')
                          = filter (\<lambda>c. \<exists>m. c = CPoll m) (calls s)"
proof -
  have "once ms s'" using assms(1,2) by (blast intro: once_turn turn.stop)
  moreover have "\<not> running s'" and polls: "filter (\<lambda>c. \<exists>m. c = CPoll m) (calls s')
      = filter (\<lambda>c. \<exists>m. c = CPoll m) (calls s)"
    using assms(2) by (auto simp: op_defs split: option.splits if_splits)
  ultimately have "\<not> running s''" and
    "filter (\<lambda>c. c \<noteq> CEarlyDestruct) (calls s'') = filter (\<lambda>c. c \<noteq> CEarlyDestruct) (calls s')"
    using stopping_turns [OF assms(3)] by blast+
  moreover have only_polls: "filter (\<lambda>c. \<exists>m. c = CPoll m) (filter (\<lambda>c. c \<noteq> CEarlyDestruct) cs)
      = filter (\<lambda>c. \<exists>m. c = CPoll m) cs" for cs
    by (induction cs) auto
  ultimately have "filter (\<lambda>c. \<exists>m. c = CPoll m) (calls s'')
      = filter (\<lambda>c. \<exists>m. c = CPoll m) (calls s')"
    using only_polls [of "calls s'"] only_polls [of "calls s''"] by simp
  with \<open>\<not> running s''\<close> show ?thesis using polls by simp
qed

theorem shutdown_is_final_witness:
  "\<not> running (left 5) \<and> filter (\<lambda>c. \<exists>m. c = CPoll m) (calls (left 5)) = [CPoll 5]"
  using shutdown_is_final [OF once_polled [of 5] left_shutdown turns_refl]
  by (simp add: polled_def)

section \<open>Any client\<close>

definition any_inv :: "loop \<Rightarrow> bool" where
  "any_inv s \<longleftrightarrow> (shutdownTimer s \<noteq> None \<or> inPoll s \<noteq> None \<or> timers s \<noteq> [] \<longrightarrow>
                    shutdownResolve s \<noteq> None)"

lemma anyhow_inv: "anyhow s \<Longrightarrow> any_inv s"
proof (induction rule: anyhow.induct)
  case anyhow_init
  show ?case by (simp add: any_inv_def init_loop_def)
next
  case (anyhow_run s ms)
  show ?case by (simp add: any_inv_def op_defs)
next
  case (anyhow_turn s s')
  from anyhow_turn.hyps(2) anyhow_turn.IH show ?case
    by cases (auto simp: any_inv_def op_defs split: option.splits if_splits)
qed

text \<open>
  The resolver is always there when it is called: neither \<open>shutdown\<close> nor the return from
  \<open>poll\<close> throws, however often and whenever the client calls \<open>run\<close> and \<open>shutdown\<close>.
\<close>

theorem loop_never_throws:
  assumes "anyhow s"
  shows "(\<exists>s'. shutdown s = Inr s') \<and> (inPoll s \<noteq> None \<longrightarrow> (\<exists>s'. timer_return b s = Some (Inr s')))"
  using anyhow_inv [OF assms]
  by (auto simp: any_inv_def op_defs split: option.splits)

theorem loop_never_throws_witness:
  "\<exists>s'. shutdown (run_loop 2 (run_loop 1 init_loop)) = Inr s'"
  using loop_never_throws [OF anyhow_run [OF anyhow_run [OF anyhow_init]], of 2 1] by blast

text \<open>
  A client that calls \<open>run\<close> twice: \<open>shutdown\<close> clears the timeout of the second loop only.
  The first loop's timeout survives it, and when it fires the library is polled after it has
  been released.
\<close>

theorem run_twice_polls_after_destroy:
  "\<exists>s1 s2. shutdown (run_loop n (run_loop m init_loop)) = Inr s1
     \<and> anyhow s1 \<and> timers s1 = [(1, m)]
     \<and> timer_fire 1 s1 = Some s2 \<and> calls s2 = [CEarlyDestruct, CPoll m]
     \<and> \<not> no_poll_after_destroy (calls s2)"
proof -
  let ?s = "run_loop n (run_loop m init_loop)"
  obtain s1 where s1: "shutdown ?s = Inr s1" "timers s1 = [(1, m)]" "inPoll s1 = None"
    "calls s1 = [CEarlyDestruct]"
    by (simp add: op_defs init_loop_def)
  have "anyhow s1"
    by (rule anyhow_turn [OF anyhow_run [OF anyhow_run [OF anyhow_init]] turn.stop [OF s1(1)]])
  with s1 show ?thesis by (simp add: timer_fire_def native_def)
qed

text \<open>
  \<open>shutdown\<close> called from a callback, while the library is inside \<open>poll\<close>, releases the
  library under the running call, and the return from that call releases it a second time.
\<close>

theorem shutdown_inside_poll_destroys_twice:
  "\<exists>s1 s2. once ms (polled ms) \<and> inPoll (polled ms) = Some ms
     \<and> shutdown (polled ms) = Inr s1 \<and> inPoll s1 = Some ms \<and> calls s1 = [CPoll ms, CEarlyDestruct]
     \<and> timer_return b s1 = Some (Inr s2) \<and> calls s2 = [CPoll ms, CEarlyDestruct, CEarlyDestruct]"
proof (intro exI conjI)
  show "shutdown (polled ms) = Inr (left ms)" by (rule left_shutdown)
  show "timer_return b (left ms) = Some (Inr ((left ms)\<lparr>inPoll := None,
      calls := [CPoll ms, CEarlyDestruct, CEarlyDestruct]\<rparr>))"
    by (simp add: left_def polled_def op_defs init_loop_def)
  show "once ms (polled ms)" by (rule once_polled)
qed (simp_all add: left_def polled_def)

text \<open>
  The flag \<open>running\<close> is never set again: after a shutdown a new \<open>run\<close> polls once, on the
  released library, and stops there, even where the native side reports that it is running.
\<close>

theorem run_after_shutdown_stops:
  assumes "anyhow s" and "\<not> running s" and "inPoll s = None" and "timers s = []"
  shows "\<exists>s1 s2. timer_fire (Suc (nextId s)) (run_loop ms s) = Some s1
           \<and> calls s1 = calls s @ [CPoll ms]
           \<and> timer_return True s1 = Some (Inr s2) \<and> timers s2 = [] \<and> inPoll s2 = None
           \<and> \<not> running s2 \<and> nextId s \<in> set (resolved s2)"
  using assms by (simp add: op_defs)

theorem run_after_shutdown_stops_witness:
  "\<exists>s1 s2. timer_fire 1 (run_loop 7 (init_loop\<lparr>running := False\<rparr>)) = Some s1
     \<and> timer_return True s1 = Some (Inr s2) \<and> timers s2 = []"
proof -
  have "shutdown init_loop = Inr (init_loop\<lparr>running := False\<rparr>)"
    by (simp add: op_defs init_loop_def)
  then have "anyhow (init_loop\<lparr>running := False\<rparr>)"
    by (blast intro: anyhow_turn anyhow_init turn.stop)
  from run_after_shutdown_stops [OF this, of 7] show ?thesis
    by (auto simp: init_loop_def)
qed

end
