(* ===== verification/Update.thy ===== *)
theory Update
  imports Types
begin

text \<open>
  \<open>bindings/node/lib/src/update.ts\<close>: the run-time validation of update packets and of a
  dashboard update (two files of packets), and the flattening of a dashboard into one list
  of packets. Each function keeps the source's order of tests and its throws: \<open>hasProp\<close> on
  \<open>null\<close>, a property read on \<open>null\<close>, spreading what is not iterable.
\<close>

section \<open>The functions\<close>

definition hasProp :: "js \<Rightarrow> string \<Rightarrow> bool res" where
  "hasProp a key = has_own a key"

text \<open>\<open>d.k === v\<close> and \<open>typeof d.k === t\<close>.\<close>

definition prop_is :: "js \<Rightarrow> string \<Rightarrow> (js \<Rightarrow> bool) \<Rightarrow> bool res" where
  "prop_is d k p = andThen (get_prop d k) (\<lambda>x. Inr (p x))"

definition isUpdate :: "js \<Rightarrow> bool res" where
  "isUpdate d =
     and_also (hasProp d ''type'')
    (and_also (prop_is d ''type'' (\<lambda>t. t = JStr ''firmware'' \<or> t = JStr ''website''))
    (and_also (hasProp d ''size'')
    (and_also (prop_is d ''size'' (\<lambda>x. typeof x = ''number''))
    (and_also (hasProp d ''offset'')
    (and_also (prop_is d ''offset'' (\<lambda>x. typeof x = ''number''))
    (and_also (hasProp d ''payload'')
    (and_also (prop_is d ''payload'' (\<lambda>x. typeof x = ''string''))
    (and_also (hasProp d ''md5'')
              (prop_is d ''md5'' (\<lambda>x. typeof x = ''string''))))))))))"

definition isUpdateArray :: "js \<Rightarrow> bool res" where
  "isUpdateArray u =
     (case u of
        JArr xs \<Rightarrow> andThen (filter_res isUpdate xs) (\<lambda>ys. Inr (length xs = length ys))
      | _ \<Rightarrow> Inr False)"

text \<open>The callback of the dashboard test, with the value its \<open>&&\<close> chain evaluates to.\<close>

definition dashboard_file :: "js \<Rightarrow> js res" where
  "dashboard_file f =
     andThen (get_prop f ''update'') (\<lambda>u.
       if \<not> truthy u then Inr u
       else case u of
              JArr xs \<Rightarrow>
                if xs = [] then Inr (JNum 0)
                else andThen (filter_res isUpdate xs) (\<lambda>ys. Inr (JBool (length xs = length ys)))
            | _ \<Rightarrow> Inr (JBool False))"

definition isUpdateDashboard :: "js \<Rightarrow> js res" where
  "isUpdateDashboard update =
     andThen (get_prop update ''files'') (\<lambda>files.
       if \<not> truthy files then Inr files
       else case files of
              JArr fs \<Rightarrow>
                andThen (filter_res (\<lambda>f. andThen (dashboard_file f) (\<lambda>r. Inr (truthy r))) fs)
                  (\<lambda>good. Inr (JBool (length good = 2)))
            | _ \<Rightarrow> Inr (JBool False))"

text \<open>What spreading a value into an array literal yields: only iterables can be spread.\<close>

fun iterate :: "js \<Rightarrow> js list res" where
  "iterate (JArr xs) = Inr xs"
| "iterate (JStr s) = Inr (map (\<lambda>c. JStr [c]) s)"
| "iterate _ = Inl TypeError"

definition file_packets :: "js \<Rightarrow> string \<Rightarrow> js list res" where
  "file_packets update i =
     andThen (get_prop update ''files'') (\<lambda>files.
     andThen (get_prop files i) (\<lambda>f.
     andThen (get_prop f ''update'') iterate))"

definition normalizeUpdateDashboard :: "js \<Rightarrow> js list res" where
  "normalizeUpdateDashboard update =
     andThen (file_packets update ''0'') (\<lambda>xs.
     andThen (file_packets update ''1'') (\<lambda>ys. Inr (xs @ ys)))"

section \<open>What the validation accepts\<close>

text \<open>The shape of a packet: the five properties with their run-time types.\<close>

definition packet_shape :: "js \<Rightarrow> bool" where
  "packet_shape d \<longleftrightarrow>
     (\<exists>t n m p h. own_prop d ''type'' = Some (JStr (update_type_str t))
        \<and> own_prop d ''size'' = Some (JNum n) \<and> own_prop d ''offset'' = Some (JNum m)
        \<and> own_prop d ''payload'' = Some (JStr p) \<and> own_prop d ''md5'' = Some (JStr h))"

definition plain_object :: "js \<Rightarrow> bool" where
  "plain_object d \<longleftrightarrow> is_object d \<and> own_prop d ''hasOwnProperty'' = None"

lemma update_type_str_iff:
  "(\<exists>t. s = update_type_str t) \<longleftrightarrow> s = ''firmware'' \<or> s = ''website''"
  by (metis update_type.exhaust update_type_str.simps)

text \<open>On an object that does not hide the method, a presence test and a test of the value are
  one test of the property.\<close>

definition field_is :: "jsobj \<Rightarrow> string \<Rightarrow> (js \<Rightarrow> bool) \<Rightarrow> bool" where
  "field_is ps k p = (case map_of ps k of Some x \<Rightarrow> p x | None \<Rightarrow> False)"

lemma tested_field:
  assumes "map_of ps ''hasOwnProperty'' = None"
  shows "and_also (hasProp (JObj ps) k) (and_also (prop_is (JObj ps) k p) r)
           = and_also (Inr (field_is ps k p)) r"
    and "and_also (hasProp (JObj ps) k) (prop_is (JObj ps) k p) = Inr (field_is ps k p)"
  using assms by (simp_all add: hasProp_def prop_is_def field_is_def split: option.split)

lemma field_is_typed:
  "field_is ps k (\<lambda>x. typeof x = ''number'') \<longleftrightarrow> (\<exists>n. map_of ps k = Some (JNum n))"
  "field_is ps k (\<lambda>x. typeof x = ''string'') \<longleftrightarrow> (\<exists>s. map_of ps k = Some (JStr s))"
  "field_is ps k (\<lambda>t. t = JStr ''firmware'' \<or> t = JStr ''website'') \<longleftrightarrow>
     (\<exists>t. map_of ps k = Some (JStr (update_type_str t)))"
proof -
  have "(\<exists>t. x = JStr (update_type_str t)) \<longleftrightarrow> x = JStr ''firmware'' \<or> x = JStr ''website''" for x
    by (metis update_type.exhaust update_type_str.simps)
  then show "field_is ps k (\<lambda>t. t = JStr ''firmware'' \<or> t = JStr ''website'') \<longleftrightarrow>
     (\<exists>t. map_of ps k = Some (JStr (update_type_str t)))"
    by (cases "map_of ps k") (simp_all add: field_is_def)
qed (auto simp: field_is_def typeof_number_iff typeof_string_iff split: option.split)

lemma isUpdate_object:
  assumes "map_of ps ''hasOwnProperty'' = None"
  shows "isUpdate (JObj ps) = Inr (packet_shape (JObj ps))"
  using assms
  by (simp add: isUpdate_def tested_field field_is_typed packet_shape_def conj_assoc del: has_own_simps)

lemma isUpdate_plain: "plain_object d \<Longrightarrow> isUpdate d = Inr (packet_shape d)"
  by (auto simp: plain_object_def is_object_iff isUpdate_object)

lemma update_js_shape [simp]: "packet_shape (update_js u)" "plain_object (update_js u)"
  by (auto simp: packet_shape_def plain_object_def update_js_def)

lemma isUpdate_update_js [simp]: "isUpdate (update_js u) = Inr True"
  by (simp add: isUpdate_plain)

section \<open>Packets\<close>

lemma tested_sound:
  assumes "hasProp d k = Inr True" and "prop_is d k p = Inr True"
  shows "\<exists>x. own_prop d k = Some x \<and> p x"
proof -
  obtain x where "own_prop d k = Some x" "get_prop d k = Inr x"
    using has_own_get assms(1) unfolding hasProp_def by blast
  with assms(2) show ?thesis by (simp add: prop_is_def)
qed

text \<open>
  C18. A value of any shape that \<open>isUpdate\<close> accepts carries the five properties of an update
  packet, each with the type the interface \<open>Update\<close> declares.
\<close>

theorem isUpdate_sound: "isUpdate d = Inr True \<Longrightarrow> packet_shape d"
proof -
  assume ok: "isUpdate d = Inr True"
  have field: "\<exists>x. own_prop d k = Some x \<and> p x"
    if "hasProp d k = Inr True" "prop_is d k p = Inr True" for k p
    using that by (rule tested_sound)
  note parts = ok [unfolded isUpdate_def and_also_True]
  obtain t where "own_prop d ''type'' = Some t" "t = JStr ''firmware'' \<or> t = JStr ''website''"
    using field [of "''type''"] parts by blast
  moreover obtain n where "own_prop d ''size'' = Some (JNum n)"
    using field [of "''size''"] parts unfolding typeof_number_iff by blast
  moreover obtain m where "own_prop d ''offset'' = Some (JNum m)"
    using field [of "''offset''"] parts unfolding typeof_number_iff by blast
  moreover obtain p where "own_prop d ''payload'' = Some (JStr p)"
    using field [of "''payload''"] parts unfolding typeof_string_iff by blast
  moreover obtain h where "own_prop d ''md5'' = Some (JStr h)"
    using field [of "''md5''"] parts unfolding typeof_string_iff by blast
  ultimately show ?thesis unfolding packet_shape_def
    by (metis update_type_str.simps)
qed

theorem isUpdate_sound_witness:
  "packet_shape (JObj [(''md5'', JStr ''d4''), (''type'', JStr ''website''), (''size'', JNum 3),
                       (''offset'', JNum 0), (''payload'', JStr ''abc''), (''extra'', JNull)])"
  by (rule isUpdate_sound) (simp add: isUpdate_def hasProp_def prop_is_def)

text \<open>
  When \<open>isUpdate\<close> throws and when it does not: exactly on \<open>undefined\<close>, on \<open>null\<close> and on a
  value with an own property named \<open>hasOwnProperty\<close> (which parsed JSON can have). Every other
  value gets an answer.
\<close>

theorem isUpdate_throws_iff:
  "isUpdate d = Inl e \<longleftrightarrow>
     e = TypeError \<and> (d = JUndef \<or> d = JNull \<or> own_prop d ''hasOwnProperty'' \<noteq> None)"
proof (cases "d = JUndef \<or> d = JNull \<or> own_prop d ''hasOwnProperty'' \<noteq> None")
  case True
  then have "hasProp d ''type'' = Inl TypeError"
    by (cases d) (auto simp: hasProp_def has_own_def)
  with True show ?thesis by (auto simp: isUpdate_def)
next
  case False
  then have h: "hasProp d k = Inr (own_prop d k \<noteq> None)" for k
    by (cases d) (auto simp: hasProp_def has_own_def)
  have "\<exists>b. prop_is d k p = Inr b" for k p
    using get_prop_no_throw [of d k] False by (auto simp: prop_is_def)
  then have "\<exists>b. and_also (hasProp d k) (and_also (prop_is d k p) (Inr r)) = Inr b"
    and "\<exists>b. and_also (hasProp d k) (prop_is d k p) = Inr b" for k p r
    unfolding h by (metis and_also_Inr)+
  then have "\<exists>b. isUpdate d = Inr b"
    unfolding isUpdate_def by metis
  with False show ?thesis by auto
qed

theorem isUpdate_throws_iff_witness:
  "isUpdate JNull = Inl TypeError \<and> isUpdate (JObj [(''hasOwnProperty'', JNum 1)]) = Inl TypeError
   \<and> isUpdate (JNum 3) \<noteq> Inl TypeError"
  by (simp add: isUpdate_throws_iff)

lemma isUpdate_update_packets: "filter_res isUpdate (map update_js us) = Inr (map update_js us)"
  by (induction us) simp_all

section \<open>Dashboards\<close>

lemma dashboard_file_packets:
  "dashboard_file (JObj [(''update'', JArr (map update_js us))]) =
     Inr (if us = [] then JNum 0 else JBool True)"
  by (simp add: dashboard_file_def isUpdate_update_packets)

lemma dashboard_file_true:
  assumes pass: "andThen (dashboard_file f) (\<lambda>r. Inr (truthy r)) = Inr True"
  shows "\<exists>xs. get_prop f ''update'' = Inr (JArr xs) \<and> xs \<noteq> [] \<and> (\<forall>x \<in> set xs. isUpdate x = Inr True)"
proof -
  from pass obtain r where assms: "dashboard_file f = Inr r" "truthy r"
    by (auto simp: andThen_eq_Inr)
  obtain u where u: "get_prop f ''update'' = Inr u"
    using assms(1) by (auto simp: dashboard_file_def andThen_eq_Inr)
  with assms obtain xs where xs: "u = JArr xs" "xs \<noteq> []"
    by (cases u) (auto simp: dashboard_file_def split: if_splits)
  with u assms obtain ys where ys: "filter_res isUpdate xs = Inr ys" "length xs = length ys"
    by (auto simp: dashboard_file_def andThen_eq_Inr)
  from filter_res_filter [OF ys(1)] ys(2) have "\<forall>x \<in> set xs. isUpdate x = Inr True"
    by (simp add: filter_full_iff)
  with u xs show ?thesis by blast
qed

lemma dashboard_accepted:
  "isUpdateDashboard (dashboard_js d) = Inr (JBool (dash_first d \<noteq> [] \<and> dash_second d \<noteq> []))"
  by (simp add: isUpdateDashboard_def dashboard_js_def dashboard_file_packets)

lemma dashboard_flat:
  "normalizeUpdateDashboard (dashboard_js d) = Inr (map update_js (dash_first d @ dash_second d))"
  by (simp add: dashboard_js_def file_packets_def
      normalizeUpdateDashboard_def get_prop_def key_index_def digits_val_def digit_val_def
      is_digit_def nat_str.simps js_simps)

text \<open>
  The validator decides well-typed dashboards (it accepts exactly when both files have
  packets), and flattening one yields the packets of the first file and then those of the
  second, in order.
\<close>

theorem dashboard_roundtrip:
  "isUpdateDashboard (dashboard_js d) = Inr (JBool (dash_first d \<noteq> [] \<and> dash_second d \<noteq> []))
   \<and> normalizeUpdateDashboard (dashboard_js d)
       = Inr (map update_js (dash_first d @ dash_second d))"
  by (simp add: dashboard_accepted dashboard_flat)

lemma array_items:
  "get_prop (JArr (f # fs)) ''0'' = Inr f"
  "get_prop (JArr (f # f' # fs)) ''1'' = Inr f'"
  by (simp_all add: get_prop_def key_index_def digits_val_def digit_val_def
      is_digit_def nat_str.simps js_simps)

text \<open>
  A dashboard with two files that passes the validation flattens without an exception into
  a list that starts with the first file's packets, ends with the second's, has packets from
  both, and holds nothing but values \<open>isUpdate\<close> accepts.
\<close>

theorem dashboard_two_files_safe:
  assumes files: "get_prop update ''files'' = Inr (JArr [f, g])"
    and ok: "isUpdateDashboard update = Inr (JBool True)"
  shows "\<exists>xs ys. normalizeUpdateDashboard update = Inr (xs @ ys)
           \<and> get_prop f ''update'' = Inr (JArr xs) \<and> get_prop g ''update'' = Inr (JArr ys)
           \<and> xs \<noteq> [] \<and> ys \<noteq> [] \<and> (\<forall>x \<in> set (xs @ ys). isUpdate x = Inr True)"
proof -
  let ?p = "\<lambda>f. andThen (dashboard_file f) (\<lambda>r. Inr (truthy r))"
  obtain good where good: "filter_res ?p [f, g] = Inr good" "length good = 2"
    using files ok by (auto simp: isUpdateDashboard_def andThen_eq_Inr simp del: filter_res.simps)
  from filter_res_filter [OF good(1)] good(2)
  have "length [f, g] = length (filter (\<lambda>x. ?p x = Inr True) [f, g])" by simp
  then have "\<forall>x \<in> set [f, g]. ?p x = Inr True" unfolding filter_full_iff .
  then have "?p f = Inr True" "?p g = Inr True" by simp_all
  from dashboard_file_true [OF this(1)] dashboard_file_true [OF this(2)] obtain xs ys where
    f: "get_prop f ''update'' = Inr (JArr xs)" "xs \<noteq> []" "\<forall>x \<in> set xs. isUpdate x = Inr True" and
    g: "get_prop g ''update'' = Inr (JArr ys)" "ys \<noteq> []" "\<forall>x \<in> set ys. isUpdate x = Inr True"
    by auto
  have "normalizeUpdateDashboard update = Inr (xs @ ys)"
    by (simp add: normalizeUpdateDashboard_def file_packets_def files array_items f g)
  with f g show ?thesis by auto
qed

definition sample_firmware :: update_packet where
  "sample_firmware =
     \<lparr>up_type = Firmware, up_size = 4, up_offset = 0, up_payload = ''AAAA'', up_md5 = ''d4''\<rparr>"

definition sample_website :: update_packet where
  "sample_website = sample_firmware\<lparr>up_type := Website\<rparr>"

theorem dashboard_two_files_safe_witness:
  "\<exists>xs ys. normalizeUpdateDashboard
              (dashboard_js \<lparr>dash_first = [sample_firmware], dash_second = [sample_website]\<rparr>)
             = Inr (xs @ ys) \<and> xs \<noteq> [] \<and> ys \<noteq> []"
proof -
  let ?d = "\<lparr>dash_first = [sample_firmware], dash_second = [sample_website]\<rparr>"
  have files: "get_prop (dashboard_js ?d) ''files'' =
      Inr (JArr [JObj [(''update'', JArr [update_js sample_firmware])],
                 JObj [(''update'', JArr [update_js sample_website])]])"
    by (simp add: dashboard_js_def)
  have ok: "isUpdateDashboard (dashboard_js ?d) = Inr (JBool True)"
    by (simp add: dashboard_roundtrip)
  from dashboard_two_files_safe [OF files ok] show ?thesis by blast
qed

definition files_js :: "js list \<Rightarrow> js" where
  "files_js fs = JObj [(''files'', JArr fs)]"

text \<open>
  The validator counts valid files among all files of the array, the flattening reads files
  0 and 1: an array whose first file has no packets at all and whose second and third files
  are valid passes the validation, and flattening it throws.
\<close>

theorem dashboard_three_files_unsafe:
  assumes "dashboard_file g = Inr (JBool True)" and "dashboard_file h = Inr (JBool True)"
  shows "isUpdateDashboard (files_js [JObj [], g, h]) = Inr (JBool True)
         \<and> normalizeUpdateDashboard (files_js [JObj [], g, h]) = Inl TypeError"
proof -
  have "dashboard_file (JObj []) = Inr JUndef" by (simp add: dashboard_file_def)
  with assms show ?thesis
    by (simp add: isUpdateDashboard_def files_js_def normalizeUpdateDashboard_def
        file_packets_def array_items)
qed

theorem dashboard_three_files_unsafe_witness:
  "\<exists>u. isUpdateDashboard u = Inr (JBool True) \<and> normalizeUpdateDashboard u = Inl TypeError"
proof -
  let ?g = "JObj [(''update'', JArr (map update_js [sample_firmware]))]"
  have "dashboard_file ?g = Inr (JBool True)"
    unfolding dashboard_file_packets by simp
  from dashboard_three_files_unsafe [OF this this] show ?thesis by blast
qed

end
