(* ===== verification/Client.thy ===== *)
theory Client
  imports Registry Loop Update
begin

text \<open>
  The class \<open>Linq\<close> (\<open>bindings/node/lib/src/Linq.ts\<close>) without its polling loop (\<open>Loop\<close>) and the
  arithmetic of its device table (\<open>Registry\<close>): the instance as a record, requests, addresses,
  the callback the native side calls, the stream of events that callback feeds, and the
  views an application subscribes to. The native binding is an environment: the calls of it
  are recorded, its answers are inputs.
\<close>

section \<open>The instance\<close>

text \<open>
  Besides the fields of the class: \<open>summary\<close> is what \<open>netw.devices()\<close> answers at the moment,
  \<open>listeners\<close> the event names with a listener on the emitter, and four logs of what the
  outside world saw: the values \<open>events$\<close> emitted, the calls of listeners, the exceptions
  nobody catches, and what the subscribers of returned promises and observables observed,
  with the number of the subscription. \<open>cells\<close> holds the mutable variables captured by
  closures (\<open>remaining\<close> in \<open>update\<close>).
\<close>

datatype observation = Next js | Error thrown | Complete

record client = loop +
  devs :: jsobj
  summary :: string
  listeners :: "string list"
  stream :: "js list"
  heard :: "(string \<times> js) list"
  uncaught :: "thrown list"
  observed :: "(nat \<times> observation) list"
  cells :: "int list"

text \<open>\<open>new Linq(b)\<close>: the field initialisers, and the registration of the callback.\<close>

definition new_client :: "string \<Rightarrow> client" where
  "new_client text = native CRegisterCallback (loop.extend init_loop
     \<lparr>devs = [], summary = text, listeners = [], stream = [], heard = [], uncaught = [],
      observed = [], cells = []\<rparr>)"

section \<open>Requests\<close>

text \<open>\<open>data ? (typeof data === "string" && data) || JSON.stringify(data) : ""\<close>.\<close>

definition body_of :: "js \<Rightarrow> string" where
  "body_of data =
     (if truthy data
      then (case data of JStr d \<Rightarrow> d | _ \<Rightarrow> json_stringify data)
      else [])"

text \<open>
  \<open>await this.netw.send(\<dots>)\<close>, then \<open>JSON.parse\<close>. The declared type of \<open>serial\<close> is \<open>string\<close>.
\<close>

definition send :: "'s sender" where
  "send serial meth path data =
     (case serial of
        JStr sid \<Rightarrow> Await (sid, meth_str meth, path, body_of data)
                      (\<lambda>response. promise_of (andThen response json_parse))
      | _ \<Rightarrow> Fail OutsideModel)"

definition post :: "js \<Rightarrow> string \<Rightarrow> js \<Rightarrow> 's act" where
  "post serial path data = send serial POST path data"

definition get :: "js \<Rightarrow> string \<Rightarrow> 's act" where
  "get serial path = send serial GET path JUndef"

definition delete :: "js \<Rightarrow> string \<Rightarrow> 's act" where
  "delete serial path = send serial DELETE path JUndef"

definition refresh :: "string \<Rightarrow> client act" where
  "refresh serial =
     await (send (JStr serial) GET ''/ATX/about'' JUndef)
       (\<lambda>response. sync
          (\<lambda>s. case store_refresh serial response (devs s) of
                 Inl e \<Rightarrow> (s, Inl e)
               | Inr (ds, about) \<Rightarrow> (s\<lparr>devs := ds\<rparr>, Inr about))
          (\<lambda>about. Emit about Done))"

section \<open>Calls that go straight to the binding\<close>

datatype port = PortNumber int | PortAddress string

fun address :: "port \<Rightarrow> string" where
  "address (PortNumber n) = ''tcp://*:'' @ int_str n"
| "address (PortAddress a) = a"

definition listen :: "port \<Rightarrow> client \<Rightarrow> client" where
  "listen p s = native (CListen (address p)) s"

definition connect :: "port \<Rightarrow> client \<Rightarrow> client" where
  "connect p s = native (CConnect (address p)) s"

definition root :: "string \<Rightarrow> client \<Rightarrow> client" where
  "root path s = native (CRoot path) s"

definition close :: "int \<Rightarrow> client \<Rightarrow> client" where
  "close idx s = native (CClose idx) s"

definition scan :: "client \<Rightarrow> client" where
  "scan s = native CScan s"

definition remove :: "string \<Rightarrow> client \<Rightarrow> client" where
  "remove sid s = native (CDeviceRemove sid) (s\<lparr>devs := remove_device sid (devs s)\<rparr>)"

text \<open>The getter \<open>devices\<close>.\<close>

definition get_devices :: "client \<Rightarrow> client \<times> js res" where
  "get_devices s =
     (case devices (summary s) (devs s) of
        Inl e \<Rightarrow> (s, Inl e)
      | Inr ds \<Rightarrow> (s\<lparr>devs := ds\<rparr>, Inr (JObj ds)))"

section \<open>From native callbacks to events\<close>

text \<open>The chain of tests of the registered callback: the event it passes on, if any.\<close>

definition tagged :: "string \<Rightarrow> js \<Rightarrow> js" where
  "tagged ty data = JObj (spread [(''type'', JStr ty)] data)"

definition callback_event :: "string \<Rightarrow> js \<Rightarrow> js option res" where
  "callback_event event arg =
     andThen (and_also (Inr (event = ''new'')) (Inr (isEventDataNew arg))) (\<lambda>b.
     if b then Inr (Some (JObj [(''type'', JStr ''_new''), (''serial'', arg)])) else
     andThen (and_also (Inr (event = ''heartbeat'')) (Inr (isEventDataHeartbeat arg))) (\<lambda>b.
     if b then Inr (Some (JObj [(''type'', JStr ''heartbeat''), (''serial'', arg)])) else
     andThen (and_also (Inr (event = ''alert'')) (isEventDataAlert arg)) (\<lambda>b.
     if b then Inr (Some (tagged ''alert'' arg)) else
     andThen (and_also (Inr (event = ''error'')) (isEventDataError arg)) (\<lambda>b.
     if b then Inr (Some (tagged ''error'' arg)) else
     if event = ''ctrlc'' then Inr (Some (tagged ''ctrlc'' arg)) else Inr None))))"

text \<open>The request for the about data of a new device, and what becomes of the answer.\<close>

definition about_flow :: "client rx \<Rightarrow> js \<Rightarrow> client act" where
  "about_flow rx serial =
     rx_catchError rx (\<lambda>_. rx_empty rx)
       (rx_tap rx
          (\<lambda>event s. case store_about (summary s) event (devs s) of
                        Inl e \<Rightarrow> (s, Inl e)
                      | Inr ds \<Rightarrow> (s\<lparr>devs := ds\<rparr>, Inr JUndef))
          (mapAboutResponse rx
             (rx_fromPromise rx (send serial GET ''/ATX/about'' JUndef))))"

definition decorate :: "client rx \<Rightarrow> js \<Rightarrow> client act" where
  "decorate rx o' =
     (case get_prop o' ''type'' of
        Inl e \<Rightarrow> Fail e
      | Inr ty \<Rightarrow>
          if ty \<noteq> JStr ''_new'' then rx_of rx o'
          else (case get_prop o' ''serial'' of Inl e \<Rightarrow> Fail e | Inr serial \<Rightarrow> about_flow rx serial))"

definition pipeline :: "client rx \<Rightarrow> client act \<Rightarrow> client act" where
  "pipeline rx source = rx_mergeMap rx (decorate rx) (takeWhileRunning rx running source)"

section \<open>From events to applications\<close>

text \<open>\<open>emit\<close> of Node's event emitter.\<close>

definition emit :: "string \<Rightarrow> js \<Rightarrow> client \<Rightarrow> client res" where
  "emit name arg s =
     (if name \<in> set (listeners s) then Inr (s\<lparr>heard := heard s @ [(name, arg)]\<rparr>)
      else if name = ''error'' then Inl UnhandledErrorEvent
      else Inr s)"

text \<open>
  The subscriber of the constructor. What it throws is not caught by rxjs but reported as an
  uncaught exception; the subscription goes on.
\<close>

definition throw_uncaught :: "thrown \<Rightarrow> client \<Rightarrow> client" where
  "throw_uncaught e s = s\<lparr>uncaught := uncaught s @ [e]\<rparr>"

definition deliver :: "js \<Rightarrow> client \<Rightarrow> client" where
  "deliver ev s =
     (let s1 = s\<lparr>stream := stream s @ [ev]\<rparr> in
      case andThen (get_prop ev ''type'') to_key of
        Inl e \<Rightarrow> throw_uncaught e s1
      | Inr name \<Rightarrow>
          (case emit name (JObj (spread [] ev)) s1 of
             Inl e \<Rightarrow> throw_uncaught e s1
           | Inr s2 \<Rightarrow> s2))"

text \<open>The callback the constructor opens the native logger with.\<close>

definition on_log :: "js \<Rightarrow> client \<Rightarrow> client" where
  "on_log data s = s\<lparr>stream := stream s @ [tagged ''log'' data]\<rparr>"

text \<open>\<open>on(name, \<dots>)\<close> of the emitter.\<close>

definition listen_to :: "string \<Rightarrow> client \<Rightarrow> client" where
  "listen_to name s = s\<lparr>listeners := listeners s @ [name]\<rparr>"

text \<open>
  \<open>takeUntil(this.shutdownPromise)\<close>: the promise of the latest \<open>run\<close>; before the first one the
  argument is \<open>undefined\<close>, which rxjs reports to the subscriber as a \<open>TypeError\<close>. The source is
  what \<open>events$\<close> emits from the subscription on.
\<close>

definition until_shutdown :: "client rx \<Rightarrow> client \<Rightarrow> client act \<Rightarrow> client act" where
  "until_shutdown rx s source =
     (case shutdownPromise s of
        None \<Rightarrow> Fail TypeError
      | Some p \<Rightarrow> rx_takeUntil rx (\<lambda>s'. p \<in> set (resolved s')) source)"

definition logs :: "client rx \<Rightarrow> client \<Rightarrow> client act \<Rightarrow> client act" where
  "logs rx s source = until_shutdown rx s (rx_filter rx (type_is ''log'') source)"

text \<open>\<open>events(ev)\<close>; \<open>None\<close> is the \<open>undefined\<close> a name outside the \<open>switch\<close> falls through to.\<close>

definition events :: "client rx \<Rightarrow> string \<Rightarrow> client \<Rightarrow> client act \<Rightarrow> client act option" where
  "events rx ev s source =
     (let all = until_shutdown rx s source in
      if ev = [] then Some all
      else if ev = ''_new'' then Some (whenNew rx all)
      else if ev = ''new'' then Some (whenAbout rx all)
      else if ev = ''heartbeat'' then Some (whenHeartbeat rx all)
      else if ev = ''alert'' then Some (whenAlert rx all)
      else if ev = ''error'' then Some (whenError rx all)
      else if ev = ''ctrlc'' then Some (whenCtrlc rx all)
      else None)"

section \<open>Subscriptions\<close>

text \<open>What issuing a request does: the call of \<open>netw.send\<close>.\<close>

definition issue :: "request \<Rightarrow> client \<Rightarrow> client" where
  "issue r s = (case r of (sid, meth, path, body) \<Rightarrow> native (CSend sid meth path body) s)"

text \<open>A subscriber outside the library, with the number of its subscription.\<close>

definition observe :: "nat \<Rightarrow> observation \<Rightarrow> client \<Rightarrow> client" where
  "observe n x s = s\<lparr>observed := observed s @ [(n, x)]\<rparr>"

definition caller :: "nat \<Rightarrow> client observer" where
  "caller n = \<lparr>on_next = (\<lambda>v. observe n (Next v)), on_error = (\<lambda>e. observe n (Error e)),
     on_complete = observe n Complete\<rparr>"

text \<open>The subscriber of the constructor's pipeline.\<close>

definition pipe_observer :: "client observer" where
  "pipe_observer = \<lparr>on_next = deliver, on_error = throw_uncaught, on_complete = id\<rparr>"

end
