(* ===== verification/UpdateFlow.thy ===== *)
theory UpdateFlow
  imports Client
begin

text \<open>
  The method \<open>update\<close> of the class \<open>Linq\<close>: the packets of an update are posted to the device
  one after the other, each response is reported with the number of packets still to go,
  and after the last one the device is asked again for its about data. The first packet that
  fails ends the update.
\<close>

section \<open>The method\<close>

definition update_url :: string where
  "update_url = ''/ATX/exe/update''"

text \<open>\<open>(response) => ({ response, remaining: --remaining })\<close>, with \<open>remaining\<close> in cell \<open>c\<close>.\<close>

definition count_down :: "nat \<Rightarrow> js \<Rightarrow> client step" where
  "count_down c response s =
     (let n = cells s ! c - 1
      in (s\<lparr>cells := (cells s)[c := n]\<rparr>, Inr (update_response_js response n)))"

text \<open>
  \<open>let remaining = update.length\<close>. An argument whose length is no number is not iterable
  either, so that its cell is never read.
\<close>

definition initial_count :: "js \<Rightarrow> int res" where
  "initial_count packets =
     andThen (get_prop packets ''length'') (\<lambda>n. Inr (case n of JNum k \<Rightarrow> k | _ \<Rightarrow> 0))"

definition send_packets :: "client rx \<Rightarrow> string \<Rightarrow> js \<Rightarrow> client act" where
  "send_packets rx serial packets = Eff (\<lambda>s.
     (case initial_count packets of
        Inl e \<Rightarrow> (s, Fail e)
      | Inr n \<Rightarrow>
          (s\<lparr>cells := cells s @ [n]\<rparr>,
           rx_map rx (count_down (length (cells s)))
             (rx_concatMap rx
                (\<lambda>u. rx_fromPromise rx (send (JStr serial) POST update_url u))
                (rx_from rx packets)))))"

definition packets_of :: "js \<Rightarrow> js res" where
  "packets_of update =
     andThen (isUpdateDashboard update) (\<lambda>b.
       if truthy b then andThen (normalizeUpdateDashboard update) (\<lambda>us. Inr (JArr us))
       else Inr update)"

definition update :: "client rx \<Rightarrow> string \<Rightarrow> js \<Rightarrow> client act res" where
  "update rx serial upd =
     andThen (packets_of upd) (\<lambda>packets. Inr
       (rx_concat rx
          (rx_switchMap rx (send_packets rx serial) (rx_of rx packets))
          (rx_defer rx (\<lambda>_.
             rx_switchMap rx (\<lambda>_. rx_empty rx) (rx_fromPromise rx (refresh serial))))))"

section \<open>What the update sends\<close>

definition packet_call :: "string \<Rightarrow> js \<Rightarrow> native_call" where
  "packet_call serial u = CSend serial ''POST'' update_url (body_of u)"

definition refresh_call :: "string \<Rightarrow> native_call" where
  "refresh_call serial = CSend serial ''GET'' ''/ATX/about'' []"

text \<open>The responses with their countdown from \<open>n\<close>.\<close>

fun progress :: "int \<Rightarrow> js list \<Rightarrow> js list" where
  "progress n [] = []"
| "progress n (v # vs) = update_response_js v (n - 1) # progress (n - 1) vs"

definition report :: "nat \<Rightarrow> int \<Rightarrow> js list \<Rightarrow> (nat \<times> observation) list" where
  "report i n vs = map (\<lambda>v. (i, Next v)) (progress n vs)"

text \<open>The two halves of the returned observable, with the laws of rxjs applied.\<close>

definition tail :: "client rx \<Rightarrow> string \<Rightarrow> client act" where
  "tail rx serial = rx_defer rx (\<lambda>_.
     rx_switchMap rx (\<lambda>_. rx_empty rx) (rx_fromPromise rx (refresh serial)))"

definition packets_act :: "client rx \<Rightarrow> string \<Rightarrow> nat \<Rightarrow> js list \<Rightarrow> client act" where
  "packets_act rx serial c us = rx_concat rx (rx_map rx (count_down c)
     (foldr (\<lambda>u a. rx_concat rx (send (JStr serial) POST update_url u) a) us Done)) (tail rx serial)"

lemma answer_cong:
  "exec a obs iss s = exec b obs iss t \<Longrightarrow> answer a obs iss s xs = answer b obs iss t xs"
  by (cases xs) simp_all

locale client_rx = rxjs rx for rx :: "client rx"
begin

lemma packets_act_Nil [simp]: "packets_act rx serial c [] = tail rx serial"
  by (simp add: packets_act_def map_laws concat_laws)

lemma packets_act_Cons:
  "packets_act rx serial c (u # us) =
     Await (serial, ''POST'', update_url, body_of u)
       (\<lambda>x. case andThen x json_parse of
              Inl e \<Rightarrow> Fail e
            | Inr v \<Rightarrow> sync (count_down c v) (\<lambda>w. Emit w (packets_act rx serial c us)))"
  by (auto simp: packets_act_def send_def concat_laws map_laws sync_laws fun_eq_iff
      split: sum.split)

lemma tail_eq:
  "tail rx serial =
     Await (serial, ''GET'', ''/ATX/about'', [])
       (\<lambda>x. case andThen x json_parse of
              Inl e \<Rightarrow> Fail e
            | Inr response \<Rightarrow> sync (\<lambda>s. case store_refresh serial response (devs s) of
                                        Inl e \<Rightarrow> (s, Inl e)
                                      | Inr (ds, about) \<Rightarrow> (s\<lparr>devs := ds\<rparr>, Inr about))
                                (\<lambda>_. Done))"
  by (auto simp: tail_def refresh_def send_def body_of_def sources switch_laws sync_laws fun_eq_iff
      split: sum.split)

lemma update_act:
  assumes "packets_of upd = Inr (JArr us)"
  shows "\<exists>act. update rx serial upd = Inr act
           \<and> exec act obs iss s =
               exec (packets_act rx serial (length (cells s)) us) obs iss
                 (s\<lparr>cells := cells s @ [int (length us)]\<rparr>)"
proof -
  have "initial_count (JArr us) = Inr (int (length us))"
    by (simp add: initial_count_def get_prop_def)
  moreover have "rx_concatMap rx (\<lambda>u. rx_fromPromise rx (send (JStr serial) POST update_url u))
        (rx_from rx (JArr us))
      = foldr (\<lambda>u a. rx_concat rx (send (JStr serial) POST update_url u) a) us Done"
    by (simp add: sources concatMap_array)
  ultimately show ?thesis
    by (simp add: update_def assms send_packets_def sources switch_last concat_laws
        packets_act_def tail_def Let_def)
qed

lemma answer_packets_Cons:
  assumes "andThen x json_parse = Inr v"
  shows "answer (packets_act rx serial c (u # us)) (caller i) issue s (x # xs) =
           answer (packets_act rx serial c us) (caller i) issue
             (observe i (Next (update_response_js v (cells s ! c - 1)))
               (s\<lparr>calls := calls s @ [packet_call serial u], cells := (cells s)[c := cells s ! c - 1]\<rparr>)) xs"
proof -
  have "answer (packets_act rx serial c (u # us)) (caller i) issue s (x # xs) =
          answer (sync (count_down c v) (\<lambda>w. Emit w (packets_act rx serial c us))) (caller i) issue
            (s\<lparr>calls := calls s @ [packet_call serial u]\<rparr>) xs"
    by (simp add: packets_act_Cons assms issue_def native_def packet_call_def)
  also have "\<dots> = answer (packets_act rx serial c us) (caller i) issue
             (observe i (Next (update_response_js v (cells s ! c - 1)))
               (s\<lparr>calls := calls s @ [packet_call serial u], cells := (cells s)[c := cells s ! c - 1]\<rparr>)) xs"
    by (rule answer_cong) (simp add: count_down_def caller_def Let_def observe_def)
  finally show ?thesis .
qed

lemma answer_packets:
  assumes "list_all2 (\<lambda>x v. andThen x json_parse = Inr v) rs vs" and "length rs \<le> length us"
    and "c < length (cells s)"
  shows "\<exists>s'. answer (packets_act rx serial c us) (caller i) issue s (rs @ xs)
             = answer (packets_act rx serial c (drop (length rs) us)) (caller i) issue s' xs
           \<and> calls s' = calls s @ map (packet_call serial) (take (length rs) us)
           \<and> observed s' = observed s @ report i (cells s ! c) vs \<and> devs s' = devs s"
  using assms
proof (induction arbitrary: s us rule: list_all2_induct)
  case Nil
  show ?case by (rule exI [of _ s]) (simp add: report_def)
next
  case (Cons x rs v vs)
  then obtain u us' where us: "us = u # us'" by (cases us) auto
  let ?s = "observe i (Next (update_response_js v (cells s ! c - 1)))
     (s\<lparr>calls := calls s @ [packet_call serial u], cells := (cells s)[c := cells s ! c - 1]\<rparr>)"
  from Cons.prems us have "length rs \<le> length us'" "c < length (cells ?s)"
    by (simp_all add: observe_def)
  from Cons.IH [OF this] obtain s' where
    "answer (packets_act rx serial c us') (caller i) issue ?s (rs @ xs)
       = answer (packets_act rx serial c (drop (length rs) us')) (caller i) issue s' xs"
    "calls s' = calls ?s @ map (packet_call serial) (take (length rs) us')"
    "observed s' = observed ?s @ report i (cells ?s ! c) vs" "devs s' = devs ?s" by blast
  with Cons.prems(2) show ?case
    by (intro exI [of _ s'])
      (simp add: us answer_packets_Cons [OF Cons.hyps(1)] observe_def report_def del: answer.simps(2))
qed

end

interpretation ref_client: client_rx rx_ref
  by unfold_locales

lemma packets_of_array [simp]: "packets_of (JArr us) = Inr (JArr us)"
  by (simp add: packets_of_def isUpdateDashboard_def get_prop_def key_index_def is_digit_def
      digits_val_def Let_def)

lemma packets_of_dashboard [simp]:
  "dash_first d \<noteq> [] \<Longrightarrow> dash_second d \<noteq> [] \<Longrightarrow>
     packets_of (dashboard_js d) = Inr (JArr (map update_js (dash_first d @ dash_second d)))"
  by (simp add: packets_of_def dashboard_accepted dashboard_flat)

lemma cells_length_append: "(xs @ [x]) ! length xs = x" "length xs < length (xs @ [x])"
  by simp_all

section \<open>The behaviour of an update\<close>

context client_rx
begin

text \<open>A started update, after the answers to its first packets.\<close>

lemma started:
  assumes "packets_of upd = Inr (JArr us)" and "update rx serial upd = Inr act"
    and "list_all2 (\<lambda>x v. andThen x json_parse = Inr v) rs vs" and "length rs \<le> length us"
  shows "\<exists>c s'. answer act (caller i) issue s (rs @ xs)
             = answer (packets_act rx serial c (drop (length rs) us)) (caller i) issue s' xs
           \<and> calls s' = calls s @ map (packet_call serial) (take (length rs) us)
           \<and> observed s' = observed s @ report i (int (length us)) vs \<and> devs s' = devs s"
proof -
  let ?c = "length (cells s)" and ?s = "s\<lparr>cells := cells s @ [int (length us)]\<rparr>"
  from update_act [OF assms(1), of serial "caller i" issue s] assms(2)
  have "answer act (caller i) issue s (rs @ xs)
        = answer (packets_act rx serial ?c us) (caller i) issue ?s (rs @ xs)"
    by (intro answer_cong) simp
  moreover from answer_packets [OF assms(3,4), of ?c ?s serial i xs] obtain s' where
    "answer (packets_act rx serial ?c us) (caller i) issue ?s (rs @ xs)
       = answer (packets_act rx serial ?c (drop (length rs) us)) (caller i) issue s' xs"
    "calls s' = calls s @ map (packet_call serial) (take (length rs) us)"
    "observed s' = observed s @ report i (int (length us)) vs" "devs s' = devs s" by auto
  ultimately show ?thesis by metis
qed

lemma next_packet:
  "exec (packets_act rx serial c (u # us)) (caller i) issue s =
     (s\<lparr>calls := calls s @ [packet_call serial u]\<rparr>,
      [((serial, ''POST'', update_url, body_of u),
        \<lambda>x. case andThen x json_parse of
              Inl e \<Rightarrow> Fail e
            | Inr v \<Rightarrow> sync (count_down c v) (\<lambda>w. Emit w (packets_act rx serial c us)))], Live)"
  by (simp add: packets_act_Cons issue_def native_def packet_call_def)

lemma last_request:
  assumes "andThen x json_parse = Inr response"
    and "store_refresh serial response (devs s) = Inr (ds, about)"
  shows "answer (tail rx serial) (caller i) issue s [x] =
           (s\<lparr>calls := calls s @ [refresh_call serial], devs := ds,
              observed := observed s @ [(i, Complete)]\<rparr>, [], Completed)"
  using assms
  by (simp add: tail_eq issue_def native_def refresh_call_def caller_def observe_def)

text \<open>The three ways an update can stand: finished, broken off, waiting for an answer.\<close>

lemma completes:
  assumes "packets_of upd = Inr (JArr us)"
    and "list_all2 (\<lambda>x v. andThen x json_parse = Inr v) rs vs" and "length rs = length us"
    and "andThen x json_parse = Inr response"
    and "store_refresh serial response (devs s) = Inr (ds, about)"
  shows "\<exists>act s'. update rx serial upd = Inr act
           \<and> answer act (caller i) issue s (rs @ [x]) = (s', [], Completed)
           \<and> calls s' = calls s @ map (packet_call serial) us @ [refresh_call serial]
           \<and> observed s' = observed s @ report i (int (length us)) vs @ [(i, Complete)]
           \<and> devs s' = ds"
proof -
  obtain act where act: "update rx serial upd = Inr act" using update_act [OF assms(1)] by blast
  from started [OF assms(1) act assms(2), of i s "[x]"] assms(3) obtain s' where
    "answer act (caller i) issue s (rs @ [x]) = answer (tail rx serial) (caller i) issue s' [x]"
    "calls s' = calls s @ map (packet_call serial) us"
    "observed s' = observed s @ report i (int (length us)) vs" "devs s' = devs s" by auto
  with act last_request [OF assms(4), of serial s' ds about i] assms(5) show ?thesis
    by (simp del: answer.simps)
qed

lemma waits:
  assumes "packets_of upd = Inr (JArr (us @ u # rest))"
    and "list_all2 (\<lambda>x v. andThen x json_parse = Inr v) rs vs" and "length rs = length us"
  shows "\<exists>act s' k. update rx serial upd = Inr act
           \<and> answer act (caller i) issue s rs
               = (s', [((serial, ''POST'', update_url, body_of u), k)], Live)
           \<and> (\<forall>x e. andThen x json_parse = Inl e \<longrightarrow> k x = Fail e)
           \<and> calls s' = calls s @ map (packet_call serial) (us @ [u])
           \<and> observed s' = observed s @ report i (int (length (us @ u # rest))) vs
           \<and> devs s' = devs s"
proof -
  obtain act where act: "update rx serial upd = Inr act" using update_act [OF assms(1)] by blast
  from started [OF assms(1) act assms(2), of i s "[]"] assms(3) obtain c s' where
    "answer act (caller i) issue s rs
       = exec (packets_act rx serial c (u # rest)) (caller i) issue s'"
    "calls s' = calls s @ map (packet_call serial) us"
    "observed s' = observed s @ report i (int (length (us @ u # rest))) vs" "devs s' = devs s"
    by auto
  with act show ?thesis by (simp add: next_packet)
qed

lemma breaks_off:
  assumes "packets_of upd = Inr (JArr (us @ u # rest))"
    and "list_all2 (\<lambda>x v. andThen x json_parse = Inr v) rs vs" and "length rs = length us"
    and "andThen x json_parse = Inl e"
  shows "\<exists>act s'. update rx serial upd = Inr act
           \<and> answer act (caller i) issue s (rs @ x # xs) = (s', [], Failed)
           \<and> calls s' = calls s @ map (packet_call serial) (us @ [u])
           \<and> observed s' = observed s @ report i (int (length (us @ u # rest))) vs @ [(i, Error e)]
           \<and> devs s' = devs s"
proof -
  obtain act where act: "update rx serial upd = Inr act" using update_act [OF assms(1)] by blast
  from started [OF assms(1) act assms(2), of i s "x # xs"] assms(3) obtain c s' where
    "answer act (caller i) issue s (rs @ x # xs)
       = answer (packets_act rx serial c (u # rest)) (caller i) issue s' (x # xs)"
    "calls s' = calls s @ map (packet_call serial) us"
    "observed s' = observed s @ report i (int (length (us @ u # rest))) vs" "devs s' = devs s"
    by auto
  moreover have "answer (Fail e) (caller i) issue t xs = (observe i (Error e) t, [], Failed)" for t
    by (cases xs) (simp_all add: caller_def)
  ultimately show ?thesis
    using act assms(4) by (simp add: next_packet observe_def)
qed

end

text \<open>
  C6. An update that goes well: the packets are posted in order, the subscriber sees the
  responses with a countdown that ends at 0, then the device is asked for its about data, the
  table is updated and the observable completes.
\<close>

theorem update_completes:
  assumes "client_rx rx" and "packets_of upd = Inr (JArr us)"
    and "list_all2 (\<lambda>x v. andThen x json_parse = Inr v) rs vs" and "length rs = length us"
    and "andThen x json_parse = Inr response"
    and "store_refresh serial response (devs s) = Inr (ds, about)"
  shows "\<exists>act s'. update rx serial upd = Inr act
           \<and> answer act (caller i) issue s (rs @ [x]) = (s', [], Completed)
           \<and> calls s' = calls s @ map (packet_call serial) us @ [refresh_call serial]
           \<and> observed s' = observed s @ report i (int (length us)) vs @ [(i, Complete)]
           \<and> devs s' = ds"
  by (rule client_rx.completes [OF assms])

text \<open>
  C7. One packet at a time: after the answers to the first packets, exactly one request is
  outstanding, that of the next packet, and none has been sent for those behind it.
\<close>

theorem update_sends_one_at_a_time:
  assumes "client_rx rx" and "packets_of upd = Inr (JArr (us @ u # rest))"
    and "list_all2 (\<lambda>x v. andThen x json_parse = Inr v) rs vs" and "length rs = length us"
  shows "\<exists>act s' k. update rx serial upd = Inr act
           \<and> answer act (caller i) issue s rs
               = (s', [((serial, ''POST'', update_url, body_of u), k)], Live)
           \<and> calls s' = calls s @ map (packet_call serial) (us @ [u])
           \<and> observed s' = observed s @ report i (int (length (us @ u # rest))) vs
           \<and> devs s' = devs s"
proof -
  from client_rx.waits [OF assms, where serial = serial and i = i and s = s]
  show ?thesis by (elim exE conjE) (intro exI conjI; assumption)
qed

text \<open>
  C8. The first packet the device or the transport refuses, or whose answer is no JSON, ends the
  update: the subscriber gets the error after the responses so far, no further packet is sent,
  the device is not asked for its about data and the table is as before.
\<close>

theorem update_stops_at_failure:
  assumes "client_rx rx" and "packets_of upd = Inr (JArr (us @ u # rest))"
    and "list_all2 (\<lambda>x v. andThen x json_parse = Inr v) rs vs" and "length rs = length us"
    and "andThen x json_parse = Inl e"
  shows "\<exists>act s'. update rx serial upd = Inr act
           \<and> answer act (caller i) issue s (rs @ x # xs) = (s', [], Failed)
           \<and> calls s' = calls s @ map (packet_call serial) (us @ [u])
           \<and> observed s' = observed s @ report i (int (length (us @ u # rest))) vs @ [(i, Error e)]
           \<and> devs s' = devs s"
  by (rule client_rx.breaks_off [OF assms])

section \<open>Concrete updates\<close>

definition sample_packets :: js where
  "sample_packets = JArr [update_js sample_firmware, update_js sample_website]"

definition ok_answer :: "string res" where
  "ok_answer = Inr (json_stringify (JObj []))"

lemma ok_answer_parses [simp]: "andThen ok_answer json_parse = Inr (JObj [])"
  by (simp add: ok_answer_def parse_empty_summary)

definition about_answer :: "string res" where
  "about_answer = Inr (json_stringify (JObj [(''about'', JObj [(''serial'', JStr ''A1'')])]))"

lemma about_answer_parses [simp]:
  "andThen about_answer json_parse = Inr (JObj [(''about'', JObj [(''serial'', JStr ''A1'')])])"
proof -
  let ?v = "JObj [(''about'', JObj [(''serial'', JStr ''A1'')])]"
  have "json_norm ?v = ?v"
    by (simp add: object_entries_no_index key_index_nondigit is_digit_def)
  then show ?thesis
    using json_roundtrip_normal [of ?v] by (simp add: about_answer_def json_stringify_def)
qed

theorem update_completes_witness:
  "\<exists>act s'. update rx_ref ''A1'' sample_packets = Inr act
     \<and> answer act (caller 3) issue (new_client ''{}'') [ok_answer, ok_answer, about_answer]
         = (s', [], Completed)
     \<and> map snd (observed s') = [Next (update_response_js (JObj []) 1),
                                Next (update_response_js (JObj []) 0), Complete]
     \<and> map_of (devs s') ''A1'' \<noteq> None"
proof -
  have "store_refresh ''A1'' (JObj [(''about'', JObj [(''serial'', JStr ''A1'')])])
      (devs (new_client ''{}'')) = Inr ([(''A1'', JObj [(''serial'', JStr ''A1'')])],
        JObj [(''serial'', JStr ''A1'')])"
    by (simp add: store_refresh_def new_client_def native_def loop.defs init_loop_def dev_at_def
        spread_def object_entries_no_index key_index_nondigit is_digit_def)
  from update_completes [OF ref_client.client_rx_axioms, of sample_packets
      "[update_js sample_firmware, update_js sample_website]" "[ok_answer, ok_answer]"
      "[JObj [], JObj []]" about_answer, OF _ _ _ about_answer_parses this, of 3]
  show ?thesis
    by (auto simp: sample_packets_def report_def new_client_def native_def loop.defs)
qed

theorem update_sends_one_at_a_time_witness:
  "\<exists>act s' p. update rx_ref ''A1'' sample_packets = Inr act
     \<and> answer act (caller 0) issue (new_client ''{}'') [] = (s', [p], Live)
     \<and> calls s' = [CRegisterCallback, packet_call ''A1'' (update_js sample_firmware)]"
  using update_sends_one_at_a_time [OF ref_client.client_rx_axioms, of sample_packets "[]"
      "update_js sample_firmware" "[update_js sample_website]" "[]" "[]" "''A1''" 0 "new_client ''{}''"]
  by (auto simp: sample_packets_def new_client_def native_def loop.defs init_loop_def)

theorem update_stops_at_failure_witness:
  "\<exists>act s'. update rx_ref ''A1'' sample_packets = Inr act
     \<and> answer act (caller 0) issue (new_client ''{}'') [Inl (Rejected 504), ok_answer] = (s', [], Failed)
     \<and> calls s' = [CRegisterCallback, packet_call ''A1'' (update_js sample_firmware)]
     \<and> observed s' = [(0, Error (Rejected 504))]"
  using update_stops_at_failure [OF ref_client.client_rx_axioms, of sample_packets "[]"
      "update_js sample_firmware" "[update_js sample_website]" "[]" "[]" "Inl (Rejected 504)"
      "Rejected 504" "''A1''" 0 "new_client ''{}''" "[ok_answer]"]
  by (auto simp: sample_packets_def new_client_def native_def loop.defs init_loop_def report_def)

end
