(* ===== verification/Session.thy ===== *)
theory Session
  imports UpdateFlow
begin

text \<open>
  The class \<open>Linq\<close> at work: what is outstanding between two turns of the JavaScript event
  loop, and everything that can happen next - a callback of the native side, the answer to a
  request, a log line, a timer, a call of a public method. \<open>hub\<close> is the specification of
  the event stream without any observable in it; \<open>pipeline_refines_hub\<close> shows that the
  constructor's rxjs pipeline implements it.
\<close>

section \<open>The world\<close>

text \<open>
  A task is a subscription that waits for the answer to its request: the request, what runs on
  the answer, and whose subscription it is, that of the constructor's pipeline or one of the
  application. \<open>pipe_open\<close> says whether the pipeline still takes events; \<open>settled\<close> logs the
  requests that have been answered.
\<close>

datatype owner = Pipe | App nat

type_synonym task = "request \<times> (string res \<Rightarrow> client act) \<times> owner"

fun observer_of :: "owner \<Rightarrow> client observer" where
  "observer_of Pipe = pipe_observer"
| "observer_of (App n) = caller n"

record world =
  st :: client
  pipe_open :: bool
  tasks :: "task list"
  settled :: "request list"

definition new_world :: "string \<Rightarrow> world" where
  "new_world text = \<lparr>st = new_client text, pipe_open = True, tasks = [], settled = []\<rparr>"

definition park :: "owner \<Rightarrow> client parked list \<Rightarrow> task list" where
  "park own ps = map (\<lambda>(r, k). (r, k, own)) ps"

text \<open>
  When the pipeline fails, its subscription is gone: it takes no more events, and the answers
  its requests still wait for go to nobody.
\<close>

definition silence :: "task \<Rightarrow> task" where
  "silence t = (case t of (r, k, own) \<Rightarrow> if own = Pipe then (r, \<lambda>_. Open, own) else t)"

definition proceed :: "owner \<Rightarrow> client act \<Rightarrow> world \<Rightarrow> world" where
  "proceed own a w =
     (case exec a (observer_of own) issue (st w) of
        (s, ps, stat) \<Rightarrow>
          if own = Pipe \<and> stat = Failed
          then w\<lparr>st := s, tasks := map silence (tasks w @ park own ps), pipe_open := False\<rparr>
          else w\<lparr>st := s, tasks := tasks w @ park own ps\<rparr>)"

text \<open>A call of the application subscribes to what it returns.\<close>

definition subscribe :: "nat \<Rightarrow> client act \<Rightarrow> world \<Rightarrow> world" where
  "subscribe n a w = proceed (App n) a w"

text \<open>The promise of a request settles and its subscription goes on.\<close>

definition settle :: "nat \<Rightarrow> string res \<Rightarrow> world \<Rightarrow> world" where
  "settle i reply w =
     (if i < length (tasks w)
      then case tasks w ! i of
             (r, k, own) \<Rightarrow>
               proceed own (k reply)
                 (w\<lparr>tasks := take i (tasks w) @ drop (Suc i) (tasks w),
                    settled := settled w @ [r]\<rparr>)
      else w)"

text \<open>\<open>self._events$.next(v)\<close>: a completed pipeline takes no more events either.\<close>

definition push :: "client rx \<Rightarrow> js \<Rightarrow> world \<Rightarrow> world" where
  "push rx v w =
     (if \<not> pipe_open w then w
      else case exec (pipeline rx (Emit v Open)) pipe_observer issue (st w) of
             (s, ps, stat) \<Rightarrow>
               let w' = w\<lparr>st := s, tasks := tasks w @ park Pipe ps, pipe_open := (stat = Live)\<rparr>
               in if stat = Failed then w'\<lparr>tasks := map silence (tasks w')\<rparr> else w')"

text \<open>The registered callback. It is an async function: what it throws rejects a promise nobody
  holds.\<close>

definition callback :: "client rx \<Rightarrow> string \<Rightarrow> js \<Rightarrow> world \<Rightarrow> world" where
  "callback rx event arg w =
     (case callback_event event arg of
        Inl e \<Rightarrow> w\<lparr>st := throw_uncaught e (st w)\<rparr>
      | Inr None \<Rightarrow> w
      | Inr (Some v) \<Rightarrow> push rx v w)"

section \<open>Everything that can happen\<close>

datatype input =
    Callback string js
  | Settle nat "string res"
  | Log js
  | Summary string
  | AddListener string
  | Run int
  | Shutdown
  | TimerFires nat
  | PollReturns bool
  | CallDevices
  | CallRemove string
  | CallListen port
  | CallConnect port
  | CallRoot string
  | CallClose int
  | CallScan
  | CallSend nat string meth string js
  | CallRefresh nat string
  | CallUpdate nat string js

text \<open>What a call hands back to the application on throwing is its subscriber's error.\<close>

definition attempt :: "client res \<Rightarrow> client \<Rightarrow> client" where
  "attempt r s = (case r of Inl e \<Rightarrow> throw_uncaught e s | Inr s' \<Rightarrow> s')"

definition on_client :: "(client \<Rightarrow> client) \<Rightarrow> world \<Rightarrow> world" where
  "on_client f w = w\<lparr>st := f (st w)\<rparr>"

text \<open>The inputs that are one synchronous operation of the client.\<close>

fun plain :: "input \<Rightarrow> client \<Rightarrow> client" where
  "plain (Log data) s = on_log data s"
| "plain (Summary text) s = s\<lparr>summary := text\<rparr>"
| "plain (AddListener name) s = listen_to name s"
| "plain (Run ms) s = run_loop ms s"
| "plain Shutdown s = attempt (shutdown s) s"
| "plain (TimerFires t) s = (case timer_fire t s of None \<Rightarrow> s | Some s' \<Rightarrow> s')"
| "plain (PollReturns b) s = (case timer_return b s of None \<Rightarrow> s | Some r \<Rightarrow> attempt r s)"
| "plain CallDevices s = fst (get_devices s)"
| "plain (CallRemove sid) s = remove sid s"
| "plain (CallListen p) s = listen p s"
| "plain (CallConnect p) s = connect p s"
| "plain (CallRoot path) s = root path s"
| "plain (CallClose idx) s = close idx s"
| "plain CallScan s = scan s"
| "plain x s = s"

fun react :: "client rx \<Rightarrow> input \<Rightarrow> world \<Rightarrow> world" where
  "react rx (Callback event arg) w = callback rx event arg w"
| "react rx (Settle i reply) w = settle i reply w"
| "react rx (CallSend n serial meth path data) w =
     subscribe n (send (JStr serial) meth path data) w"
| "react rx (CallRefresh n serial) w = subscribe n (refresh serial) w"
| "react rx (CallUpdate n serial upd) w =
     (case update rx serial upd of
        Inl e \<Rightarrow> on_client (observe n (Error e)) w
      | Inr a \<Rightarrow> subscribe n a w)"
| "react rx x w = on_client (plain x) w"

definition react_all :: "client rx \<Rightarrow> input list \<Rightarrow> world \<Rightarrow> world" where
  "react_all rx xs w = fold (react rx) xs w"

lemma react_all_simps [simp]:
  "react_all rx [] w = w"
  "react_all rx (x # xs) w = react_all rx xs (react rx x w)"
  "react_all rx (xs @ ys) w = react_all rx ys (react_all rx xs w)"
  by (simp_all add: react_all_def)

text \<open>A property of worlds that every input keeps holds after any inputs.\<close>

lemma react_all_invariant:
  assumes "P w" and "\<And>x w. P w \<Longrightarrow> P (react rx x w)"
  shows "P (react_all rx xs w)"
  using assms(1) by (induction xs arbitrary: w) (simp_all add: assms(2))

section \<open>The event stream without observables\<close>

text \<open>
  What the answer to an about request means: the decorated event and the table with its
  entry, or nothing at all when the request failed, the answer is no JSON, it has no about
  data, or the native summary cannot be read.
\<close>

definition about_outcome :: "string \<Rightarrow> string res \<Rightarrow> jsobj \<Rightarrow> (js \<times> jsobj) option" where
  "about_outcome text reply ds =
     (case andThen reply json_parse of
        Inl e \<Rightarrow> None
      | Inr response \<Rightarrow>
          (case about_event response of
             Inl e \<Rightarrow> None
           | Inr ev \<Rightarrow>
               (case store_about text ev ds of Inl e \<Rightarrow> None | Inr ds' \<Rightarrow> Some (ev, ds'))))"

definition about_answered :: "string res \<Rightarrow> client \<Rightarrow> client" where
  "about_answered reply s =
     (case about_outcome (summary s) reply (devs s) of
        None \<Rightarrow> s
      | Some (ev, ds) \<Rightarrow> deliver ev (s\<lparr>devs := ds\<rparr>))"

record hub =
  h_client :: client
  h_open :: bool
  h_pending :: "request list"

definition about_request :: "string \<Rightarrow> request" where
  "about_request sid = (sid, ''GET'', ''/ATX/about'', [])"

text \<open>
  An event enters the stream. A \<open>ctrlc\<close>, or any event of a client that is no longer running,
  ends the stream and is lost; a \<open>_new\<close> sends an about request; everything else is delivered.
\<close>

definition hub_event :: "js \<Rightarrow> hub \<Rightarrow> hub" where
  "hub_event v h =
     (if \<not> h_open h then h
      else case get_prop v ''type'' of
        Inl e \<Rightarrow> h\<lparr>h_open := False, h_client := throw_uncaught e (h_client h)\<rparr>
      | Inr ty \<Rightarrow>
          if ty = JStr ''ctrlc'' \<or> \<not> running (h_client h) then h\<lparr>h_open := False\<rparr>
          else if ty \<noteq> JStr ''_new'' then h\<lparr>h_client := deliver v (h_client h)\<rparr>
          else case get_prop v ''serial'' of
                 Inr (JStr sid) \<Rightarrow>
                   h\<lparr>h_client := issue (about_request sid) (h_client h),
                     h_pending := h_pending h @ [about_request sid]\<rparr>
               | _ \<Rightarrow> h)"

fun hub_react :: "input \<Rightarrow> hub \<Rightarrow> hub" where
  "hub_react (Callback event arg) h =
     (case callback_event event arg of
        Inl e \<Rightarrow> h\<lparr>h_client := throw_uncaught e (h_client h)\<rparr>
      | Inr None \<Rightarrow> h
      | Inr (Some v) \<Rightarrow> hub_event v h)"
| "hub_react (Settle i reply) h =
     (if i < length (h_pending h)
      then h\<lparr>h_client := about_answered reply (h_client h),
             h_pending := take i (h_pending h) @ drop (Suc i) (h_pending h)\<rparr>
      else h)"
| "hub_react x h = h\<lparr>h_client := plain x (h_client h)\<rparr>"

section \<open>The pipeline implements it\<close>

text \<open>The part of \<open>about_flow\<close> that runs on the answer.\<close>

definition about_rest :: "client rx \<Rightarrow> string res \<Rightarrow> client act" where
  "about_rest rx x = rx_catchError rx (\<lambda>_. rx_empty rx)
     (rx_tap rx
        (\<lambda>event s. case store_about (summary s) event (devs s) of
                      Inl e \<Rightarrow> (s, Inl e)
                    | Inr ds \<Rightarrow> (s\<lparr>devs := ds\<rparr>, Inr JUndef))
        (mapAboutResponse rx (promise_of (andThen x json_parse))))"

context client_rx
begin

lemma about_flow_eq:
  "about_flow rx (JStr sid) = Await (sid, ''GET'', ''/ATX/about'', []) (about_rest rx)"
  by (simp add: about_flow_def send_def body_of_def sources mapAboutResponse_def map_laws
      tap_laws catch_laws about_rest_def fun_eq_iff)

lemma exec_about_rest:
  "exec (about_rest rx x) pipe_observer iss s = (about_answered x s, [], Completed)"
  by (simp add: about_rest_def mapAboutResponse_def about_answered_def about_outcome_def
      map_laws tap_laws catch_laws sync_laws catch_sync sources pipe_observer_def
      split: sum.split)

lemma exec_pipeline:
  assumes "get_prop v ''type'' = Inr ty" and "v \<noteq> JUndef" "v \<noteq> JNull"
  shows "exec (pipeline rx (Emit v Open)) pipe_observer issue s =
    (if ty = JStr ''ctrlc'' \<or> \<not> running s then (s, [], Completed)
     else if ty \<noteq> JStr ''_new'' then (deliver v s, [], Live)
     else case get_prop v ''serial'' of
            Inr (JStr sid) \<Rightarrow> (issue (about_request sid) s, [(about_request sid, about_rest rx)], Live)
          | _ \<Rightarrow> (s, [], Live))"
proof -
  obtain serial where serial: "get_prop v ''serial'' = Inr serial"
    using get_prop_no_throw [OF assms(2,3)] by blast
  have other: "about_flow rx serial = Done" if "\<forall>sid. serial \<noteq> JStr sid"
    using that by (cases serial)
      (simp_all add: about_flow_def send_def sources mapAboutResponse_def map_laws tap_laws catch_laws)
  show ?thesis
  proof (cases "ty = JStr ''ctrlc'' \<or> \<not> running s")
    case True
    then show ?thesis
      by (auto simp: pipeline_def takeWhileRunning_def takeWhile_laws mergeMap_laws
          still_running_def assms(1) pipe_observer_def)
  next
    case False
    then have "exec (pipeline rx (Emit v Open)) pipe_observer issue s =
        exec (Fork (decorate rx v) Open) pipe_observer issue s"
      by (simp add: pipeline_def takeWhileRunning_def takeWhile_laws mergeMap_laws
          still_running_def assms(1))
    also have "\<dots> = (case exec (decorate rx v) pipe_observer issue s of (s1, ps, st1) \<Rightarrow>
        if st1 = Failed then (s1, mute ps, Failed) else (s1, ps, Live))"
      by (simp add: pipe_observer_def split: prod.split)
    finally show ?thesis
      using False other serial
      by (cases serial)
        (auto simp: decorate_def assms(1) sources about_flow_eq about_request_def pipe_observer_def)
  qed
qed

text \<open>Every task of a stream that only serves callbacks is an outstanding about request.\<close>

definition about_tasks :: "world \<Rightarrow> bool" where
  "about_tasks w \<longleftrightarrow> (\<forall>t \<in> set (tasks w). snd t = (about_rest rx, Pipe))"

end

definition hub_of :: "world \<Rightarrow> hub" where
  "hub_of w = \<lparr>h_client = st w, h_open = pipe_open w, h_pending = map fst (tasks w)\<rparr>"

fun stream_input :: "input \<Rightarrow> bool" where
  "stream_input (CallSend n serial meth path data) = False"
| "stream_input (CallRefresh n serial) = False"
| "stream_input (CallUpdate n serial upd) = False"
| "stream_input x = True"

text \<open>What the callback passes on is always an object.\<close>

lemma callback_event_object:
  assumes "callback_event event arg = Inr (Some v)"
  shows "\<exists>ps. v = JObj ps"
  using assms unfolding callback_event_def tagged_def
  by (auto simp: andThen_eq_Inr split: if_splits)

context client_rx
begin

lemma push_refines:
  assumes "about_tasks w"
  shows "about_tasks (push rx (JObj ps) w)
         \<and> hub_of (push rx (JObj ps) w) = hub_event (JObj ps) (hub_of w)"
proof -
  obtain ty serial where ty: "get_prop (JObj ps) ''type'' = Inr ty"
    and serial: "get_prop (JObj ps) ''serial'' = Inr serial" by simp
  note run = exec_pipeline [OF ty, of "st w", unfolded serial]
  consider "\<not> pipe_open w" | "pipe_open w" "ty = JStr ''ctrlc'' \<or> \<not> running (st w)"
    | "pipe_open w" "ty \<noteq> JStr ''ctrlc''" "running (st w)" "ty \<noteq> JStr ''_new''"
    | "pipe_open w" "ty = JStr ''_new''" "running (st w)" by blast
  then show ?thesis
  proof cases
    case 1
    then show ?thesis using assms by (simp add: push_def hub_of_def hub_event_def)
  next
    case 2
    then show ?thesis using assms ty run
      by (auto simp: push_def hub_of_def hub_event_def park_def about_tasks_def simp del: get_prop_simps)
  next
    case 3
    then show ?thesis using assms ty run
      by (simp add: push_def hub_of_def hub_event_def park_def about_tasks_def del: get_prop_simps)
  next
    case 4
    then show ?thesis using assms ty serial run
      by (cases serial)
        (simp_all add: push_def hub_of_def hub_event_def park_def about_tasks_def del: get_prop_simps)
  qed
qed

lemma callback_refines:
  assumes "about_tasks w"
  shows "about_tasks (callback rx event arg w)
         \<and> hub_of (callback rx event arg w) = hub_react (Callback event arg) (hub_of w)"
proof (cases "callback_event event arg")
  case (Inl e)
  with assms show ?thesis by (simp add: callback_def hub_of_def about_tasks_def)
next
  case (Inr r)
  show ?thesis
  proof (cases r)
    case None
    with Inr assms show ?thesis by (simp add: callback_def)
  next
    case (Some v)
    with Inr obtain ps where "v = JObj ps" using callback_event_object by blast
    with Inr Some push_refines [OF assms] show ?thesis by (simp add: callback_def)
  qed
qed

lemma settle_refines:
  assumes "about_tasks w"
  shows "about_tasks (settle i reply w)
         \<and> hub_of (settle i reply w) = hub_react (Settle i reply) (hub_of w)"
proof (cases "i < length (tasks w)")
  case True
  with assms obtain r where t: "tasks w ! i = (r, about_rest rx, Pipe)"
    unfolding about_tasks_def by (metis nth_mem prod.collapse)
  have "set (take i (tasks w) @ drop (Suc i) (tasks w)) \<subseteq> set (tasks w)"
    by (auto dest: in_set_takeD in_set_dropD)
  with assms True t show ?thesis
    by (auto simp: settle_def proceed_def exec_about_rest park_def hub_of_def about_tasks_def
        take_map drop_map)
qed (simp_all add: settle_def hub_of_def assms)

lemma react_refines:
  assumes "about_tasks w" and "stream_input x"
  shows "about_tasks (react rx x w) \<and> hub_of (react rx x w) = hub_react x (hub_of w)"
proof (cases x)
  case (Callback event arg)
  with callback_refines [OF assms(1)] show ?thesis by simp
next
  case (Settle i reply)
  with settle_refines [OF assms(1)] show ?thesis by simp
qed (use assms in \<open>simp_all add: on_client_def hub_of_def about_tasks_def\<close>)

lemma react_all_refines:
  assumes "about_tasks w" and "list_all stream_input xs"
  shows "hub_of (react_all rx xs w) = fold hub_react xs (hub_of w)"
  using assms by (induction xs arbitrary: w) (simp_all add: react_refines)

lemma about_tasks_new: "about_tasks (new_world text)"
  by (simp add: about_tasks_def new_world_def)

end

section \<open>What the asynchronous code leaves alone\<close>

fun typed_input :: "input \<Rightarrow> bool" where
  "typed_input (CallUpdate n serial upd) =
     (case packets_of upd of Inr v \<Rightarrow> is_array v | Inl e \<Rightarrow> True)"
| "typed_input x = True"

context client_rx
begin

lemma keeps_about_rest:
  assumes "\<And>s ds. R s (s\<lparr>devs := ds\<rparr>)" and "\<And>s. R s s"
  shows "keeps R (about_rest rx x)"
  by (cases "andThen x json_parse")
    (auto simp: about_rest_def mapAboutResponse_def map_laws tap_laws catch_laws sync_laws
      catch_sync sources assms split: sum.split)

lemma keeps_pipeline:
  assumes "\<And>s ds. R s (s\<lparr>devs := ds\<rparr>)" and "\<And>s. R s s"
  shows "keeps R (pipeline rx (Emit (JObj ps) Open))"
proof -
  have about: "keeps R (about_flow rx serial)" for serial
  proof (cases serial)
    case (JStr sid)
    then show ?thesis by (simp add: about_flow_eq keeps_about_rest assms)
  qed (simp_all add: about_flow_def send_def sources mapAboutResponse_def map_laws tap_laws catch_laws)
  have "keeps R (decorate rx (JObj ps))"
    by (simp add: decorate_def sources about)
  then show ?thesis
    by (simp add: pipeline_def takeWhileRunning_def takeWhile_laws mergeMap_laws
        still_running_def assms)
qed

lemma keeps_packets_act:
  assumes "\<And>s ds. R s (s\<lparr>devs := ds\<rparr>)" and "\<And>s cs. R s (s\<lparr>cells := cs\<rparr>)" and "\<And>s. R s s"
  shows "keeps R (packets_act rx serial c us)"
proof (induction us)
  case Nil
  show ?case by (auto simp: tail_eq assms split: sum.split prod.split)
next
  case (Cons u us)
  then show ?case
    by (auto simp: packets_act_Cons count_down_def Let_def assms split: sum.split)
qed

lemma keeps_update:
  assumes "\<And>s ds. R s (s\<lparr>devs := ds\<rparr>)" and "\<And>s cs. R s (s\<lparr>cells := cs\<rparr>)" and "\<And>s. R s s"
    and "update rx serial upd = Inr a" and "typed_input (CallUpdate n serial upd)"
  shows "keeps R a"
proof -
  from assms(4,5) obtain us where us: "packets_of upd = Inr (JArr us)"
    by (auto simp: update_def andThen_eq_Inr is_array_iff)
  have "initial_count (JArr us) = Inr (int (length us))"
    by (simp add: initial_count_def get_prop_def)
  then have "a = Eff (\<lambda>s. (s\<lparr>cells := cells s @ [int (length us)]\<rparr>,
                     packets_act rx serial (length (cells s)) us))"
    using assms(4)
    by (auto simp: update_def us send_packets_def sources switch_last concat_laws concatMap_array
        packets_act_def tail_def Let_def)
  then show ?thesis by (simp add: assms keeps_packets_act)
qed

end

section \<open>Projections of the client that only requests extend\<close>

text \<open>
  A list computed from the client that no asynchronous code and no subscriber changes, and
  that issuing a request extends by \<open>h\<close> of the request. Two uses: the requests sent so far,
  and the flag \<open>running\<close>.
\<close>

locale tracked =
  fixes f :: "client \<Rightarrow> 'b list" and h :: "request \<Rightarrow> 'b list"
  assumes on_devs: "f (s\<lparr>devs := ds\<rparr>) = f s"
    and on_cells: "f (s\<lparr>cells := cs\<rparr>) = f s"
    and on_observed: "f (s\<lparr>observed := os\<rparr>) = f s"
    and on_stream: "f (s\<lparr>stream := vs\<rparr>) = f s"
    and on_heard: "f (s\<lparr>heard := hs\<rparr>) = f s"
    and on_uncaught: "f (s\<lparr>uncaught := es\<rparr>) = f s"
    and on_issue: "f (issue r s) = f s @ h r"
begin

lemmas untouched = on_devs on_cells on_observed on_stream on_heard on_uncaught

definition tracked_act :: "client act \<Rightarrow> bool" where
  "tracked_act a \<longleftrightarrow> keeps (\<lambda>s s'. f s' = f s) a"

definition tracked_obs :: "client observer \<Rightarrow> bool" where
  "tracked_obs obs \<longleftrightarrow> obs_keeps (\<lambda>s s'. f s' = f s) obs"

definition tracked_tasks :: "world \<Rightarrow> bool" where
  "tracked_tasks w \<longleftrightarrow> (\<forall>t \<in> set (tasks w). \<forall>x. tracked_act (fst (snd t) x))"

lemma deliver_same: "f (deliver v s) = f s"
  by (simp add: deliver_def throw_uncaught_def emit_def untouched Let_def split: sum.split)

lemma caller_tracked: "tracked_obs (caller n)"
  by (simp add: tracked_obs_def obs_keeps_def caller_def observe_def untouched)

lemma pipe_observer_tracked: "tracked_obs pipe_observer"
  by (simp add: tracked_obs_def obs_keeps_def pipe_observer_def deliver_same throw_uncaught_def untouched)

lemma about_answered_same: "f (about_answered x s) = f s"
  by (simp add: about_answered_def deliver_same untouched split: option.split)

lemma send_tracked: "tracked_act (send serial m path data)"
  by (cases serial) (simp_all add: tracked_act_def send_def promise_of_def split: sum.split)

lemma refresh_tracked: "tracked_act (refresh serial)"
  by (simp add: tracked_act_def refresh_def send_def untouched split: sum.split prod.split)

text \<open>Any subscription: the projection grows by the requests that become tasks.\<close>

lemma exec_tracked:
  assumes "tracked_act a" and "tracked_obs obs" and "exec a obs issue s = (s', ps, fin)"
  shows "f s' = f s @ concat (map (\<lambda>p. h (fst p)) ps)
         \<and> (\<forall>p \<in> set ps. \<forall>x. tracked_act (snd p x))"
  using exec_accounts [of f a obs issue h, OF _ _ on_issue assms(3)] assms(1,2)
  unfolding tracked_act_def tracked_obs_def by blast

text \<open>How much of the projection the requests of the tasks and of the log of settled ones make up.\<close>

definition owed :: "task list \<Rightarrow> 'b list" where
  "owed ts = concat (map (\<lambda>t. h (fst t)) ts)"

definition load :: "world \<Rightarrow> 'b multiset" where
  "load w = mset (owed (tasks w)) + mset (concat (map h (settled w)))"

definition steady :: "world \<Rightarrow> world \<Rightarrow> bool" where
  "steady w w' \<longleftrightarrow> tracked_tasks w' \<and> mset (f (st w')) + load w = mset (f (st w)) + load w'"

lemma owed_simps [simp]:
  "owed [] = []" "owed (t # ts) = h (fst t) @ owed ts" "owed (ts @ us) = owed ts @ owed us"
  "owed (map silence ts) = owed ts"
  "owed (park own ps) = concat (map (\<lambda>p. h (fst p)) ps)"
  by (simp_all add: owed_def park_def silence_def case_prod_unfold comp_def if_distrib
      cong: if_cong)

lemma tracked_silence: "\<forall>x. tracked_act (fst (snd t) x) \<Longrightarrow> \<forall>x. tracked_act (fst (snd (silence t)) x)"
  by (cases t) (simp add: silence_def tracked_act_def)

lemma observer_tracked: "tracked_obs (observer_of own)"
  by (cases own) (simp_all add: caller_tracked pipe_observer_tracked)

text \<open>Any subscription, and any continuation of one.\<close>

lemma proceed_steady:
  assumes "tracked_act a" and "tracked_tasks w"
  shows "steady w (proceed own a w)"
proof -
  obtain s ps stat where run: "exec a (observer_of own) issue (st w) = (s, ps, stat)"
    by (metis prod_cases3)
  from exec_tracked [OF assms(1) observer_tracked run]
  have fs: "f s = f (st w) @ concat (map (\<lambda>p. h (fst p)) ps)"
    and ps: "\<forall>p \<in> set ps. \<forall>x. tracked_act (snd p x)" by blast+
  from ps assms(2) have all: "\<forall>t \<in> set (tasks w @ park own ps). \<forall>x. tracked_act (fst (snd t) x)"
    by (simp add: tracked_tasks_def park_def ball_Un case_prod_unfold)
  then have "\<forall>t \<in> set (map silence (tasks w @ park own ps)). \<forall>x. tracked_act (fst (snd t) x)"
    unfolding set_map ball_simps using tracked_silence by blast
  with all fs show ?thesis
    by (simp add: proceed_def run steady_def tracked_tasks_def load_def del: map_append set_append)
qed

lemma subscribe_steady:
  assumes "tracked_act a" and "tracked_tasks w"
  shows "steady w (subscribe n a w)"
  using proceed_steady [OF assms] by (simp add: subscribe_def)

lemma on_client_steady:
  assumes "f (g (st w)) = f (st w)" and "tracked_tasks w"
  shows "steady w (on_client g w)"
  using assms by (simp add: steady_def load_def on_client_def tracked_tasks_def)

lemma steady_refl: "tracked_tasks w \<Longrightarrow> steady w w"
  by (simp add: steady_def)

lemma tracked_subset:
  "tracked_tasks w \<Longrightarrow> set (tasks w') \<subseteq> set (tasks w) \<Longrightarrow> tracked_tasks w'"
  unfolding tracked_tasks_def by blast

lemma settle_steady:
  assumes "tracked_tasks w"
  shows "steady w (settle i reply w)"
proof (cases "i < length (tasks w)")
  case True
  obtain r k own where t: "tasks w ! i = (r, k, own)" by (metis prod_cases3)
  let ?w = "w\<lparr>tasks := take i (tasks w) @ drop (Suc i) (tasks w), settled := settled w @ [r]\<rparr>"
  have split: "tasks w = take i (tasks w) @ (r, k, own) # drop (Suc i) (tasks w)"
    using id_take_nth_drop [OF True] t by simp
  have "set (take i (tasks w) @ drop (Suc i) (tasks w)) \<subseteq> set (tasks w)"
    by (auto dest: in_set_takeD in_set_dropD)
  moreover have "tasks ?w = take i (tasks w) @ drop (Suc i) (tasks w)" by simp
  ultimately have w: "tracked_tasks ?w"
    using tracked_subset [OF assms, of ?w] by simp
  have "(r, k, own) \<in> set (tasks w)" using True t by (metis nth_mem)
  with assms have "\<forall>x. tracked_act (fst (snd (r, k, own)) x)" unfolding tracked_tasks_def by blast
  then have "tracked_act (k reply)" by simp
  from proceed_steady [OF this w] have "steady ?w (proceed own (k reply) ?w)" .
  moreover have "owed (tasks w) = owed (take i (tasks w)) @ h r @ owed (drop (Suc i) (tasks w))"
    using arg_cong [OF split, of owed] by simp
  then have "load ?w = load w" by (simp add: load_def)
  ultimately show ?thesis using True t by (simp add: settle_def steady_def)
qed (simp add: settle_def assms steady_refl)

lemma push_steady:
  assumes rx: "client_rx rx" and w: "tracked_tasks w"
  shows "steady w (push rx (JObj ps) w)"
proof (cases "pipe_open w")
  case True
  let ?a = "pipeline rx (Emit (JObj ps) Open)"
  obtain s qs stat where run: "exec ?a pipe_observer issue (st w) = (s, qs, stat)"
    by (metis prod_cases3)
  have "tracked_act ?a"
    unfolding tracked_act_def
    by (rule client_rx.keeps_pipeline [OF rx]) (simp_all add: untouched)
  from proceed_steady [OF this w, of Pipe] show ?thesis
    using True by (simp add: push_def proceed_def run steady_def load_def tracked_tasks_def Let_def
        split: if_splits)
qed (simp add: push_def steady_refl w)

lemma callback_steady:
  assumes "client_rx rx" and "tracked_tasks w"
  shows "steady w (callback rx event arg w)"
proof (cases "callback_event event arg")
  case (Inl e)
  with assms(2) show ?thesis
    using on_client_steady [of "throw_uncaught e" w]
    by (simp add: callback_def on_client_def throw_uncaught_def untouched)
next
  case (Inr r)
  with assms callback_event_object [of event arg] show ?thesis
    by (cases r) (auto simp: callback_def steady_refl push_steady)
qed

text \<open>Every input that is not a plain operation of the client.\<close>

lemma react_steady:
  assumes "client_rx rx" and "typed_input x" and "tracked_tasks w"
    and "\<And>s. f (plain x s) = f s"
  shows "steady w (react rx x w)"
proof (cases x)
  case (Callback event arg)
  with assms show ?thesis by (simp add: callback_steady)
next
  case (Settle i reply)
  with assms show ?thesis by (simp add: settle_steady)
next
  case (CallSend n serial meth path data)
  with assms(3) show ?thesis by (simp add: subscribe_steady send_tracked)
next
  case (CallRefresh n serial)
  with assms(3) show ?thesis by (simp add: subscribe_steady refresh_tracked)
next
  case (CallUpdate n serial upd)
  show ?thesis
  proof (cases "update rx serial upd")
    case (Inl e)
    with CallUpdate assms(3) show ?thesis
      by (simp add: on_client_steady observe_def untouched)
  next
    case (Inr a)
    have "keeps (\<lambda>s s'. f s' = f s) a"
      using assms(2) CallUpdate
      by (intro client_rx.keeps_update [OF assms(1) _ _ _ Inr]) (simp_all add: untouched)
    with CallUpdate Inr assms(3) show ?thesis
      by (simp add: subscribe_steady tracked_act_def)
  qed
qed (use assms(3,4) in \<open>simp_all add: on_client_steady\<close>)

end

section \<open>The two projections\<close>

definition request_of :: "native_call \<Rightarrow> request list" where
  "request_of c = (case c of CSend sid meth path body \<Rightarrow> [(sid, meth, path, body)] | _ \<Rightarrow> [])"

definition sent_requests :: "client \<Rightarrow> request list" where
  "sent_requests s = concat (map request_of (calls s))"

definition running_flag :: "client \<Rightarrow> unit list" where
  "running_flag s = (if running s then [()] else [])"

interpretation sent: tracked sent_requests "\<lambda>r. [r]"
  by unfold_locales
    (auto simp: sent_requests_def issue_def native_def request_of_def split: prod.split)

interpretation flag: tracked running_flag "\<lambda>_. []"
  by unfold_locales (auto simp: running_flag_def issue_def native_def split: prod.split)

lemma plain_sends_nothing: "sent_requests (plain x s) = sent_requests s"
  by (cases x)
    (auto simp: sent_requests_def request_of_def on_log_def listen_to_def op_defs attempt_def
      get_devices_def remove_def listen_def connect_def root_def close_def scan_def
      throw_uncaught_def split: option.split sum.split)

lemma plain_keeps_stopped: "running (plain x s) \<Longrightarrow> running s"
  by (cases x)
    (auto simp: on_log_def listen_to_def op_defs attempt_def
      get_devices_def remove_def listen_def connect_def root_def close_def scan_def
      throw_uncaught_def split: option.splits sum.splits if_splits)

end
