(* ===== verification/Behaviour.thy ===== *)
theory Behaviour
  imports Session
begin

text \<open>
  Properties of the client at work: the pipeline implements its specification, the event stream
  survives whatever devices answer and ends at a \<open>ctrlc\<close>, and what each kind of native event becomes for the application.
\<close>

section \<open>Steps of the world\<close>

lemma concat_nothing [simp]: "concat (map (\<lambda>_. []) xs) = []"
  by (induction xs) simp_all

lemma typed_plain: "plain x = (\<lambda>s. s) \<or> (\<forall>rx w. react rx x w = on_client (plain x) w)"
  by (cases x) (simp_all add: fun_eq_iff)

lemma pipe_open_on_client [simp]: "pipe_open (on_client g w) = pipe_open w"
  by (simp add: on_client_def)

context client_rx
begin

lemma push_object:
  assumes "get_prop (JObj ps) ''type'' = Inr ty"
  shows "push rx (JObj ps) w =
    (if \<not> pipe_open w then w
     else if ty = JStr ''ctrlc'' \<or> \<not> running (st w) then w\<lparr>pipe_open := False\<rparr>
     else if ty \<noteq> JStr ''_new'' then w\<lparr>st := deliver (JObj ps) (st w)\<rparr>
     else case get_prop (JObj ps) ''serial'' of
            Inr (JStr sid) \<Rightarrow>
              w\<lparr>st := issue (about_request sid) (st w),
                tasks := tasks w @ [(about_request sid, about_rest rx, Pipe)]\<rparr>
          | _ \<Rightarrow> w)"
proof -
  obtain serial where serial: "get_prop (JObj ps) ''serial'' = Inr serial" by simp
  show ?thesis
    using exec_pipeline [OF assms, of "st w", unfolded serial]
    by (cases serial)
      (auto simp: push_def serial park_def Let_def simp del: get_prop_simps split: if_splits)
qed

text \<open>
  Every request the pipeline waits for is an about request, whose continuation cannot fail. So
  no answer ends the pipeline.
\<close>

definition pipe_tasks :: "world \<Rightarrow> bool" where
  "pipe_tasks w \<longleftrightarrow> (\<forall>(r, k, own) \<in> set (tasks w). own = Pipe \<longrightarrow> k = about_rest rx)"

lemma pipe_tasks_subset:
  "pipe_tasks w \<Longrightarrow> set (tasks w') \<subseteq> set (tasks w) \<Longrightarrow> pipe_tasks w'"
  unfolding pipe_tasks_def by blast

lemma proceed_pipe:
  assumes "pipe_tasks w" and "own = Pipe \<longrightarrow> a = about_rest rx x"
  shows "pipe_tasks (proceed own a w) \<and> pipe_open (proceed own a w) = pipe_open w"
proof (cases own)
  case Pipe
  with assms show ?thesis by (simp add: proceed_def exec_about_rest pipe_tasks_def park_def)
next
  case (App n)
  with assms(1) show ?thesis
    by (auto simp: proceed_def pipe_tasks_def park_def split: prod.split)
qed

lemma settle_pipe:
  assumes "pipe_tasks w"
  shows "pipe_tasks (settle i reply w) \<and> pipe_open (settle i reply w) = pipe_open w"
proof (cases "i < length (tasks w)")
  case True
  obtain r k own where t: "tasks w ! i = (r, k, own)" by (metis prod_cases3)
  have "(r, k, own) \<in> set (tasks w)" using True t by (metis nth_mem)
  with assms have k: "own = Pipe \<longrightarrow> k reply = about_rest rx reply" by (auto simp: pipe_tasks_def)
  let ?w = "w\<lparr>tasks := take i (tasks w) @ drop (Suc i) (tasks w), settled := settled w @ [r]\<rparr>"
  have "set (tasks ?w) \<subseteq> set (tasks w)" by (auto dest: in_set_takeD in_set_dropD)
  from proceed_pipe [OF pipe_tasks_subset [OF assms this] k] True t show ?thesis
    by (simp add: settle_def)
qed (simp add: settle_def assms)

lemma subscribe_pipe:
  "pipe_tasks w \<Longrightarrow> pipe_tasks (subscribe n a w) \<and> pipe_open (subscribe n a w) = pipe_open w"
  using proceed_pipe [of w "App n" a] by (simp add: subscribe_def)

lemma push_pipe: "pipe_tasks w \<Longrightarrow> pipe_tasks (push rx (JObj ps) w)"
proof -
  assume w: "pipe_tasks w"
  obtain ty serial where ty: "get_prop (JObj ps) ''type'' = Inr ty"
    and "get_prop (JObj ps) ''serial'' = Inr serial" by simp
  with w show ?thesis
    by (cases serial) (simp_all add: push_object [OF ty] pipe_tasks_def del: get_prop_simps)
qed

lemma callback_pipe:
  assumes "pipe_tasks w"
  shows "pipe_tasks (callback rx event arg w)"
proof (cases "callback_event event arg")
  case (Inl e)
  with assms show ?thesis by (simp add: callback_def pipe_tasks_def)
next
  case (Inr r)
  with assms callback_event_object [of event arg] push_pipe show ?thesis
    by (cases r) (auto simp: callback_def)
qed

lemma react_pipe:
  assumes "pipe_tasks w"
  shows "pipe_tasks (react rx x w)"
proof -
  have plain: "pipe_tasks (on_client g w)" for g
    using assms by (simp add: on_client_def pipe_tasks_def)
  show ?thesis
    using callback_pipe [OF assms] settle_pipe [OF assms] subscribe_pipe [OF assms] plain
    by (cases x) (simp_all split: sum.split)
qed

end

section \<open>The stream as a whole\<close>

text \<open>
  C1. The rxjs pipeline of the constructor implements the specification of the event stream:
  for any order of native callbacks, answers and plain operations, the client, the state of
  the subscription and the outstanding requests are those the specification computes.
\<close>

theorem pipeline_refines_hub:
  assumes "client_rx rx" and "list_all stream_input xs"
  shows "hub_of (react_all rx xs (new_world text)) = fold hub_react xs (hub_of (new_world text))"
  by (rule client_rx.react_all_refines
      [OF assms(1) client_rx.about_tasks_new [OF assms(1)] assms(2)])

theorem pipeline_refines_hub_witness:
  "h_pending (hub_of (react_all rx_ref [Callback ''new'' (JStr ''A1''), Callback ''ctrlc'' JUndef,
       Callback ''new'' (JStr ''B2'')] (new_world ''{}''))) = [about_request ''A1'']"
  by (subst pipeline_refines_hub [OF ref_client.client_rx_axioms])
    (simp_all add: hub_of_def new_world_def new_client_def native_def loop.defs init_loop_def
      callback_event_def hub_event_def isEventDataNew_def tagged_def issue_def about_request_def)

fun ends_stream :: "input \<Rightarrow> bool" where
  "ends_stream (Callback event arg) =
     (case callback_event event arg of
        Inr (Some v) \<Rightarrow> get_prop v ''type'' = Inr (JStr ''ctrlc'')
      | _ \<Rightarrow> False)"
| "ends_stream x = False"

lemma stopped_stays:
  assumes "client_rx rx" and "typed_input x" and "flag.tracked_tasks w"
  shows "flag.tracked_tasks (react rx x w) \<and> (running (st (react rx x w)) \<longrightarrow> running (st w))"
proof (cases "\<forall>rx w. react rx x w = on_client (plain x) w")
  case True
  with assms(3) plain_keeps_stopped show ?thesis
    by (auto simp: on_client_def flag.tracked_tasks_def)
next
  case False
  then have "plain x = (\<lambda>s. s)" using typed_plain by blast
  then have "flag.steady w (react rx x w)"
    by (intro flag.react_steady [OF assms]) simp
  then have "flag.tracked_tasks (react rx x w)"
    "mset (running_flag (st (react rx x w))) = mset (running_flag (st w))"
    by (simp_all add: flag.steady_def flag.load_def flag.owed_def)
  then show ?thesis by (auto simp: running_flag_def split: if_splits)
qed

lemma callback_keeps_open:
  assumes "client_rx rx" and "\<not> ends_stream (Callback event arg)"
  shows "pipe_open (callback rx event arg w) = (pipe_open w \<and>
           (running (st w) \<or> \<not> (\<exists>v. callback_event event arg = Inr (Some v))))"
proof (cases "callback_event event arg")
  case (Inr r)
  show ?thesis
  proof (cases r)
    case (Some v)
    with Inr obtain ps where v: "v = JObj ps" using callback_event_object by blast
    obtain ty where ty: "get_prop (JObj ps) ''type'' = Inr ty" by simp
    obtain serial where "get_prop (JObj ps) ''serial'' = Inr serial" by simp
    with assms(2) Inr Some v ty show ?thesis
      by (cases serial)
        (simp_all add: callback_def client_rx.push_object [OF assms(1) ty] del: get_prop_simps)
  qed (simp add: callback_def Inr)
qed (simp add: callback_def)

lemma react_keeps_open:
  assumes "client_rx rx" and "client_rx.pipe_tasks rx w" and "\<not> ends_stream x" and "running (st w)"
  shows "pipe_open (react rx x w) = pipe_open w"
  using assms(3,4) client_rx.settle_pipe [OF assms(1,2)] client_rx.subscribe_pipe [OF assms(1,2)]
  by (cases x) (simp_all add: callback_keeps_open [OF assms(1)] split: sum.split)

text \<open>
  C2. No answer of a device, failed request, malformed JSON or misused callback ends the event
  stream: while the client is running and no \<open>ctrlc\<close> has come, it is open.
\<close>

theorem stream_survives:
  assumes "client_rx rx" and "list_all typed_input xs" and "list_all (\<lambda>x. \<not> ends_stream x) xs"
    and "running (st (react_all rx xs (new_world text)))"
  shows "pipe_open (react_all rx xs (new_world text))"
proof -
  note pipe = client_rx.react_pipe [OF assms(1)]
  have "flag.tracked_tasks w \<Longrightarrow> client_rx.pipe_tasks rx w \<Longrightarrow> (running (st w) \<longrightarrow> pipe_open w) \<Longrightarrow>
      running (st (react_all rx xs w)) \<Longrightarrow> pipe_open (react_all rx xs w)" for w
    using assms(2,3)
  proof (induction xs arbitrary: w)
    case (Cons x xs)
    from stopped_stays [OF assms(1) _ Cons.prems(1), of x] Cons.prems(5)
    have "flag.tracked_tasks (react rx x w)" "running (st (react rx x w)) \<longrightarrow> running (st w)"
      by simp_all
    with Cons.IH [of "react rx x w"] Cons.prems pipe react_keeps_open [OF assms(1), of w x]
    show ?case by simp
  qed simp
  moreover have "flag.tracked_tasks (new_world text)" "pipe_open (new_world text)"
    "client_rx.pipe_tasks rx (new_world text)"
    by (simp_all add: flag.tracked_tasks_def new_world_def client_rx.pipe_tasks_def [OF assms(1)])
  ultimately show ?thesis using assms(4) by blast
qed

theorem stream_survives_witness:
  "pipe_open (react_all rx_ref [Callback ''new'' (JStr ''A1''), Callback ''alert'' JUndef,
     Settle 0 (Inr ''no JSON'')] (new_world ''{}''))"
proof (rule stream_survives [OF ref_client.client_rx_axioms])
  let ?w = "react_all rx_ref [Callback ''new'' (JStr ''A1''), Callback ''alert'' JUndef,
     Settle 0 (Inr ''no JSON'')] (new_world ''{}'')"
  have "h_client (hub_of ?w) = h_client (fold hub_react [Callback ''new'' (JStr ''A1''),
     Callback ''alert'' JUndef, Settle 0 (Inr ''no JSON'')] (hub_of (new_world ''{}'')))"
    by (subst client_rx.react_all_refines [OF ref_client.client_rx_axioms])
      (simp_all add: client_rx.about_tasks_new [OF ref_client.client_rx_axioms])
  moreover have "running (about_answered reply s) = running s" for reply s
    using flag.about_answered_same [of reply s] by (simp add: running_flag_def split: if_splits)
  ultimately show "running (st ?w)"
    by (simp add: hub_of_def new_world_def new_client_def native_def loop.defs init_loop_def
        callback_event_def hub_event_def isEventDataNew_def isEventDataAlert_def
        issue_def about_request_def throw_uncaught_def)
qed (simp_all add: callback_event_def isEventDataNew_def isEventDataAlert_def)

section \<open>Typed native events\<close>

text \<open>The call of the callback that announces an event.\<close>

fun arrival :: "event \<Rightarrow> input" where
  "arrival (EventNew sid) = Callback ''new'' (JStr sid)"
| "arrival (EventHeartbeat sid) = Callback ''heartbeat'' (JStr sid)"
| "arrival (EventAlert a) = Callback ''alert'' (JObj (alert_fields a))"
| "arrival (EventError e) = Callback ''error'' (JObj (error_fields e))"
| "arrival EventCtrlc = Callback ''ctrlc'' JUndef"
| "arrival (EventAbout a sid) = Callback ''new'' JUndef"
| "arrival (EventLog l) = Log (JObj (log_fields l))"

fun from_native :: "event \<Rightarrow> bool" where
  "from_native (EventAbout a sid) = False"
| "from_native (EventLog l) = False"
| "from_native e = True"

lemma tagged_fields:
  "tagged ''alert'' (JObj (alert_fields a)) = event_js (EventAlert a)"
  "tagged ''error'' (JObj (error_fields e)) = event_js (EventError e)"
  "tagged ''ctrlc'' JUndef = event_js EventCtrlc"
proof -
  have "object_entries (alert_fields a) = alert_fields a"
    by (rule object_entries_no_index) (simp add: alert_fields_def key_index_nondigit is_digit_def)
  then show "tagged ''alert'' (JObj (alert_fields a)) = event_js (EventAlert a)"
    by (simp add: tagged_def spread_def event_js_def) (simp add: put_all_fresh alert_fields_def)
  have "object_entries (error_fields e) = error_fields e"
    by (rule object_entries_no_index) (simp add: error_fields_def key_index_nondigit is_digit_def)
  then show "tagged ''error'' (JObj (error_fields e)) = event_js (EventError e)"
    by (simp add: tagged_def spread_def event_js_def) (simp add: put_all_fresh error_fields_def)
qed (simp add: tagged_def event_js_def spread_def)

lemma callback_event_simps [simp]:
  "callback_event ''new'' (JStr sid) = Inr (Some (event_js (EventNew sid)))"
  "callback_event ''heartbeat'' (JStr sid) = Inr (Some (event_js (EventHeartbeat sid)))"
  "callback_event ''alert'' (JObj (alert_fields a)) = Inr (Some (event_js (EventAlert a)))"
  "callback_event ''error'' (JObj (error_fields e)) = Inr (Some (event_js (EventError e)))"
  "callback_event ''ctrlc'' JUndef = Inr (Some (event_js EventCtrlc))"
proof -
  show "callback_event ''alert'' (JObj (alert_fields a)) = Inr (Some (event_js (EventAlert a)))"
    by (simp add: callback_event_def tagged_fields guards_accept)
  show "callback_event ''error'' (JObj (error_fields e)) = Inr (Some (event_js (EventError e)))"
    by (simp add: callback_event_def tagged_fields guards_accept)
qed (simp_all add: callback_event_def isEventDataNew_def isEventDataHeartbeat_def tagged_fields
      event_js_def [of "EventNew sid"] event_js_def [of "EventHeartbeat sid"])

lemma event_push:
  assumes "client_rx rx"
  shows "push rx (event_js e) w =
    (if \<not> pipe_open w then w
     else if e = EventCtrlc \<or> \<not> running (st w) then w\<lparr>pipe_open := False\<rparr>
     else case e of
       EventNew sid \<Rightarrow>
         w\<lparr>st := issue (about_request sid) (st w),
           tasks := tasks w @ [(about_request sid, about_rest rx, Pipe)]\<rparr>
     | _ \<Rightarrow> w\<lparr>st := deliver (event_js e) (st w)\<rparr>)"
proof -
  obtain ps where ps: "event_js e = JObj ps" by (simp add: event_js_def)
  have ty: "get_prop (JObj ps) ''type'' = Inr (JStr (event_type e))"
    using event_js_type [of e] ps by simp
  show ?thesis
    unfolding ps client_rx.push_object [OF assms ty]
    by (cases e) (auto simp: ps [symmetric] event_js_def)
qed

lemma deliver_loop [simp]:
  "running (deliver v s) = running s" "calls (deliver v s) = calls s" "devs (deliver v s) = devs s"
  "stream (deliver v s) = stream s @ [v]" "listeners (deliver v s) = listeners s"
  by (simp_all add: deliver_def emit_def throw_uncaught_def Let_def split: sum.split)

lemma issue_fields [simp]:
  "running (issue r s) = running s" "stream (issue r s) = stream s" "devs (issue r s) = devs s"
  "summary (issue r s) = summary s" "listeners (issue r s) = listeners s"
  by (simp_all add: issue_def native_def split: prod.split)

fun new_serials :: "event list \<Rightarrow> string list" where
  "new_serials [] = []"
| "new_serials (EventNew sid # es) = sid # new_serials es"
| "new_serials (e # es) = new_serials es"

fun is_new :: "event \<Rightarrow> bool" where
  "is_new (EventNew sid) = True"
| "is_new e = False"

text \<open>
  C4. A run of typed native events on an open stream of a running client, none of them a \<open>ctrlc\<close> and
  every error with its three fields: every event but the arrivals of devices is delivered at
  once, unchanged and in order; each arrival sends one about request, in order, and delivers
  nothing yet; the stream stays open. (A \<open>ctrlc\<close> ends the stream without being delivered, and
  an error without a serial is dropped.)
\<close>

theorem native_events_in_order:
  assumes "client_rx rx" and "pipe_open w" and "running (st w)"
    and "list_all from_native es" and "EventCtrlc \<notin> set es"
  shows "stream (st (react_all rx (map arrival es) w))
           = stream (st w) @ map event_js (filter (\<lambda>e. \<not> is_new e) es)
         \<and> map fst (tasks (react_all rx (map arrival es) w))
           = map fst (tasks w) @ map about_request (new_serials es)
         \<and> sent_requests (st (react_all rx (map arrival es) w))
           = sent_requests (st w) @ map about_request (new_serials es)
         \<and> pipe_open (react_all rx (map arrival es) w)"
  using assms(2-5)
proof (induction es arbitrary: w)
  case (Cons e es)
  note push = event_push [OF assms(1), of e w]
  have "react rx (arrival e) w = push rx (event_js e) w"
    using Cons.prems(3) by (cases e) (simp_all add: callback_def)
  with Cons push show ?case
    by (cases e) (simp_all add: sent.on_issue sent.deliver_same)
qed simp

lemma fresh_client [simp]:
  "running (st (new_world text))" "pipe_open (new_world text)" "tasks (new_world text) = []"
  "stream (st (new_world text)) = []" "devs (st (new_world text)) = []"
  "summary (st (new_world text)) = text" "listeners (st (new_world text)) = []"
  "sent_requests (st (new_world text)) = []"
  by (simp_all add: new_world_def new_client_def native_def loop.defs init_loop_def
      sent_requests_def request_of_def)

theorem native_events_in_order_witness:
  "let w = react_all rx_ref (map arrival [EventNew ''A1'', EventHeartbeat ''B2'', EventNew ''C3''])
             (new_world ''{}'')
   in stream (st w) = [event_js (EventHeartbeat ''B2'')]
      \<and> map fst (tasks w) = [about_request ''A1'', about_request ''C3'']"
proof -
  define es where "es = [EventNew ''A1'', EventHeartbeat ''B2'', EventNew ''C3'']"
  have "map event_js (filter (\<lambda>e. \<not> is_new e) es) = [event_js (EventHeartbeat ''B2'')]"
    "map about_request (new_serials es) = [about_request ''A1'', about_request ''C3'']"
    "list_all from_native es" "EventCtrlc \<notin> set es" by (simp_all add: es_def)
  with native_events_in_order [OF ref_client.client_rx_axioms, of "new_world ''{}''" es]
  show ?thesis unfolding es_def [symmetric] Let_def by simp
qed

section \<open>A new device\<close>

lemma settle_last:
  assumes "client_rx rx"
  shows "settle (length ts) reply (w\<lparr>tasks := ts @ [(r, about_rest rx, Pipe)]\<rparr>) =
           w\<lparr>st := about_answered reply (st w), tasks := ts, settled := settled w @ [r]\<rparr>"
  by (simp add: settle_def proceed_def client_rx.exec_about_rest [OF assms] park_def)

lemma about_answered_typed:
  assumes "andThen reply json_parse = Inr (about_response_js a)"
    and "json_parse (summary s) = Inr (JObj sums)" and "keyed sums" and "keyed (devs s)"
  shows "\<exists>ds. about_answered reply s = deliver (event_js (EventAbout a (ab_sid a))) (s\<lparr>devs := ds\<rparr>)
           \<and> keyed ds
           \<and> entry_of ds (ab_sid a) =
               map_of ((''type'', JStr ''new'') # (''serial'', JStr (ab_sid a)) # about_fields a)
               ++ entry_of sums (ab_sid a)
           \<and> (\<forall>k. k \<noteq> ab_sid a \<longrightarrow> map_of ds k = map_of (devs s) k)"
  using store_about_typed [OF assms(2-4), of a]
  by (auto simp: about_answered_def about_outcome_def assms(1) about_event_typed)

text \<open>
  C5. A new device: its serial number alone announces nothing, but sends one about request; the
  answer puts the device into the table and only then delivers the decorated \<open>new\<close> event.
\<close>

theorem new_device_announced:
  assumes "client_rx rx" and "pipe_open w" and "running (st w)"
    and "json_parse reply = Inr (about_response_js a)"
    and "json_parse (summary (st w)) = Inr (JObj sums)" and "keyed sums" and "keyed (devs (st w))"
  shows "let w1 = callback rx ''new'' (JStr sid) w;
             w2 = settle (length (tasks w)) (Inr reply) w1
         in stream (st w1) = stream (st w) \<and> devs (st w1) = devs (st w)
            \<and> sent_requests (st w1) = sent_requests (st w) @ [about_request sid]
            \<and> stream (st w2) = stream (st w) @ [event_js (EventAbout a (ab_sid a))]
            \<and> keyed (devs (st w2))
            \<and> entry_of (devs (st w2)) (ab_sid a) =
                map_of ((''type'', JStr ''new'') # (''serial'', JStr (ab_sid a)) # about_fields a)
                ++ entry_of sums (ab_sid a)
            \<and> tasks w2 = tasks w \<and> pipe_open w2"
proof -
  let ?s = "issue (about_request sid) (st w)"
  from about_answered_typed [of "Inr reply" a ?s sums] assms(4-7) obtain ds where
    "about_answered (Inr reply) ?s = deliver (event_js (EventAbout a (ab_sid a))) (?s\<lparr>devs := ds\<rparr>)"
    "keyed ds" "entry_of ds (ab_sid a) =
       map_of ((''type'', JStr ''new'') # (''serial'', JStr (ab_sid a)) # about_fields a)
       ++ entry_of sums (ab_sid a)" by auto
  moreover have "callback rx ''new'' (JStr sid) w = w\<lparr>st := ?s,
      tasks := tasks w @ [(about_request sid, about_rest rx, Pipe)]\<rparr>"
    using assms(2,3) by (simp add: callback_def event_push [OF assms(1)])
  moreover have "settle (length (tasks w)) (Inr reply) \<dots> =
      w\<lparr>st := about_answered (Inr reply) ?s, tasks := tasks w,
        settled := settled w @ [about_request sid]\<rparr>"
    using settle_last [OF assms(1), of "tasks w" "Inr reply" "about_request sid" "w\<lparr>st := ?s\<rparr>"]
    by simp
  ultimately show ?thesis by (simp add: Let_def sent.on_issue assms(2))
qed

lemma parse_about: "json_parse (json_stringify (about_response_js (sample_about ''A1'')))
    = Inr (about_response_js (sample_about ''A1''))"
proof -
  let ?v = "about_response_js (sample_about ''A1'')"
  have "json_norm ?v = ?v"
    by (simp add: about_response_js_def about_fields_def object_entries_no_index
        key_index_nondigit is_digit_def)
  moreover have "json_normal ?v" by (simp add: about_response_js_def about_fields_def)
  ultimately show ?thesis by (simp add: json_stringify_def json_roundtrip_normal)
qed

theorem new_device_announced_witness:
  "stream (st (settle 0 (Inr (json_stringify (about_response_js (sample_about ''A1''))))
      (callback rx_ref ''new'' (JStr ''A1'') (new_world (json_stringify sample_summary)))))
   = [event_js (EventAbout (sample_about ''A1'') (ab_sid (sample_about ''A1'')))]"
  using new_device_announced [OF ref_client.client_rx_axioms,
      of "new_world (json_stringify sample_summary)" _ _ _ "''A1''", OF _ _ parse_about]
    parse_summary
  by (simp add: Let_def keyed_single)

section \<open>The device table in a session\<close>

text \<open>A native summary as the binding prints it: an object of entries that carry their key.\<close>

definition good_summary :: "string \<Rightarrow> bool" where
  "good_summary text \<longleftrightarrow> (\<exists>sums. json_parse text = Inr (JObj sums) \<and> keyed sums)"

text \<open>An answer to an about request: a failure, no JSON, or about data of some device.\<close>

definition good_about :: "string res \<Rightarrow> bool" where
  "good_about reply \<longleftrightarrow>
     (case andThen reply json_parse of Inl e \<Rightarrow> True | Inr v \<Rightarrow> (\<exists>a. v = about_response_js a))"

fun good_input :: "input \<Rightarrow> bool" where
  "good_input (Settle i reply) = good_about reply"
| "good_input (Summary text) = good_summary text"
| "good_input x = stream_input x"

definition table_ok :: "client \<Rightarrow> bool" where
  "table_ok s \<longleftrightarrow> keyed (devs s) \<and> good_summary (summary s)"

lemma table_ok_deliver [simp]: "table_ok (deliver v s) = table_ok s"
  by (simp add: table_ok_def deliver_def emit_def throw_uncaught_def Let_def split: sum.split)

lemma table_ok_simps [simp]:
  "table_ok (issue r s) = table_ok s" "table_ok (throw_uncaught e s) = table_ok s"
  by (simp_all add: table_ok_def issue_def native_def throw_uncaught_def split: prod.split)

lemma about_answered_table:
  assumes "table_ok s" and "good_about reply"
  shows "table_ok (about_answered reply s)"
proof (cases "andThen reply json_parse")
  case (Inl e)
  with assms(1) show ?thesis by (simp add: about_answered_def about_outcome_def)
next
  case (Inr v)
  with assms(2) obtain a where "v = about_response_js a" by (auto simp: good_about_def)
  moreover from assms(1) obtain sums where
    "json_parse (summary s) = Inr (JObj sums)" "keyed sums" "keyed (devs s)"
    by (auto simp: table_ok_def good_summary_def)
  ultimately obtain ds where
    "about_answered reply s = deliver (event_js (EventAbout a (ab_sid a))) (s\<lparr>devs := ds\<rparr>)"
    "keyed ds" using about_answered_typed Inr by blast
  with assms(1) show ?thesis by simp (simp add: table_ok_def)
qed

lemma get_devices_table:
  assumes "table_ok s"
  shows "\<exists>ds. get_devices s = (s\<lparr>devs := ds\<rparr>, Inr (JObj ds)) \<and> keyed ds"
proof -
  from assms obtain sums where sums: "json_parse (summary s) = Inr (JObj sums)" "keyed sums"
    "keyed (devs s)" by (auto simp: table_ok_def good_summary_def)
  from devices_of_merged [OF sums(3,2)] sums(1) show ?thesis
    by (auto simp: get_devices_def devices_def merged_def)
qed

lemma plain_table:
  assumes "table_ok s" and "good_input x"
  shows "table_ok (plain x s)"
proof (cases x)
  case CallDevices
  with get_devices_table [OF assms(1)] assms(1) show ?thesis by (auto simp: table_ok_def)
next
  case (CallRemove sid)
  with assms(1) show ?thesis
    by (auto simp: table_ok_def remove_def native_def remove_device_def intro: keyed_intros)
qed (use assms in \<open>auto simp: table_ok_def on_log_def listen_to_def op_defs attempt_def
      listen_def connect_def root_def close_def scan_def throw_uncaught_def
      split: option.split sum.split\<close>)

lemma hub_table:
  assumes "table_ok (h_client h)" and "good_input x"
  shows "table_ok (h_client (hub_react x h))"
proof (cases x)
  case (Callback event arg)
  have "table_ok (h_client (hub_event v h))" for v
    using assms(1) by (auto simp: hub_event_def split: sum.split js.split)
  with Callback assms(1) show ?thesis by (auto split: sum.split option.split)
next
  case (Settle i reply)
  with assms about_answered_table show ?thesis by auto
qed (use assms plain_table in \<open>auto simp del: plain.simps\<close>)

text \<open>
  C14. In a session of native events, answers and synchronous calls, in which the application itself
  sends, refreshes and updates nothing, as long as devices describe themselves properly or not
  at all and the native summary is well-formed: the device table is well-formed at every moment,
  and asking for \<open>devices\<close> never throws.
\<close>

theorem table_well_formed:
  assumes "client_rx rx" and "good_summary text"
    and "list_all (\<lambda>x. stream_input x \<and> good_input x) xs"
  shows "let s = st (react_all rx xs (new_world text))
         in keyed (devs s) \<and> (\<exists>ds. get_devices s = (s\<lparr>devs := ds\<rparr>, Inr (JObj ds)) \<and> keyed ds)"
proof -
  have inv: "table_ok (h_client h) \<Longrightarrow> table_ok (h_client (fold hub_react xs h))" for h
    using assms(3) by (induction xs arbitrary: h) (simp_all add: hub_table)
  have "table_ok (h_client (hub_of (new_world text)))"
    using assms(2) by (simp add: hub_of_def table_ok_def)
  from inv [OF this] client_rx.react_all_refines [OF assms(1) client_rx.about_tasks_new [OF assms(1)],
      of xs "text"] assms(3)
  have "table_ok (h_client (hub_of (react_all rx xs (new_world text))))"
    by (simp add: list_all_iff)
  then have ok: "table_ok (st (react_all rx xs (new_world text)))" by (simp add: hub_of_def)
  with get_devices_table [OF ok] show ?thesis by (simp add: Let_def table_ok_def)
qed

theorem table_well_formed_witness:
  "keyed (devs (st (react_all rx_ref [Callback ''new'' (JStr ''A1''),
      Settle 0 (Inr (json_stringify (about_response_js (sample_about ''A1'')))), CallDevices]
      (new_world (json_stringify sample_summary)))))"
proof -
  have "good_summary (json_stringify sample_summary)"
    using parse_summary by (simp add: good_summary_def keyed_single)
  from table_well_formed [OF ref_client.client_rx_axioms this,
      of "[Callback ''new'' (JStr ''A1''),
           Settle 0 (Inr (json_stringify (about_response_js (sample_about ''A1'')))), CallDevices]"]
  show ?thesis by (auto simp: good_about_def parse_about Let_def simp del: react_all_simps)
qed

text \<open>
  A device that does not answer, answers with an error or with something that is no JSON is
  never announced: the request is used up and nothing else has changed.
\<close>

theorem silent_device_not_announced:
  assumes "client_rx rx" and "pipe_open w" and "running (st w)"
    and "andThen reply json_parse = Inl e"
  shows "let w1 = callback rx ''new'' (JStr sid) w;
             w2 = settle (length (tasks w)) reply w1
         in st w2 = st w1 \<and> stream (st w2) = stream (st w) \<and> devs (st w2) = devs (st w)
            \<and> tasks w2 = tasks w \<and> pipe_open w2"
proof -
  let ?s = "issue (about_request sid) (st w)"
  have "callback rx ''new'' (JStr sid) w = w\<lparr>st := ?s,
      tasks := tasks w @ [(about_request sid, about_rest rx, Pipe)]\<rparr>"
    using assms(2,3) by (simp add: callback_def event_push [OF assms(1)])
  moreover have "settle (length (tasks w)) reply \<dots> =
      w\<lparr>st := about_answered reply ?s, tasks := tasks w,
        settled := settled w @ [about_request sid]\<rparr>"
    using settle_last [OF assms(1), of "tasks w" reply "about_request sid" "w\<lparr>st := ?s\<rparr>"]
    by simp
  moreover have "about_answered reply ?s = ?s"
    by (simp add: about_answered_def about_outcome_def assms(4))
  ultimately show ?thesis by (simp add: Let_def assms(2))
qed

theorem silent_device_not_announced_witness:
  "stream (st (settle 0 (Inl (Rejected 504)) (callback rx_ref ''new'' (JStr ''A1'') (new_world ''{}''))))
   = []"
  using silent_device_not_announced [OF ref_client.client_rx_axioms, of "new_world ''{}''"
      "Inl (Rejected 504)" "Rejected 504" "''A1''"]
  unfolding Let_def by auto

section \<open>The end of the stream\<close>

text \<open>
  The arrival of \<open>ctrlc\<close> closes the stream without telling anybody: no subscriber of
  \<open>events$\<close> sees an event, no listener is called, and whatever the callback passes on
  afterwards is dropped too.
\<close>

theorem ctrlc_is_never_delivered:
  assumes "client_rx rx" and "pipe_open w"
  shows "let w1 = callback rx ''ctrlc'' JUndef w
         in st w1 = st w \<and> tasks w1 = tasks w \<and> \<not> pipe_open w1
            \<and> (\<forall>event arg. callback rx event arg w1 = w1
                 \<or> (\<exists>e. callback_event event arg = Inl e))"
proof -
  have "callback rx ''ctrlc'' JUndef w = w\<lparr>pipe_open := False\<rparr>"
    using assms(2) by (simp add: callback_def event_push [OF assms(1)])
  then show ?thesis
    by (auto simp: Let_def callback_def push_def split: sum.split option.split)
qed

theorem ctrlc_is_never_delivered_witness:
  "stream (st (callback rx_ref ''ctrlc'' JUndef (react_all rx_ref [AddListener ''ctrlc''] (new_world ''{}'')))) = []
   \<and> heard (st (callback rx_ref ''ctrlc'' JUndef (react_all rx_ref [AddListener ''ctrlc''] (new_world ''{}'')))) = []"
  using ctrlc_is_never_delivered [OF ref_client.client_rx_axioms,
      of "react_all rx_ref [AddListener ''ctrlc''] (new_world ''{}'')"]
  by (simp add: Let_def on_client_def listen_to_def)
    (simp add: new_world_def new_client_def native_def loop.defs)

section \<open>Errors\<close>

lemma spread_event:
  assumes "list_all (\<lambda>(k, _). key_index k = None) ps" and "distinct (map fst ps)"
  shows "spread [] (JObj ps) = ps"
  using assms by (simp add: spread_def object_entries_no_index put_all_fresh)

lemma copy_native_event:
  "spread [] (event_js (EventError e)) = (''type'', JStr ''error'') # error_fields e"
  "spread [] (event_js (EventAlert a)) = (''type'', JStr ''alert'') # alert_fields a"
  "spread [] (event_js (EventHeartbeat sid)) = [(''type'', JStr ''heartbeat''), (''serial'', JStr sid)]"
  unfolding event_js_def
  by (simp_all add: spread_event error_fields_def alert_fields_def key_index_nondigit is_digit_def)

text \<open>
  An error event reaches the stream of observables; the traditional emitter hands a copy to
  its listeners, but with no listener for \<open>error\<close> it throws, inside a native callback, where
  nothing catches it. The stream itself goes on.
\<close>

theorem error_event_needs_listener:
  assumes "client_rx rx" and "pipe_open w" and "running (st w)"
  shows "let w1 = callback rx ''error'' (JObj (error_fields e)) w
         in stream (st w1) = stream (st w) @ [event_js (EventError e)] \<and> pipe_open w1
            \<and> (''error'' \<in> set (listeners (st w)) \<longrightarrow>
                 heard (st w1) = heard (st w) @ [(''error'', event_js (EventError e))]
                 \<and> uncaught (st w1) = uncaught (st w))
            \<and> (''error'' \<notin> set (listeners (st w)) \<longrightarrow>
                 heard (st w1) = heard (st w)
                 \<and> uncaught (st w1) = uncaught (st w) @ [UnhandledErrorEvent])"
proof -
  have "callback rx ''error'' (JObj (error_fields e)) w
      = w\<lparr>st := deliver (event_js (EventError e)) (st w)\<rparr>"
    using assms(2,3) by (simp add: callback_def event_push [OF assms(1)])
  moreover have "JObj (spread [] (event_js (EventError e))) = event_js (EventError e)"
    by (simp add: copy_native_event) (simp add: event_js_def)
  ultimately show ?thesis
    using assms(2)
    by (simp add: Let_def) (simp add: deliver_def emit_def throw_uncaught_def)
qed

definition sample_error :: event_data_error where
  "sample_error = \<lparr>er_serial = ''A1'', er_errorCode = 13, er_errorMessage = ''timeout''\<rparr>"

theorem error_event_needs_listener_witness:
  "uncaught (st (callback rx_ref ''error'' (JObj (error_fields sample_error)) (new_world ''{}'')))
     = [UnhandledErrorEvent]"
proof -
  have "uncaught (st (new_world ''{}'')) = []"
    by (simp add: new_world_def new_client_def native_def loop.defs)
  with error_event_needs_listener [OF ref_client.client_rx_axioms, of "new_world ''{}''" sample_error]
  show ?thesis by (simp add: Let_def)
qed

text \<open>
  An error passes the callback exactly when it has its three fields. The native side leaves
  \<open>serial\<close> out of an error that concerns no particular device, so such an error is dropped:
  nothing at all changes.
\<close>

theorem error_passes_iff_complete:
  assumes "map_of ps ''hasOwnProperty'' = None"
  shows "callback_event ''error'' (JObj ps) =
           Inr (if map_of ps ''serial'' \<noteq> None \<and> map_of ps ''errorCode'' \<noteq> None
                   \<and> map_of ps ''errorMessage'' \<noteq> None
                then Some (tagged ''error'' (JObj ps)) else None)
         \<and> (map_of ps ''serial'' = None \<longrightarrow> callback rx ''error'' (JObj ps) w = w)"
  using assms
  by (cases "map_of ps ''serial''"; cases "map_of ps ''errorCode''"; cases "map_of ps ''errorMessage''")
    (simp_all add: callback_def callback_event_def isEventDataError_def)

theorem error_passes_iff_complete_witness:
  "callback rx_ref ''error'' (JObj [(''errorCode'', JNum 3), (''errorMessage'', JStr ''socket'')])
     (new_world ''{}'') = new_world ''{}''"
  using error_passes_iff_complete [of "[(''errorCode'', JNum 3), (''errorMessage'', JStr ''socket'')]"
      rx_ref "new_world ''{}''"]
  by simp

section \<open>The views of an application\<close>

context client_rx
begin

lemmas views = whenNew_def whenAbout_def whenHeartbeat_def whenAlert_def whenError_def
  whenCtrlc_def whenEvent_def

end

definition event_key :: "string \<Rightarrow> bool" where
  "event_key ev \<longleftrightarrow>
     ev \<in> {[], ''_new'', ''new'', ''heartbeat'', ''alert'', ''error'', ''ctrlc''}"

text \<open>
  Before the first \<open>run\<close> there is no promise to wait for: every view, asked for then, reports
  a \<open>TypeError\<close> to its subscriber and ends, even if the client is run later.
\<close>

theorem events_before_run_fail:
  assumes "client_rx rx" and "event_key ev" and "shutdownPromise s = None"
  shows "\<exists>view. events rx ev s source = Some view
           \<and> exec view obs iss t = (on_error obs TypeError t, [], Failed)
           \<and> exec (logs rx s source) obs iss t = (on_error obs TypeError t, [], Failed)"
  using assms(2)
  by (auto simp: event_key_def events_def logs_def until_shutdown_def assms(3)
      client_rx.views [OF assms(1)] rxjs.filter_laws [OF client_rx.axioms(1) [OF assms(1)]])

theorem events_before_run_fail_witness:
  "\<exists>view. events rx_ref ''new'' (new_client ''{}'') Open = Some view
     \<and> exec view (caller 0) issue (run_loop 50 (new_client ''{}''))
         = (observe 0 (Error TypeError) (run_loop 50 (new_client ''{}'')), [], Failed)"
proof -
  have "shutdownPromise (new_client ''{}'') = None"
    by (simp add: new_client_def native_def init_loop_def loop.defs)
  moreover have "event_key ''new''" by (simp add: event_key_def)
  ultimately show ?thesis
    using events_before_run_fail [OF ref_client.client_rx_axioms, of "''new''" "new_client ''{}''"
        Open "caller 0" issue "run_loop 50 (new_client ''{}'')"]
    by (auto simp: caller_def)
qed

section \<open>Request bodies\<close>

text \<open>
  What a device gets as the body of a \<open>post\<close>: a string as it is; any other truthy value as
  JSON that parses back to the value (with \<open>undefined\<close> members dropped); nothing at all for the
  falsy values, \<open>0\<close> and \<open>false\<close> among them.
\<close>

theorem post_body:
  assumes "json_safe data"
  shows "\<exists>k body. post (JStr sid) path data = Await (sid, ''POST'', path, body) k
           \<and> (\<not> truthy data \<longrightarrow> body = [])
           \<and> (\<forall>text. data = JStr text \<longrightarrow> body = text)
           \<and> (truthy data \<and> typeof data \<noteq> ''string'' \<longrightarrow> json_parse body = Inr (json_norm data))
           \<and> (\<forall>reply. k reply = promise_of (andThen reply json_parse))"
proof -
  have "json_parse (json_stringify data) = Inr (json_norm data)"
    using assms by (simp add: json_stringify_def json_norm_normal json_roundtrip_normal)
  then show ?thesis
    by (cases data) (auto simp: post_def send_def body_of_def)
qed

theorem post_body_witness:
  "\<exists>k body. post (JStr ''A1'') ''/x'' (JArr [JNum 1, JUndef]) = Await (''A1'', ''POST'', ''/x'', body) k
     \<and> json_parse body = Inr (JArr [JNum 1, JNull])"
  using post_body [of "JArr [JNum 1, JUndef]" "''A1''" "''/x''"]
  by (auto simp: max_safe_def)

end
