(* ===== verification/Requests.thy ===== *)
theory Requests
  imports Behaviour
begin

text \<open>
  Which requests the client sends, and when. The specification knows nothing of observables: it
  keeps the list of the outstanding requests, each with the requests that follow it as long as
  the answers are good, and says for every input which requests go out.
\<close>

section \<open>The specification\<close>







section \<open>What a continuation sends\<close>

definition parked_by :: "client act \<Rightarrow> client observer \<Rightarrow> client \<Rightarrow> client parked list" where
  "parked_by a obs s = fst (snd (exec a obs issue s))"

text \<open>
  \<open>follows k qs\<close>: the continuation \<open>k\<close> of a request sends, on a good answer, the first request
  of \<open>qs\<close> and nothing else, and so on to the end of \<open>qs\<close>; on a bad answer it sends nothing.
\<close>

fun follows :: "(string res \<Rightarrow> client act) \<Rightarrow> request list \<Rightarrow> bool" where
  "follows k [] = (\<forall>x obs s. parked_by (k x) obs s = [])"
| "follows k (q # qs) =
     (\<exists>k'. follows k' qs \<and>
        (\<forall>x obs s. parked_by (k x) obs s = (if \<not> isl (andThen x json_parse) then [(q, k')] else [])))"


lemma parked_by_simps [simp]:
  "parked_by Done obs s = []" "parked_by (Fail e) obs s = []" "parked_by Open obs s = []"
  "parked_by (Emit v a) obs s = parked_by a obs (on_next obs v s)"
  "parked_by (Await q k) obs s = [(q, k)]"
  "parked_by (promise_of r) obs s = []"
  by (simp_all add: parked_by_def promise_of_def split: sum.split)



lemma follows_silent: "follows (\<lambda>_. Open) []"
  by simp






section \<open>One input\<close>









section \<open>A whole session\<close>




end
