(* ===== verification/Views.thy ===== *)
theory Views
  imports Behaviour
begin

text \<open>
  What a subscriber of \<open>events(ev)\<close> sees while everything else goes on: the world reacts to its
  inputs, \<open>events$\<close> emits what the pipeline and the logger deliver, and the promise of the run
  resolves at some time or never.
\<close>

section \<open>What the stream emits\<close>

text \<open>Every value that is emitted is an object, and nothing that was emitted is taken back.\<close>

definition emits :: "client \<Rightarrow> client \<Rightarrow> bool" where
  "emits s s' \<longleftrightarrow> (\<exists>vs. stream s' = stream s @ vs \<and> list_all is_object vs)"

lemma emits_same: "stream s' = stream s \<Longrightarrow> emits s s'"
  by (simp add: emits_def)

lemma emits_refl [simp]: "emits s s"
  by (simp add: emits_same)

lemma emits_trans: "emits s s' \<Longrightarrow> emits s' s'' \<Longrightarrow> emits s s''"
  unfolding emits_def by (metis append_assoc list_all_append)

lemma stream_deliver [simp]: "stream (deliver v s) = stream s @ [v]"
  by (simp add: deliver_def throw_uncaught_def emit_def Let_def split: sum.split)

lemma emits_about_answered: "emits s (about_answered x s)"
proof -
  have "is_object ev" if "about_event r = Inr ev" for r ev
    using that by (auto simp: about_event_def andThen_eq_Inr split: if_splits)
  then show ?thesis
    by (auto simp: about_answered_def about_outcome_def emits_def split: option.split sum.splits)
qed

lemma emits_plain: "emits s (plain x s)"
  by (cases x)
    (auto simp: emits_def on_log_def tagged_def listen_to_def op_defs attempt_def
      get_devices_def remove_def listen_def connect_def root_def close_def scan_def
      throw_uncaught_def split: option.split sum.split)

text \<open>The subscriptions of the application leave the stream alone.\<close>

abbreviation keeps_stream :: "client act \<Rightarrow> bool" where
  "keeps_stream \<equiv> keeps (\<lambda>s s'. stream s' = stream s)"

definition quiet_apps :: "world \<Rightarrow> bool" where
  "quiet_apps w \<longleftrightarrow>
     (\<forall>(r, k, own) \<in> set (tasks w). own \<noteq> Pipe \<longrightarrow> (\<forall>x. keeps_stream (k x)))"

lemma quiet_apps_subset: "quiet_apps w \<Longrightarrow> set (tasks w') \<subseteq> set (tasks w) \<Longrightarrow> quiet_apps w'"
  unfolding quiet_apps_def by blast

lemma proceed_app:
  assumes "keeps_stream a" and "quiet_apps w"
  shows "quiet_apps (proceed (App n) a w) \<and> stream (st (proceed (App n) a w)) = stream (st w)"
proof -
  obtain s ps stat where run: "exec a (caller n) issue (st w) = (s, ps, stat)"
    by (metis prod_cases3)
  have "obs_keeps (\<lambda>s s'. stream s' = stream s) (caller n)"
    by (simp add: obs_keeps_def caller_def observe_def)
  from exec_accounts [OF assms(1) this, of issue "\<lambda>_. []", OF _ run]
  have "stream s = stream (st w)" "\<forall>p \<in> set ps. \<forall>x. keeps_stream (snd p x)"
    by (auto simp: issue_def native_def split: prod.split)
  with assms(2) show ?thesis
    by (auto simp: proceed_def run quiet_apps_def park_def)
qed

lemma react_emits:
  assumes rx: "client_rx rx" and typed: "typed_input x"
    and w: "client_rx.pipe_tasks rx w" "quiet_apps w"
  shows "quiet_apps (react rx x w) \<and> emits (st w) (st (react rx x w))"
proof -
  have plain: "quiet_apps (on_client g w)" for g
    using w(2) by (simp add: on_client_def quiet_apps_def)
  have sub: "quiet_apps (subscribe n a w) \<and> emits (st w) (st (subscribe n a w))"
    if "keeps_stream a" for n a
    using proceed_app [OF that w(2)] by (simp add: subscribe_def emits_same)
  show ?thesis
  proof (cases x)
    case (Callback event arg)
    show ?thesis
    proof (cases "callback_event event arg")
      case (Inl e)
      with Callback plain [of "throw_uncaught e"] show ?thesis
        by (simp add: callback_def on_client_def throw_uncaught_def emits_def)
    next
      case (Inr r)
      show ?thesis
      proof (cases r)
        case (Some v)
        with Inr obtain fs where v: "v = JObj fs" using callback_event_object by blast
        obtain ty serial where ty: "get_prop (JObj fs) ''type'' = Inr ty"
          and "get_prop (JObj fs) ''serial'' = Inr serial" by simp
        with Callback Inr Some v w(2) show ?thesis
          by (cases serial)
            (auto simp: callback_def client_rx.push_object [OF rx ty] quiet_apps_def emits_def
              issue_def native_def simp del: get_prop_simps split: prod.split)
      qed (simp add: Callback Inr callback_def w(2))
    qed
  next
    case (Settle i reply)
    show ?thesis
    proof (cases "i < length (tasks w)")
      case True
      obtain r k own where t: "tasks w ! i = (r, k, own)" by (metis prod_cases3)
      have mem: "(r, k, own) \<in> set (tasks w)" using True t by (metis nth_mem)
      let ?w = "w\<lparr>tasks := take i (tasks w) @ drop (Suc i) (tasks w), settled := settled w @ [r]\<rparr>"
      have "set (tasks ?w) \<subseteq> set (tasks w)" by (auto dest: in_set_takeD in_set_dropD)
      note w' = quiet_apps_subset [OF w(2) this]
      have eq: "react rx x w = proceed own (k reply) ?w" using True t Settle by (simp add: settle_def)
      show ?thesis
      proof (cases own)
        case Pipe
        with w(1) mem have "k reply = about_rest rx reply"
          by (auto simp: client_rx.pipe_tasks_def [OF rx])
        with Pipe w' show ?thesis
          by (simp add: eq proceed_def client_rx.exec_about_rest [OF rx] park_def quiet_apps_def
              emits_about_answered)
      next
        case (App n)
        with w(2) mem have "keeps_stream (k reply)" by (auto simp: quiet_apps_def)
        from proceed_app [OF this w', of n] App show ?thesis by (simp add: eq emits_same)
      qed
    qed (simp add: Settle settle_def w(2))
  next
    case (CallSend n serial meth path data)
    have "keeps_stream (send (JStr serial) meth path data)"
      by (simp add: send_def promise_of_def split: sum.split)
    with CallSend sub show ?thesis by simp
  next
    case (CallRefresh n serial)
    have "keeps_stream (refresh serial)"
      by (simp add: refresh_def send_def split: sum.split prod.split)
    with CallRefresh sub show ?thesis by simp
  next
    case (CallUpdate n serial upd)
    show ?thesis
    proof (cases "update rx serial upd")
      case (Inl e)
      with CallUpdate plain [of "observe n (Error e)"] show ?thesis
        by (simp add: on_client_def observe_def emits_def)
    next
      case (Inr a)
      have "keeps_stream a"
        using typed CallUpdate
        by (intro client_rx.keeps_update [OF rx _ _ _ Inr]) simp_all
      with CallUpdate Inr sub show ?thesis by simp
    qed
  qed (use plain emits_plain in \<open>simp_all add: on_client_def del: plain.simps\<close>)
qed

text \<open>Worlds that a client gets into.\<close>

definition in_session :: "client rx \<Rightarrow> world \<Rightarrow> bool" where
  "in_session rx w \<longleftrightarrow> client_rx.pipe_tasks rx w \<and> quiet_apps w"

lemma in_session_new: "client_rx rx \<Longrightarrow> in_session rx (new_world text)"
  by (simp add: in_session_def client_rx.pipe_tasks_def quiet_apps_def new_world_def)

lemma in_session_react:
  "client_rx rx \<Longrightarrow> typed_input x \<Longrightarrow> in_session rx w \<Longrightarrow> in_session rx (react rx x w)"
  using client_rx.react_pipe react_emits by (simp add: in_session_def)

lemma session_emits:
  assumes "client_rx rx" and "list_all typed_input xs" and "in_session rx w"
  shows "in_session rx (react_all rx xs w) \<and> emits (st w) (st (react_all rx xs w))"
  using assms(2,3)
proof (induction xs arbitrary: w)
  case (Cons x xs)
  then have "in_session rx (react rx x w)" "emits (st w) (st (react rx x w))"
    using in_session_react [OF assms(1), of x w] react_emits [OF assms(1), of x w]
    by (simp_all add: in_session_def)
  with Cons show ?case by (auto intro: emits_trans)
qed simp

section \<open>A subscriber\<close>

text \<open>
  What subscriber \<open>n\<close> of a view is told when the source of the view goes on with \<open>src\<close>, and
  whether it is still subscribed.
\<close>

definition told :: "nat \<Rightarrow> client act \<Rightarrow> client \<Rightarrow> observation list \<times> bool" where
  "told n view s =
     (case exec view (caller n) issue s of
        (s', _, stat) \<Rightarrow> (map snd (drop (length (observed s)) (observed s')), stat = Live))"

text \<open>
  The subscription along a session: after every input the view gets what \<open>events$\<close> has newly
  emitted. Once it has ended it gets nothing more.
\<close>

definition fresh :: "world \<Rightarrow> world \<Rightarrow> js list" where
  "fresh w w' = drop (length (stream (st w))) (stream (st w'))"

fun watch :: "client rx \<Rightarrow> nat \<Rightarrow> (client act \<Rightarrow> client act) \<Rightarrow> input list \<Rightarrow> world \<Rightarrow> observation list" where
  "watch rx n view [] w = []"
| "watch rx n view (x # xs) w =
     (let w' = react rx x w;
          (seen, live) = told n (view (emit_all (fresh w w') Open)) (st w')
      in seen @ (if live then watch rx n view xs w' else []))"

definition subscription :: "client rx \<Rightarrow> nat \<Rightarrow> (client act \<Rightarrow> client act) \<Rightarrow> input list \<Rightarrow> world \<Rightarrow> observation list" where
  "subscription rx n view xs w =
     (let (seen, live) = told n (view Open) (st w)
      in seen @ (if live then watch rx n view xs w else []))"

text \<open>The values of the type asked for, and all without a type.\<close>

definition wanted :: "string \<Rightarrow> js \<Rightarrow> bool" where
  "wanted ev v \<longleftrightarrow> ev = [] \<or> type_is ev v = Inr True"

context client_rx
begin

lemma told_filtered:
  assumes "list_all is_object vs"
  shows "told n (rx_filter rx (type_is ev)
             (rx_takeUntil rx (\<lambda>s'. p \<in> set (resolved s')) (emit_all vs Open))) s =
           (if p \<in> set (resolved s) then ([Complete], False)
            else (map Next (filter (\<lambda>v. type_is ev v = Inr True) vs), True))"
proof (cases "p \<in> set (resolved s)")
  case True
  then show ?thesis
    by (cases vs) (simp_all add: told_def takeUntil_emit takeUntil_open filter_laws caller_def observe_def)
next
  case False
  have "exec (rx_filter rx (type_is ev)
          (rx_takeUntil rx (\<lambda>s'. p \<in> set (resolved s')) (emit_all vs Open))) (caller n) issue s
        = (s\<lparr>observed := observed s @ map (\<lambda>v. (n, Next v)) (filter (\<lambda>v. type_is ev v = Inr True) vs)\<rparr>,
           [], Live)"
    using assms False
  proof (induction vs arbitrary: s)
    case (Cons v vs)
    then obtain b where "type_is ev v = Inr b" by (auto simp: is_object_iff type_is_def)
    with Cons show ?case
      by (cases b) (simp_all add: takeUntil_emit filter_laws caller_def observe_def)
  qed (simp add: takeUntil_open filter_laws)
  with False show ?thesis by (simp add: told_def comp_def)
qed

lemma told_all:
  "told n (rx_takeUntil rx (\<lambda>s'. p \<in> set (resolved s')) (emit_all vs Open)) s =
     (if p \<in> set (resolved s) then ([Complete], False) else (map Next vs, True))"
proof (cases "p \<in> set (resolved s)")
  case True
  then show ?thesis
    by (cases vs) (simp_all add: told_def takeUntil_emit takeUntil_open caller_def observe_def)
next
  case False
  then have "exec (rx_takeUntil rx (\<lambda>s'. p \<in> set (resolved s')) (emit_all vs Open)) (caller n) issue s
        = (s\<lparr>observed := observed s @ map (\<lambda>v. (n, Next v)) vs\<rparr>, [], Live)"
    by (induction vs arbitrary: s) (simp_all add: takeUntil_emit takeUntil_open caller_def observe_def)
  with False show ?thesis by (simp add: told_def comp_def)
qed

text \<open>Every view of the client, on whatever its source emits.\<close>

lemma told_view:
  assumes "event_key ev" and "shutdownPromise s0 = Some p"
  shows "\<exists>view. (\<forall>src. events rx ev s0 src = Some (view src))
           \<and> (\<forall>vs s. list_all is_object vs \<longrightarrow>
                told n (view (emit_all vs Open)) s =
                  (if p \<in> set (resolved s) then ([Complete], False)
                   else (map Next (filter (wanted ev) vs), True)))"
proof -
  let ?all = "rx_takeUntil rx (\<lambda>s'. p \<in> set (resolved s'))"
  have all: "until_shutdown rx s0 = ?all"
    by (simp add: until_shutdown_def assms(2) fun_eq_iff)
  show ?thesis
  proof (cases "ev = []")
    case True
    then show ?thesis
      by (intro exI [of _ ?all]) (simp add: events_def all told_all wanted_def)
  next
    case False
    have "(\<lambda>v. type_is ev v = Inr True) = wanted ev" using False by (simp add: wanted_def fun_eq_iff)
    note filtered = told_filtered [where ev = ev, unfolded this]
    show ?thesis
      using assms(1) False
      by (intro exI [of _ "\<lambda>src. rx_filter rx (type_is ev) (?all src)"])
        (auto simp: event_key_def events_def all views Let_def filtered)
  qed
qed

end

text \<open>No input of \<open>xs\<close> resolves promise \<open>p\<close>.\<close>

fun open_during :: "client rx \<Rightarrow> nat \<Rightarrow> input list \<Rightarrow> world \<Rightarrow> bool" where
  "open_during rx p [] w \<longleftrightarrow> p \<notin> set (resolved (st w))"
| "open_during rx p (x # xs) w \<longleftrightarrow> p \<notin> set (resolved (st w)) \<and> open_during rx p xs (react rx x w)"

lemma fresh_append:
  assumes "emits (st w) (st w')" and "emits (st w') (st w'')"
  shows "fresh w w'' = fresh w w' @ fresh w' w''" and "list_all is_object (fresh w w')"
  using assms by (auto simp: emits_def fresh_def)

lemma watch_open:
  assumes rx: "client_rx rx" and "list_all typed_input xs" and "in_session rx w" and "open_during rx p xs w"
    and view: "\<And>vs s. list_all is_object vs \<Longrightarrow> told n (view (emit_all vs Open)) s =
                 (if p \<in> set (resolved s) then ([Complete], False)
                  else (map Next (filter (wanted ev) vs), True))"
  shows "watch rx n view (xs @ ys) w =
           map Next (filter (wanted ev) (fresh w (react_all rx xs w))) @ watch rx n view ys (react_all rx xs w)"
  using assms(2-4)
proof (induction xs arbitrary: w)
  case Nil
  show ?case by (simp add: fresh_def)
next
  case (Cons x xs)
  let ?w = "react rx x w"
  from Cons.prems have w: "in_session rx ?w" "emits (st w) (st ?w)"
    using in_session_react [OF rx, of x w] session_emits [OF rx, of "[x]" w] by simp_all
  from Cons.prems w have rest: "emits (st ?w) (st (react_all rx xs ?w))"
    using session_emits [OF rx, of xs ?w] by simp
  from Cons.prems have "p \<notin> set (resolved (st ?w))" by (cases xs) simp_all
  with Cons w rest fresh_append [OF w(2) rest] show ?case by (simp add: view Let_def)
qed

text \<open>
  C17. A subscriber of \<open>events(ev)\<close> of a client whose run is not over is told, in order, exactly
  the events of the type asked for (all without a type) that the stream emits from then on until
  the promise of the run resolves; at the input that resolves it the subscriber gets the
  completion, and nothing afterwards, whatever happens. (\<open>ev\<close> is one of the names of the code,
  updates are of the declared types.)
\<close>

theorem events_until_shutdown:
  assumes "client_rx rx" and "event_key ev" and "list_all typed_input (xs0 @ xs @ x # ys)"
    and "w = react_all rx xs0 (new_world text)" and "shutdownPromise (st w) = Some p"
    and "open_during rx p xs w"
  shows "\<exists>view. (\<forall>src. events rx ev (st w) src = Some (view src))
     \<and> subscription rx n view xs w
         = map Next (filter (wanted ev) (fresh w (react_all rx xs w)))
     \<and> (p \<in> set (resolved (st (react_all rx (xs @ [x]) w))) \<longrightarrow>
          subscription rx n view (xs @ x # ys) w
            = map Next (filter (wanted ev) (fresh w (react_all rx xs w))) @ [Complete])"
proof -
  obtain view where eq: "\<forall>src. events rx ev (st w) src = Some (view src)"
    and view: "\<And>vs s. list_all is_object vs \<Longrightarrow> told n (view (emit_all vs Open)) s =
                 (if p \<in> set (resolved s) then ([Complete], False)
                  else (map Next (filter (wanted ev) vs), True))"
    using client_rx.told_view [OF assms(1,2,5), of n] by blast
  from assms(3) have typed: "list_all typed_input xs0" "list_all typed_input xs" "typed_input x"
    by simp_all
  have w: "in_session rx w"
    using session_emits [OF assms(1) typed(1) in_session_new [OF assms(1)]] assms(4) by simp
  have start: "told n (view Open) (st w) = ([], True)"
    using view [of "[]" "st w"] assms(6) by (cases xs) simp_all
  note seen = watch_open [OF assms(1) typed(2) w assms(6) view]
  have "emits (st (react_all rx xs w)) (st (react rx x (react_all rx xs w)))"
    using session_emits [OF assms(1) typed(2) w] session_emits [OF assms(1), of "[x]"] typed(3) by simp
  then have "list_all is_object (fresh (react_all rx xs w) (react rx x (react_all rx xs w)))"
    by (simp add: fresh_append(2) [OF _ emits_refl])
  with seen [of "x # ys"] seen [of "[]"] start eq show ?thesis
    by (intro exI [of _ view]) (simp add: subscription_def view)
qed

lemma heartbeat_runs:
  assumes "client_rx rx" and "pipe_open w" and "running (st w)"
  shows "react rx (Callback ''heartbeat'' (JStr sid)) w
           = w\<lparr>st := deliver (event_js (EventHeartbeat sid)) (st w)\<rparr>"
proof -
  have ty: "get_prop (event_js (EventHeartbeat sid)) ''type'' = Inr (JStr ''heartbeat'')" by simp
  obtain ps where ps: "event_js (EventHeartbeat sid) = JObj ps" by (simp add: event_js_def)
  from client_rx.push_object [OF assms(1) ty [unfolded ps]] assms(2,3) show ?thesis
    by (simp add: callback_def ps)
qed

theorem events_until_shutdown_witness:
  "let w = react_all rx_ref [Run 50] (new_world ''{}'') in
   \<exists>view. (\<forall>src. events rx_ref ''heartbeat'' (st w) src = Some (view src))
     \<and> subscription rx_ref 0 view
         [Callback ''heartbeat'' (JStr ''A1''), Shutdown, Callback ''heartbeat'' (JStr ''B2'')] w
         = [Next (event_js (EventHeartbeat ''A1'')), Complete]"
proof -
  let ?xs = "[Callback ''heartbeat'' (JStr ''A1'')]"
  define w where "w = react_all rx_ref [Run 50] (new_world ''{}'')"
  have w: "pipe_open w" "running (st w)" "shutdownPromise (st w) = Some 0" "resolved (st w) = []"
    "stream (st w) = []" "shutdownTimer (st w) = Some 1" "shutdownResolve (st w) = Some 0"
    by (simp_all add: w_def op_defs on_client_def new_world_def new_client_def init_loop_def loop.defs)
  have keeps: "resolved (deliver v s) = resolved s" "shutdownTimer (deliver v s) = shutdownTimer s"
    "shutdownResolve (deliver v s) = shutdownResolve s" for v s
    by (simp_all add: deliver_def throw_uncaught_def emit_def Let_def split: sum.split)
  define v where "v = w\<lparr>st := deliver (event_js (EventHeartbeat ''A1'')) (st w)\<rparr>"
  have beat: "react_all rx_ref ?xs w = v"
    using heartbeat_runs [OF ref_client.client_rx_axioms w(1,2)] by (simp add: v_def)
  have v: "resolved (st v) = []" "shutdownTimer (st v) = Some 1" "shutdownResolve (st v) = Some 0"
    "stream (st v) = [event_js (EventHeartbeat ''A1'')]"
    by (simp_all add: v_def keeps w)
  have "0 \<in> set (resolved (st (react_all rx_ref (?xs @ [Shutdown]) w)))"
    using v beat by (simp add: on_client_def attempt_def op_defs)
  moreover have "open_during rx_ref 0 ?xs w" using w(4) v(1) beat by simp
  moreover have "event_key ''heartbeat''" by (simp add: event_key_def)
  moreover have "list_all typed_input ([Run 50] @ ?xs @ Shutdown # [Callback ''heartbeat'' (JStr ''B2'')])"
    by simp
  ultimately have "\<exists>view. (\<forall>src. events rx_ref ''heartbeat'' (st w) src = Some (view src))
     \<and> subscription rx_ref 0 view (?xs @ Shutdown # [Callback ''heartbeat'' (JStr ''B2'')]) w
         = map Next (filter (wanted ''heartbeat'') (fresh w (react_all rx_ref ?xs w))) @ [Complete]"
    using events_until_shutdown [OF ref_client.client_rx_axioms _ _ w_def w(3)] by blast
  then show ?thesis
    unfolding Let_def w_def [symmetric] beat by (simp add: fresh_def wanted_def w(5) v(4))
qed

end
