(* ===== verification/Logger.thy ===== *)
theory Logger
  imports Client
begin

text \<open>
  \<open>bindings/node/lib/src/Logger.ts\<close>: a second way to the native log, beside the \<open>log\<close> events of
  the class \<open>Linq\<close>. The record logs the calls of the native side it makes and the values it
  passes to \<open>next\<close> of its subject.
\<close>

section \<open>The class\<close>

record logger =
  log_opened :: nat
  log_nexts :: "js list"

text \<open>The constructor opens the native logger with \<open>(data) => this.logs$.next(data)\<close>.\<close>

definition new_logger :: logger where
  "new_logger = \<lparr>log_opened = 1, log_nexts = []\<rparr>"

definition logger_data :: "js \<Rightarrow> logger \<Rightarrow> logger" where
  "logger_data data s = s\<lparr>log_nexts := log_nexts s @ [data]\<rparr>"

text \<open>\<open>listen()\<close>: what the subject emits from the subscription on, with nothing added.\<close>

definition logger_listen :: "client act \<Rightarrow> client act" where
  "logger_listen logs_subject = logs_subject"

section \<open>Both ways agree\<close>

text \<open>The same lines through the class \<open>Linq\<close>: each is tagged and interleaved with the events.\<close>

lemma logger_lines: "log_nexts (fold logger_data ds new_logger) = ds"
proof -
  have "log_nexts (fold logger_data ds s) = log_nexts s @ ds" for s
    by (induction ds arbitrary: s) (simp_all add: logger_data_def)
  then show ?thesis by (simp add: new_logger_def)
qed

lemma client_lines:
  "stream (fold on_log ds s) =
     stream s @ map (tagged ''log'') (log_nexts (fold logger_data ds new_logger))"
  unfolding logger_lines by (induction ds arbitrary: s) (simp_all add: on_log_def)

end
