(* ===== verification/TlsProxy.thy ===== *)
theory TlsProxy
  imports Prelude
begin

text \<open>
  \<open>bindings/node/lib/src/TlsTerminate.ts\<close>: a server that accepts TLS connections and relays the
  bytes of each to a plain TCP connection and back. The code of a connection only registers
  pipes and listeners; what happens then is the work of Node's sockets. So a connection is the
  two sockets with the registrations \<open>accept\<close> has made, and one definition per event says
  what a socket of the standard library does with them, whatever they are.
\<close>

section \<open>Sockets and registrations\<close>

text \<open>
  A socket: the bytes it has been given to send, whether its writing side has been ended and
  has sent everything, whether it has been destroyed, whether the peer has ended.
\<close>

record sock =
  out :: string
  ended :: bool
  finished :: bool
  destroyed :: bool
  at_eof :: bool

definition fresh_sock :: sock where
  "fresh_sock = \<lparr>out = [], ended = False, finished = False, destroyed = False, at_eof = False\<rparr>"

definition sock_end :: "sock \<Rightarrow> sock" where
  "sock_end s = s\<lparr>ended := True\<rparr>"

definition sock_destroy :: "sock \<Rightarrow> sock" where
  "sock_destroy s = s\<lparr>destroyed := True, ended := True\<rparr>"

datatype side = Tls | Tcp

datatype trigger = OnError | OnEnd

text \<open>The statements the listeners consist of.\<close>

datatype action = LogError | Destroy side | EndSide side

record conn =
  tlsSocket :: sock
  tcpSocket :: sock
  pipes :: "(side \<times> side) list"
  listeners :: "(side \<times> trigger \<times> action list) list"
  logged :: nat

text \<open>The callback of \<open>createServer\<close>, statement by statement.\<close>

definition accept :: conn where
  "accept =
     \<lparr>tlsSocket = fresh_sock, tcpSocket = fresh_sock,
      pipes = [(Tls, Tcp), (Tcp, Tls)],
      listeners =
        [(Tls, OnError, [LogError, Destroy Tls, EndSide Tcp]),
         (Tcp, OnError, [LogError, Destroy Tcp, EndSide Tls]),
         (Tls, OnEnd, [EndSide Tcp]),
         (Tcp, OnEnd, [EndSide Tls])],
      logged = 0\<rparr>"

section \<open>What Node's sockets do\<close>

fun sock_of :: "side \<Rightarrow> conn \<Rightarrow> sock" where
  "sock_of Tls c = tlsSocket c"
| "sock_of Tcp c = tcpSocket c"

fun on_sock :: "side \<Rightarrow> (sock \<Rightarrow> sock) \<Rightarrow> conn \<Rightarrow> conn" where
  "on_sock Tls f c = c\<lparr>tlsSocket := f (tlsSocket c)\<rparr>"
| "on_sock Tcp f c = c\<lparr>tcpSocket := f (tcpSocket c)\<rparr>"

text \<open>A pipe goes away when its destination has finished, has failed or has been destroyed.\<close>

definition unpipe :: "side \<Rightarrow> conn \<Rightarrow> conn" where
  "unpipe d c = c\<lparr>pipes := filter (\<lambda>(s, e). e \<noteq> d) (pipes c)\<rparr>"

definition destroy :: "side \<Rightarrow> conn \<Rightarrow> conn" where
  "destroy d c = unpipe d (on_sock d sock_destroy c)"

fun run_action :: "action \<Rightarrow> conn \<Rightarrow> conn" where
  "run_action LogError c = c\<lparr>logged := Suc (logged c)\<rparr>"
| "run_action (Destroy d) c = destroy d c"
| "run_action (EndSide d) c = on_sock d sock_end c"

definition emit_event :: "trigger \<Rightarrow> side \<Rightarrow> conn \<Rightarrow> conn" where
  "emit_event name d c =
     fold (\<lambda>(d', name', actions). if d' = d \<and> name' = name then fold run_action actions else id)
       (listeners c) c"

definition socket_fails :: "side \<Rightarrow> conn \<Rightarrow> conn" where
  "socket_fails d c = emit_event OnError d (unpipe d c)"

text \<open>
  \<open>write\<close>: a destroyed socket drops the chunk; on one that has been ended the write is an error
  of the socket.
\<close>

definition sock_write :: "side \<Rightarrow> string \<Rightarrow> conn \<Rightarrow> conn" where
  "sock_write d chunk c =
     (if destroyed (sock_of d c) then c
      else if ended (sock_of d c) then socket_fails d c
      else on_sock d (\<lambda>s. s\<lparr>out := out s @ chunk\<rparr>) c)"

datatype sock_event = Data side string | End side | Finish side | ErrorOn side

text \<open>
  A destroyed socket emits nothing more; one at its end no data and no second end. A chunk that
  arrives is written to every destination of a pipe. When the peer ends, a socket that may not
  be half open ends its own writing side, the pipes end their destinations, and the listeners
  run. A socket that has finished and whose peer has ended is destroyed.
\<close>

fun relay :: "sock_event \<Rightarrow> conn \<Rightarrow> conn" where
  "relay (Data d chunk) c =
     (if destroyed (sock_of d c) \<or> at_eof (sock_of d c) then c
      else fold (\<lambda>(s, e). if s = d then sock_write e chunk else id) (pipes c) c)"
| "relay (End d) c =
     (if destroyed (sock_of d c) \<or> at_eof (sock_of d c) then c
      else
        let c1 = on_sock d (\<lambda>s. sock_end (s\<lparr>at_eof := True\<rparr>)) c;
            c2 = fold (\<lambda>(s, e). if s = d then on_sock e sock_end else id) (pipes c1) c1;
            c3 = emit_event OnEnd d c2
        in if finished (sock_of d c3) then destroy d c3 else c3)"
| "relay (Finish d) c =
     (if destroyed (sock_of d c) \<or> \<not> ended (sock_of d c) \<or> finished (sock_of d c) then c
      else
        let c1 = unpipe d (on_sock d (\<lambda>s. s\<lparr>finished := True\<rparr>) c)
        in if at_eof (sock_of d c1) then destroy d c1 else c1)"
| "relay (ErrorOn d) c = (if destroyed (sock_of d c) then c else socket_fails d c)"

definition relays :: "sock_event list \<Rightarrow> conn" where
  "relays es = fold relay es accept"

section \<open>Starting the server\<close>

text \<open>
  \<open>listen\<close>: the promise of the server. Its executor creates the server and calls \<open>listen\<close>; the
  callback of \<open>listen\<close> resolves the promise. An exception in the executor (a key the TLS
  library refuses) rejects it. A server that cannot bind its port emits an \<open>error\<close> event, for
  which no listener is registered.
\<close>

record options =
  opt_cert :: string
  opt_key :: string
  opt_zmtp :: int
  opt_zmtps :: int

datatype promise = Pending | Resolved | RejectedWith thrown

record server =
  srv_promise :: promise
  srv_port :: int
  srv_target :: int
  srv_uncaught :: "thrown list"

definition tls_listen :: "(string \<Rightarrow> string \<Rightarrow> thrown option) \<Rightarrow> options \<Rightarrow> server" where
  "tls_listen createServer opts =
     \<lparr>srv_promise = (case createServer (opt_cert opts) (opt_key opts) of
                       Some e \<Rightarrow> RejectedWith e | None \<Rightarrow> Pending),
      srv_port = opt_zmtps opts, srv_target = opt_zmtp opts, srv_uncaught = []\<rparr>"

datatype server_event = Listening | ServerError thrown

fun on_server :: "server_event \<Rightarrow> server \<Rightarrow> server" where
  "on_server Listening s =
     (if srv_promise s = Pending then s\<lparr>srv_promise := Resolved\<rparr> else s)"
| "on_server (ServerError e) s = s\<lparr>srv_uncaught := srv_uncaught s @ [e]\<rparr>"

section \<open>What the relay promises\<close>

fun data_from :: "side \<Rightarrow> sock_event list \<Rightarrow> string" where
  "data_from d [] = []"
| "data_from d (Data d' chunk # es) = (if d' = d then chunk else []) @ data_from d es"
| "data_from d (e # es) = data_from d es"

lemma data_from_append [simp]: "data_from d (es @ fs) = data_from d es @ data_from d fs"
  by (induction d es rule: data_from.induct) simp_all

text \<open>The events that end a connection.\<close>

fun closing :: "sock_event \<Rightarrow> bool" where
  "closing (End d) = True"
| "closing (ErrorOn d) = True"
| "closing e = False"

lemma sock_of_on_sock [simp]:
  "sock_of d (on_sock d' f c) = (if d = d' then f (sock_of d c) else sock_of d c)"
  by (cases d; cases d') simp_all

lemma sock_of_simps [simp]:
  "sock_of d (c\<lparr>logged := n\<rparr>) = sock_of d c" "sock_of d (unpipe e c) = sock_of d c"
  by (cases d; simp add: unpipe_def)+

lemma all_sides: "(\<forall>d. P d) \<longleftrightarrow> P Tls \<and> P Tcp"
  by (metis side.exhaust)

text \<open>Once both writing sides have ended, they stay so and are given nothing more.\<close>

definition shut :: "(side \<Rightarrow> string) \<Rightarrow> conn \<Rightarrow> bool" where
  "shut o' c \<longleftrightarrow> (\<forall>d. ended (sock_of d c) \<and> out (sock_of d c) = o' d)"

lemma shut_simps [simp]:
  "shut o' (unpipe d c) = shut o' c" "shut o' (c\<lparr>logged := n\<rparr>) = shut o' c"
  by (simp_all add: shut_def)

lemma shut_fold: "(\<And>x c. shut o' c \<Longrightarrow> shut o' (f x c)) \<Longrightarrow> shut o' c \<Longrightarrow> shut o' (fold f xs c)"
  by (induction xs arbitrary: c) simp_all

lemma shut_destroy: "shut o' c \<Longrightarrow> shut o' (destroy d c)"
  by (simp add: destroy_def) (simp add: shut_def sock_destroy_def)

lemma shut_sock:
  "shut o' c \<Longrightarrow> (\<And>s. ended s \<Longrightarrow> ended (f s) \<and> out (f s) = out s) \<Longrightarrow> shut o' (on_sock d f c)"
  by (auto simp: shut_def)

lemma shut_end: "shut o' c \<Longrightarrow> shut o' (on_sock d sock_end c)"
  by (rule shut_sock) (simp_all add: sock_end_def)

lemma shut_action: "shut o' c \<Longrightarrow> shut o' (run_action a c)"
  by (cases a) (simp_all add: shut_destroy shut_end)

lemma shut_actions: "shut o' c \<Longrightarrow> shut o' (fold run_action as c)"
  by (rule shut_fold [OF shut_action])

lemma shut_emit: "shut o' c \<Longrightarrow> shut o' (emit_event name d c)"
  unfolding emit_event_def by (rule shut_fold) (auto intro: shut_actions)

lemma shut_fails: "shut o' c \<Longrightarrow> shut o' (socket_fails d c)"
  by (simp add: socket_fails_def shut_emit)

lemma shut_write: "shut o' c \<Longrightarrow> shut o' (sock_write d chunk c)"
  by (auto simp: sock_write_def shut_fails) (simp add: shut_def)

lemma shut_relay:
  assumes "shut o' c"
  shows "shut o' (relay e c)"
proof (cases e)
  case (Data d chunk)
  with assms show ?thesis by (auto intro!: shut_fold shut_write)
next
  case (End d)
  have "shut o' (on_sock d (\<lambda>s. sock_end (s\<lparr>at_eof := True\<rparr>)) c)"
    by (rule shut_sock [OF assms]) (simp add: sock_end_def)
  then have "shut o' (emit_event OnEnd d (fold (\<lambda>(s, e). if s = d then on_sock e sock_end else id)
      ps (on_sock d (\<lambda>s. sock_end (s\<lparr>at_eof := True\<rparr>)) c)))" for ps
    by (intro shut_emit shut_fold) (auto intro: shut_end)
  with End assms show ?thesis by (simp add: Let_def shut_destroy)
next
  case (Finish d)
  have "shut o' (on_sock d (\<lambda>s. s\<lparr>finished := True\<rparr>) c)"
    by (rule shut_sock [OF assms]) simp
  with Finish assms show ?thesis by (simp add: Let_def shut_destroy)
next
  case (ErrorOn d)
  with assms show ?thesis by (simp add: shut_fails)
qed

text \<open>Until then it is as \<open>accept\<close> left it, but for what the two sockets have been given.\<close>

definition open_conn :: "sock_event list \<Rightarrow> conn" where
  "open_conn es = accept\<lparr>tlsSocket := fresh_sock\<lparr>out := data_from Tcp es\<rparr>,
                         tcpSocket := fresh_sock\<lparr>out := data_from Tls es\<rparr>\<rparr>"

lemmas node_defs = open_conn_def accept_def fresh_sock_def sock_write_def socket_fails_def
  emit_event_def destroy_def unpipe_def sock_end_def sock_destroy_def

lemma open_step: "\<not> closing e \<Longrightarrow> relay e (open_conn es) = open_conn (es @ [e])"
  by (cases e; cases "case e of Data d b \<Rightarrow> d | End d \<Rightarrow> d | Finish d \<Rightarrow> d | ErrorOn d \<Rightarrow> d")
    (simp_all add: node_defs)

lemma close_step:
  assumes "closing e"
  shows "shut (\<lambda>d. out (sock_of d (open_conn es))) (relay e (open_conn es))"
proof (cases e)
  case (End d)
  then show ?thesis unfolding shut_def all_sides by (cases d) (simp_all add: node_defs)
next
  case (ErrorOn d)
  then show ?thesis unfolding shut_def all_sides by (cases d) (simp_all add: node_defs)
qed (use assms in simp_all)

text \<open>A connection before and after its first closing event.\<close>

lemma relays_open: "list_all (\<lambda>e. \<not> closing e) es \<Longrightarrow> relays es = open_conn es"
proof (induction es rule: rev_induct)
  case Nil
  show ?case by (simp add: relays_def node_defs)
next
  case (snoc e es)
  then show ?case by (simp add: relays_def open_step)
qed

lemma relays_shut:
  assumes "list_all (\<lambda>e. \<not> closing e) es" and "closing e"
  shows "shut (\<lambda>d. out (sock_of d (open_conn es))) (relays (es @ e # fs))"
proof -
  have "relays (es @ e # fs) = fold relay fs (relay e (relays es))" by (simp add: relays_def)
  with shut_fold [OF shut_relay close_step [OF assms(2), of es]] relays_open [OF assms(1)]
  show ?thesis by simp
qed

lemma relays_until_closing:
  "out (tcpSocket (relays es)) = data_from Tls (takeWhile (\<lambda>e. \<not> closing e) es)
   \<and> out (tlsSocket (relays es)) = data_from Tcp (takeWhile (\<lambda>e. \<not> closing e) es)
   \<and> ended (tcpSocket (relays es)) = (\<exists>e \<in> set es. closing e)
   \<and> ended (tlsSocket (relays es)) = (\<exists>e \<in> set es. closing e)"
proof (cases "\<exists>e \<in> set es. closing e")
  case False
  then have eq: "relays es = open_conn es" "takeWhile (\<lambda>e. \<not> closing e) es = es"
    by (simp_all add: relays_open list_all_iff takeWhile_eq_all_conv)
  show ?thesis unfolding eq using False by (simp add: node_defs)
next
  case True
  then obtain xs e ys where es: "es = xs @ e # ys" "closing e" "\<forall>x \<in> set xs. \<not> closing x"
    by (metis split_list_first_prop)
  then have xs: "list_all (\<lambda>e. \<not> closing e) xs" by (simp add: list_all_iff)
  have "takeWhile (\<lambda>e. \<not> closing e) es = xs" using es by (simp add: takeWhile_tail)
  with relays_shut [OF xs es(2), of ys] es(1,2) show ?thesis
    unfolding shut_def all_sides by (simp add: open_conn_def)
qed

text \<open>
  C16. The proxy neither loses, reorders nor invents bytes while a connection lasts, and it never
  leaves half a connection behind: up to the first end or error of either socket, each socket
  has been given exactly the bytes the other one has received, in order; from that event on both
  writing sides are ended, whatever follows, and neither is given anything more.
\<close>

theorem proxy_is_transparent:
  "out (tcpSocket (relays es)) = data_from Tls (takeWhile (\<lambda>e. \<not> closing e) es)
   \<and> out (tlsSocket (relays es)) = data_from Tcp (takeWhile (\<lambda>e. \<not> closing e) es)
   \<and> ended (tcpSocket (relays es)) = (\<exists>e \<in> set es. closing e)
   \<and> ended (tlsSocket (relays es)) = (\<exists>e \<in> set es. closing e)"
  by (rule relays_until_closing)

theorem proxy_is_transparent_witness:
  "out (tcpSocket (relays [Data Tls ''ab'', Data Tcp ''x'', Data Tls ''c'', End Tcp, Data Tls ''d''])) = ''abc''"
  using proxy_is_transparent [of "[Data Tls ''ab'', Data Tcp ''x'', Data Tls ''c'', End Tcp, Data Tls ''d'']"]
  by simp

text \<open>
  A client that ends its writing side after a request gets no answer any more: its own socket
  is closed for writing by the same end, so what the service sends afterwards is discarded.
\<close>

theorem half_close_loses_answer:
  "out (tlsSocket (relays (es @ End Tls # fs))) = out (tlsSocket (relays (es @ [End Tls])))"
proof -
  have "takeWhile (\<lambda>e. \<not> closing e) (es @ End Tls # fs) = takeWhile (\<lambda>e. \<not> closing e) (es @ [End Tls])"
    by (induction es) simp_all
  then show ?thesis
    using relays_until_closing [of "es @ End Tls # fs"] relays_until_closing [of "es @ [End Tls]"] by simp
qed

text \<open>A socket that fails is destroyed and its error logged.\<close>

lemma failed_socket_is_destroyed:
  assumes "\<not> destroyed (sock_of d c)" and "listeners c = listeners accept"
  shows "destroyed (sock_of d (relay (ErrorOn d) c)) \<and> logged (relay (ErrorOn d) c) = Suc (logged c)"
  using assms by (cases d) (simp_all add: node_defs)

text \<open>
  A server that cannot bind its port leaves the caller waiting: whatever errors it reports,
  the promise neither resolves nor rejects (the \<open>reject\<close> of its executor is never called), and
  each error is an uncaught exception.
\<close>

theorem bind_failure_is_not_reported:
  assumes "createServer (opt_cert opts) (opt_key opts) = None"
  shows "srv_promise (fold on_server (map ServerError es) (tls_listen createServer opts)) = Pending
         \<and> srv_uncaught (fold on_server (map ServerError es) (tls_listen createServer opts)) = es"
proof -
  have "srv_promise (fold on_server (map ServerError es) s) = srv_promise s
      \<and> srv_uncaught (fold on_server (map ServerError es) s) = srv_uncaught s @ es" for s
    by (induction es arbitrary: s) simp_all
  with assms show ?thesis by (simp add: tls_listen_def)
qed

theorem bind_failure_is_not_reported_witness:
  "srv_promise (fold on_server (map ServerError [TypeError])
     (tls_listen (\<lambda>_ _. None) \<lparr>opt_cert = ''c'', opt_key = ''k'', opt_zmtp = 33455, opt_zmtps = 33456\<rparr>))
   = Pending"
  using bind_failure_is_not_reported [of "\<lambda>_ _. None"
      "\<lparr>opt_cert = ''c'', opt_key = ''k'', opt_zmtp = 33455, opt_zmtps = 33456\<rparr>" "[TypeError]"]
  by simp

end
