(* ===== verification/JsCall.thy ===== *)
theory JsCall
  imports JsValue "HOL-Library.List_Lexorder" "HOL-Library.Char_ord"
begin

text \<open>
  Calling functions that are passed as arguments. A computation takes the state its callbacks
  work on and returns the state after it with the outcome; an exception leaves the state as
  it was when thrown. The loops of the collection libraries are folds of such computations,
  so that the order of calls and the point where a loop stops are part of what they compute.
\<close>

section \<open>Computations\<close>

type_synonym ('s, 'a) comp = "'s \<Rightarrow> 's \<times> 'a res"

definition ret :: "'a \<Rightarrow> ('s, 'a) comp" where
  "ret x = (\<lambda>s. (s, Inr x))"

definition raise :: "thrown \<Rightarrow> ('s, 'a) comp" where
  "raise e = (\<lambda>s. (s, Inl e))"

definition lift :: "'a res \<Rightarrow> ('s, 'a) comp" where
  "lift r = (\<lambda>s. (s, r))"

definition bind_c :: "('s, 'a) comp \<Rightarrow> ('a \<Rightarrow> ('s, 'b) comp) \<Rightarrow> ('s, 'b) comp" where
  "bind_c m f = (\<lambda>s. case m s of (s', Inl e) \<Rightarrow> (s', Inl e) | (s', Inr x) \<Rightarrow> f x s')"

named_theorems comp_simps "evaluation of computations"

lemma run_laws [comp_simps]:
  "ret x s = (s, Inr x)"
  "raise e s = (s, Inl e)"
  "lift r s = (s, r)"
  by (simp_all add: ret_def raise_def lift_def)

lemma ret_eq_iff [simp]: "ret x = ret y \<longleftrightarrow> x = y"
  by (auto simp: ret_def fun_eq_iff)

lemma lift_simps [simp]: "lift (Inr x) = ret x" "lift (Inl e) = raise e"
  by (simp_all add: lift_def ret_def raise_def)

lemma bind_laws [simp]:
  "bind_c (ret x) f = f x"
  "bind_c (raise e) f = raise e"
  by (simp_all add: bind_c_def ret_def raise_def)

lemma bind_ret [simp]: "bind_c m ret = m"
  by (auto simp: bind_c_def ret_def fun_eq_iff split: prod.split sum.split)

lemma bind_assoc: "bind_c (bind_c m f) g = bind_c m (\<lambda>x. bind_c (f x) g)"
  by (auto simp: bind_c_def fun_eq_iff split: prod.split sum.split)

lemma bind_Inr [comp_simps]: "m s = (s', Inr x) \<Longrightarrow> bind_c m f s = f x s'"
  by (simp add: bind_c_def)

lemma bind_Inl [comp_simps]: "m s = (s', Inl e) \<Longrightarrow> bind_c m f s = (s', Inl e)"
  by (simp add: bind_c_def)

lemma lift_bind: "bind_c (lift r) f = (case r of Inl e \<Rightarrow> raise e | Inr x \<Rightarrow> f x)"
  by (cases r) simp_all

section \<open>Loops\<close>

text \<open>\<open>acc = f(acc, x)\<close> for each \<open>x\<close>; and a loop left at the first \<open>x\<close> that passes a test.\<close>

fun fold_c :: "('b \<Rightarrow> 'a \<Rightarrow> ('s, 'b) comp) \<Rightarrow> 'b \<Rightarrow> 'a list \<Rightarrow> ('s, 'b) comp" where
  "fold_c f acc [] = ret acc"
| "fold_c f acc (x # xs) = bind_c (f acc x) (\<lambda>acc'. fold_c f acc' xs)"

fun first_c :: "('a \<Rightarrow> ('s, bool) comp) \<Rightarrow> 'a list \<Rightarrow> ('s, 'a option) comp" where
  "first_c p [] = ret None"
| "first_c p (x # xs) = bind_c (p x) (\<lambda>b. if b then ret (Some x) else first_c p xs)"

definition map_c :: "('a \<Rightarrow> ('s, 'b) comp) \<Rightarrow> 'a list \<Rightarrow> ('s, 'b list) comp" where
  "map_c f xs = fold_c (\<lambda>ys x. bind_c (f x) (\<lambda>y. ret (ys @ [y]))) [] xs"

definition filter_c :: "('a \<Rightarrow> ('s, bool) comp) \<Rightarrow> 'a list \<Rightarrow> ('s, 'a list) comp" where
  "filter_c p xs = fold_c (\<lambda>ys x. bind_c (p x) (\<lambda>b. ret (if b then ys @ [x] else ys))) [] xs"

lemma fold_c_append: "fold_c f acc (xs @ ys) = bind_c (fold_c f acc xs) (\<lambda>acc'. fold_c f acc' ys)"
  by (induction xs arbitrary: acc) (simp_all add: bind_assoc)

text \<open>Callbacks that only compute a value.\<close>

lemma fold_c_pure: "(\<And>acc x. x \<in> set xs \<Longrightarrow> f acc x = ret (g acc x)) \<Longrightarrow>
    fold_c f acc xs = ret (foldl g acc xs)"
  by (induction xs arbitrary: acc) simp_all

lemma map_c_pure: "(\<And>x. x \<in> set xs \<Longrightarrow> f x = ret (g x)) \<Longrightarrow> map_c f xs = ret (map g xs)"
proof -
  assume "\<And>x. x \<in> set xs \<Longrightarrow> f x = ret (g x)"
  then have "fold_c (\<lambda>ys x. bind_c (f x) (\<lambda>y. ret (ys @ [y]))) acc xs = ret (acc @ map g xs)" for acc
    by (induction xs arbitrary: acc) simp_all
  then show ?thesis by (simp add: map_c_def)
qed

lemma filter_c_pure: "(\<And>x. x \<in> set xs \<Longrightarrow> p x = ret (q x)) \<Longrightarrow> filter_c p xs = ret (filter q xs)"
proof -
  assume "\<And>x. x \<in> set xs \<Longrightarrow> p x = ret (q x)"
  then have "fold_c (\<lambda>ys x. bind_c (p x) (\<lambda>b. ret (if b then ys @ [x] else ys))) acc xs
      = ret (acc @ filter q xs)" for acc
    by (induction xs arbitrary: acc) simp_all
  then show ?thesis by (simp add: filter_c_def)
qed

lemma first_c_pure: "(\<And>x. x \<in> set xs \<Longrightarrow> p x = ret (q x)) \<Longrightarrow> first_c p xs = ret (find q xs)"
  by (induction xs) simp_all

text \<open>\<open>first_c\<close> calls its test on a prefix only: it stops at the first success.\<close>

lemma first_c_stops:
  "(\<And>x. x \<in> set xs \<Longrightarrow> p x s = (s, Inr False)) \<Longrightarrow> p y s = (s', Inr True) \<Longrightarrow>
     first_c p (xs @ y # ys) s = (s', Inr (Some y))"
proof (induction xs)
  case Nil
  then show ?case by (simp add: comp_simps)
next
  case (Cons a xs)
  then have "p a s = (s, Inr False)" "first_c p (xs @ y # ys) s = (s', Inr (Some y))" by simp_all
  then show ?case by (simp add: bind_Inr [where x = False])
qed

section \<open>Comparisons\<close>

text \<open>
  \<open>a === b\<close>. Arrays and objects are compared by identity, which a value does not show: two
  different values are not the same object, but whether equal ones are is outside the model.
\<close>

definition is_ref :: "js \<Rightarrow> bool" where
  "is_ref v \<longleftrightarrow> is_array v \<or> is_object v"

definition strict_eq :: "js \<Rightarrow> js \<Rightarrow> bool res" where
  "strict_eq a b = (if a = b then (if is_ref a then Inl OutsideModel else Inr True) else Inr False)"

lemma strict_eq_prim [simp]: "\<not> is_ref a \<or> \<not> is_ref b \<Longrightarrow> strict_eq a b = Inr (a = b)"
  by (auto simp: strict_eq_def)

lemma is_ref_simps [simp]:
  "is_ref (JArr xs)" "is_ref (JObj ps)" "\<not> is_ref JUndef" "\<not> is_ref JNull" "\<not> is_ref (JBool b)"
  "\<not> is_ref (JNum n)" "\<not> is_ref (JStr t)"
  by (simp_all add: is_ref_def)

text \<open>\<open>v == null\<close>.\<close>

definition nullish :: "js \<Rightarrow> bool" where
  "nullish v \<longleftrightarrow> v = JUndef \<or> v = JNull"

lemma nullish_simps [simp]:
  "nullish JUndef" "nullish JNull" "\<not> nullish (JBool b)" "\<not> nullish (JNum n)"
  "\<not> nullish (JStr t)" "\<not> nullish (JArr xs)" "\<not> nullish (JObj ps)"
  by (simp_all add: nullish_def)

text \<open>
  \<open>a < b\<close>: strings by code units, other primitives as numbers, where \<open>undefined\<close> becomes \<open>NaN\<close>
  (\<open>None\<close>) and compares as false. A string against a number, and objects, are converted by
  rules outside the model.
\<close>

fun to_num :: "js \<Rightarrow> int option res" where
  "to_num JUndef = Inr None"
| "to_num JNull = Inr (Some 0)"
| "to_num (JBool b) = Inr (Some (if b then 1 else 0))"
| "to_num (JNum n) = Inr (Some n)"
| "to_num _ = Inl OutsideModel"

definition js_less :: "js \<Rightarrow> js \<Rightarrow> bool res" where
  "js_less a b =
     (case (a, b) of
        (JStr x, JStr y) \<Rightarrow> Inr (x < y)
      | _ \<Rightarrow>
          andThen (to_num a) (\<lambda>x. andThen (to_num b) (\<lambda>y.
            Inr (case (x, y) of (Some m, Some n) \<Rightarrow> m < n | _ \<Rightarrow> False))))"

lemma js_less_simps [simp]:
  "js_less (JNum m) (JNum n) = Inr (m < n)"
  "js_less (JStr x) (JStr y) = Inr (x < y)"
  by (simp_all add: js_less_def)

section \<open>Reading by key\<close>

text \<open>The names every object inherits from \<open>Object.prototype\<close>.\<close>

definition inherited_names :: "string list" where
  "inherited_names =
     [''constructor'', ''__proto__'', ''toString'', ''valueOf'', ''hasOwnProperty'',
      ''isPrototypeOf'', ''propertyIsEnumerable'', ''toLocaleString'', ''__defineGetter__'',
      ''__defineSetter__'', ''__lookupGetter__'', ''__lookupSetter__'']"

text \<open>\<open>obj[key]\<close> on a value that has properties; an absent one reads as \<open>undefined\<close>.\<close>

definition prop_at :: "js \<Rightarrow> string \<Rightarrow> js" where
  "prop_at obj k = (case own_prop obj k of Some v \<Rightarrow> v | None \<Rightarrow> JUndef)"

lemma get_prop_at: "\<not> nullish obj \<Longrightarrow> get_prop obj k = Inr (prop_at obj k)"
  by (cases obj) (simp_all add: get_prop_def prop_at_def)

text \<open>\<open>obj[i]\<close> for an array index.\<close>

lemma nat_str_not_length: "nat_str i \<noteq> ''length''"
proof
  assume "nat_str i = ''length''"
  moreover have "list_all is_digit (nat_str i)" by (rule nat_str_digits)
  ultimately show False by (simp add: is_digit_def)
qed

lemma prop_index [simp]:
  "i < length xs \<Longrightarrow> length xs < 4294967296 \<Longrightarrow> prop_at (JArr xs) (nat_str i) = xs ! i"
  by (simp add: prop_at_def key_index_nat_str nat_str_not_length)

lemma prop_beyond: "length xs \<le> i \<Longrightarrow> prop_at (JArr xs) (nat_str i) = JUndef"
  by (auto simp: prop_at_def nat_str_not_length dest!: key_index_SomeD split: option.split)

lemma prop_length [simp]: "prop_at (JArr xs) ''length'' = JNum (int (length xs))"
  "prop_at (JStr t) ''length'' = JNum (int (length t))"
  by (simp_all add: prop_at_def)

section \<open>Strings\<close>

text \<open>\<open>toLowerCase\<close> and \<open>toUpperCase\<close> on the code units the model has.\<close>

definition lower_char :: "char \<Rightarrow> char" where
  "lower_char c =
     (let n = of_char c :: nat
      in if 65 \<le> n \<and> n \<le> 90 \<or> 192 \<le> n \<and> n \<le> 222 \<and> n \<noteq> 215 then char_of (n + 32) else c)"

definition lower :: "string \<Rightarrow> string" where
  "lower s = map lower_char s"

lemma of_char_lower:
  "of_char (lower_char c) =
     (let n = of_char c :: nat
      in if 65 \<le> n \<and> n \<le> 90 \<or> 192 \<le> n \<and> n \<le> 222 \<and> n \<noteq> 215 then n + 32 else n)"
  by (simp add: lower_char_def Let_def)

lemma length_lower [simp]: "length (lower s) = length s"
  by (simp add: lower_def)

text \<open>The class \<open>\s\<close> and the class \<open>\w\<close> of regular expressions.\<close>

definition is_space :: "char \<Rightarrow> bool" where
  "is_space c \<longleftrightarrow>
     (let n = of_char c :: nat in 9 \<le> n \<and> n \<le> 13 \<or> n = 32 \<or> n = 160)"

definition is_word_char :: "char \<Rightarrow> bool" where
  "is_word_char c \<longleftrightarrow>
     (let n = of_char c :: nat
      in 48 \<le> n \<and> n \<le> 57 \<or> 65 \<le> n \<and> n \<le> 90 \<or> n = 95 \<or> 97 \<le> n \<and> n \<le> 122)"

text \<open>\<open>s.trim()\<close>.\<close>

definition trim :: "string \<Rightarrow> string" where
  "trim s = rev (dropWhile is_space (rev (dropWhile is_space s)))"

text \<open>\<open>s.indexOf(t)\<close>: the first position where \<open>t\<close> occurs.\<close>

fun index_of :: "string \<Rightarrow> string \<Rightarrow> nat option" where
  "index_of t [] = (if t = [] then Some 0 else None)"
| "index_of t (c # s) =
     (if take (length t) (c # s) = t then Some 0 else map_option Suc (index_of t s))"

definition occurs_in :: "string \<Rightarrow> string \<Rightarrow> bool" where
  "occurs_in t s \<longleftrightarrow> index_of t s \<noteq> None"

lemma index_of_Some:
  "index_of t s = Some i \<Longrightarrow> i \<le> length s \<and> take (length t) (drop i s) = t"
  by (induction s arbitrary: i) (auto split: if_splits)

lemma index_of_None: "index_of t s = None \<longleftrightarrow> (\<nexists>u v. s = u @ t @ v)"
proof (induction s)
  case Nil
  then show ?case by auto
next
  case (Cons c s)
  have "(\<exists>u v. c # s = u @ t @ v) \<longleftrightarrow> (\<exists>v. c # s = t @ v) \<or> (\<exists>u v. s = u @ t @ v)"
    by (metis append_Cons append_Nil list.exhaust list.inject)
  moreover have "(\<exists>v. c # s = t @ v) \<longleftrightarrow> take (length t) (c # s) = t"
    by (metis append_eq_conv_conj append_take_drop_id)
  ultimately show ?case using Cons by auto
qed

lemma occurs_in_iff: "occurs_in t s \<longleftrightarrow> (\<exists>u v. s = u @ t @ v)"
  using index_of_None [of t s] by (auto simp: occurs_in_def)

text \<open>\<open>parts.join(sep)\<close>, and \<open>s.split(c)\<close> for a separator of one character.\<close>

fun join :: "string \<Rightarrow> string list \<Rightarrow> string" where
  "join sep [] = []"
| "join sep [p] = p"
| "join sep (p # q # ps) = p @ sep @ join sep (q # ps)"

fun split_at :: "char \<Rightarrow> string \<Rightarrow> string list" where
  "split_at c [] = [[]]"
| "split_at c (x # xs) =
     (if x = c then [] # split_at c xs
      else case split_at c xs of [] \<Rightarrow> [[x]] | p # ps \<Rightarrow> (x # p) # ps)"

lemma split_at_nonempty [simp]: "split_at c xs \<noteq> []"
  by (induction xs) (auto split: list.split)

lemma split_at_plain: "c \<notin> set p \<Longrightarrow> split_at c p = [p]"
  by (induction p) auto

lemma split_at_sep: "c \<notin> set p \<Longrightarrow> split_at c (p @ c # q) = p # split_at c q"
  by (induction p) auto

lemma split_join:
  "ps \<noteq> [] \<Longrightarrow> \<forall>p \<in> set ps. c \<notin> set p \<Longrightarrow> split_at c (join [c] ps) = ps"
  by (induction "[c]" ps rule: join.induct) (simp_all add: split_at_plain split_at_sep)

section \<open>Sorting\<close>

text \<open>
  \<open>xs.sort(cmp)\<close>: the language fixes the result when \<open>cmp\<close> is a total preorder, and the sort is
  stable; sorting by insertion computes it.
\<close>

fun insert_by :: "('a \<Rightarrow> 'a \<Rightarrow> bool) \<Rightarrow> 'a \<Rightarrow> 'a list \<Rightarrow> 'a list" where
  "insert_by le x [] = [x]"
| "insert_by le x (y # ys) = (if le y x then y # insert_by le x ys else x # y # ys)"

definition sort_by :: "('a \<Rightarrow> 'a \<Rightarrow> bool) \<Rightarrow> 'a list \<Rightarrow> 'a list" where
  "sort_by le xs = fold (insert_by le) xs []"

lemma set_insert_by [simp]: "set (insert_by le x ys) = insert x (set ys)"
  by (induction ys) auto

lemma mset_insert_by [simp]: "mset (insert_by le x ys) = add_mset x (mset ys)"
  by (induction ys) auto

lemma mset_sort_by [simp]: "mset (sort_by le xs) = mset xs"
proof -
  have "mset (fold (insert_by le) xs ys) = mset xs + mset ys" for ys
    by (induction xs arbitrary: ys) simp_all
  then show ?thesis by (simp add: sort_by_def)
qed

lemma set_sort_by [simp]: "set (sort_by le xs) = set xs"
  by (rule mset_eq_setD) simp

lemma length_sort_by [simp]: "length (sort_by le xs) = length xs"
  by (rule mset_eq_length) simp

lemma sorted_insert_by:
  assumes "\<And>a b. \<not> le a b \<Longrightarrow> le b a" and "transp le" and "sorted_wrt le ys"
  shows "sorted_wrt le (insert_by le x ys)"
  using assms(3)
proof (induction ys)
  case (Cons y ys)
  show ?case
  proof (cases "le y x")
    case False
    then have "le x y" by (rule assms(1))
    with Cons.prems False assms(2) show ?thesis by (auto dest: transpD)
  qed (use Cons in auto)
qed simp

lemma sorted_sort_by:
  assumes "\<And>a b. \<not> le a b \<Longrightarrow> le b a" and "transp le"
  shows "sorted_wrt le (sort_by le xs)"
proof -
  have "sorted_wrt le ys \<Longrightarrow> sorted_wrt le (fold (insert_by le) xs ys)" for ys
    by (induction xs arbitrary: ys) (simp_all add: sorted_insert_by [OF assms])
  then show ?thesis by (simp add: sort_by_def)
qed

lemma sort_by_cong:
  assumes "\<And>x y. x \<in> set xs \<Longrightarrow> y \<in> set xs \<Longrightarrow> le x y = le' x y"
  shows "sort_by le xs = sort_by le' xs"
proof -
  have ins: "(\<And>y. y \<in> set ys \<Longrightarrow> le y x = le' y x) \<Longrightarrow> insert_by le x ys = insert_by le' x ys" for x ys
    by (induction ys) simp_all
  have "set us \<union> set ys \<subseteq> set xs \<Longrightarrow> fold (insert_by le) us ys = fold (insert_by le') us ys" for us ys
  proof (induction us arbitrary: ys)
    case (Cons u us)
    have "insert_by le u ys = insert_by le' u ys" using Cons.prems assms by (intro ins) auto
    moreover have "fold (insert_by le) us (insert_by le' u ys) = fold (insert_by le') us (insert_by le' u ys)"
      using Cons.prems by (intro Cons.IH) auto
    ultimately show ?case by simp
  qed simp
  then show ?thesis by (simp add: sort_by_def)
qed

text \<open>Stability: elements that compare equal keep their order.\<close>

lemma filter_insert_by:
  assumes "\<And>a b. P a \<Longrightarrow> P b \<Longrightarrow> le a b" and "sorted_wrt le ys"
    and "\<And>a b c. P a \<Longrightarrow> le a b \<Longrightarrow> le b c \<Longrightarrow> P c \<Longrightarrow> P b"
    and "transp le" and "\<And>a b. \<not> le a b \<Longrightarrow> le b a"
  shows "filter P (insert_by le x ys) = filter P ys @ (if P x then [x] else [])"
  using assms(2)
proof (induction ys)
  case (Cons y ys)
  show ?case
  proof (cases "le y x")
    case False
    have "\<not> P z" if "P x" "z \<in> set (y # ys)" for z
    proof
      assume "P z"
      have "le y z \<or> z = y" using that(2) Cons.prems by auto
      moreover have "le z x" using assms(1) \<open>P z\<close> that(1) by blast
      ultimately show False using False assms(4) by (auto dest: transpD)
    qed
    then have "P x \<Longrightarrow> filter P (y # ys) = []" by (simp add: filter_empty_conv)
    with False show ?thesis by auto
  qed (use Cons in auto)
qed simp

lemma filter_sort_by:
  assumes "\<And>a b. P a \<Longrightarrow> P b \<Longrightarrow> le a b"
    and "\<And>a b c. P a \<Longrightarrow> le a b \<Longrightarrow> le b c \<Longrightarrow> P c \<Longrightarrow> P b"
    and "transp le" and "\<And>a b. \<not> le a b \<Longrightarrow> le b a"
  shows "filter P (sort_by le xs) = filter P xs"
proof -
  have "sorted_wrt le ys \<Longrightarrow>
      filter P (fold (insert_by le) xs ys) = filter P ys @ filter P xs" for ys
    by (induction xs arbitrary: ys)
      (simp_all add: filter_insert_by [OF assms(1) _ assms(2-4)] sorted_insert_by [OF assms(4,3)])
  then show ?thesis by (simp add: sort_by_def)
qed

end
