(* ===== verification/Scripts.thy ===== *)
theory Scripts
  imports JsCall
begin

text \<open>
  The build scripts \<open>scripts/*.js\<close> as functions of what they read (the version in
  \<open>package.json\<close>, the command line, the environment, the platform) giving what they write to
  standard output or the process they start.
\<close>

text \<open>\<open>process.stdout.write(xs[i])\<close>: writing \<open>undefined\<close> throws.\<close>

definition write_nth :: "string list \<Rightarrow> nat \<Rightarrow> string res" where
  "write_nth xs i = (if i < length xs then Inr (xs ! i) else Inl TypeError)"

section \<open>\<open>read_version.js\<close>\<close>

definition candidate_of :: "string \<Rightarrow> string" where
  "candidate_of version =
     (let vsplit = split_at (CHR ''-'') version
      in if 1 < length vsplit \<and> vsplit ! 1 \<noteq> [] then vsplit ! 1 else [])"

definition tripple_of :: "string \<Rightarrow> string list" where
  "tripple_of version = split_at (CHR ''.'') (split_at (CHR ''-'') version ! 0)"

definition read_version :: "string \<Rightarrow> string \<Rightarrow> string res" where
  "read_version version arg =
     (if arg = ''major'' then write_nth (tripple_of version) 0
      else if arg = ''minor'' then write_nth (tripple_of version) 1
      else if arg = ''patch'' then write_nth (tripple_of version) 2
      else if arg = ''candidate'' then Inr (candidate_of version)
      else Inr version)"

section \<open>\<open>generate_includes.js\<close>, \<open>generate_libraries.js\<close>, \<open>install.js\<close>\<close>

text \<open>\<open>process.env["LINQ_NETWORK_BUILDROOT"]\<close>: set to the empty string it is falsy.\<close>

definition is_set :: "string option \<Rightarrow> bool" where
  "is_set var = (case var of Some (c # cs) \<Rightarrow> True | _ \<Rightarrow> False)"

definition generate_includes :: "string option \<Rightarrow> string" where
  "generate_includes buildroot =
     (if is_set buildroot
      then ''$(STAGING_DIR)/usr/include '' @ ''$(STAGING_DIR)/usr/include/altronix ''
      else ''./build/install/include '' @ ''./build/install/include/altronix '')"

definition generate_libraries :: "string option \<Rightarrow> string \<Rightarrow> string" where
  "generate_libraries buildroot platform =
     (if is_set buildroot then ''-llinqnetwork '' @ ''-lzmq ''
      else if platform = ''win32''
      then ''../build/install/lib/linqnetwork.lib ''
             @ ''../build/install/lib/libzmq-v143-mt-s-4_3_4.lib''
      else ''../build/install/lib/liblinqnetwork.a '' @ ''../build/install/lib/libzmq.a'')"

record process =
  proc_command :: string
  proc_args :: "string list"
  proc_shell :: bool

text \<open>\<open>path.join(__dirname, name)\<close> for a normalised directory; \<open>argv\<close> includes the interpreter
  and the script.\<close>

definition path_join :: "string \<Rightarrow> string \<Rightarrow> string \<Rightarrow> string" where
  "path_join sep dir name = dir @ sep @ name"

definition install :: "string \<Rightarrow> string \<Rightarrow> string list \<Rightarrow> process" where
  "install platform dirname argv =
     (if platform = ''win32''
      then \<lparr>proc_command = ''powershell.exe'',
            proc_args = [path_join [CHR 0x5C] dirname ''install.ps1'', ''-A'', ''-p'', ''win32-x64''],
            proc_shell = True\<rparr>
      else \<lparr>proc_command = path_join ''/'' dirname ''install.sh'', proc_args = drop 2 argv,
            proc_shell = False\<rparr>)"

section \<open>Reading versions\<close>

text \<open>
  \<open>read_version\<close> takes a version apart the way it was put together: for every version
  \<open>major.minor.patch\<close> with or without a candidate it prints each part, and any other argument
  prints the version itself.
\<close>

theorem read_version_parts:
  assumes "\<forall>p \<in> {major, minor, patch}. CHR ''.'' \<notin> set p \<and> CHR ''-'' \<notin> set p"
    and "cand = [] \<or> CHR ''-'' \<notin> set cand"
    and "version = major @ ''.'' @ minor @ ''.'' @ patch @ (if cand = [] then [] else ''-'' @ cand)"
  shows "read_version version ''major'' = Inr major \<and> read_version version ''minor'' = Inr minor
         \<and> read_version version ''patch'' = Inr patch \<and> read_version version ''candidate'' = Inr cand
         \<and> read_version version ''version'' = Inr version"
proof -
  let ?core = "join ''.'' [major, minor, patch]"
  have "CHR ''-'' \<notin> set ?core" using assms(1) by auto
  moreover have "version = ?core @ (if cand = [] then [] else ''-'' @ cand)" by (simp add: assms(3))
  ultimately have v: "split_at (CHR ''-'') version = ?core # (if cand = [] then [] else [cand])"
    using assms(2) by (auto simp: split_at_plain split_at_sep simp del: join.simps)
  have "split_at (CHR ''.'') ?core = [major, minor, patch]"
    using assms(1) by (intro split_join) auto
  with v show ?thesis
    by (simp add: read_version_def tripple_of_def candidate_of_def write_nth_def Let_def
        del: join.simps)
qed

theorem read_version_parts_witness:
  "read_version ''2.10.0-rc.9'' ''minor'' = Inr ''10'' \<and> read_version ''2.10.0-rc.9'' ''candidate'' = Inr ''rc.9''"
  using read_version_parts [of "''2''" "''10''" "''0''" "''rc.9''" "''2.10.0-rc.9''"] by simp

end
