(* ===== verification/Regex.thy ===== *)
theory Regex
  imports JsCall
begin

text \<open>
  JavaScript's regular expressions as backtracking matchers: applied to the text at the current
  position, an expression gives its ways to match in the order the language tries them, each
  with the groups captured and the text left. \<open>exec\<close> takes the first way, \<open>test\<close> asks whether
  there is one; both start at the beginning, as the anchor \<open>^\<close> does, and \<open>search_c\<close> tries every
  position.
\<close>

section \<open>Expressions\<close>

type_synonym rx = "string \<Rightarrow> (string list \<times> string) list"

definition cls :: "(char \<Rightarrow> bool) \<Rightarrow> rx" where
  "cls p s = (case s of [] \<Rightarrow> [] | c # s' \<Rightarrow> if p c then [([], s')] else [])"

definition lit :: "string \<Rightarrow> rx" where
  "lit t s = (if take (length t) s = t then [([], drop (length t) s)] else [])"

definition cat :: "rx \<Rightarrow> rx \<Rightarrow> rx" where
  "cat r1 r2 s =
     concat (map (\<lambda>(g, s'). map (\<lambda>(g', s''). (g @ g', s'')) (r2 s')) (r1 s))"

definition alt :: "rx \<Rightarrow> rx \<Rightarrow> rx" where
  "alt r1 r2 s = r1 s @ r2 s"

definition opt :: "rx \<Rightarrow> rx" where
  "opt r s = r s @ [([], s)]"

fun star :: "(char \<Rightarrow> bool) \<Rightarrow> rx" where
  "star p [] = [([], [])]"
| "star p (c # s) = (if p c then star p s else []) @ [([], c # s)]"

fun star_lazy :: "(char \<Rightarrow> bool) \<Rightarrow> rx" where
  "star_lazy p [] = [([], [])]"
| "star_lazy p (c # s) = ([], c # s) # (if p c then star_lazy p s else [])"

definition plus_lazy :: "(char \<Rightarrow> bool) \<Rightarrow> rx" where
  "plus_lazy p = cat (cls p) (star_lazy p)"

definition group_rx :: "rx \<Rightarrow> rx" where
  "group_rx r s = map (\<lambda>(g, s'). (take (length s - length s') s # g, s')) (r s)"

definition eos :: rx where
  "eos s = (if s = [] then [([], [])] else [])"

text \<open>\<open>(t1|t2|...)\<close> for literal texts, and \<open>(c)\\1\<close> for one character of a class.\<close>

definition any_of :: "string list \<Rightarrow> rx" where
  "any_of ts s = concat (map (\<lambda>t. lit t s) ts)"

definition twice :: "(char \<Rightarrow> bool) \<Rightarrow> rx" where
  "twice p s =
     (case s of c # d # s' \<Rightarrow> if p c \<and> d = c then [([[c]], s')] else [] | _ \<Rightarrow> [])"

text \<open>The dot: any character but a line terminator.\<close>

definition dot :: "char \<Rightarrow> bool" where
  "dot c \<longleftrightarrow> c \<noteq> CHR 0x0A \<and> c \<noteq> CHR 0x0D"

section \<open>Matching\<close>

definition test :: "rx \<Rightarrow> string \<Rightarrow> bool" where
  "test r s \<longleftrightarrow> r s \<noteq> []"

definition exec_rx :: "rx \<Rightarrow> string \<Rightarrow> string list option" where
  "exec_rx r s = (case r s of [] \<Rightarrow> None | (g, s') # ms \<Rightarrow> Some g)"

fun search_rx :: "rx \<Rightarrow> string \<Rightarrow> bool" where
  "search_rx r [] = test r []"
| "search_rx r (c # s) = (test r (c # s) \<or> search_rx r s)"

named_theorems rx_defs "the regular expressions unfolded"

lemmas [rx_defs] = cls_def lit_def cat_def alt_def opt_def plus_lazy_def group_rx_def eos_def
  any_of_def twice_def test_def exec_rx_def

section \<open>What the expressions match\<close>

text \<open>The texts left after each way to match; whether some way exists.\<close>

definition rests :: "rx \<Rightarrow> string \<Rightarrow> string set" where
  "rests r s = snd ` set (r s)"

lemma test_rests: "test r s \<longleftrightarrow> rests r s \<noteq> {}"
  by (simp add: test_def rests_def)

lemma rests_cat: "rests (cat r1 r2) s = (\<Union>v \<in> rests r1 s. rests r2 v)"
proof -
  have "snd ` set (concat (map (\<lambda>(g, s'). map (\<lambda>(g', s''). (g @ g', s'')) (r2 s')) ms))
      = (\<Union>v \<in> snd ` set ms. snd ` set (r2 v))" for ms :: "(string list \<times> string) list"
    by (induction ms) (simp_all add: image_Un image_image case_prod_beta)
  then show ?thesis by (simp add: rests_def cat_def)
qed

lemma rests_opt: "rests (opt r) s = insert s (rests r s)"
  by (auto simp: rests_def opt_def)

lemma rests_cls: "rests (cls p) s = {v. \<exists>c. s = c # v \<and> p c}"
  by (auto simp: rests_def cls_def split: list.splits)

lemma rests_star: "rests (star p) s = {v. \<exists>u. s = u @ v \<and> list_all p u}"
proof (induction s)
  case Nil
  then show ?case by (simp add: rests_def)
next
  case (Cons c s)
  have "rests (star p) (c # s) = insert (c # s) (if p c then rests (star p) s else {})"
    by (auto simp: rests_def)
  also have "\<dots> = {v. \<exists>u. c # s = u @ v \<and> list_all p u}"
    unfolding Cons by (auto simp: Cons_eq_append_conv)
  finally show ?case .
qed

lemma test_eos [simp]: "test eos s \<longleftrightarrow> s = []"
  by (simp add: test_def eos_def)

lemma test_cls [simp]: "test (cls p) s \<longleftrightarrow> (\<exists>c s'. s = c # s' \<and> p c)"
  by (auto simp: test_rests rests_cls)

lemma test_cat: "test (cat r1 r2) s \<longleftrightarrow> (\<exists>v \<in> rests r1 s. test r2 v)"
  by (auto simp: test_rests rests_cat)

lemma test_cat_cls [simp]: "test (cat (cls p) r) (c # s) \<longleftrightarrow> p c \<and> test r s"
    "\<not> test (cat (cls p) r) []"
  by (auto simp: test_cat rests_cls)

lemma test_cat_opt: "test (cat (opt r1) r2) s \<longleftrightarrow> test (cat r1 r2) s \<or> test r2 s"
  by (auto simp: test_cat rests_opt)

lemma test_cat_assoc: "test (cat (cat r1 r2) r3) s \<longleftrightarrow> test (cat r1 (cat r2 r3)) s"
  by (auto simp: test_cat rests_cat)

lemma test_cat_star_Cons [simp]:
  "test (cat (star p) r) (c # s) \<longleftrightarrow> test r (c # s) \<or> p c \<and> test (cat (star p) r) s"
  "test (cat (star p) r) [] \<longleftrightarrow> test r []"
proof -
  have "rests (star p) (c # s) = insert (c # s) (if p c then rests (star p) s else {})"
    by (auto simp: rests_def)
  then show "test (cat (star p) r) (c # s) \<longleftrightarrow> test r (c # s) \<or> p c \<and> test (cat (star p) r) s"
    by (auto simp: test_cat)
  show "test (cat (star p) r) [] \<longleftrightarrow> test r []"
    by (simp add: test_cat rests_def)
qed

lemma test_star [simp]: "test (star p) s"
  by (cases s) (simp_all add: test_def)

section \<open>Texts that end in one of several suffixes\<close>

text \<open>\<open>^(.+?)(t1|t2|...)rest$\<close>, with \<open>rest\<close> a literal text.\<close>

definition ends_in :: "string list \<Rightarrow> string \<Rightarrow> rx" where
  "ends_in ts t = cat (group_rx (plus_lazy dot)) (cat (group_rx (any_of ts)) (cat (lit t) eos))"

lemma star_lazy_rest: "(g, s') \<in> set (star_lazy p s) \<Longrightarrow> g = [] \<and> (\<exists>u. s = u @ s' \<and> list_all p u)"
proof (induction s)
  case Nil
  then show ?case by simp
next
  case (Cons c s)
  consider "g = []" "s' = c # s" | "p c" "(g, s') \<in> set (star_lazy p s)"
    using Cons.prems by (auto split: if_splits)
  then show ?case
  proof cases
    case 1
    then show ?thesis by (auto intro: exI [of _ "[]"])
  next
    case 2
    with Cons.IH obtain u where "g = []" "s = u @ s'" "list_all p u" by blast
    with 2 show ?thesis by (auto intro: exI [of _ "c # u"])
  qed
qed

lemma group_plus_lazy:
  "(g, s') \<in> set (group_rx (plus_lazy p) s) \<Longrightarrow> \<exists>u. u \<noteq> [] \<and> s = u @ s' \<and> g = [u] \<and> list_all p u"
proof -
  assume "(g, s') \<in> set (group_rx (plus_lazy p) s)"
  then obtain h where h: "(h, s') \<in> set (plus_lazy p s)" "g = take (length s - length s') s # h"
    by (auto simp: group_rx_def)
  then obtain c r where s: "s = c # r" "p c" "(h, s') \<in> set (star_lazy p r)"
    by (auto simp: plus_lazy_def cat_def cls_def split: list.splits if_splits)
  then obtain u where "h = []" "r = u @ s'" "list_all p u" using star_lazy_rest by blast
  with h s show ?thesis by (auto intro: exI [of _ "c # u"])
qed

lemma group_any_of:
  assumes "(g, s') \<in> set (group_rx (any_of ts) s)"
  shows "\<exists>t \<in> set ts. s = t @ s' \<and> g = [t]"
proof -
  obtain t where t: "t \<in> set ts" "take (length t) s = t" "s' = drop (length t) s"
      "g = [take (length s - length s') s]"
    using assms by (auto simp: group_rx_def any_of_def lit_def split: if_splits)
  have s: "s = t @ s'" using append_take_drop_id [of "length t" s] t(2,3) by simp
  then have "g = [t]" using t(4) by simp
  with s t(1) show ?thesis by blast
qed

lemma exec_ends_in:
  assumes "exec_rx (ends_in ts t) w = Some g"
  shows "\<exists>stem suffix. g = [stem, suffix] \<and> w = stem @ suffix @ t \<and> stem \<noteq> [] \<and> suffix \<in> set ts"
proof -
  obtain s' where "(g, s') \<in> set (ends_in ts t w)"
    using assms by (auto simp: exec_rx_def split: list.splits)
  then obtain g1 s1 g2 s2 g3 where m: "(g1, s1) \<in> set (group_rx (plus_lazy dot) w)"
      "(g2, s2) \<in> set (group_rx (any_of ts) s1)" "(g3, s') \<in> set (cat (lit t) eos s2)"
      "g = g1 @ g2 @ g3"
    by (auto simp: ends_in_def cat_def [of "group_rx _"])
  from m(3) have "g3 = []" "take (length t) s2 = t" "drop (length t) s2 = []"
    by (auto simp: cat_def lit_def eos_def split: if_splits)
  then have "s2 = t" using append_take_drop_id [of "length t" s2] by simp
  moreover obtain u where "u \<noteq> []" "w = u @ s1" "g1 = [u]" using group_plus_lazy [OF m(1)] by blast
  moreover obtain x where "x \<in> set ts" "s1 = x @ s2" "g2 = [x]" using group_any_of [OF m(2)] by blast
  ultimately show ?thesis using m(4) \<open>g3 = []\<close> by auto
qed

end
