(* ===== verification/Stemmer.thy ===== *)
theory Stemmer
  imports Regex
begin

text \<open>
  The language data of the documentation search, \<open>language_data.js\<close>: the stop words, the
  stemmer \<open>Stemmer.stemWord\<close> with its tables and regular expressions, the table \<open>splitChars\<close>
  of the code units that separate words and \<open>splitQuery\<close>. The stemmer's expressions count the
  vowel-consonant sequences of a stem; \<open>regexes_measure\<close> states that against the count itself.
\<close>

section \<open>Tables\<close>

definition stopwords :: "string list" where
  "stopwords =
    [
     ''a'', ''and'', ''are'', ''as'', ''at'', ''be'', ''but'', ''by'', ''for'', ''if'', ''in'',
     ''into'', ''is'', ''it'', ''near'', ''no'', ''not'', ''of'', ''on'', ''or'', ''such'',
     ''that'', ''the'', ''their'', ''then'', ''there'', ''these'', ''they'', ''this'', ''to'',
     ''was'', ''will'', ''with'']"

definition step2list :: "(string \<times> string) list" where
  "step2list =
    [
     (''ational'', ''ate''), (''tional'', ''tion''), (''enci'', ''ence''), (''anci'', ''ance''),
     (''izer'', ''ize''), (''bli'', ''ble''), (''alli'', ''al''), (''entli'', ''ent''),
     (''eli'', ''e''), (''ousli'', ''ous''), (''ization'', ''ize''), (''ation'', ''ate''),
     (''ator'', ''ate''), (''alism'', ''al''), (''iveness'', ''ive''), (''fulness'', ''ful''),
     (''ousness'', ''ous''), (''aliti'', ''al''), (''iviti'', ''ive''), (''biliti'', ''ble''),
     (''logi'', ''log'')]"

definition step3list :: "(string \<times> string) list" where
  "step3list =
    [
     (''icate'', ''ic''), (''ative'', []), (''alize'', ''al''), (''iciti'', ''ic''),
     (''ical'', ''ic''), (''ful'', []), (''ness'', [])]"

definition step2_suffixes :: "string list" where
  "step2_suffixes =
    [
     ''ational'', ''tional'', ''enci'', ''anci'', ''izer'', ''bli'', ''alli'', ''entli'',
     ''eli'', ''ousli'', ''ization'', ''ation'', ''ator'', ''alism'', ''iveness'', ''fulness'',
     ''ousness'', ''aliti'', ''iviti'', ''biliti'', ''logi'']"

definition step3_suffixes :: "string list" where
  "step3_suffixes =
    [
     ''icate'', ''ative'', ''alize'', ''iciti'', ''ical'', ''ful'', ''ness'']"

definition step4_suffixes :: "string list" where
  "step4_suffixes =
    [
     ''al'', ''ance'', ''ence'', ''er'', ''ic'', ''able'', ''ible'', ''ant'', ''ement'',
     ''ment'', ''ent'', ''ou'', ''ism'', ''ate'', ''iti'', ''ous'', ''ive'', ''ize'']"

text \<open>\<open>table[suffix]\<close> added to a string: a missing entry would print as \<open>undefined\<close>.\<close>

definition suffix_entry :: "(string \<times> string) list \<Rightarrow> string \<Rightarrow> string" where
  "suffix_entry table k = (case map_of table k of Some t \<Rightarrow> t | None \<Rightarrow> ''undefined'')"

section \<open>Regular expressions\<close>

text \<open>\<open>[aeiou]\<close> and \<open>[aeiouy]\<close>; \<open>C\<close>, \<open>V\<close> and the four expressions built from them.\<close>

definition aeiou :: "char \<Rightarrow> bool" where
  "aeiou ch \<longleftrightarrow> ch \<in> set ''aeiou''"

definition vowel :: "char \<Rightarrow> bool" where
  "vowel ch \<longleftrightarrow> ch \<in> set ''aeiouy''"

definition C_rx :: rx where
  "C_rx = cat (cls (\<lambda>ch. \<not> aeiou ch)) (star (\<lambda>ch. \<not> vowel ch))"

definition V_rx :: rx where
  "V_rx = cat (cls vowel) (star aeiou)"

definition mgr0 :: rx where
  "mgr0 = cat (opt C_rx) (cat V_rx C_rx)"

definition meq1 :: rx where
  "meq1 = cat (opt C_rx) (cat V_rx (cat C_rx (cat (opt V_rx) eos)))"

definition mgr1 :: rx where
  "mgr1 = cat (opt C_rx) (cat V_rx (cat C_rx (cat V_rx C_rx)))"

definition s_v :: rx where
  "s_v = cat (opt C_rx) (cls vowel)"

text \<open>\<open>^C v [^aeiouwxy]$\<close>, \<open>([^aeiouylsz])\1$\<close> and \<open>w.replace(/.$/, "")\<close>.\<close>

definition cvc :: rx where
  "cvc = cat C_rx (cat (cls vowel) (cat (cls (\<lambda>ch. ch \<notin> set ''aeiouwxy'')) eos))"

definition double_end :: rx where
  "double_end = cat (twice (\<lambda>ch. ch \<notin> set ''aeiouylsz'')) eos"

definition chop :: "string \<Rightarrow> string" where
  "chop w = (if w \<noteq> [] \<and> dot (last w) then butlast w else w)"

section \<open>The steps of \<open>stemWord\<close>\<close>

definition step1a :: "string \<Rightarrow> string" where
  "step1a w =
     (case exec_rx (ends_in [''ss'', ''i''] ''es'') w of
        Some g \<Rightarrow> concat g
      | None \<Rightarrow>
          (case exec_rx (cat (group_rx (plus_lazy dot))
                   (cat (group_rx (cls (\<lambda>ch. ch \<noteq> CHR ''s''))) (cat (lit ''s'') eos))) w of
             Some g \<Rightarrow> concat g
           | None \<Rightarrow> w))"

definition step1b_tail :: "string \<Rightarrow> string" where
  "step1b_tail w =
     (if search_rx (cat (any_of [''at'', ''bl'', ''iz'']) eos) w then w @ ''e''
      else if search_rx double_end w then chop w
      else if test cvc w then w @ ''e''
      else w)"

definition step1b :: "string \<Rightarrow> string" where
  "step1b w =
     (case exec_rx (cat (group_rx (plus_lazy dot)) (cat (lit ''eed'') eos)) w of
        Some g \<Rightarrow> if test mgr0 (g ! 0) then chop w else w
      | None \<Rightarrow>
          (case exec_rx (ends_in [''ed'', ''ing''] []) w of
             Some g \<Rightarrow> if test s_v (g ! 0) then step1b_tail (g ! 0) else w
           | None \<Rightarrow> w))"

definition step1c :: "string \<Rightarrow> string" where
  "step1c w =
     (case exec_rx (cat (group_rx (plus_lazy dot)) (cat (lit ''y'') eos)) w of
        Some g \<Rightarrow> if test s_v (g ! 0) then g ! 0 @ ''i'' else w
      | None \<Rightarrow> w)"

definition step2 :: "string \<Rightarrow> string" where
  "step2 w =
     (case exec_rx (ends_in step2_suffixes []) w of
        Some g \<Rightarrow> if test mgr0 (g ! 0) then g ! 0 @ suffix_entry step2list (g ! 1) else w
      | None \<Rightarrow> w)"

definition step3 :: "string \<Rightarrow> string" where
  "step3 w =
     (case exec_rx (ends_in step3_suffixes []) w of
        Some g \<Rightarrow> if test mgr0 (g ! 0) then g ! 0 @ suffix_entry step3list (g ! 1) else w
      | None \<Rightarrow> w)"

definition step4 :: "string \<Rightarrow> string" where
  "step4 w =
     (case exec_rx (ends_in step4_suffixes []) w of
        Some g \<Rightarrow> if test mgr1 (g ! 0) then g ! 0 else w
      | None \<Rightarrow>
          (case exec_rx (ends_in [''s'', ''t''] ''ion'') w of
             Some g \<Rightarrow> if test mgr1 (g ! 0 @ g ! 1) then g ! 0 @ g ! 1 else w
           | None \<Rightarrow> w))"

definition step5_e :: "string \<Rightarrow> string" where
  "step5_e w =
     (case exec_rx (cat (group_rx (plus_lazy dot)) (cat (lit ''e'') eos)) w of
        Some g \<Rightarrow>
          if test mgr1 (g ! 0) \<or> (test meq1 (g ! 0) \<and> \<not> test cvc (g ! 0)) then g ! 0 else w
      | None \<Rightarrow> w)"

definition step5_ll :: "string \<Rightarrow> string" where
  "step5_ll w = (if search_rx (cat (lit ''ll'') eos) w \<and> test mgr1 w then chop w else w)"

definition stemWord :: "string \<Rightarrow> string" where
  "stemWord w =
     (if length w < 3 then w
      else
        let firstch = take 1 w;
            w1 = (if firstch = ''y'' then ''Y'' @ drop 1 w else w);
            w2 = step5_ll (step5_e (step4 (step3 (step2 (step1c (step1b (step1a w1)))))))
        in if firstch = ''y'' then ''y'' @ drop 1 w2 else w2)"

section \<open>\<open>splitQuery\<close>\<close>

text \<open>The code units that separate words: single ones and ranges.\<close>

definition singles :: "nat list" where
  "singles =
    [
     96, 180, 187, 191, 215, 247, 749, 885, 903, 907, 909, 930, 1014, 1648, 1748, 1809, 2416,
     2473, 2481, 2526, 2601, 2609, 2612, 2615, 2653, 2702, 2706, 2729, 2737, 2740, 2857, 2865,
     2868, 2910, 2928, 2948, 2961, 2971, 2973, 3085, 3089, 3113, 3124, 3213, 3217, 3241, 3252,
     3295, 3341, 3345, 3369, 3506, 3516, 3633, 3715, 3721, 3736, 3744, 3748, 3750, 3756, 3761,
     3781, 3912, 4239, 4347, 4681, 4695, 4697, 4745, 4785, 4799, 4801, 4823, 4881, 5760, 5901,
     5997, 6313, 7405, 8024, 8026, 8028, 8030, 8117, 8125, 8133, 8181, 8468, 8485, 8487, 8489,
     8494, 8527, 11311, 11359, 11687, 11695, 11703, 11711, 11719, 11727, 11735, 12448, 12539,
     43010, 43014, 43019, 43587, 43696, 43713, 64286, 64297, 64311, 64317, 64319, 64322, 64325,
     65141]"

definition ranges :: "(nat \<times> nat) list" where
  "ranges =
    [
     (0, 47), (58, 64), (91, 94), (123, 169), (171, 177), (182, 184), (706, 709), (722, 735),
     (741, 747), (751, 879), (888, 889), (894, 901), (1154, 1161), (1318, 1328), (1367, 1368),
     (1370, 1376), (1416, 1487), (1515, 1519), (1523, 1568), (1611, 1631), (1642, 1645),
     (1750, 1764), (1767, 1773), (1789, 1790), (1792, 1807), (1840, 1868), (1958, 1968),
     (1970, 1983), (2027, 2035), (2038, 2041), (2043, 2047), (2070, 2073), (2075, 2083),
     (2085, 2087), (2089, 2307), (2362, 2364), (2366, 2383), (2385, 2391), (2402, 2405),
     (2419, 2424), (2432, 2436), (2445, 2446), (2449, 2450), (2483, 2485), (2490, 2492),
     (2494, 2509), (2511, 2523), (2530, 2533), (2546, 2547), (2554, 2564), (2571, 2574),
     (2577, 2578), (2618, 2648), (2655, 2661), (2672, 2673), (2677, 2692), (2746, 2748),
     (2750, 2767), (2769, 2783), (2786, 2789), (2800, 2820), (2829, 2830), (2833, 2834),
     (2874, 2876), (2878, 2907), (2914, 2917), (2930, 2946), (2955, 2957), (2966, 2968),
     (2976, 2978), (2981, 2983), (2987, 2989), (3002, 3023), (3025, 3045), (3059, 3076),
     (3130, 3132), (3134, 3159), (3162, 3167), (3170, 3173), (3184, 3191), (3199, 3204),
     (3258, 3260), (3262, 3293), (3298, 3301), (3312, 3332), (3386, 3388), (3390, 3423),
     (3426, 3429), (3446, 3449), (3456, 3460), (3479, 3481), (3518, 3519), (3527, 3584),
     (3636, 3647), (3655, 3663), (3674, 3712), (3717, 3718), (3723, 3724), (3726, 3731),
     (3752, 3753), (3764, 3772), (3774, 3775), (3783, 3791), (3802, 3803), (3806, 3839),
     (3841, 3871), (3892, 3903), (3949, 3975), (3980, 4095), (4139, 4158), (4170, 4175),
     (4182, 4185), (4190, 4192), (4194, 4196), (4199, 4205), (4209, 4212), (4226, 4237),
     (4250, 4255), (4294, 4303), (4349, 4351), (4686, 4687), (4702, 4703), (4750, 4751),
     (4790, 4791), (4806, 4807), (4886, 4887), (4955, 4968), (4989, 4991), (5008, 5023),
     (5109, 5120), (5741, 5742), (5787, 5791), (5867, 5869), (5873, 5887), (5906, 5919),
     (5938, 5951), (5970, 5983), (6001, 6015), (6068, 6102), (6104, 6107), (6109, 6111),
     (6122, 6127), (6138, 6159), (6170, 6175), (6264, 6271), (6315, 6319), (6390, 6399),
     (6429, 6469), (6510, 6511), (6517, 6527), (6572, 6592), (6600, 6607), (6619, 6655),
     (6679, 6687), (6741, 6783), (6794, 6799), (6810, 6822), (6824, 6916), (6964, 6980),
     (6988, 6991), (7002, 7042), (7073, 7085), (7098, 7167), (7204, 7231), (7242, 7244),
     (7294, 7400), (7410, 7423), (7616, 7679), (7958, 7959), (7966, 7967), (8006, 8007),
     (8014, 8015), (8062, 8063), (8127, 8129), (8141, 8143), (8148, 8149), (8156, 8159),
     (8173, 8177), (8189, 8303), (8306, 8307), (8314, 8318), (8330, 8335), (8341, 8449),
     (8451, 8454), (8456, 8457), (8470, 8472), (8478, 8483), (8506, 8507), (8512, 8516),
     (8522, 8525), (8586, 9311), (9372, 9449), (9472, 10101), (10132, 11263), (11493, 11498),
     (11503, 11516), (11518, 11519), (11558, 11567), (11622, 11630), (11632, 11647),
     (11671, 11679), (11743, 11822), (11824, 12292), (12296, 12320), (12330, 12336),
     (12342, 12343), (12349, 12352), (12439, 12444), (12544, 12548), (12590, 12592),
     (12687, 12689), (12694, 12703), (12728, 12783), (12800, 12831), (12842, 12880),
     (12896, 12927), (12938, 12976), (12992, 13311), (19894, 19967), (40908, 40959),
     (42125, 42191), (42238, 42239), (42509, 42511), (42540, 42559), (42592, 42593),
     (42607, 42622), (42648, 42655), (42736, 42774), (42784, 42785), (42889, 42890),
     (42893, 43002), (43043, 43055), (43062, 43071), (43124, 43137), (43188, 43215),
     (43226, 43249), (43256, 43258), (43260, 43263), (43302, 43311), (43335, 43359),
     (43389, 43395), (43443, 43470), (43482, 43519), (43561, 43583), (43596, 43599),
     (43610, 43615), (43639, 43641), (43643, 43647), (43698, 43700), (43703, 43704),
     (43710, 43711), (43715, 43738), (43742, 43967), (44003, 44015), (44026, 44031),
     (55204, 55215), (55239, 55242), (55292, 55295), (57344, 63743), (64046, 64047),
     (64110, 64111), (64218, 64255), (64263, 64274), (64280, 64284), (64434, 64466),
     (64830, 64847), (64912, 64913), (64968, 65007), (65020, 65135), (65277, 65295),
     (65306, 65312), (65339, 65344), (65371, 65381), (65471, 65473), (65480, 65481),
     (65488, 65489), (65496, 65497)]"

definition splitChars :: "nat \<Rightarrow> bool" where
  "splitChars n \<longleftrightarrow> n \<in> set singles \<or> list_ex (\<lambda>(a, b). a \<le> n \<and> n \<le> b) ranges"

text \<open>The loop over the positions \<open>i\<close>, with \<open>start\<close> the beginning of the current word or \<open>-1\<close>.\<close>

fun split_loop :: "nat list \<Rightarrow> nat \<Rightarrow> int \<Rightarrow> nat list list \<Rightarrow> nat list \<Rightarrow> int \<times> nat list list" where
  "split_loop query i start result [] = (start, result)"
| "split_loop query i start result (ch # chs) =
     (if splitChars ch then
        if start \<noteq> -1
        then split_loop query (Suc i) (-1) (result @ [drop (nat start) (take i query)]) chs
        else split_loop query (Suc i) start result chs
      else if start = -1 then split_loop query (Suc i) (int i) result chs
      else split_loop query (Suc i) start result chs)"

definition splitQuery :: "nat list \<Rightarrow> nat list list" where
  "splitQuery query =
     (let (start, result) = split_loop query 0 (-1) [] query
      in if start \<noteq> -1 then result @ [drop (nat start) query] else result)"

section \<open>The measure of a stem\<close>

text \<open>
  The number of vowel-consonant sequences, by one pass over the letters: \<open>v\<close> tells whether the
  letter before was a vowel. A \<open>y\<close> is a vowel exactly after a consonant.
\<close>

fun vc_count :: "bool \<Rightarrow> string \<Rightarrow> nat" where
  "vc_count v [] = 0"
| "vc_count v (ch # s) =
     (if v then (if aeiou ch then vc_count True s else Suc (vc_count False s))
      else if vowel ch then vc_count True s else vc_count False s)"

definition stem_measure :: "string \<Rightarrow> nat" where
  "stem_measure s = vc_count False s"

lemma aeiou_vowel: "aeiou ch \<Longrightarrow> vowel ch" "vowel ch \<Longrightarrow> ch \<noteq> CHR ''y'' \<Longrightarrow> aeiou ch"
  by (auto simp: aeiou_def vowel_def)

lemma test_C: "test C_rx s \<longleftrightarrow> (\<exists>ch s'. s = ch # s' \<and> \<not> aeiou ch)"
  by (cases s) (simp_all add: C_rx_def)

lemma test_C_cat: "test (cat C_rx r) [] \<longleftrightarrow> False"
    "test (cat C_rx r) (ch # s) \<longleftrightarrow> \<not> aeiou ch \<and> test (cat (star (\<lambda>ch. \<not> vowel ch)) r) s"
  by (simp_all add: C_rx_def test_cat_assoc)

lemma test_V_cat: "test (cat V_rx r) [] \<longleftrightarrow> False"
    "test (cat V_rx r) (ch # s) \<longleftrightarrow> vowel ch \<and> test (cat (star aeiou) r) s"
  by (simp_all add: V_rx_def test_cat_assoc)

lemma tail_VC:
  "test (cat (star aeiou) C_rx) s \<longleftrightarrow> 0 < vc_count True s"
  "test (cat (star (\<lambda>ch. \<not> vowel ch)) (cat V_rx C_rx)) s \<longleftrightarrow> 0 < vc_count False s"
proof -
  show V: "test (cat (star aeiou) C_rx) s \<longleftrightarrow> 0 < vc_count True s" for s
    by (induction s) (auto simp: test_C)
  show "test (cat (star (\<lambda>ch. \<not> vowel ch)) (cat V_rx C_rx)) s \<longleftrightarrow> 0 < vc_count False s"
    by (induction s) (auto simp: test_V_cat V)
qed

lemma tail_VCVC:
  "test (cat (star aeiou) (cat C_rx (cat V_rx C_rx))) s \<longleftrightarrow> 1 < vc_count True s"
  "test (cat (star (\<lambda>ch. \<not> vowel ch)) (cat V_rx (cat C_rx (cat V_rx C_rx)))) s
     \<longleftrightarrow> 1 < vc_count False s"
proof -
  show V: "test (cat (star aeiou) (cat C_rx (cat V_rx C_rx))) s \<longleftrightarrow> 1 < vc_count True s" for s
    by (induction s) (auto simp: test_C_cat tail_VC)
  show "test (cat (star (\<lambda>ch. \<not> vowel ch)) (cat V_rx (cat C_rx (cat V_rx C_rx)))) s
      \<longleftrightarrow> 1 < vc_count False s"
    by (induction s) (auto simp: test_V_cat V)
qed

lemma tail_CV_end:
  "test (cat (star aeiou) eos) s \<longleftrightarrow> vc_count True s = 0"
  "test (cat (star (\<lambda>ch. \<not> vowel ch)) (cat (opt V_rx) eos)) s \<longleftrightarrow> vc_count False s = 0"
proof -
  show V: "test (cat (star aeiou) eos) s \<longleftrightarrow> vc_count True s = 0" for s
    by (induction s) auto
  show "test (cat (star (\<lambda>ch. \<not> vowel ch)) (cat (opt V_rx) eos)) s \<longleftrightarrow> vc_count False s = 0"
    by (induction s) (auto simp: test_V_cat V test_cat_opt)
qed

lemma tail_VCV_end:
  "test (cat (star aeiou) (cat C_rx (cat (opt V_rx) eos))) s \<longleftrightarrow> vc_count True s = 1"
  "test (cat (star (\<lambda>ch. \<not> vowel ch)) (cat V_rx (cat C_rx (cat (opt V_rx) eos)))) s
     \<longleftrightarrow> vc_count False s = 1"
proof -
  show V: "test (cat (star aeiou) (cat C_rx (cat (opt V_rx) eos))) s \<longleftrightarrow> vc_count True s = 1" for s
    by (induction s) (auto simp: test_C_cat tail_CV_end)
  show "test (cat (star (\<lambda>ch. \<not> vowel ch)) (cat V_rx (cat C_rx (cat (opt V_rx) eos)))) s
      \<longleftrightarrow> vc_count False s = 1"
    by (induction s) (auto simp: test_V_cat V)
qed

lemma test_opt_C_V:
  assumes "s = [] \<or> hd s \<noteq> CHR ''y''"
    and "\<And>s. test (cat (star (\<lambda>ch. \<not> vowel ch)) (cat V_rx r)) s \<longleftrightarrow> Q (vc_count False s)"
    and "\<And>s. test (cat (star aeiou) r) s \<longleftrightarrow> Q (vc_count True s)"
    and "\<not> Q 0"
  shows "test (cat (opt C_rx) (cat V_rx r)) s \<longleftrightarrow> Q (stem_measure s)"
proof (cases s)
  case Nil
  then show ?thesis using assms(4) by (simp add: test_cat_opt test_C_cat test_V_cat stem_measure_def)
next
  case (Cons ch t)
  then have "vowel ch \<longleftrightarrow> aeiou ch" using assms(1) aeiou_vowel by auto
  then show ?thesis
    using Cons assms(2,3) by (auto simp: test_cat_opt test_C_cat test_V_cat stem_measure_def)
qed

lemma test_s_v: "test s_v s \<longleftrightarrow> (\<exists>ch \<in> set s. vowel ch)"
proof -
  have "test (cat (star (\<lambda>ch. \<not> vowel ch)) (cls vowel)) t \<longleftrightarrow> (\<exists>ch \<in> set t. vowel ch)" for t
    by (induction t) auto
  then show ?thesis
    by (cases s) (auto simp: s_v_def test_cat_opt test_C_cat dest: aeiou_vowel)
qed

text \<open>
  C21. The stemmer's regular expressions compute Porter's measure: on a stem that does not start
  with \<open>y\<close> (\<open>stemWord\<close> writes such a \<open>y\<close> as \<open>Y\<close>) \<open>mgr0\<close>, \<open>mgr1\<close> and \<open>meq1\<close> hold exactly
  when the number of vowel-consonant sequences is positive, greater than one and one, and
  \<open>s_v\<close> exactly when the stem has a vowel.
\<close>

theorem regexes_measure:
  assumes "s = [] \<or> hd s \<noteq> CHR ''y''"
  shows "(test mgr0 s \<longleftrightarrow> 0 < stem_measure s) \<and> (test mgr1 s \<longleftrightarrow> 1 < stem_measure s)
         \<and> (test meq1 s \<longleftrightarrow> stem_measure s = 1) \<and> (test s_v s \<longleftrightarrow> (\<exists>ch \<in> set s. vowel ch))"
proof (intro conjI)
  show "test mgr0 s \<longleftrightarrow> 0 < stem_measure s"
    using test_opt_C_V [OF assms, where Q = "\<lambda>n. 0 < n"] tail_VC by (simp add: mgr0_def)
  show "test mgr1 s \<longleftrightarrow> 1 < stem_measure s"
    using test_opt_C_V [OF assms, where Q = "\<lambda>n. 1 < n"] tail_VCVC by (simp add: mgr1_def)
  show "test meq1 s \<longleftrightarrow> stem_measure s = 1"
    using test_opt_C_V [OF assms, where Q = "\<lambda>n. n = 1"] tail_VCV_end by (simp add: meq1_def)
  show "test s_v s \<longleftrightarrow> (\<exists>ch \<in> set s. vowel ch)" by (rule test_s_v)
qed

theorem regexes_measure_witness:
  "test mgr0 ''troubl'' \<and> \<not> test mgr1 ''troubl'' \<and> test meq1 ''troubl'' \<and> test s_v ''troubl''"
proof -
  have "stem_measure ''troubl'' = 1"
    by (simp add: stem_measure_def vowel_def aeiou_def)
  then show ?thesis using regexes_measure [of "''troubl''"] by (auto simp: vowel_def)
qed

section \<open>What stemming keeps\<close>

text \<open>\<open>keeps_stem w w'\<close>: \<open>w'\<close> starts with the same letter and is not longer.\<close>

definition keeps_stem :: "string \<Rightarrow> string \<Rightarrow> bool" where
  "keeps_stem w w' \<longleftrightarrow> take 1 w' = take 1 w \<and> length w' \<le> length w"

lemma keeps_refl [simp]: "keeps_stem w w"
  by (simp add: keeps_stem_def)

lemma keeps_trans: "keeps_stem u v \<Longrightarrow> keeps_stem v w \<Longrightarrow> keeps_stem u w"
  by (simp add: keeps_stem_def)

lemma keeps_suffix: "stem \<noteq> [] \<Longrightarrow> length t \<le> length u \<Longrightarrow> keeps_stem (stem @ u) (stem @ t)"
  by (cases stem) (simp_all add: keeps_stem_def)

lemma keeps_chop: "1 < length w \<Longrightarrow> keeps_stem w (chop w)"
proof -
  assume "1 < length w"
  then have "take 1 (butlast w) = take 1 w" by (simp add: take_butlast)
  then show ?thesis by (simp add: keeps_stem_def chop_def)
qed

lemma exec_stem_lit:
  assumes "exec_rx (cat (group_rx (plus_lazy dot)) (cat (lit t) eos)) w = Some g"
  shows "\<exists>stem. g = [stem] \<and> w = stem @ t \<and> stem \<noteq> []"
proof -
  obtain s' where "(g, s') \<in> set (cat (group_rx (plus_lazy dot)) (cat (lit t) eos) w)"
    using assms by (auto simp: exec_rx_def split: list.splits)
  then obtain g1 s1 g2 where m: "(g1, s1) \<in> set (group_rx (plus_lazy dot) w)"
      "(g2, s') \<in> set (cat (lit t) eos s1)" "g = g1 @ g2"
    by (auto simp: cat_def [of "group_rx _"])
  from m(2) have "g2 = []" "take (length t) s1 = t" "drop (length t) s1 = []"
    by (auto simp: cat_def lit_def eos_def split: if_splits)
  then have "s1 = t" using append_take_drop_id [of "length t" s1] by simp
  with m \<open>g2 = []\<close> group_plus_lazy [OF m(1)] show ?thesis by auto
qed

lemma exec_not_ss:
  assumes "exec_rx (cat (group_rx (plus_lazy dot))
             (cat (group_rx (cls p)) (cat (lit t) eos))) w = Some g"
  shows "\<exists>stem ch. g = [stem, [ch]] \<and> w = stem @ ch # t \<and> stem \<noteq> []"
proof -
  obtain s' where "(g, s') \<in> set (cat (group_rx (plus_lazy dot)) (cat (group_rx (cls p)) (cat (lit t) eos)) w)"
    using assms by (auto simp: exec_rx_def split: list.splits)
  then obtain g1 s1 g2 s2 g3 where m: "(g1, s1) \<in> set (group_rx (plus_lazy dot) w)"
      "(g2, s2) \<in> set (group_rx (cls p) s1)" "(g3, s') \<in> set (cat (lit t) eos s2)"
      "g = g1 @ g2 @ g3"
    by (auto simp: cat_def [of "group_rx _"])
  from m(3) have "g3 = []" "take (length t) s2 = t" "drop (length t) s2 = []"
    by (auto simp: cat_def lit_def eos_def split: if_splits)
  then have "s2 = t" using append_take_drop_id [of "length t" s2] by simp
  moreover obtain ch where "s1 = ch # s2" "g2 = [[ch]]"
    using m(2) by (auto simp: group_rx_def cls_def split: list.splits if_splits)
  moreover obtain u where "u \<noteq> []" "w = u @ s1" "g1 = [u]" using group_plus_lazy [OF m(1)] by blast
  ultimately show ?thesis using m(4) \<open>g3 = []\<close> by auto
qed

lemma keeps_step1a: "keeps_stem w (step1a w)"
proof (cases "exec_rx (ends_in [''ss'', ''i''] ''es'') w")
  case (Some g)
  then obtain stem t where "g = [stem, t]" "w = stem @ t @ ''es''" "stem \<noteq> []"
    using exec_ends_in by blast
  with Some show ?thesis using keeps_suffix [of stem t "t @ ''es''"] by (simp add: step1a_def)
next
  case None
  show ?thesis
  proof (cases "exec_rx (cat (group_rx (plus_lazy dot))
             (cat (group_rx (cls (\<lambda>ch. ch \<noteq> CHR ''s''))) (cat (lit ''s'') eos))) w")
    case (Some g)
    then obtain stem ch where "g = [stem, [ch]]" "w = stem @ ch # ''s''" "stem \<noteq> []"
      using exec_not_ss by blast
    with None Some show ?thesis using keeps_suffix [of stem "[ch]" "ch # ''s''"] by (simp add: step1a_def)
  qed (use None in \<open>simp add: step1a_def\<close>)
qed

lemma keeps_step1b: "keeps_stem w (step1b w)"
proof (cases "exec_rx (cat (group_rx (plus_lazy dot)) (cat (lit ''eed'') eos)) w")
  case (Some g)
  then have "1 < length w" using exec_stem_lit by fastforce
  with Some show ?thesis by (simp add: step1b_def keeps_chop)
next
  case None
  show ?thesis
  proof (cases "exec_rx (ends_in [''ed'', ''ing''] []) w")
    case (Some g)
    then obtain stem t where g: "g = [stem, t]" "w = stem @ t" "stem \<noteq> []" "t \<in> {''ed'', ''ing''}"
      using exec_ends_in [OF Some] by auto
    have "step1b_tail stem = stem @ ''e'' \<or> step1b_tail stem = stem
        \<or> step1b_tail stem = chop stem \<and> search_rx double_end stem"
      by (simp add: step1b_tail_def)
    moreover have "keeps_stem w (stem @ ''e'')" "keeps_stem w stem"
      using g keeps_suffix [of stem "''e''" t] keeps_suffix [of stem "[]" t] by auto
    moreover have "search_rx double_end stem \<Longrightarrow> 1 < length stem"
      by (cases stem; cases "tl stem")
        (auto simp: double_end_def test_def cat_def twice_def)
    ultimately have "keeps_stem w (step1b_tail stem)"
      using keeps_chop keeps_trans by metis
    with None Some g show ?thesis by (simp add: step1b_def)
  qed (use None in \<open>simp add: step1b_def\<close>)
qed

lemma keeps_step1c: "keeps_stem w (step1c w)"
proof (cases "exec_rx (cat (group_rx (plus_lazy dot)) (cat (lit ''y'') eos)) w")
  case (Some g)
  then obtain stem where "g = [stem]" "w = stem @ ''y''" "stem \<noteq> []" using exec_stem_lit by blast
  with Some show ?thesis using keeps_suffix [of stem "''i''" "''y''"] by (simp add: step1c_def)
qed (simp add: step1c_def)

text \<open>Every suffix has an entry, which is no longer than the suffix.\<close>

lemma suffix_entry_bounds:
  "suffix \<in> set step2_suffixes \<Longrightarrow> length (suffix_entry step2list suffix) \<le> length suffix"
  "suffix \<in> set step3_suffixes \<Longrightarrow> length (suffix_entry step3list suffix) \<le> length suffix"
  by (auto simp: step2_suffixes_def step3_suffixes_def step2list_def step3list_def suffix_entry_def)

lemma keeps_step23: "keeps_stem w (step2 w)" "keeps_stem w (step3 w)"
proof -
  show "keeps_stem w (step2 w)"
  proof (cases "exec_rx (ends_in step2_suffixes []) w")
    case (Some g)
    then obtain stem t where "g = [stem, t]" "w = stem @ t" "stem \<noteq> []" "t \<in> set step2_suffixes"
      using exec_ends_in [OF Some] by auto
    with Some suffix_entry_bounds show ?thesis by (simp add: step2_def keeps_suffix)
  qed (simp add: step2_def)
  show "keeps_stem w (step3 w)"
  proof (cases "exec_rx (ends_in step3_suffixes []) w")
    case (Some g)
    then obtain stem t where "g = [stem, t]" "w = stem @ t" "stem \<noteq> []" "t \<in> set step3_suffixes"
      using exec_ends_in [OF Some] by auto
    with Some suffix_entry_bounds show ?thesis by (simp add: step3_def keeps_suffix)
  qed (simp add: step3_def)
qed

lemma keeps_step4: "keeps_stem w (step4 w)"
proof (cases "exec_rx (ends_in step4_suffixes []) w")
  case (Some g)
  then obtain stem t where "g = [stem, t]" "w = stem @ t" "stem \<noteq> []"
    using exec_ends_in [OF Some] by auto
  with Some show ?thesis using keeps_suffix [of stem "[]" t] by (simp add: step4_def)
next
  case None
  show ?thesis
  proof (cases "exec_rx (ends_in [''s'', ''t''] ''ion'') w")
    case (Some g)
    then obtain stem t where "g = [stem, t]" "w = stem @ t @ ''ion''" "stem \<noteq> []"
      using exec_ends_in [OF Some] by auto
    with None Some show ?thesis using keeps_suffix [of stem t "t @ ''ion''"] by (simp add: step4_def)
  qed (use None in \<open>simp add: step4_def\<close>)
qed

lemma keeps_step5_e: "keeps_stem w (step5_e w)"
proof (cases "exec_rx (cat (group_rx (plus_lazy dot)) (cat (lit ''e'') eos)) w")
  case (Some g)
  then obtain stem where "g = [stem]" "w = stem @ ''e''" "stem \<noteq> []" using exec_stem_lit by blast
  with Some show ?thesis using keeps_suffix [of stem "[]" "''e''"] by (simp add: step5_e_def)
qed (simp add: step5_e_def)

lemma keeps_step5_ll: "keeps_stem w (step5_ll w)"
proof -
  have "search_rx (cat (lit ''ll'') eos) w \<Longrightarrow> 1 < length w"
    by (cases w; cases "tl w") (auto simp: test_def cat_def lit_def eos_def)
  then show ?thesis by (simp add: step5_ll_def keeps_chop)
qed

lemmas keeps_steps = keeps_step1a keeps_step1b keeps_step1c keeps_step23 keeps_step4 keeps_step5_e
  keeps_step5_ll

lemma keeps_all: "keeps_stem w (step5_ll (step5_e (step4 (step3 (step2 (step1c (step1b (step1a w))))))))"
  using keeps_steps keeps_trans by metis

lemma stemWord_keeps: "keeps_stem w (stemWord w)"
proof -
  let ?w1 = "if take 1 w = ''y'' then ''Y'' @ drop 1 w else w"
  let ?w2 = "step5_ll (step5_e (step4 (step3 (step2 (step1c (step1b (step1a ?w1)))))))"
  have k: "keeps_stem ?w1 ?w2" by (rule keeps_all)
  show ?thesis
  proof (cases "length w < 3 \<or> take 1 w \<noteq> ''y''")
    case True
    with k show ?thesis by (auto simp: stemWord_def Let_def)
  next
    case False
    then have y: "take 1 w = ''y''" "\<not> length w < 3" by auto
    with k have "length ?w2 \<le> length w" by (auto simp: keeps_stem_def)
    moreover have "stemWord w = ''y'' @ drop 1 ?w2" using y by (simp add: stemWord_def Let_def)
    ultimately show ?thesis using y by (simp add: keeps_stem_def)
  qed
qed

text \<open>
  C22. Stemming keeps the first letter of a word and never makes it longer, leaves words of
  fewer than three letters alone and never yields the empty word from a word.
\<close>

theorem stemWord_bounds:
  "take 1 (stemWord w) = take 1 w \<and> length (stemWord w) \<le> length w
   \<and> (stemWord w = [] \<longleftrightarrow> w = []) \<and> (3 \<le> length w \<or> stemWord w = w)"
proof -
  have "3 \<le> length w \<or> stemWord w = w" by (cases "length w < 3") (simp_all add: stemWord_def)
  with stemWord_keeps [of w] show ?thesis
    by (cases w; cases "stemWord w") (simp_all add: keeps_stem_def)
qed

section \<open>Splitting\<close>

text \<open>The reference: cut at every separator, drop the empty pieces.\<close>

fun pieces :: "('a \<Rightarrow> bool) \<Rightarrow> 'a list \<Rightarrow> 'a list list" where
  "pieces p [] = [[]]"
| "pieces p (x # xs) =
     (if p x then [] # pieces p xs else case pieces p xs of r # rs \<Rightarrow> (x # r) # rs)"

lemma pieces_nonempty [simp]: "pieces p xs \<noteq> []"
  by (induction xs) (auto split: list.split)

definition words :: "nat list \<Rightarrow> nat list list" where
  "words query = filter (\<lambda>r. r \<noteq> []) (pieces splitChars query)"

definition close_split :: "nat list \<Rightarrow> int \<times> nat list list \<Rightarrow> nat list list" where
  "close_split query r = (if fst r \<noteq> -1 then snd r @ [drop (nat (fst r)) query] else snd r)"

lemma split_loop_pieces:
  assumes "query = pre @ chs" "start = -1 \<and> cur = [] \<or> start = int (length pre - length cur)
      \<and> cur \<noteq> [] \<and> (\<exists>u. pre = u @ cur)"
    "pieces splitChars chs = r # rs"
  shows "close_split query (split_loop query (length pre) start result chs)
      = result @ filter (\<lambda>r. r \<noteq> []) ((cur @ r) # rs)"
  using assms
proof (induction chs arbitrary: pre start result cur r rs)
  case Nil
  then show ?case by (auto simp: close_split_def)
next
  case (Cons ch chs)
  obtain r' rs' where p: "pieces splitChars chs = r' # rs'"
    by (cases "pieces splitChars chs") auto
  have q: "query = (pre @ [ch]) @ chs" using Cons.prems(1) by simp
  show ?case
  proof (cases "splitChars ch")
    case sep: True
    have [simp]: "r = []" "rs = r' # rs'" using Cons.prems(3) sep p by simp_all
    have IH: "close_split query (split_loop query (Suc (length pre)) (-1) res chs)
        = res @ filter (\<lambda>r. r \<noteq> []) (r' # rs')" for res
      using Cons.IH [OF q _ p, of "-1" "[]"] by simp
    show ?thesis
    proof (cases "start = -1")
      case True
      with sep IH [of result] Cons.prems p show ?thesis by auto
    next
      case False
      then obtain u where "cur \<noteq> []" "pre = u @ cur" "start = int (length pre - length cur)"
        using Cons.prems(2) by auto
      then have "drop (nat start) (take (length pre) query) = cur" "start \<noteq> -1"
        using Cons.prems(1) by auto
      with sep IH [of "result @ [cur]"] Cons.prems(3) p \<open>cur \<noteq> []\<close> show ?thesis by auto
    qed
  next
    case word: False
    have [simp]: "r = ch # r'" "rs = rs'" using Cons.prems(3) word p by simp_all
    have IH: "close_split query (split_loop query (Suc (length pre)) st result chs)
        = result @ filter (\<lambda>r. r \<noteq> []) (((cur @ [ch]) @ r') # rs')"
      if "st = int (length (pre @ [ch]) - length (cur @ [ch]))" "\<exists>u. pre @ [ch] = u @ cur @ [ch]" for st
      using Cons.IH [OF q _ p, of st "cur @ [ch]" result] that by simp
    show ?thesis
    proof (cases "start = -1")
      case True
      then have "cur = []" using Cons.prems(2) by auto
      with True word IH [of "int (length pre)"] Cons.prems(3) p show ?thesis by simp
    next
      case False
      then obtain u where "cur \<noteq> []" "pre = u @ cur" "start = int (length pre - length cur)"
        using Cons.prems(2) by auto
      with False word IH [of start] Cons.prems(3) p show ?thesis by simp
    qed
  qed
qed

lemma splitQuery_close: "splitQuery query = close_split query (split_loop query 0 (-1) [] query)"
  by (simp add: splitQuery_def close_split_def case_prod_beta Let_def)

lemma pieces_no_sep: "r \<in> set (pieces p xs) \<Longrightarrow> x \<in> set r \<Longrightarrow> \<not> p x"
proof (induction xs arbitrary: r)
  case (Cons y ys)
  obtain r' rs' where "pieces p ys = r' # rs'" by (cases "pieces p ys") auto
  with Cons show ?case by (fastforce split: if_splits)
qed simp

lemma pieces_concat: "concat (pieces p xs) = filter (\<lambda>x. \<not> p x) xs"
proof (induction xs)
  case (Cons y ys)
  obtain r' rs' where "pieces p ys = r' # rs'" by (cases "pieces p ys") auto
  with Cons show ?case by simp
qed simp

lemma splitQuery_eq: "splitQuery query = words query"
proof -
  obtain r rs where p: "pieces splitChars query = r # rs" by (cases "pieces splitChars query") auto
  show ?thesis
    using split_loop_pieces [of query "[]" query "-1" "[]" r rs "[]"] p
    by (simp add: splitQuery_close words_def)
qed

lemma concat_words: "concat (words query) = filter (\<lambda>n. \<not> splitChars n) query"
proof -
  have "concat (filter (\<lambda>r. r \<noteq> []) rss) = concat rss" for rss :: "nat list list"
    by (induction rss) auto
  then show ?thesis by (simp add: words_def pieces_concat)
qed

text \<open>The letters \<open>a\<close> to \<open>z\<close> do not separate.\<close>

lemma letter_no_split: "97 \<le> n \<Longrightarrow> n \<le> 122 \<Longrightarrow> \<not> splitChars n"
proof -
  have "list_all (\<lambda>m. m < 97 \<or> 122 < m) singles" by (simp add: singles_def)
  moreover have "list_all (\<lambda>(a, b). b < 97 \<or> 122 < a) ranges" by (simp add: ranges_def)
  moreover assume "97 \<le> n" "n \<le> 122"
  ultimately show ?thesis by (fastforce simp: splitChars_def list_all_iff list_ex_iff)
qed

lemma splitQuery_letters: "w \<noteq> [] \<Longrightarrow> \<forall>n \<in> set w. 97 \<le> n \<and> n \<le> 122 \<Longrightarrow> splitQuery w = [w]"
proof -
  assume w: "w \<noteq> []" "\<forall>n \<in> set w. 97 \<le> n \<and> n \<le> 122"
  have "\<forall>n \<in> set w. \<not> splitChars n \<Longrightarrow> pieces splitChars w = [w]" for w
    by (induction w) simp_all
  with w letter_no_split show ?thesis by (simp add: splitQuery_eq words_def)
qed

lemma splitQuery_word:
  assumes "w \<in> set (splitQuery query)"
  shows "w \<noteq> [] \<and> (\<forall>n \<in> set w. \<not> splitChars n) \<and> set w \<subseteq> set query"
proof -
  have "set w \<subseteq> set (concat (words query))" using assms by (auto simp: splitQuery_eq)
  also have "\<dots> \<subseteq> set query" by (auto simp: concat_words)
  finally show ?thesis using assms by (auto simp: splitQuery_eq words_def dest: pieces_no_sep)
qed

text \<open>
  \<open>splitQuery\<close> cuts the query at every separating code unit and drops the empty pieces:
  so it loses no other character, keeps their order, and returns only non-empty words without
  a separator.
\<close>

theorem splitQuery_words:
  "splitQuery query = words query \<and> concat (splitQuery query) = filter (\<lambda>n. \<not> splitChars n) query
   \<and> list_all (\<lambda>w. w \<noteq> [] \<and> list_all (\<lambda>n. \<not> splitChars n) w) (splitQuery query)"
  using splitQuery_word [of _ query] by (auto simp: splitQuery_eq concat_words list_all_iff)

end
