(* ===== verification/Search.thy ===== *)
theory Search
  imports Stemmer
begin

text \<open>
  The full-text search of the documentation, \<open>searchtools.js\<close>: reading a query, looking its
  words up in the index as object names and as terms, ranking, and showing the results one by
  one. The index is the data of \<open>searchindex.js\<close>, a file the documentation build writes: its
  tables are given here with their entries in the order in which \<open>for ... in\<close> visits them.
  Document numbers outside the tables, and words that name a method every object inherits,
  are reported as outside the model. \<open>tr\<close> is the translation function \<open>_\<close>.
\<close>

section \<open>The index\<close>

text \<open>The documents of a term: one number, or several in an array.\<close>

datatype files = One nat | Many "nat list"

fun file_list :: "files \<Rightarrow> nat list" where
  "file_list (One n) = [n]"
| "file_list (Many ns) = ns"

text \<open>\<open>objects[prefix][name]\<close>, and \<open>objnames[type]\<close>: domain, type and the type's printed name.\<close>

record object_entry =
  obj_doc :: nat
  obj_type :: nat
  obj_prio :: int
  obj_anchor :: string

record search_index =
  docnames :: "string list"
  filenames :: "string list"
  titles :: "string list"
  terms :: "(string \<times> files) list"
  titleterms :: "(string \<times> files) list"
  objects :: "(string \<times> (string \<times> object_entry) list) list"
  objnames :: "(nat \<times> string \<times> string \<times> string) list"

text \<open>A result: \<open>[docname, title, anchor, descr, score, filename]\<close>.\<close>

record result =
  res_doc :: string
  res_title :: string
  res_anchor :: string
  res_descr :: "string option"
  res_score :: int
  res_file :: string

definition nth_res :: "'a list \<Rightarrow> nat \<Rightarrow> 'a res" where
  "nth_res xs n = (if n < length xs then Inr (xs ! n) else Inl OutsideModel)"

lemma nth_res_Inr [simp]: "nth_res xs n = Inr x \<longleftrightarrow> n < length xs \<and> x = xs ! n"
  by (auto simp: nth_res_def)

definition lookup_term :: "(string \<times> files) list \<Rightarrow> string \<Rightarrow> files option res" where
  "lookup_term table w =
     (case map_of table w of
        Some f \<Rightarrow> Inr (Some f)
      | None \<Rightarrow> if w \<in> set inherited_names then Inl OutsideModel else Inr None)"

section \<open>\<open>Scorer\<close>\<close>

definition objNameMatch :: int where "objNameMatch = 11"

definition objPartialMatch :: int where "objPartialMatch = 6"

definition objPrio :: "(int \<times> int) list" where
  "objPrio = [(0, 15), (1, 5), (2, -5)]"

definition objPrioDefault :: int where "objPrioDefault = 0"

definition score_title :: int where "score_title = 15"

definition score_partialTitle :: int where "score_partialTitle = 7"

definition score_term :: int where "score_term = 5"

definition score_partialTerm :: int where "score_partialTerm = 2"

lemmas scorer_defs = objNameMatch_def objPartialMatch_def objPrio_def objPrioDefault_def
  score_title_def score_partialTitle_def score_term_def score_partialTerm_def

section \<open>Reading the query\<close>

record parsed_query =
  searchterms :: "string list"
  excluded :: "string list"
  hlterms :: "string list"
  objectterms :: "string list"

definition empty_query :: parsed_query where
  "empty_query = \<lparr>searchterms = [], excluded = [], hlterms = [], objectterms = []\<rparr>"

definition add_new :: "'a \<Rightarrow> 'a list \<Rightarrow> 'a list" where
  "add_new x xs = (if x \<in> set xs then xs else xs @ [x])"

definition stemmed :: "string \<Rightarrow> string" where
  "stemmed t =
     (let word = stemWord (lower t)
      in if length word < 3 \<and> 3 \<le> length t then t else word)"

definition add_word :: "string \<Rightarrow> parsed_query \<Rightarrow> parsed_query" where
  "add_word t q =
     (let q1 = (if t \<noteq> [] then q\<lparr>objectterms := objectterms q @ [lower t]\<rparr> else q)
      in if lower t \<in> set stopwords \<or> t = [] then q1
         else
           let word = stemmed t
           in if take 1 word = ''-'' then q1\<lparr>excluded := add_new (drop 1 word) (excluded q1)\<rparr>
              else q1\<lparr>hlterms := hlterms q1 @ [lower t],
                     searchterms := add_new word (searchterms q1)\<rparr>)"

definition split_words :: "string \<Rightarrow> string list" where
  "split_words query = map (map char_of) (splitQuery (map of_char query))"

definition parse_query :: "string \<Rightarrow> parsed_query" where
  "parse_query query = fold add_word (split_words query) empty_query"

section \<open>\<open>performObjectSearch\<close>\<close>

definition object_score :: "string \<Rightarrow> string \<Rightarrow> int" where
  "object_score object fullnameLower =
     (let lastname = last (split_at (CHR ''.'') fullnameLower)
      in if fullnameLower = object \<or> lastname = object then objNameMatch
         else if occurs_in object lastname then objPartialMatch
         else 0)"

definition prio_score :: "int \<Rightarrow> int" where
  "prio_score prio = (case map_of objPrio prio of Some s \<Rightarrow> s | None \<Rightarrow> objPrioDefault)"

definition object_anchor :: "string \<Rightarrow> string \<Rightarrow> string \<Rightarrow> string" where
  "object_anchor anchor typename fullname =
     (if anchor = [] then fullname
      else if anchor = ''-'' then typename @ ''-'' @ fullname
      else anchor)"

definition full_name :: "string \<Rightarrow> string \<Rightarrow> string" where
  "full_name prefix name = (if prefix \<noteq> [] then prefix @ ''.'' else []) @ name"

definition match_object ::
    "(string \<Rightarrow> string) \<Rightarrow> search_index \<Rightarrow> string \<Rightarrow> string list \<Rightarrow> string \<Rightarrow> string \<Rightarrow>
     object_entry \<Rightarrow> result list res" where
  "match_object tr ix object otherterms prefix name match =
     (let fullname = full_name prefix name; fullnameLower = lower fullname
      in if \<not> occurs_in object fullnameLower then Inr []
         else
           case map_of (objnames ix) (obj_type match) of
             None \<Rightarrow> Inl OutsideModel
           | Some (domain, typename, objname) \<Rightarrow>
               andThen (nth_res (titles ix) (obj_doc match)) (\<lambda>title.
                 let haystack = lower (prefix @ '' '' @ name @ '' '' @ objname @ '' '' @ title)
                 in if otherterms \<noteq> [] \<and> \<not> list_all (\<lambda>t. occurs_in t haystack) otherterms
                    then Inr []
                    else andThen (nth_res (docnames ix) (obj_doc match)) (\<lambda>docname.
                      andThen (nth_res (filenames ix) (obj_doc match)) (\<lambda>filename.
                        Inr [\<lparr>res_doc = docname, res_title = fullname,
                              res_anchor =
                                ''#'' @ object_anchor (obj_anchor match) typename fullname,
                              res_descr = Some (objname @ tr '', in '' @ title),
                              res_score =
                                object_score object fullnameLower + prio_score (obj_prio match),
                              res_file = filename\<rparr>]))))"

definition object_list :: "search_index \<Rightarrow> (string \<times> string \<times> object_entry) list" where
  "object_list ix =
     concat (map (\<lambda>(prefix, names). map (\<lambda>(name, match). (prefix, name, match)) names)
       (objects ix))"

definition performObjectSearch ::
    "(string \<Rightarrow> string) \<Rightarrow> search_index \<Rightarrow> string \<Rightarrow> string list \<Rightarrow> result list res" where
  "performObjectSearch tr ix object otherterms =
     andThen (map_res (\<lambda>(prefix, name, match).
                match_object tr ix object otherterms prefix name match) (object_list ix))
       (\<lambda>rss. Inr (concat rss))"

section \<open>\<open>escapeRegExp\<close>\<close>

definition special_chars :: string where
  "special_chars = ''.*+-?^${}()|[]'' @ [CHR 0x5C]"

definition escapeRegExp :: "string \<Rightarrow> string" where
  "escapeRegExp s = concat (map (\<lambda>c. if c \<in> set special_chars then [CHR 0x5C, c] else [c]) s)"

text \<open>
  The text a pattern matches when it consists of plain characters and escaped punctuation.
\<close>

fun literal_text :: "string \<Rightarrow> string option" where
  "literal_text [] = Some []"
| "literal_text (c # p) =
     (if c = CHR 0x5C
      then case p of
             d # p' \<Rightarrow>
               if d \<in> set special_chars then map_option (\<lambda>t. d # t) (literal_text p') else None
           | [] \<Rightarrow> None
      else if c \<in> set special_chars \<and> c \<noteq> CHR ''-'' then None
      else map_option (\<lambda>t. c # t) (literal_text p))"

definition matches :: "string \<Rightarrow> string \<Rightarrow> bool res" where
  "matches w pattern =
     (case literal_text pattern of Some t \<Rightarrow> Inr (occurs_in t w) | None \<Rightarrow> Inl OutsideModel)"

lemma literal_escape [simp]: "literal_text (escapeRegExp s) = Some s"
  by (induction s) (auto simp: escapeRegExp_def special_chars_def)

lemma matches_escape [simp]: "matches w (escapeRegExp t) = Inr (occurs_in t w)"
  by (simp add: matches_def)

section \<open>\<open>performTermsSearch\<close>\<close>

text \<open>\<open>_o\<close>: the places to look a word up, each with its score.\<close>

definition missing :: "files option \<Rightarrow> bool" where
  "missing f \<longleftrightarrow> f = None \<or> f = Some (One 0)"

definition partial_matches ::
    "(string \<times> files) list \<Rightarrow> string \<Rightarrow> files option \<Rightarrow> int \<Rightarrow> (files option \<times> int) list res" where
  "partial_matches table word exact score =
     andThen (filter_res (\<lambda>(w, f). andThen (matches w (escapeRegExp word)) (\<lambda>m.
                            Inr (m \<and> missing exact))) table)
       (\<lambda>hits. Inr (map (\<lambda>(w, f). (Some f, score)) hits))"

definition candidates :: "search_index \<Rightarrow> string \<Rightarrow> (files option \<times> int) list res" where
  "candidates ix word =
     andThen (lookup_term (terms ix) word) (\<lambda>t.
     andThen (lookup_term (titleterms ix) word) (\<lambda>tt.
       if 2 < length word
       then andThen (partial_matches (terms ix) word t score_partialTerm) (\<lambda>ps.
            andThen (partial_matches (titleterms ix) word tt score_partialTitle) (\<lambda>pts.
              Inr ([(t, score_term), (tt, score_title)] @ ps @ pts)))
       else Inr [(t, score_term), (tt, score_title)]))"

text \<open>\<open>scoreMap\<close> and \<open>fileMap\<close>, and the two loops that fill them for one word.\<close>

type_synonym score_map = "((nat \<times> string) \<times> int) list"

type_synonym file_map = "(nat \<times> string list) list"

definition add_score :: "string \<Rightarrow> int \<Rightarrow> nat \<Rightarrow> score_map \<Rightarrow> score_map" where
  "add_score word score file sm = AList.update (file, word) score sm"

definition add_candidate ::
    "string \<Rightarrow> files option \<times> int \<Rightarrow> nat list \<times> score_map \<Rightarrow> nat list \<times> score_map" where
  "add_candidate word c r =
     (case fst c of
        None \<Rightarrow> r
      | Some f \<Rightarrow> (fst r @ file_list f, fold (add_score word (snd c)) (file_list f) (snd r)))"

definition add_file :: "string \<Rightarrow> nat \<Rightarrow> file_map \<Rightarrow> file_map" where
  "add_file word file fm =
     (case map_of fm file of
        Some ws \<Rightarrow> if word \<notin> set ws then AList.update file (ws @ [word]) fm
                   else AList.update file [word] fm
      | None \<Rightarrow> AList.update file [word] fm)"

text \<open>The loop over the search terms; a term found nowhere ends it.\<close>

fun terms_loop ::
    "search_index \<Rightarrow> string list \<Rightarrow> file_map \<times> score_map \<Rightarrow> (file_map \<times> score_map) res" where
  "terms_loop ix [] r = Inr r"
| "terms_loop ix (word # ws) (fm, sm) =
     andThen (candidates ix word) (\<lambda>os.
       if list_all (\<lambda>c. fst c = None) os then Inr (fm, sm)
       else
         let (files, sm') = fold (add_candidate word) os ([], sm)
         in terms_loop ix ws (fold (add_file word) files fm, sm'))"

text \<open>
  The test for an excluded word. The document is a property name, a string: it equals a number
  or a one-element array that prints like it, and no element of an array of numbers.
\<close>

definition hits :: "files option \<Rightarrow> nat \<Rightarrow> bool" where
  "hits f file \<longleftrightarrow> f = Some (One file) \<or> f = Some (Many [file])"

definition excludes :: "search_index \<Rightarrow> nat \<Rightarrow> string \<Rightarrow> bool res" where
  "excludes ix file ex =
     andThen (lookup_term (terms ix) ex) (\<lambda>t.
     andThen (lookup_term (titleterms ix) ex) (\<lambda>tt. Inr (hits t file \<or> hits tt file)))"

fun any_excludes :: "search_index \<Rightarrow> nat \<Rightarrow> string list \<Rightarrow> bool res" where
  "any_excludes ix file [] = Inr False"
| "any_excludes ix file (ex # exs) =
     andThen (excludes ix file ex) (\<lambda>b. if b then Inr True else any_excludes ix file exs)"

definition max_score :: "int list \<Rightarrow> int res" where
  "max_score xs = (case xs of [] \<Rightarrow> Inl OutsideModel | x # ys \<Rightarrow> Inr (fold max ys x))"

definition term_result ::
    "search_index \<Rightarrow> string list \<Rightarrow> string list \<Rightarrow> score_map \<Rightarrow> nat \<Rightarrow> string list \<Rightarrow>
     result list res" where
  "term_result ix sts exs sm file ws =
     (let filteredTermCount = length (filter (\<lambda>t. 2 < length t) sts)
      in if length ws \<noteq> length sts \<and> length ws \<noteq> filteredTermCount then Inr []
         else andThen (any_excludes ix file exs) (\<lambda>bad.
           if bad then Inr []
           else
             andThen (max_score (List.map_filter (\<lambda>w. map_of sm (file, w)) ws)) (\<lambda>score.
             andThen (nth_res (docnames ix) file) (\<lambda>docname.
             andThen (nth_res (titles ix) file) (\<lambda>title.
             andThen (nth_res (filenames ix) file) (\<lambda>filename.
               Inr [\<lparr>res_doc = docname, res_title = title, res_anchor = [], res_descr = None,
                     res_score = score, res_file = filename\<rparr>]))))))"

text \<open>Document numbers as property names are visited in ascending order.\<close>

definition performTermsSearch :: "search_index \<Rightarrow> string list \<Rightarrow> string list \<Rightarrow> result list res" where
  "performTermsSearch ix sts exs =
     andThen (terms_loop ix sts ([], [])) (\<lambda>(fm, sm).
     andThen (map_res (\<lambda>(file, ws). term_result ix sts exs sm file ws) (sort_key fst fm))
       (\<lambda>rss. Inr (concat rss)))"

section \<open>\<open>query\<close>\<close>

definition compare_results :: "result \<Rightarrow> result \<Rightarrow> int" where
  "compare_results a b =
     (if res_score a > res_score b then 1
      else if res_score a < res_score b then -1
      else
        let left = lower (res_title a); right = lower (res_title b)
        in if left > right then -1 else if left < right then 1 else 0)"

definition others :: "'a list \<Rightarrow> nat \<Rightarrow> 'a list" where
  "others xs i = take i xs @ drop (Suc i) xs"

definition object_results ::
    "(string \<Rightarrow> string) \<Rightarrow> search_index \<Rightarrow> string list \<Rightarrow> result list res" where
  "object_results tr ix ots =
     andThen (map_res (\<lambda>i. performObjectSearch tr ix (ots ! i) (others ots i)) [0..<length ots])
       (\<lambda>rss. Inr (concat rss))"

definition ranked :: "result list \<Rightarrow> result list" where
  "ranked rs = sort_by (\<lambda>a b. compare_results a b \<le> 0) rs"

definition query :: "(string \<Rightarrow> string) \<Rightarrow> search_index \<Rightarrow> string \<Rightarrow> result list res" where
  "query tr ix q =
     (let p = parse_query q
      in andThen (object_results tr ix (objectterms p)) (\<lambda>rs1.
         andThen (performTermsSearch ix (searchterms p) (excluded p)) (\<lambda>rs2.
           Inr (ranked (rs1 @ rs2)))))"

section \<open>What is read from a query\<close>

lemma lower_char_dash: "lower_char c = CHR ''-'' \<longleftrightarrow> c = CHR ''-''"
proof -
  have "of_char (lower_char c) = (45 :: nat) \<longleftrightarrow> of_char c = (45 :: nat)"
    by (auto simp: of_char_lower Let_def)
  moreover have "of_char d = (45 :: nat) \<longleftrightarrow> d = CHR ''-''" for d
    using of_char_eq_iff [of d "CHR ''-''"] by simp
  ultimately show ?thesis by blast
qed

lemma word_no_dash: "t \<in> set (split_words q) \<Longrightarrow> CHR ''-'' \<notin> set t \<and> t \<noteq> []"
proof -
  assume "t \<in> set (split_words q)"
  then obtain w where w: "w \<in> set (splitQuery (map of_char q))" "t = map char_of w"
    by (auto simp: split_words_def)
  then have ns: "w \<noteq> []" "\<forall>n \<in> set w. \<not> splitChars n" "\<forall>n \<in> set w. n < 256"
    using splitQuery_word [of w "map of_char q"] by auto
  have "(0, 47) \<in> set ranges" unfolding ranges_def by (rule list.set_intros(1))
  then have "splitChars 45" unfolding splitChars_def list_ex_iff by fastforce
  with ns have "n \<noteq> 45" if "n \<in> set w" for n using that by blast
  moreover have "char_of n = CHR ''-'' \<Longrightarrow> n < 256 \<Longrightarrow> n = 45" for n :: nat
  proof -
    assume "char_of n = CHR ''-''" "n < 256"
    then have "of_char (char_of n :: char) = (45 :: nat)" by simp
    with \<open>n < 256\<close> show "n = 45" by simp
  qed
  ultimately have "CHR ''-'' \<notin> set t" using w(2) ns(3) by fastforce
  with ns w show ?thesis by simp
qed

lemma split_words_letters:
  "q \<noteq> [] \<Longrightarrow> \<forall>c \<in> set q. 97 \<le> (of_char c :: nat) \<and> of_char c \<le> (122 :: nat) \<Longrightarrow>
     split_words q = [q]"
  by (simp add: split_words_def splitQuery_letters o_def)

lemma stemmed_no_dash: "t \<noteq> [] \<Longrightarrow> CHR ''-'' \<notin> set t \<Longrightarrow> take 1 (stemmed t) \<noteq> ''-''"
proof -
  assume t: "t \<noteq> []" "CHR ''-'' \<notin> set t"
  then obtain c u where c: "t = c # u" "c \<noteq> CHR ''-''" by (cases t) auto
  then have "take 1 (stemWord (lower t)) = [lower_char c]"
    using stemWord_keeps [of "lower t"] by (simp add: keeps_stem_def lower_def)
  with c show ?thesis by (auto simp: stemmed_def Let_def lower_char_dash)
qed

text \<open>Adding new elements one by one keeps the first occurrence of each.\<close>

lemma fold_add_new:
  "distinct acc \<Longrightarrow> distinct (fold add_new xs acc) \<and> set (fold add_new xs acc) = set acc \<union> set xs"
  by (induction xs arbitrary: acc) (auto simp: add_new_def)

lemma fold_add_word:
  assumes "\<forall>t \<in> set ts. t \<noteq> [] \<and> CHR ''-'' \<notin> set t"
  shows "fold add_word ts p =
    (let good = filter (\<lambda>t. lower t \<notin> set stopwords) ts
     in p\<lparr>objectterms := objectterms p @ map lower ts, hlterms := hlterms p @ map lower good,
          searchterms := fold add_new (map stemmed good) (searchterms p)\<rparr>)"
  using assms
proof (induction ts arbitrary: p)
  case (Cons t ts)
  have "add_word t p =
      (if lower t \<in> set stopwords then p\<lparr>objectterms := objectterms p @ [lower t]\<rparr>
       else p\<lparr>objectterms := objectterms p @ [lower t], hlterms := hlterms p @ [lower t],
              searchterms := add_new (stemmed t) (searchterms p)\<rparr>)"
    using Cons.prems stemmed_no_dash [of t] by (simp add: add_word_def Let_def)
  with Cons show ?case by (simp add: Let_def)
qed simp

lemma parse_query_eq:
  "parse_query q =
    (let good = filter (\<lambda>t. lower t \<notin> set stopwords) (split_words q)
     in \<lparr>searchterms = fold add_new (map stemmed good) [], excluded = [],
         hlterms = map lower good, objectterms = map lower (split_words q)\<rparr>)"
proof -
  have "\<forall>t \<in> set (split_words q). t \<noteq> [] \<and> CHR ''-'' \<notin> set t" using word_no_dash by blast
  then show ?thesis by (simp add: parse_query_def fold_add_word Let_def empty_query_def)
qed

lemma parse_query_hlterms:
  "hlterms (parse_query q) = map lower (filter (\<lambda>t. lower t \<notin> set stopwords) (split_words q))"
  by (simp add: parse_query_eq Let_def)

text \<open>
  C20. Reading a query: every word becomes an object term in lower case, every word that is no
  stop word is highlighted and searched for by its stem, each stem once. No word is ever
  excluded: a minus sign separates words, so none starts with it.
\<close>

theorem parse_query_terms:
  "(let p = parse_query q; ts = split_words q; good = filter (\<lambda>t. lower t \<notin> set stopwords) ts
    in excluded p = [] \<and> objectterms p = map lower ts \<and> hlterms p = map lower good
       \<and> distinct (searchterms p) \<and> set (searchterms p) = stemmed ` set good)"
  using fold_add_new [of "[]" "map stemmed (filter (\<lambda>t. lower t \<notin> set stopwords) (split_words q))"]
  by (simp add: parse_query_eq Let_def)

section \<open>What the terms search finds\<close>

text \<open>A document is listed under a word that contains the term, in the text or in a title.\<close>

definition found :: "search_index \<Rightarrow> string \<Rightarrow> nat \<Rightarrow> bool" where
  "found ix t file \<longleftrightarrow>
     (\<exists>(w, f) \<in> set (terms ix) \<union> set (titleterms ix). occurs_in t w \<and> file \<in> set (file_list f))"

lemma foundI:
  "(w, f) \<in> set (terms ix) \<union> set (titleterms ix) \<Longrightarrow> occurs_in t w \<Longrightarrow> n \<in> set (file_list f) \<Longrightarrow>
     found ix t n"
  unfolding found_def by blast

definition files_in :: "(files option \<times> int) list \<Rightarrow> nat list" where
  "files_in os = concat (map (\<lambda>c. case fst c of None \<Rightarrow> [] | Some f \<Rightarrow> file_list f) os)"

lemma occurs_in_self [simp]: "occurs_in t t"
  by (auto simp: occurs_in_iff intro: exI [of _ "[]"])

lemma lookup_term_Some: "lookup_term table w = Inr (Some f) \<Longrightarrow> (w, f) \<in> set table"
  by (auto simp: lookup_term_def dest: map_of_SomeD split: option.splits if_splits)

lemma partial_matches_found:
  assumes "partial_matches table word exact score = Inr ps" "c \<in> set ps"
  shows "\<exists>w f. c = (Some f, score) \<and> (w, f) \<in> set table \<and> occurs_in word w"
proof -
  obtain hs where "filter_res (\<lambda>(w, f). Inr (occurs_in word w \<and> missing exact)) table = Inr hs"
      "ps = map (\<lambda>(w, f). (Some f, score)) hs"
    using assms(1) by (auto simp: partial_matches_def andThen_eq_Inr)
  with assms(2) show ?thesis by (auto dest!: filter_res_filter)
qed

lemma candidates_found:
  assumes "candidates ix word = Inr os" "file \<in> set (files_in os)"
  shows "found ix word file"
proof -
  obtain t tt where t: "lookup_term (terms ix) word = Inr t" "lookup_term (titleterms ix) word = Inr tt"
    using assms(1) by (auto simp: candidates_def andThen_eq_Inr)
  obtain c f where c: "c \<in> set os" "fst c = Some f" "file \<in> set (file_list f)"
    using assms(2) by (auto simp: files_in_def split: option.splits)
  consider "c = (t, score_term)" | "c = (tt, score_title)"
    | ps where "partial_matches (terms ix) word t score_partialTerm = Inr ps" "c \<in> set ps"
    | pts where "partial_matches (titleterms ix) word tt score_partialTitle = Inr pts" "c \<in> set pts"
    using assms(1) t c(1) by (auto simp: candidates_def andThen_eq_Inr split: if_splits)
  then show ?thesis
  proof cases
    case 1
    then have "(word, f) \<in> set (terms ix)" using t c lookup_term_Some by simp
    then show ?thesis using c(3) by (intro foundI [of word f]) auto
  next
    case 2
    then have "(word, f) \<in> set (titleterms ix)" using t c lookup_term_Some by simp
    then show ?thesis using c(3) by (intro foundI [of word f]) auto
  next
    case 3
    then show ?thesis using partial_matches_found [OF 3] c by (auto intro: foundI)
  next
    case 4
    then show ?thesis using partial_matches_found [OF 4] c by (auto intro: foundI)
  qed
qed

lemma fst_add_candidates: "fst (fold (add_candidate word) os (fl, sm)) = fl @ files_in os"
proof (induction os arbitrary: fl sm)
  case (Cons c os)
  then show ?case by (cases "fst c") (simp_all add: add_candidate_def files_in_def)
qed (simp add: files_in_def)

text \<open>Adding a word keeps what was found before and records at most the word.\<close>

lemma map_of_add_file:
  "map_of (add_file word file fm) =
     (map_of fm)(file \<mapsto> (case map_of fm file of
        Some ws \<Rightarrow> if word \<notin> set ws then ws @ [word] else [word] | None \<Rightarrow> [word]))"
  by (auto simp: add_file_def fun_eq_iff split: option.split)

lemma distinct_add_file: "distinct (map fst fm) \<Longrightarrow> distinct (map fst (add_file word file fm))"
  by (auto simp: add_file_def distinct_update split: option.split)

definition file_inv :: "search_index \<Rightarrow> string set \<Rightarrow> file_map \<Rightarrow> bool" where
  "file_inv ix seen fm \<longleftrightarrow> distinct (map fst fm) \<and>
     (\<forall>file ws. map_of fm file = Some ws \<longrightarrow>
        distinct ws \<and> set ws \<subseteq> seen \<and> (\<forall>w \<in> set ws. found ix w file))"

lemma file_inv_mono: "file_inv ix seen fm \<Longrightarrow> seen \<subseteq> seen' \<Longrightarrow> file_inv ix seen' fm"
  unfolding file_inv_def by blast

lemma file_inv_add:
  assumes "file_inv ix seen fm" "word \<in> seen" "found ix word file"
  shows "file_inv ix seen (add_file word file fm)"
  using assms unfolding file_inv_def map_of_add_file
  by (auto simp: distinct_add_file split: option.split)

lemma file_inv_fold:
  "file_inv ix seen fm \<Longrightarrow> word \<in> seen \<Longrightarrow> \<forall>file \<in> set fs. found ix word file \<Longrightarrow>
     file_inv ix seen (fold (add_file word) fs fm)"
  by (induction fs arbitrary: fm) (simp_all add: file_inv_add)

lemma terms_loop_inv:
  "terms_loop ix ws (fm, sm) = Inr (fm', sm') \<Longrightarrow> file_inv ix seen fm \<Longrightarrow>
     file_inv ix (seen \<union> set ws) fm'"
proof (induction ws arbitrary: fm sm seen)
  case (Cons word ws)
  obtain os where os: "candidates ix word = Inr os"
    using Cons.prems(1) by (auto simp: andThen_eq_Inr)
  show ?case
  proof (cases "list_all (\<lambda>c. fst c = None) os")
    case True
    with Cons.prems os show ?thesis by (auto intro: file_inv_mono)
  next
    case False
    let ?fm = "fold (add_file word) (files_in os) fm"
    have "file_inv ix (insert word seen) ?fm"
      using Cons.prems(2) candidates_found [OF os]
      by (intro file_inv_fold) (auto intro: file_inv_mono)
    moreover obtain sm1 where "terms_loop ix ws (?fm, sm1) = Inr (fm', sm')"
      using Cons.prems(1) os False fst_add_candidates [of word os "[]" sm]
      by (auto simp: case_prod_beta Let_def)
    ultimately show ?thesis using Cons.IH by fastforce
  qed
qed simp

lemma term_result_Inr:
  assumes "term_result ix sts exs sm file ws = Inr rs" "r \<in> set rs"
  shows "rs = [r] \<and> (length ws = length sts \<or> length ws = length (filter (\<lambda>t. 2 < length t) sts))
    \<and> file < length (docnames ix) \<and> file < length (titles ix) \<and> file < length (filenames ix)
    \<and> res_doc r = docnames ix ! file \<and> res_title r = titles ix ! file
    \<and> res_file r = filenames ix ! file \<and> res_anchor r = [] \<and> res_descr r = None"
  using assms by (auto simp: term_result_def Let_def andThen_eq_Inr split: if_splits)

lemma performTermsSearch_Inr:
  assumes "performTermsSearch ix sts exs = Inr rs" "r \<in> set rs"
  shows "\<exists>fm sm file ws. terms_loop ix sts ([], []) = Inr (fm, sm) \<and> (file, ws) \<in> set fm
    \<and> term_result ix sts exs sm file ws = Inr [r]"
proof -
  obtain fm sm rss where l: "terms_loop ix sts ([], []) = Inr (fm, sm)"
      "map_res (\<lambda>(file, ws). term_result ix sts exs sm file ws) (sort_key fst fm) = Inr rss"
      "rs = concat rss"
    using assms(1) by (auto simp: performTermsSearch_def andThen_eq_Inr)
  obtain rs1 where "rs1 \<in> set rss" "r \<in> set rs1" using assms(2) l(3) by auto
  moreover then obtain n ws where "(n, ws) \<in> set fm" "term_result ix sts exs sm n ws = Inr rs1"
    using map_res_elem [OF l(2)] by fastforce
  moreover then have "rs1 = [r]" using term_result_Inr calculation(2) by blast
  ultimately show ?thesis using l(1) by blast
qed

text \<open>
  C19. The terms search is sound: when all search terms are distinct and have at least three letters
  (shorter ones are not demanded of a document), every result of a search that does not throw is
  a document of the index, with its title and file, in which every search term occurs, as part
  of a word of the text or of the title.
\<close>

theorem terms_search_sound:
  assumes "performTermsSearch ix sts exs = Inr rs" and "r \<in> set rs" and "distinct sts"
    and "\<forall>t \<in> set sts. 2 < length t"
  shows "\<exists>file < length (docnames ix). res_doc r = docnames ix ! file
           \<and> res_title r = titles ix ! file \<and> res_file r = filenames ix ! file
           \<and> (\<forall>t \<in> set sts. found ix t file)"
proof -
  obtain fm sm n ws where l: "terms_loop ix sts ([], []) = Inr (fm, sm)" "(n, ws) \<in> set fm"
      "term_result ix sts exs sm n ws = Inr [r]"
    using performTermsSearch_Inr [OF assms(1,2)] by blast
  have "file_inv ix (set sts) fm"
    using terms_loop_inv [OF l(1), of "{}"] by (simp add: file_inv_def)
  then have ws: "distinct ws" "set ws \<subseteq> set sts" "\<forall>w \<in> set ws. found ix w n"
    using l(2) by (auto simp: file_inv_def)
  have r: "length ws = length sts \<or> length ws = length (filter (\<lambda>t. 2 < length t) sts)"
      "n < length (docnames ix)" "res_doc r = docnames ix ! n"
      "res_title r = titles ix ! n" "res_file r = filenames ix ! n"
    using term_result_Inr [OF l(3)] by auto
  have "filter (\<lambda>t. 2 < length t) sts = sts" using assms(4) by (simp add: filter_True)
  then have "length ws = length sts" using r(1) by auto
  then have "card (set ws) = card (set sts)" using ws(1) assms(3) by (simp add: distinct_card)
  then have "set ws = set sts" using ws(2) by (simp add: card_subset_eq)
  with ws(3) r show ?thesis by blast
qed

text \<open>An index of two documents, for the witnesses.\<close>

definition sample_index :: search_index where
  "sample_index =
     \<lparr>docnames = [''intro'', ''usage''], filenames = [''intro.rst'', ''usage.rst''],
      titles = [''Introduction'', ''Sending''],
      terms = [(''device'', Many [0, 1]), (''packet'', One 1)],
      titleterms = [(''packet'', One 1)],
      objects = [(''linq'', [(''send'',
        \<lparr>obj_doc = 1, obj_type = 0, obj_prio = 1, obj_anchor = []\<rparr>)])],
      objnames = [(0, ''c'', ''function'', ''C function'')]\<rparr>"

theorem terms_search_sound_witness:
  "\<exists>file < length (docnames sample_index). docnames sample_index ! file = ''intro''
     \<and> found sample_index ''device'' file"
proof -
  have "performTermsSearch sample_index [''device''] [] =
      Inr [\<lparr>res_doc = ''intro'', res_title = ''Introduction'', res_anchor = [], res_descr = None,
            res_score = 5, res_file = ''intro.rst''\<rparr>,
           \<lparr>res_doc = ''usage'', res_title = ''Sending'', res_anchor = [], res_descr = None,
            res_score = 5, res_file = ''usage.rst''\<rparr>]"
    by code_simp
  from terms_search_sound [OF this list.set_intros(1)] show ?thesis by auto
qed

text \<open>A word listed twice for a document takes the place of the words found before it.\<close>

lemma add_file_keeps:
  "map_of fm n = Some ws \<Longrightarrow> word \<in> set ws \<Longrightarrow>
     \<exists>ws'. map_of (add_file word m fm) n = Some ws' \<and> word \<in> set ws'"
  by (auto simp: map_of_add_file)

lemma fold_add_file_keeps:
  "map_of fm n = Some ws \<Longrightarrow> word \<in> set ws \<Longrightarrow>
     \<exists>ws'. map_of (fold (add_file word) ms fm) n = Some ws' \<and> word \<in> set ws'"
proof (induction ms arbitrary: fm ws)
  case (Cons m ms)
  then obtain ws' where "map_of (add_file word m fm) n = Some ws'" "word \<in> set ws'"
    using add_file_keeps by blast
  with Cons.IH show ?case by simp
qed simp

lemma fold_add_file_only:
  "map_of fm n = Some [word] \<Longrightarrow> map_of (fold (add_file word) ms fm) n = Some [word]"
proof (induction ms arbitrary: fm)
  case (Cons m ms)
  then have "map_of (add_file word m fm) n = Some [word]" by (auto simp: map_of_add_file)
  with Cons.IH show ?case by simp
qed simp

lemma fold_add_file_twice:
  assumes "ms = us @ n # vs @ n # zs"
  shows "map_of (fold (add_file word) ms fm) n = Some [word]"
proof -
  let ?fm1 = "add_file word n (fold (add_file word) us fm)"
  have "\<exists>ws. map_of ?fm1 n = Some ws \<and> word \<in> set ws"
    by (auto simp: map_of_add_file split: option.split)
  then obtain ws where "map_of (fold (add_file word) vs ?fm1) n = Some ws" "word \<in> set ws"
    using fold_add_file_keeps by blast
  then have "map_of (add_file word n (fold (add_file word) vs ?fm1)) n = Some [word]"
    by (simp add: map_of_add_file)
  then show ?thesis by (simp add: assms fold_add_file_only)
qed

lemma files_in_None: "list_all (\<lambda>c. fst c = None) os \<Longrightarrow> files_in os = []"
  by (induction os) (simp_all add: files_in_def)

lemma files_in_twice:
  assumes "candidates ix w = Inr os" "map_of (terms ix) w = Some f" "map_of (titleterms ix) w = Some g"
    "n \<in> set (file_list f)" "n \<in> set (file_list g)"
  shows "\<exists>us vs zs. files_in os = us @ n # vs @ n # zs"
proof -
  obtain ps where "os = [(Some f, score_term), (Some g, score_title)] @ ps"
    using assms(1-3)
    by (auto simp: candidates_def lookup_term_def andThen_eq_Inr split: if_splits)
  then have "files_in os = file_list f @ file_list g @ files_in ps" by (simp add: files_in_def)
  moreover obtain u v where "file_list f = u @ n # v" using assms(4) split_list by fast
  moreover obtain u' v' where "file_list g = u' @ n # v'" using assms(5) split_list by fast
  ultimately have "files_in os = u @ n # (v @ u') @ n # (v' @ files_in ps)" by simp
  then show ?thesis by blast
qed

text \<open>
  A search for two terms misses documents: one that has the second term both in its text
  and in its title is not among the results, whatever else it contains, because the second
  listing discards the first term.
\<close>

theorem repeated_listing_loses_document:
  assumes "performTermsSearch ix [w1, w2] exs = Inr rs"
    and "w1 \<noteq> w2" and "2 < length w1" and "2 < length w2"
    and "map_of (terms ix) w2 = Some f" and "map_of (titleterms ix) w2 = Some g"
    and "n \<in> set (file_list f)" and "n \<in> set (file_list g)"
    and "distinct (docnames ix)" and "n < length (docnames ix)"
  shows "docnames ix ! n \<notin> res_doc ` set rs"
proof
  assume "docnames ix ! n \<in> res_doc ` set rs"
  then obtain r where r: "r \<in> set rs" "res_doc r = docnames ix ! n" by auto
  obtain fm sm m ws where l: "terms_loop ix [w1, w2] ([], []) = Inr (fm, sm)" "(m, ws) \<in> set fm"
      "term_result ix [w1, w2] exs sm m ws = Inr [r]"
    using performTermsSearch_Inr [OF assms(1) r(1)] by blast
  have "file_inv ix (set [w1, w2]) fm"
    using terms_loop_inv [OF l(1), of "{}"] by (simp add: file_inv_def)
  then have ws: "map_of fm m = Some ws" using l(2) by (simp add: file_inv_def)
  have "m = n" "length ws = 2"
    using term_result_Inr [OF l(3)] r(2) assms(3,4,9,10) by (auto simp: nth_eq_iff_index_eq)
  obtain os where os: "candidates ix w1 = Inr os" using l(1) by (auto simp: andThen_eq_Inr)
  show False
  proof (cases "list_all (\<lambda>c. fst c = None) os")
    case True
    with l(1,2) os show False by simp
  next
    case False
    then obtain os2 fm1 sm1 where os2: "candidates ix w2 = Inr os2"
        "terms_loop ix [w2] (fm1, sm1) = Inr (fm, sm)"
      using l(1) os by (auto simp: andThen_eq_Inr case_prod_beta Let_def)
    have "\<not> list_all (\<lambda>c. fst c = None) os2"
      using files_in_twice [OF os2(1) assms(5-8)] files_in_None [of os2] by auto
    with os2 have "fm = fold (add_file w2) (files_in os2) fm1"
      using fst_add_candidates [of w2 os2 "[]" sm1] by (auto simp: case_prod_beta Let_def)
    then have "map_of fm n = Some [w2]"
      using files_in_twice [OF os2(1) assms(5-8)] fold_add_file_twice by metis
    with ws \<open>m = n\<close> \<open>length ws = 2\<close> show False by auto
  qed
qed

theorem repeated_listing_loses_document_witness:
  "performTermsSearch sample_index [''device'', ''packet''] [] = Inr []
   \<and> ''usage'' \<notin> res_doc ` set ([] :: result list)"
proof -
  have run: "performTermsSearch sample_index [''device'', ''packet''] [] = Inr []" by code_simp
  have "docnames sample_index ! 1 \<notin> res_doc ` set ([] :: result list)"
    by (rule repeated_listing_loses_document [OF run, where f = "One 1" and g = "One 1"])
      (simp_all add: sample_index_def)
  with run show ?thesis by (simp add: sample_index_def)
qed

section \<open>Ranking\<close>

lemma compare_results_le:
  "compare_results a b \<le> 0 \<longleftrightarrow>
     res_score a < res_score b
     \<or> res_score a = res_score b \<and> lower (res_title b) \<le> lower (res_title a)"
  by (auto simp: compare_results_def Let_def)

lemma ranked_order:
  "sorted_wrt (\<lambda>a b. compare_results a b \<le> 0) (ranked rs)"
  unfolding ranked_def
  by (rule sorted_sort_by) (auto simp: compare_results_le transp_def)

text \<open>
  The query ranks: the results are those of the object search followed by those of the
  terms search, each as often as found, and popping them from the end of the list yields
  descending scores, and titles in alphabetical order within one score.
\<close>

lemma query_ranks:
  assumes "query tr ix q = Inr rs"
  shows "\<exists>rs1 rs2. object_results tr ix (objectterms (parse_query q)) = Inr rs1
           \<and> performTermsSearch ix (searchterms (parse_query q)) (excluded (parse_query q)) = Inr rs2
           \<and> mset rs = mset (rs1 @ rs2)
           \<and> sorted_wrt (\<lambda>a b. res_score a > res_score b \<or> res_score a = res_score b
                               \<and> lower (res_title a) \<le> lower (res_title b)) (rev rs)"
proof -
  obtain rs1 rs2 where "object_results tr ix (objectterms (parse_query q)) = Inr rs1"
      "performTermsSearch ix (searchterms (parse_query q)) (excluded (parse_query q)) = Inr rs2"
      "rs = ranked (rs1 @ rs2)"
    using assms by (auto simp: query_def Let_def andThen_eq_Inr)
  moreover have "mset (ranked (rs1 @ rs2)) = mset (rs1 @ rs2)" unfolding ranked_def by simp
  moreover have "sorted_wrt (\<lambda>a b. res_score a > res_score b \<or> res_score a = res_score b
      \<and> lower (res_title a) \<le> lower (res_title b)) (rev (ranked (rs1 @ rs2)))"
    using ranked_order [of "rs1 @ rs2"] by (auto simp: sorted_wrt_rev compare_results_le
        elim!: sorted_wrt_mono_rel [rotated])
  ultimately show ?thesis by auto
qed

lemma query_ranks_witness:
  "\<exists>rs. query id sample_index ''packets'' = Inr rs \<and> map res_title rs = [''Sending'']"
proof -
  have "split_words ''packets'' = [''packets'']"
    by (rule split_words_letters) simp_all
  moreover have "stemWord ''packets'' = ''packet''" by code_simp
  moreover have "lower ''packets'' = ''packets''" by code_simp
  ultimately have p: "parse_query ''packets'' = \<lparr>searchterms = [''packet''], excluded = [],
      hlterms = [''packets''], objectterms = [''packets'']\<rparr>"
    by (simp add: parse_query_def add_word_def stemmed_def add_new_def empty_query_def
        stopwords_def Let_def)
  have "object_results id sample_index [''packets''] = Inr []" by code_simp
  moreover have t: "performTermsSearch sample_index [''packet''] [] =
      Inr [\<lparr>res_doc = ''usage'', res_title = ''Sending'', res_anchor = [], res_descr = None,
            res_score = 15, res_file = ''usage.rst''\<rparr>]"
    by code_simp
  ultimately have "\<exists>rs. query id sample_index ''packets'' = Inr rs"
    by (simp add: query_def p Let_def)
  then obtain rs where rs: "query id sample_index ''packets'' = Inr rs" by blast
  from query_ranks [OF rs] obtain rs2 where
    "performTermsSearch sample_index [''packet''] [] = Inr rs2" "mset rs = mset rs2"
    using \<open>object_results id sample_index [''packets''] = Inr []\<close> by (auto simp: p)
  with t rs show ?thesis
    by auto
qed

section \<open>What the object search finds\<close>

definition selects :: "search_index \<Rightarrow> string \<Rightarrow> string list \<Rightarrow> string \<times> string \<times> object_entry \<Rightarrow> bool" where
  "selects ix object ots = (\<lambda>(prefix, name, match).
     occurs_in object (lower (full_name prefix name))
     \<and> (case map_of (objnames ix) (obj_type match) of
          Some (domain, typename, objname) \<Rightarrow>
            list_all (\<lambda>t. occurs_in t (lower (prefix @ '' '' @ name @ '' '' @ objname @ '' ''
                                              @ titles ix ! obj_doc match))) ots
        | None \<Rightarrow> False))"

lemma match_object_selects:
  assumes "match_object tr ix object ots prefix name match = Inr rs"
  shows "map res_title rs = (if selects ix object ots (prefix, name, match) then [full_name prefix name] else [])
    \<and> (\<forall>r \<in> set rs. -5 \<le> res_score r \<and> res_score r \<le> 26)"
proof -
  have "-5 \<le> object_score object t + prio_score p \<and> object_score object t + prio_score p \<le> 26" for t p
    by (auto simp: object_score_def prio_score_def Let_def scorer_defs)
  then show ?thesis
    using assms by (auto simp: match_object_def selects_def Let_def andThen_eq_Inr
        split: if_splits option.splits)
qed

text \<open>
  The object search finds exactly the objects whose full name contains the term and in whose
  name, type or title every other term occurs, once each and in index order; scores range
  from -5 to 26.
\<close>

theorem object_search_exact:
  assumes "performObjectSearch tr ix object ots = Inr rs"
  shows "map res_title rs =
           map (\<lambda>(prefix, name, match). full_name prefix name)
             (filter (selects ix object ots) (object_list ix))
         \<and> (\<forall>r \<in> set rs. -5 \<le> res_score r \<and> res_score r \<le> 26)"
proof -
  have "map_res (\<lambda>(prefix, name, match). match_object tr ix object ots prefix name match) es = Inr rss
      \<Longrightarrow> map res_title (concat rss) =
           map (\<lambda>(prefix, name, match). full_name prefix name) (filter (selects ix object ots) es)
         \<and> (\<forall>r \<in> set (concat rss). -5 \<le> res_score r \<and> res_score r \<le> 26)" for es rss
  proof (induction es arbitrary: rss)
    case (Cons e es)
    obtain prefix name match where e: "e = (prefix, name, match)" by (cases e)
    from Cons.prems obtain rs1 rss1 where "match_object tr ix object ots prefix name match = Inr rs1"
        "map_res (\<lambda>(prefix, name, match). match_object tr ix object ots prefix name match) es = Inr rss1"
        "rss = rs1 # rss1"
      by (auto simp: e andThen_eq_Inr)
    with Cons.IH match_object_selects show ?case by (fastforce simp: e)
  qed simp
  then show ?thesis using assms by (auto simp: performObjectSearch_def andThen_eq_Inr)
qed

theorem object_search_exact_witness:
  "\<exists>rs. performObjectSearch id sample_index ''send'' [''linq''] = Inr rs \<and> map res_title rs = [''linq.send'']"
proof -
  have run: "performObjectSearch id sample_index ''send'' [''linq''] =
      Inr [\<lparr>res_doc = ''usage'', res_title = ''linq.send'', res_anchor = ''#linq.send'',
            res_descr = Some ''C function, in Sending'', res_score = 16, res_file = ''usage.rst''\<rparr>]"
    by code_simp
  from object_search_exact [OF run] run show ?thesis by auto
qed

end
