(* ===== verification/DocTools.thy ===== *)
theory DocTools
  imports Stemmer
begin

text \<open>
  The documentation's common script \<open>doctools.js\<close>: decoding and encoding of query strings, the
  parsed query parameters, translation, the words to highlight, the index togglers, relative
  locations and the navigation keys. What the browser gives (the location, the pressed key,
  the links of the page) are arguments.
\<close>

section \<open>Percent encoding\<close>

text \<open>
  \<open>encodeURIComponent\<close>: unreserved characters stay, other code units are written as the bytes
  of their UTF-8 form, two bytes from 128 on.
\<close>

definition unreserved :: "char \<Rightarrow> bool" where
  "unreserved c \<longleftrightarrow>
     (let n = of_char c :: nat
      in 48 \<le> n \<and> n \<le> 57 \<or> 65 \<le> n \<and> n \<le> 90 \<or> 97 \<le> n \<and> n \<le> 122 \<or> c \<in> set ''-_.!~*'' \<or> n = 39
         \<or> n = 40 \<or> n = 41)"

definition percent_digit :: "nat \<Rightarrow> char" where
  "percent_digit d = char_of (if d < 10 then 48 + d else 55 + d)"

definition percent :: "nat \<Rightarrow> string" where
  "percent b = [CHR ''%'', percent_digit (b div 16), percent_digit (b mod 16)]"

definition encode_char :: "char \<Rightarrow> string" where
  "encode_char c =
     (let n = of_char c :: nat
      in if unreserved c then [c]
         else if n < 128 then percent n
         else percent (192 + n div 64) @ percent (128 + n mod 64))"

definition urlencode :: "string \<Rightarrow> string" where
  "urlencode s = concat (map encode_char s)"

text \<open>
  \<open>decodeURIComponent\<close>: malformed escapes throw; a code unit above 255 is outside the model.
\<close>

definition hex_val :: "char \<Rightarrow> nat option" where
  "hex_val c =
     (let n = of_char c :: nat
      in if 48 \<le> n \<and> n \<le> 57 then Some (n - 48)
         else if 65 \<le> n \<and> n \<le> 70 then Some (n - 55)
         else if 97 \<le> n \<and> n \<le> 102 then Some (n - 87)
         else None)"

definition hex_byte :: "char \<Rightarrow> char \<Rightarrow> nat res" where
  "hex_byte h l =
     (case (hex_val h, hex_val l) of
        (Some a, Some b) \<Rightarrow> Inr (16 * a + b)
      | _ \<Rightarrow> Inl URIError)"

fun decodeURIComponent :: "string \<Rightarrow> string res" where
  "decodeURIComponent [] = Inr []"
| "decodeURIComponent (c # s) =
     (if c \<noteq> CHR ''%'' then andThen (decodeURIComponent s) (\<lambda>t. Inr (c # t))
      else
        case s of
          h # l # s1 \<Rightarrow>
            andThen (hex_byte h l) (\<lambda>b.
              if b < 128 then andThen (decodeURIComponent s1) (\<lambda>t. Inr (char_of b # t))
              else if b < 194 \<or> 244 < b then Inl URIError
              else if 195 < b then Inl OutsideModel
              else
                case s1 of
                  p # h' # l' # s2 \<Rightarrow>
                    if p \<noteq> CHR ''%'' then Inl URIError
                    else andThen (hex_byte h' l') (\<lambda>b'.
                      if b' < 128 \<or> 191 < b' then Inl URIError
                      else andThen (decodeURIComponent s2) (\<lambda>t.
                        Inr (char_of (64 * (b - 192) + (b' - 128)) # t)))
                | _ \<Rightarrow> Inl URIError)
        | _ \<Rightarrow> Inl URIError)"

text \<open>\<open>jQuery.urldecode\<close>: falsy arguments (\<open>undefined\<close> is \<open>None\<close>) come back as they are.\<close>

definition urldecode :: "string option \<Rightarrow> string option res" where
  "urldecode x =
     (case x of
        Some (c # s) \<Rightarrow>
          andThen (decodeURIComponent (map (\<lambda>c. if c = CHR ''+'' then CHR '' '' else c) (c # s)))
            (\<lambda>t. Inr (Some t))
      | _ \<Rightarrow> Inr x)"

section \<open>Query parameters\<close>

text \<open>
  \<open>key in result\<close> also holds for the inherited names, which have no method \<open>push\<close>; a key
  \<open>undefined\<close> cannot arise, because a part always has a first piece.
\<close>

type_synonym query_params = "(string \<times> string option list) list"

definition add_param :: "query_params \<Rightarrow> string \<Rightarrow> string option \<Rightarrow> query_params res" where
  "add_param result key v =
     (case map_of result key of
        Some vs \<Rightarrow> Inr (AList.update key (vs @ [v]) result)
      | None \<Rightarrow>
          if key \<in> set inherited_names then Inl TypeError
          else Inr (AList.update key [v] result))"

fun param_loop :: "query_params \<Rightarrow> string list \<Rightarrow> query_params res" where
  "param_loop result [] = Inr result"
| "param_loop result (part # parts) =
     (let tmp = take 2 (split_at (CHR ''='') part)
      in andThen (urldecode (Some (tmp ! 0))) (\<lambda>key.
         andThen (urldecode (if 1 < length tmp then Some (tmp ! 1) else None)) (\<lambda>v.
         andThen (add_param result (the key) v) (\<lambda>result'.
           param_loop result' parts))))"

definition after_question :: "string \<Rightarrow> string" where
  "after_question s = (case index_of ''?'' s of Some i \<Rightarrow> drop (Suc i) s | None \<Rightarrow> s)"

definition getQueryParameters :: "string \<Rightarrow> query_params res" where
  "getQueryParameters s = param_loop [] (split_at (CHR ''&'') (after_question s))"

section \<open>Translation\<close>

text \<open>An entry of \<open>TRANSLATIONS\<close>: a string or the array of its plural forms.\<close>

datatype translation = Phrase string | Forms "string list"

record documentation =
  translation_table :: "(string \<times> translation) list"
  plural_expr :: "int \<Rightarrow> int"
  locale_name :: string

definition new_documentation :: documentation where
  "new_documentation =
     \<lparr>translation_table = [], plural_expr = (\<lambda>n. if n = 1 then 0 else 1), locale_name = ''unknown''\<rparr>"

definition gettext :: "documentation \<Rightarrow> string \<Rightarrow> string res" where
  "gettext d s =
     (case map_of (translation_table d) s of
        None \<Rightarrow> if s \<in> set inherited_names then Inl OutsideModel else Inr s
      | Some (Phrase t) \<Rightarrow> Inr t
      | Some (Forms []) \<Rightarrow> Inl OutsideModel
      | Some (Forms (t # ts)) \<Rightarrow> Inr t)"

text \<open>\<open>ngettext\<close> calls \<open>Documentation.PLURALEXPR\<close>, a name the object does not have.\<close>

definition ngettext :: "documentation \<Rightarrow> string \<Rightarrow> string \<Rightarrow> int \<Rightarrow> string res" where
  "ngettext d singular plural n =
     (case map_of (translation_table d) singular of
        None \<Rightarrow>
          if singular \<in> set inherited_names then Inl OutsideModel
          else Inr (if n = 1 then singular else plural)
      | Some t \<Rightarrow> Inl TypeError)"

record catalog =
  messages :: "(string \<times> translation) list"
  catalog_plural :: "int \<Rightarrow> int"
  catalog_locale :: string

definition addTranslations :: "catalog \<Rightarrow> documentation \<Rightarrow> documentation" where
  "addTranslations cl d =
     d\<lparr>translation_table := put_all (translation_table d) (messages cl), plural_expr := catalog_plural cl,
       locale_name := catalog_locale cl\<rparr>"

section \<open>The words to highlight\<close>

text \<open>\<open>s.split(/\s+/)\<close>: cut at every run of white space.\<close>

definition split_ws :: "string \<Rightarrow> string list" where
  "split_ws s =
     (case pieces is_space s of
        [] \<Rightarrow> []
      | [p] \<Rightarrow> [p]
      | p # ps \<Rightarrow> p # filter (\<lambda>q. q \<noteq> []) (butlast ps) @ [last ps])"

definition highlightSearchWords :: "string \<Rightarrow> string list res" where
  "highlightSearchWords search =
     andThen (getQueryParameters search) (\<lambda>params.
       case map_of params ''highlight'' of
         Some (Some t # vs) \<Rightarrow> Inr (map lower (split_ws t))
       | Some _ \<Rightarrow> Inl TypeError
       | None \<Rightarrow> Inr [])"

section \<open>Index togglers, locations and keys\<close>

text \<open>\<open>s.substr(-n)\<close>; a toggler is its image and whether its rows are visible.\<close>

definition last_chars :: "nat \<Rightarrow> string \<Rightarrow> string" where
  "last_chars n s = drop (length s - n) s"

definition toggle_src :: "string \<Rightarrow> string" where
  "toggle_src src =
     (if last_chars 9 src = ''minus.png'' then take (length src - 9) src @ ''plus.png''
      else take (length src - 8) src @ ''minus.png'')"

definition click_toggler :: "string \<times> bool \<Rightarrow> string \<times> bool" where
  "click_toggler t = (toggle_src (fst t), \<not> snd t)"

definition initIndexTable :: "bool \<Rightarrow> (string \<times> bool) list \<Rightarrow> (string \<times> bool) list" where
  "initIndexTable collapse togglers = (if collapse then map click_toggler togglers else togglers)"

definition makeURL :: "string \<Rightarrow> string \<Rightarrow> string" where
  "makeURL url_root relativeURL = url_root @ ''/'' @ relativeURL"

text \<open>\<open>s.substring(a, b)\<close> swaps its bounds when they are in the wrong order.\<close>

definition substring :: "string \<Rightarrow> nat \<Rightarrow> nat \<Rightarrow> string" where
  "substring s a b = drop (min a b) (take (max a b) s)"

definition last_slash :: "string \<Rightarrow> nat" where
  "last_slash s = length s - length (last (split_at (CHR ''/'') s))"

definition getCurrentURL :: "string \<Rightarrow> string \<Rightarrow> string" where
  "getCurrentURL url_root path =
     (let ups = length (filter (\<lambda>p. p = ''..'') (split_at (CHR ''/'') url_root));
          parts = split_at (CHR ''/'') path;
          url = join ''/'' (take (length parts - ups) parts)
      in substring path (last_slash url) (length path - 1))"

record key_event =
  key_code :: int
  active_element :: string
  modified :: bool

definition on_keydown :: "key_event \<Rightarrow> string option \<Rightarrow> string option \<Rightarrow> string option" where
  "on_keydown ev prev next =
     (if active_element ev \<notin> {''TEXTAREA'', ''INPUT'', ''SELECT'', ''BUTTON''} \<and> \<not> modified ev
      then
        if key_code ev = 37 then (case prev of Some (c # cs) \<Rightarrow> prev | _ \<Rightarrow> None)
        else if key_code ev = 39 then (case next of Some (c # cs) \<Rightarrow> next | _ \<Rightarrow> None)
        else None
      else None)"

section \<open>Round trips\<close>

lemma hex_digit_val [simp]: "d < 16 \<Longrightarrow> hex_val (percent_digit d) = Some d"
  by (auto simp: hex_val_def percent_digit_def Let_def)

lemma hex_byte_percent [simp]: "b < 256 \<Longrightarrow> hex_byte (percent_digit (b div 16)) (percent_digit (b mod 16)) = Inr b"
  by (simp add: hex_byte_def less_mult_imp_div_less)

lemma decode_encode_char:
  "decodeURIComponent (encode_char c @ s) = andThen (decodeURIComponent s) (\<lambda>t. Inr (c # t))"
proof -
  define n :: nat where "n = of_char c"
  have n: "n < 256" "char_of n = c" by (simp_all add: n_def)
  have "unreserved c \<Longrightarrow> c \<noteq> CHR ''%''" by (auto simp: unreserved_def Let_def)
  moreover have "n < 128 \<Longrightarrow> ?thesis" if "\<not> unreserved c"
    using that n by (simp add: encode_char_def percent_def flip: n_def)
  moreover have "\<not> n < 128 \<Longrightarrow> ?thesis" if "\<not> unreserved c"
  proof -
    assume "\<not> n < 128"
    define a where "a = n div 64"
    define b where "b = n mod 64"
    have ab: "n = 64 * a + b" "b < 64" by (simp_all add: a_def b_def)
    with n \<open>\<not> n < 128\<close> have a: "a = 2 \<or> a = 3" by linarith
    have "encode_char c = percent (192 + a) @ percent (128 + b)"
      using that \<open>\<not> n < 128\<close> by (simp add: encode_char_def a_def b_def flip: n_def)
    moreover have "192 + a < 256" "128 + b < 256" using a ab by auto
    moreover have "64 * (192 + a - 192) + (128 + b - 128) = n" using ab by simp
    ultimately show ?thesis using a ab n
      by (auto simp: percent_def simp del: hex_byte_percent
          simp: hex_byte_percent [of "192 + a"] hex_byte_percent [of "128 + b"])
  qed
  ultimately show ?thesis by (cases "unreserved c") (auto simp: encode_char_def)
qed

lemma decode_urlencode [simp]: "decodeURIComponent (urlencode s) = Inr s"
  by (induction s) (simp_all add: urlencode_def decode_encode_char)

lemma percent_digit_unreserved: "d < 16 \<Longrightarrow> unreserved (percent_digit d)"
  by (auto simp: unreserved_def percent_digit_def Let_def)

lemma percent_chars: "b < 256 \<Longrightarrow> c \<in> set (percent b) \<Longrightarrow> unreserved c \<or> c = CHR ''%''"
  using percent_digit_unreserved [of "b div 16"] percent_digit_unreserved [of "b mod 16"]
  by (auto simp: percent_def)

lemma urlencode_chars: "c \<in> set (urlencode s) \<Longrightarrow> unreserved c \<or> c = CHR ''%''"
proof -
  assume "c \<in> set (urlencode s)"
  then obtain d where d: "c \<in> set (encode_char d)" by (auto simp: urlencode_def)
  define n :: nat where "n = of_char d"
  have "n < 256" by (simp add: n_def)
  then have "192 + n div 64 < 256" "128 + n mod 64 < 256"
    by (simp_all add: less_mult_imp_div_less trans_less_add1)
  moreover have "c = d \<and> unreserved d \<or> c \<in> set (percent n)
      \<or> c \<in> set (percent (192 + n div 64)) \<or> c \<in> set (percent (128 + n mod 64))"
    using d by (auto simp: encode_char_def Let_def simp flip: n_def split: if_splits)
  ultimately show ?thesis using percent_chars \<open>n < 256\<close> by blast
qed

text \<open>The characters that structure a query string are not among them.\<close>

lemma urlencode_plain:
  "CHR ''&'' \<notin> set (urlencode s)" "CHR ''='' \<notin> set (urlencode s)" "CHR ''?'' \<notin> set (urlencode s)"
  "CHR ''+'' \<notin> set (urlencode s)"
  using urlencode_chars [of "CHR ''&''" s] urlencode_chars [of "CHR ''=''" s]
    urlencode_chars [of "CHR ''?''" s] urlencode_chars [of "CHR ''+''" s]
  by (auto simp: unreserved_def)

lemma urldecode_urlencode: "urldecode (Some (urlencode s)) = Inr (Some s)"
proof (cases "urlencode s")
  case Nil
  then have "Inr [] = (Inr s :: string res)" using decode_urlencode [of s] by simp
  with Nil show ?thesis by (simp add: urldecode_def)
next
  case (Cons c t)
  have "map (\<lambda>c. if c = CHR ''+'' then CHR '' '' else c) (urlencode s) = urlencode s"
    using urlencode_plain(4) [of s] by (auto intro: map_idI)
  then show ?thesis
    using decode_urlencode [of s] by (simp add: urldecode_def Cons del: decodeURIComponent.simps)
qed

definition encode_pair :: "string \<times> string \<Rightarrow> string" where
  "encode_pair kv = urlencode (fst kv) @ ''='' @ urlencode (snd kv)"

lemma param_loop_pairs:
  assumes "\<forall>kv \<in> set kvs. fst kv \<notin> set inherited_names"
  shows "\<exists>r. param_loop acc (map encode_pair kvs) = Inr r \<and>
    (\<forall>k. map_of r k =
       (if map_of acc k = None \<and> k \<notin> fst ` set kvs then None
        else Some ((case map_of acc k of Some vs \<Rightarrow> vs | None \<Rightarrow> [])
                   @ map (Some \<circ> snd) (filter (\<lambda>kv. fst kv = k) kvs))))"
  using assms
proof (induction kvs arbitrary: acc)
  case Nil
  then show ?case by (auto split: option.split)
next
  case (Cons kv kvs)
  obtain k v where kv: "kv = (k, v)" by (cases kv)
  let ?vs = "(case map_of acc k of Some vs \<Rightarrow> vs | None \<Rightarrow> []) @ [Some v]"
  have "split_at (CHR ''='') (encode_pair kv) = [urlencode k, urlencode v]"
    using split_at_sep [OF urlencode_plain(2)] split_at_plain [OF urlencode_plain(2)]
    by (simp add: encode_pair_def kv)
  moreover have "add_param acc k (Some v) = Inr (AList.update k ?vs acc)"
    using Cons.prems by (simp add: add_param_def kv split: option.split)
  ultimately have "param_loop acc (map encode_pair (kv # kvs))
      = param_loop (AList.update k ?vs acc) (map encode_pair kvs)"
    by (simp add: urldecode_urlencode)
  moreover obtain r where "param_loop (AList.update k ?vs acc) (map encode_pair kvs) = Inr r"
    and r: "\<forall>j. map_of r j =
       (if map_of (AList.update k ?vs acc) j = None \<and> j \<notin> fst ` set kvs then None
        else Some ((case map_of (AList.update k ?vs acc) j of Some vs \<Rightarrow> vs | None \<Rightarrow> [])
                   @ map (Some \<circ> snd) (filter (\<lambda>kv. fst kv = j) kvs)))"
    using Cons.IH [of "AList.update k ?vs acc"] Cons.prems by auto
  moreover have "map_of r j =
       (if map_of acc j = None \<and> j \<notin> fst ` set (kv # kvs) then None
        else Some ((case map_of acc j of Some vs \<Rightarrow> vs | None \<Rightarrow> [])
                   @ map (Some \<circ> snd) (filter (\<lambda>kv. fst kv = j) (kv # kvs))))" for j
    using r by (cases "j = k") (auto simp: kv)
  ultimately show ?case by metis
qed

lemma encode_pair_plain: "CHR ''&'' \<notin> set (encode_pair kv)"
  using urlencode_plain by (simp add: encode_pair_def)

lemma index_of_question: "CHR ''?'' \<notin> set pre \<Longrightarrow> index_of ''?'' (pre @ CHR ''?'' # s) = Some (length pre)"
  by (induction pre) auto

lemma after_question_query: "CHR ''?'' \<notin> set pre \<Longrightarrow> after_question (pre @ CHR ''?'' # s) = s"
  by (simp add: after_question_def index_of_question)

lemma getQueryParameters_pairs:
  assumes "kvs \<noteq> []" "\<forall>kv \<in> set kvs. fst kv \<notin> set inherited_names" "CHR ''?'' \<notin> set pre"
  shows "\<exists>r. getQueryParameters (pre @ ''?'' @ join ''&'' (map encode_pair kvs)) = Inr r \<and>
    (\<forall>k. map_of r k =
       (if k \<in> fst ` set kvs then Some (map (Some \<circ> snd) (filter (\<lambda>kv. fst kv = k) kvs)) else None))"
proof -
  have "split_at (CHR ''&'') (join ''&'' (map encode_pair kvs)) = map encode_pair kvs"
    using assms(1) encode_pair_plain by (intro split_join) auto
  then have "getQueryParameters (pre @ ''?'' @ join ''&'' (map encode_pair kvs))
      = param_loop [] (map encode_pair kvs)"
    using after_question_query [OF assms(3)] by (simp add: getQueryParameters_def)
  then show ?thesis using param_loop_pairs [OF assms(2), of "[]"] by auto
qed

text \<open>
  C25. Reading a query string inverts writing it: of any pairs, encoded and joined, the
  parameters hold for every key the decoded values in order and nothing else. A key every
  object inherits is no data and makes the reading throw.
\<close>

theorem query_parameters_roundtrip:
  assumes "kvs \<noteq> []" and "CHR ''?'' \<notin> set pre" and "\<forall>kv \<in> set kvs. fst kv \<notin> set inherited_names"
    and "k \<in> set inherited_names"
  shows "(\<exists>r. getQueryParameters (pre @ ''?'' @ join ''&'' (map encode_pair kvs)) = Inr r \<and>
            (\<forall>k. map_of r k =
               (if k \<in> fst ` set kvs then Some (map (Some \<circ> snd) (filter (\<lambda>kv. fst kv = k) kvs))
                else None)))
         \<and> getQueryParameters (pre @ ''?'' @ encode_pair (k, v)) = Inl TypeError"
proof
  have "split_at (CHR ''&'') (encode_pair (k, v)) = [encode_pair (k, v)]"
    by (rule split_at_plain [OF encode_pair_plain])
  moreover have "split_at (CHR ''='') (encode_pair (k, v)) = [urlencode k, urlencode v]"
    using split_at_sep [OF urlencode_plain(2)] split_at_plain [OF urlencode_plain(2)]
    by (simp add: encode_pair_def)
  ultimately show "getQueryParameters (pre @ ''?'' @ encode_pair (k, v)) = Inl TypeError"
    using after_question_query [OF assms(2)] assms(4)
    by (simp add: getQueryParameters_def urldecode_urlencode add_param_def)
qed (rule getQueryParameters_pairs [OF assms(1,3,2)])

theorem query_parameters_roundtrip_witness:
  "\<exists>r. getQueryParameters ''/search?q=a%20b'' = Inr r \<and> map_of r ''q'' = Some [Some ''a b'']"
proof -
  have "encode_pair (''q'', ''a b'') = ''q=a%20b''" by code_simp
  then show ?thesis
    using query_parameters_roundtrip
        [of "[(''q'', ''a b'')]" "''/search''" "''constructor''" "[]"]
    by (auto simp: inherited_names_def)
qed

section \<open>Highlighting\<close>

lemma pieces_join:
  assumes "ps \<noteq> []" "\<forall>p \<in> set ps. \<forall>c \<in> set p. \<not> P c" "P c"
  shows "pieces P (join [c] ps) = ps"
  using assms(1,2)
proof (induction "[c]" ps rule: join.induct)
  case (2 p)
  then show ?case by (induction p) auto
next
  case (3 p q ps)
  then have "pieces P (join [c] (q # ps)) = q # ps" by auto
  moreover have "pieces P (p @ c # s) = p # pieces P s" if "\<forall>c \<in> set p. \<not> P c" for s
    using that assms(3) by (induction p) auto
  ultimately show ?case using 3(3) by simp
qed simp

lemma split_ws_join:
  assumes "ws \<noteq> []" "\<forall>w \<in> set ws. w \<noteq> [] \<and> (\<forall>c \<in> set w. \<not> is_space c)"
  shows "split_ws (join '' '' ws) = ws"
proof -
  have p: "pieces is_space (join '' '' ws) = ws"
    using assms by (intro pieces_join) (auto simp: is_space_def)
  show ?thesis
  proof (cases ws)
    case (Cons w vs)
    show ?thesis
    proof (cases vs rule: rev_cases)
      case (snoc us v)
      have "filter (\<lambda>q. q \<noteq> []) us = us"
        using assms(2) Cons snoc by (simp add: filter_True)
      with p Cons snoc show ?thesis by (cases us) (simp_all add: split_ws_def)
    qed (use p Cons in \<open>simp add: split_ws_def\<close>)
  qed (use assms(1) in simp)
qed

lemma highlight_words:
  assumes "CHR ''?'' \<notin> set pre" "ws \<noteq> []" "\<forall>w \<in> set ws. w \<noteq> [] \<and> (\<forall>c \<in> set w. \<not> is_space c)"
  shows "highlightSearchWords (pre @ ''?highlight='' @ urlencode (join '' '' ws)) = Inr (map lower ws)"
proof -
  have "urlencode ''highlight'' = ''highlight''" by code_simp
  then have "pre @ ''?highlight='' @ urlencode (join '' '' ws)
      = pre @ ''?'' @ join ''&'' (map encode_pair [(''highlight'', join '' '' ws)])"
    by (simp add: encode_pair_def)
  moreover have "''highlight'' \<notin> set inherited_names" by (simp add: inherited_names_def)
  ultimately show ?thesis
    using getQueryParameters_pairs [of "[(''highlight'', join '' '' ws)]" pre] assms
    by (auto simp: highlightSearchWords_def split_ws_join)
qed

section \<open>Togglers\<close>

lemma last_chars_append: "length t = n \<Longrightarrow> last_chars n (s @ t) = t"
  by (simp add: last_chars_def)

text \<open>
  Clicking an index toggler swaps its image between minus and plus and the visibility of its
  rows, and clicking it again restores both.
\<close>

theorem toggler_clicks:
  "click_toggler (s @ ''minus.png'', v) = (s @ ''plus.png'', \<not> v)
   \<and> click_toggler (click_toggler (s @ ''minus.png'', v)) = (s @ ''minus.png'', v)
   \<and> initIndexTable True [(s @ ''minus.png'', v)] = [(s @ ''plus.png'', \<not> v)]"
proof -
  have m: "toggle_src (s @ ''minus.png'') = s @ ''plus.png''"
    by (simp add: toggle_src_def last_chars_append)
  have "last_chars 9 (s @ ''plus.png'') \<noteq> ''minus.png''"
  proof (cases s rule: rev_cases)
    case (snoc us u)
    then show ?thesis using last_chars_append [of "u # ''plus.png''" 9 us] by simp
  qed (simp add: last_chars_def)
  then have "toggle_src (s @ ''plus.png'') = s @ ''minus.png''" by (simp add: toggle_src_def)
  with m show ?thesis by (simp add: click_toggler_def initIndexTable_def)
qed

end
