(* ===== verification/SearchPage.thy ===== *)
theory SearchPage
  imports Search DocTools
begin

text \<open>
  The search page of \<open>searchtools.js\<close> around the query: waiting for the index, the pulsing dots,
  showing the results one by one with a timer or a request between two of them, and the summary
  of a found page. Text on the page is a field of a record, and so are the timers and the
  requests that are pending, of which there may be any number. \<open>htmlToText\<close>, which asks jQuery
  and the browser to parse a page and throws when jQuery takes the text for a selector and
  cannot read it, is an argument, as are the documentation options and the translation
  function \<open>tr\<close>.
\<close>

section \<open>Summaries\<close>

text \<open>The last keyword that occurs decides where the excerpt starts.\<close>

fun keyword_start :: "string \<Rightarrow> nat \<Rightarrow> string list \<Rightarrow> nat" where
  "keyword_start textLower start [] = start"
| "keyword_start textLower start (k # ks) =
     (case index_of (lower k) textLower of
        Some i \<Rightarrow> keyword_start textLower i ks
      | None \<Rightarrow> keyword_start textLower start ks)"

definition excerpt_of :: "string \<Rightarrow> string list \<Rightarrow> string" where
  "excerpt_of content keywords =
     (let start = keyword_start (lower content) 0 keywords - 120
      in (if 0 < start then ''...'' else []) @ trim (take 240 (drop start content))
         @ (if start + 240 \<noteq> length content then ''...'' else []))"

text \<open>The node returned: the excerpt and the words highlighted in it.\<close>

definition makeSearchSummary ::
    "(string \<Rightarrow> string res) \<Rightarrow> string \<Rightarrow> string list \<Rightarrow> string list
     \<Rightarrow> (string \<times> string list) option res" where
  "makeSearchSummary htmlToText htmlText keywords hlwords =
     andThen (htmlToText htmlText) (\<lambda>content.
       Inr (if content = [] then None else Some (excerpt_of content keywords, hlwords)))"

section \<open>Showing the results\<close>

record doc_options =
  url_root :: string
  builder :: string
  file_suffix :: string
  link_suffix :: string
  has_source :: bool

record list_item =
  href :: string
  label :: string
  description :: "string option"
  summary :: "(string \<times> string list) option"

text \<open>
  The variables of \<open>displayNextItem\<close> and of the page: the results still to be shown, those
  appended to the page, how many timeouts are pending that call it again, the requests without
  an answer, each with the address and the item its callback holds, whether the last branch has
  run, and the exceptions thrown by a callback.
\<close>

record display =
  remaining :: "result list"
  shown :: "list_item list"
  timeouts :: nat
  fetches :: "(string \<times> list_item) list"
  finished :: bool
  thrown_by :: "thrown list"
  resultCount :: nat
  highlightstring :: string
  keywords_of :: "string list"
  hlwords_of :: "string list"
  heading :: string
  status_text :: string

definition ends_with :: "string \<Rightarrow> string \<Rightarrow> bool" where
  "ends_with t s \<longleftrightarrow> length t \<le> length s \<and> last_chars (length t) s = t"

definition page_urls :: "doc_options \<Rightarrow> result \<Rightarrow> string \<times> string" where
  "page_urls opts item =
     (if builder opts = ''dirhtml''
      then
        let dirname = res_doc item @ ''/'';
            dirname = (if ends_with ''/index/'' dirname then take (length dirname - 6) dirname
                       else if dirname = ''index/'' then [] else dirname)
        in (url_root opts @ dirname, url_root opts @ dirname)
      else (url_root opts @ res_doc item @ file_suffix opts, res_doc item @ link_suffix opts))"

definition item_of :: "doc_options \<Rightarrow> string \<Rightarrow> result \<Rightarrow> list_item" where
  "item_of opts hl item =
     \<lparr>href = snd (page_urls opts item) @ hl @ res_anchor item, label = res_title item,
      description = (case res_descr item of Some (c # cs) \<Rightarrow> res_descr item | _ \<Rightarrow> None),
      summary = None\<rparr>"

definition setTimeout :: "display \<Rightarrow> display" where
  "setTimeout d = d\<lparr>timeouts := timeouts d + 1\<rparr>"

definition append_item :: "list_item \<Rightarrow> display \<Rightarrow> display" where
  "append_item li d = d\<lparr>shown := shown d @ [li]\<rparr>"

text \<open>\<open>s.replace('%s', n)\<close>: the first occurrence.\<close>

definition fill_in :: "string \<Rightarrow> nat \<Rightarrow> string" where
  "fill_in s n =
     (case index_of ''%s'' s of
        Some i \<Rightarrow> take i s @ nat_str n @ drop (i + 2) s
      | None \<Rightarrow> s)"

definition final_status :: "(string \<Rightarrow> string) \<Rightarrow> nat \<Rightarrow> string" where
  "final_status tr n =
     (if n = 0
      then tr (''Your search did not match any documents. Please make sure that all words ''
               @ ''are spelled correctly and that you've selected enough categories.'')
      else fill_in (tr ''Search finished, found %s page(s) matching the search query.'') n)"

definition displayNextItem :: "(string \<Rightarrow> string) \<Rightarrow> doc_options \<Rightarrow> display \<Rightarrow> display" where
  "displayNextItem tr opts d =
     (if remaining d \<noteq> []
      then
        let item = last (remaining d); li = item_of opts (highlightstring d) item;
            d' = d\<lparr>remaining := butlast (remaining d)\<rparr>
        in if description li \<noteq> None then setTimeout (append_item li d')
           else if has_source opts
           then d'\<lparr>fetches := fetches d @ [(fst (page_urls opts item), li)]\<rparr>
           else setTimeout (append_item li d')
      else d\<lparr>finished := True, heading := tr ''Search Results'',
             status_text := final_status tr (resultCount d)\<rparr>)"

text \<open>
  A timeout fires; the request for a page completes, with its text or \<open>undefined\<close>. What the
  callback of a request throws ends the callback: the item is not appended and no timeout set.
\<close>

definition on_timeout :: "(string \<Rightarrow> string) \<Rightarrow> doc_options \<Rightarrow> display \<Rightarrow> display" where
  "on_timeout tr opts d =
     (if timeouts d = 0 then d else displayNextItem tr opts (d\<lparr>timeouts := timeouts d - 1\<rparr>))"

definition with_summary ::
    "(string \<Rightarrow> string res) \<Rightarrow> string option \<Rightarrow> display \<Rightarrow> list_item \<Rightarrow> list_item res" where
  "with_summary htmlToText data d li =
     (case data of
        Some (c # cs) \<Rightarrow>
          andThen (makeSearchSummary htmlToText (c # cs) (keywords_of d) (hlwords_of d))
            (\<lambda>s. Inr (li\<lparr>summary := s\<rparr>))
      | _ \<Rightarrow> Inr li)"

definition on_complete ::
    "(string \<Rightarrow> string res) \<Rightarrow> nat \<Rightarrow> string option \<Rightarrow> display \<Rightarrow> display" where
  "on_complete htmlToText i data d =
     (if i < length (fetches d)
      then
        let d' = d\<lparr>fetches := take i (fetches d) @ drop (Suc i) (fetches d)\<rparr>
        in case with_summary htmlToText data d (snd (fetches d ! i)) of
             Inl e \<Rightarrow> d'\<lparr>thrown_by := thrown_by d @ [e]\<rparr>
           | Inr li \<Rightarrow> setTimeout (append_item li d')
      else d)"

definition highlight_string :: "parsed_query \<Rightarrow> string" where
  "highlight_string p = ''?highlight='' @ urlencode (join '' '' (hlterms p))"

definition start_display ::
    "(string \<Rightarrow> string) \<Rightarrow> doc_options \<Rightarrow> parsed_query \<Rightarrow> result list \<Rightarrow> display" where
  "start_display tr opts p rs =
     displayNextItem tr opts
       \<lparr>remaining = rs, shown = [], timeouts = 0, fetches = [], finished = False, thrown_by = [],
        resultCount = length rs,
        highlightstring = highlight_string p, keywords_of = searchterms p, hlwords_of = hlterms p,
        heading = tr ''Searching'', status_text = []\<rparr>"

text \<open>What can happen next.\<close>

inductive display_step ::
    "(string \<Rightarrow> string) \<Rightarrow> (string \<Rightarrow> string res) \<Rightarrow> doc_options \<Rightarrow> display \<Rightarrow> display \<Rightarrow> bool"
  for tr htmlToText opts where
  timeout: "0 < timeouts d \<Longrightarrow> display_step tr htmlToText opts d (on_timeout tr opts d)"
| complete: "i < length (fetches d) \<Longrightarrow>
     display_step tr htmlToText opts d (on_complete htmlToText i data d)"

section \<open>Waiting for the index, and the pulse\<close>

record search =
  idx :: "search_index option"
  queued_query :: "string option"
  pulse_status :: int
  pulse_timers :: nat
  dots :: string
  displays :: "display list"

definition new_search :: search where
  "new_search =
     \<lparr>idx = None, queued_query = None, pulse_status = -1, pulse_timers = 0, dots = [],
      displays = []\<rparr>"

definition hasIndex :: "search \<Rightarrow> bool" where
  "hasIndex s \<longleftrightarrow> idx s \<noteq> None"

definition deferQuery :: "string \<Rightarrow> search \<Rightarrow> search" where
  "deferQuery q s = s\<lparr>queued_query := Some q\<rparr>"

definition stopPulse :: "search \<Rightarrow> search" where
  "stopPulse s = s\<lparr>pulse_status := 0\<rparr>"

definition pulse :: "search \<Rightarrow> search" where
  "pulse s =
     (let st = (pulse_status s + 1) mod 4
      in s\<lparr>pulse_status := st, dots := replicate (nat st) (CHR ''.''),
           pulse_timers := (if -1 < st then pulse_timers s + 1 else pulse_timers s)\<rparr>)"

definition startPulse :: "search \<Rightarrow> search" where
  "startPulse s = (if 0 \<le> pulse_status s then s else pulse s)"

definition pulse_timeout :: "search \<Rightarrow> search" where
  "pulse_timeout s =
     (if pulse_timers s = 0 then s else pulse (s\<lparr>pulse_timers := pulse_timers s - 1\<rparr>))"

text \<open>\<open>Search.query\<close> with the display it starts; a display that is done stops the pulse.\<close>

definition run_query ::
    "(string \<Rightarrow> string) \<Rightarrow> doc_options \<Rightarrow> string \<Rightarrow> search \<Rightarrow> search res" where
  "run_query tr opts q s =
     (case idx s of
        None \<Rightarrow> Inl TypeError
      | Some ix \<Rightarrow>
          andThen (query tr ix q) (\<lambda>rs.
            let d = start_display tr opts (parse_query q) rs;
                s' = s\<lparr>displays := displays s @ [d]\<rparr>
            in Inr (if finished d then stopPulse s' else s')))"

definition setIndex ::
    "(string \<Rightarrow> string) \<Rightarrow> doc_options \<Rightarrow> search_index \<Rightarrow> search \<Rightarrow> search res" where
  "setIndex tr opts ix s =
     (let s' = s\<lparr>idx := Some ix\<rparr>
      in case queued_query s of
           Some q \<Rightarrow> run_query tr opts q (s'\<lparr>queued_query := None\<rparr>)
         | None \<Rightarrow> Inr s')"

definition performSearch ::
    "(string \<Rightarrow> string) \<Rightarrow> doc_options \<Rightarrow> string \<Rightarrow> search \<Rightarrow> search res" where
  "performSearch tr opts q s =
     (let s' = startPulse s
      in if hasIndex s' then run_query tr opts q s' else Inr (deferQuery q s'))"

text \<open>A display moves on to \<open>d'\<close>; the events of the page.\<close>

definition set_display :: "nat \<Rightarrow> display \<Rightarrow> search \<Rightarrow> search" where
  "set_display i d' s =
     (let s' = s\<lparr>displays := (displays s)[i := d']\<rparr>
      in if finished d' then stopPulse s' else s')"

inductive search_step ::
    "(string \<Rightarrow> string) \<Rightarrow> (string \<Rightarrow> string res) \<Rightarrow> doc_options \<Rightarrow> search \<Rightarrow> search \<Rightarrow> bool"
  for tr htmlToText opts where
  pulsing: "0 < pulse_timers s \<Longrightarrow> search_step tr htmlToText opts s (pulse_timeout s)"
| showing: "i < length (displays s) \<Longrightarrow> display_step tr htmlToText opts (displays s ! i) d' \<Longrightarrow>
     search_step tr htmlToText opts s (set_display i d' s)"
| index: "setIndex tr opts ix s = Inr s' \<Longrightarrow> search_step tr htmlToText opts s s'"
| searching: "performSearch tr opts q s = Inr s' \<Longrightarrow> search_step tr htmlToText opts s s'"

text \<open>\<open>init\<close>: the first parameter \<open>q\<close> of the page's address, when there is one.\<close>

definition init ::
    "(string \<Rightarrow> string) \<Rightarrow> doc_options \<Rightarrow> string \<Rightarrow> search \<Rightarrow> search res" where
  "init tr opts location s =
     andThen (getQueryParameters location) (\<lambda>params.
       case map_of params ''q'' of
         Some (Some q # vs) \<Rightarrow> performSearch tr opts q s
       | Some _ \<Rightarrow> Inl OutsideModel
       | None \<Rightarrow> Inr s)"

section \<open>The results are shown in order, and the display ends\<close>

definition item_key :: "list_item \<Rightarrow> string \<times> string" where
  "item_key li = (href li, label li)"

text \<open>
  At any time one thing is pending, a timeout or a request, until the display has finished or
  a callback has thrown; what is shown, what is being fetched and what remains make up the
  results.
\<close>

definition display_inv :: "(string \<Rightarrow> string) \<Rightarrow> doc_options \<Rightarrow> string \<Rightarrow> result list \<Rightarrow> display \<Rightarrow> bool" where
  "display_inv tr opts hl rs d \<longleftrightarrow>
     highlightstring d = hl \<and> resultCount d = length rs
     \<and> timeouts d + length (fetches d) = (if finished d \<or> thrown_by d \<noteq> [] then 0 else 1)
     \<and> (\<exists>lost. (thrown_by d = [] \<longrightarrow> lost = []) \<and>
         map item_key (shown d @ map snd (fetches d)) @ lost
             @ map (item_key \<circ> item_of opts hl) (rev (remaining d))
           = map (item_key \<circ> item_of opts hl) (rev rs))
     \<and> (finished d \<longrightarrow> thrown_by d = [] \<and> remaining d = [] \<and> heading d = tr ''Search Results''
          \<and> status_text d = final_status tr (length rs))"

lemma snd_item_key: "snd (item_key (item_of opts hl r)) = res_title r"
  by (simp add: item_key_def item_of_def)

lemma with_summary_key: "with_summary h data d li = Inr li' \<Longrightarrow> item_key li' = item_key li"
  by (auto simp: with_summary_def andThen_eq_Inr item_key_def split: option.splits list.splits)

text \<open>\<open>displayNextItem\<close> is called when nothing is pending.\<close>

lemma display_inv_next:
  assumes "highlightstring d = hl" "resultCount d = length rs" "timeouts d = 0" "fetches d = []"
    and "\<not> finished d" "thrown_by d = []"
    and "map item_key (shown d) @ map (item_key \<circ> item_of opts hl) (rev (remaining d))
           = map (item_key \<circ> item_of opts hl) (rev rs)"
  shows "display_inv tr opts hl rs (displayNextItem tr opts d)"
proof (cases "remaining d" rule: rev_cases)
  case Nil
  with assms show ?thesis by (simp add: display_inv_def displayNextItem_def)
next
  case (snoc rs' r)
  with assms show ?thesis
    by (auto simp: display_inv_def displayNextItem_def setTimeout_def append_item_def Let_def)
qed

lemma display_inv_step:
  assumes "display_step tr htmlToText opts d d'" "display_inv tr opts hl rs d"
  shows "display_inv tr opts hl rs d'"
  using assms(1)
proof cases
  case timeout
  with assms(2) have one: "timeouts d + length (fetches d) = 1" and open': "\<not> finished d" "thrown_by d = []"
    by (auto simp: display_inv_def split: if_splits)
  with timeout(2) have "timeouts d = 1" "fetches d = []" by (cases "fetches d"; simp)+
  with assms(2) open' have "display_inv tr opts hl rs (displayNextItem tr opts (d\<lparr>timeouts := 0\<rparr>))"
    by (intro display_inv_next) (auto simp: display_inv_def)
  with \<open>timeouts d = 1\<close> show ?thesis unfolding timeout(1) by (simp add: on_timeout_def)
next
  case (complete i data)
  with assms(2) have d: "timeouts d = 0" "length (fetches d) = 1" "\<not> finished d" "thrown_by d = []"
    by (auto simp: display_inv_def split: if_splits)
  then obtain url li where f: "fetches d = [(url, li)]" by (cases "fetches d") auto
  with complete have i: "i = 0" by simp
  show ?thesis
  proof (cases "with_summary htmlToText data d li")
    case (Inl e)
    with assms(2) d f i complete show ?thesis
      by (auto simp: display_inv_def on_complete_def Let_def intro!: exI [of _ "[item_key li]"])
  next
    case (Inr li')
    with assms(2) d f i complete with_summary_key [OF Inr] show ?thesis
      by (auto simp: display_inv_def on_complete_def setTimeout_def append_item_def Let_def)
  qed
qed

lemma display_inv_start:
  "display_inv tr opts (highlight_string p) rs (start_display tr opts p rs)"
  unfolding start_display_def by (rule display_inv_next) simp_all

lemma display_inv_steps:
  "(display_step tr htmlToText opts)\<^sup>*\<^sup>* d d' \<Longrightarrow> display_inv tr opts hl rs d \<Longrightarrow>
     display_inv tr opts hl rs d'"
  by (induction rule: rtranclp_induct) (auto intro: display_inv_step)

text \<open>Every event brings the display closer to its end.\<close>

definition display_measure :: "display \<Rightarrow> nat" where
  "display_measure d = 3 * length (remaining d) + 2 * length (fetches d) + timeouts d"

lemma display_step_measure:
  "display_step tr htmlToText opts d d' \<Longrightarrow> display_measure d' < display_measure d"
proof (induction rule: display_step.induct)
  case (timeout d)
  then show ?case
    by (cases "remaining d" rule: rev_cases)
      (auto simp: on_timeout_def displayNextItem_def display_measure_def setTimeout_def
        append_item_def Let_def)
next
  case (complete i d data)
  then show ?case
    by (auto simp: on_complete_def display_measure_def setTimeout_def append_item_def Let_def
        split: sum.split)
qed

text \<open>Only the text of a page can make a callback throw.\<close>

lemma nothing_thrown:
  assumes "(display_step tr htmlToText opts)\<^sup>*\<^sup>* d d'" and "thrown_by d = []"
    and "\<And>t. \<exists>s. htmlToText t = Inr s"
  shows "thrown_by d' = []"
  using assms(1)
proof (induction rule: rtranclp_induct)
  case (step d1 d2)
  from step(2) show ?case
  proof cases
    case timeout
    with step(3) show ?thesis
      by (auto simp: on_timeout_def displayNextItem_def setTimeout_def append_item_def Let_def)
  next
    case (complete i data)
    have "\<exists>li'. with_summary htmlToText data d1 li = Inr li'" for li
      using assms(3)
      by (auto simp: with_summary_def makeSearchSummary_def andThen_def split: option.split list.split
          sum.split) (metis Inl_Inr_False)
    then obtain li' where "with_summary htmlToText data d1 (snd (fetches d1 ! i)) = Inr li'" by blast
    with complete step(3) show ?thesis
      by (simp add: on_complete_def setTimeout_def append_item_def Let_def)
  qed
qed (rule assms(2))

text \<open>
  C23. Whatever the requests for the pages answer, the results are shown one by one in the order
  of the ranking, none skipped and none twice; when the display has finished, all of them are
  shown and the status line gives their number.
\<close>

theorem results_shown_in_order:
  assumes "(display_step tr htmlToText opts)\<^sup>*\<^sup>* (start_display tr opts p rs) d"
  shows "(\<exists>k. map item_key (shown d) =
              take k (map (item_key \<circ> item_of opts (highlight_string p)) (rev rs)))
         \<and> (finished d \<longrightarrow>
              map item_key (shown d) = map (item_key \<circ> item_of opts (highlight_string p)) (rev rs)
              \<and> status_text d = final_status tr (length rs))"
proof
  have inv: "display_inv tr opts (highlight_string p) rs d"
    by (rule display_inv_steps [OF assms display_inv_start])
  then obtain rest where "map item_key (shown d) @ rest
      = map (item_key \<circ> item_of opts (highlight_string p)) (rev rs)"
    by (auto simp: display_inv_def)
  then show "\<exists>k. map item_key (shown d) =
      take k (map (item_key \<circ> item_of opts (highlight_string p)) (rev rs))"
    by (intro exI [of _ "length (shown d)"]) (drule sym, simp)
  show "finished d \<longrightarrow>
      map item_key (shown d) = map (item_key \<circ> item_of opts (highlight_string p)) (rev rs)
      \<and> status_text d = final_status tr (length rs)"
    using inv by (auto simp: display_inv_def)
qed

definition sample_options :: doc_options where
  "sample_options = \<lparr>url_root = ''./'', builder = ''html'', file_suffix = ''.html'',
     link_suffix = ''.html'', has_source = True\<rparr>"

definition sample_result :: result where
  "sample_result = \<lparr>res_doc = ''usage'', res_title = ''Sending'', res_anchor = [],
     res_descr = None, res_score = 15, res_file = ''usage.rst''\<rparr>"

lemma sample_start:
  "start_display id sample_options empty_query [sample_result] =
     \<lparr>remaining = [], shown = [], timeouts = 0,
      fetches = [(''./usage.html'', item_of sample_options (highlight_string empty_query) sample_result)],
      finished = False, thrown_by = [], resultCount = 1,
      highlightstring = highlight_string empty_query, keywords_of = searchterms empty_query,
      hlwords_of = hlterms empty_query, heading = ''Searching'', status_text = []\<rparr>"
  by (simp add: start_display_def displayNextItem_def sample_options_def sample_result_def
      item_of_def page_urls_def Let_def)

theorem results_shown_in_order_witness:
  "\<exists>d. (display_step id Inr sample_options)\<^sup>*\<^sup>* (start_display id sample_options empty_query [sample_result]) d
     \<and> finished d \<and> map label (shown d) = [''Sending'']"
proof -
  let ?d0 = "start_display id sample_options empty_query [sample_result]"
  let ?d1 = "on_complete Inr 0 None ?d0"
  let ?d2 = "on_timeout id sample_options ?d1"
  have w0: "0 < length (fetches ?d0)" by (simp add: sample_start)
  have w1: "0 < timeouts ?d1" and w2: "finished ?d2"
    by (simp_all add: sample_start on_complete_def on_timeout_def with_summary_def setTimeout_def
        append_item_def displayNextItem_def Let_def)
  have "\<exists>d. (display_step id Inr sample_options)\<^sup>*\<^sup>* ?d0 d \<and> finished d"
    using display_step.complete [OF w0] display_step.timeout [OF w1] w2
    by (meson rtranclp.rtrancl_into_rtrancl rtranclp.rtrancl_refl)
  then obtain d where d: "(display_step id Inr sample_options)\<^sup>*\<^sup>* ?d0 d" "finished d"
    by blast
  have shown: "map item_key (shown d) =
      map (item_key \<circ> item_of sample_options (highlight_string empty_query)) (rev [sample_result])"
    using results_shown_in_order [OF d(1)] d(2) by blast
  have "map label (shown d) = map snd (map item_key (shown d))"
    by (simp add: item_key_def comp_def)
  also have "\<dots> = map snd (map (item_key \<circ> item_of sample_options (highlight_string empty_query))
      (rev [sample_result]))"
    unfolding shown ..
  also have "\<dots> = [''Sending'']" by (simp add: snd_item_key) (simp add: sample_result_def)
  finally have "map label (shown d) = [''Sending'']" .
  with d show ?thesis by (intro exI conjI)
qed

text \<open>
  C24. The display goes on until it has finished, and it does finish: something can happen next
  exactly as long as it has not finished and no callback has thrown, exactly one timeout or
  request is pending then, no sequence of events is infinite, and a callback throws only where
  \<open>htmlToText\<close> throws on the text of a page.
\<close>

theorem display_terminates:
  assumes "(display_step tr htmlToText opts)\<^sup>*\<^sup>* (start_display tr opts p rs) d"
  shows "((\<exists>d'. display_step tr htmlToText opts d d') \<longleftrightarrow> \<not> finished d \<and> thrown_by d = [])
     \<and> (\<not> finished d \<and> thrown_by d = [] \<longrightarrow> timeouts d + length (fetches d) = 1)
     \<and> wfP (display_step tr htmlToText opts)\<inverse>\<inverse>
     \<and> ((\<forall>t. \<exists>s. htmlToText t = Inr s) \<longrightarrow> thrown_by d = [])"
proof (intro conjI)
  have inv: "display_inv tr opts (highlight_string p) rs d"
    by (rule display_inv_steps [OF assms display_inv_start])
  then have pending: "timeouts d + length (fetches d) = (if finished d \<or> thrown_by d \<noteq> [] then 0 else 1)"
    by (simp add: display_inv_def)
  have "(\<exists>d'. display_step tr htmlToText opts d d') \<longleftrightarrow> timeouts d + length (fetches d) \<noteq> 0"
    by (auto elim!: display_step.cases intro: display_step.intros)
  with pending show "(\<exists>d'. display_step tr htmlToText opts d d') \<longleftrightarrow> \<not> finished d \<and> thrown_by d = []"
    by simp
  from pending show "\<not> finished d \<and> thrown_by d = [] \<longrightarrow> timeouts d + length (fetches d) = 1" by simp
  show "wfP (display_step tr htmlToText opts)\<inverse>\<inverse>"
    by (rule wfp_if_convertible_to_nat [where f = display_measure])
      (simp add: display_step_measure)
  have "thrown_by (start_display tr opts p rs) = []"
    by (simp add: start_display_def displayNextItem_def setTimeout_def append_item_def Let_def)
  with nothing_thrown [OF assms] show "(\<forall>t. \<exists>s. htmlToText t = Inr s) \<longrightarrow> thrown_by d = []" by blast
qed

theorem display_terminates_witness:
  "\<exists>d'. display_step id Inr sample_options (start_display id sample_options empty_query [sample_result]) d'"
  using display_terminates [OF rtranclp.rtrancl_refl, of id Inr sample_options empty_query "[sample_result]"]
  by (simp add: sample_start)

text \<open>
  An answer that jQuery cannot parse, such as the error text of a server, stops the display for
  good: the item is not shown, nothing is pending any more, and the heading still says that
  the search is going on.
\<close>

lemma broken_page_stops_display:
  assumes "htmlToText (c # cs) = Inl e"
  shows "\<exists>d. (display_step id htmlToText sample_options)\<^sup>*\<^sup>*
        (start_display id sample_options empty_query [sample_result]) d
     \<and> (\<nexists>d'. display_step id htmlToText sample_options d d')
     \<and> \<not> finished d \<and> shown d = [] \<and> heading d = ''Searching''"
proof -
  let ?d0 = "start_display id sample_options empty_query [sample_result]"
  let ?d1 = "on_complete htmlToText 0 (Some (c # cs)) ?d0"
  have step: "display_step id htmlToText sample_options ?d0 ?d1"
    by (rule display_step.complete) (simp add: sample_start)
  have d1: "?d1 = ?d0\<lparr>fetches := [], thrown_by := [e]\<rparr>"
    by (simp add: sample_start on_complete_def with_summary_def makeSearchSummary_def assms Let_def)
  have "\<nexists>d'. display_step id htmlToText sample_options ?d1 d'"
    unfolding d1 by (auto simp: sample_start elim: display_step.cases)
  with step d1 show ?thesis
    by (intro exI [of _ ?d1]) (auto simp: sample_start)
qed

section \<open>The order of the index and of the query does not matter\<close>

text \<open>
  A search before the index has arrived is not lost: performing it and then receiving the
  index gives the same as receiving the index first, and of several such searches the last
  one is run.
\<close>

theorem deferred_query_runs:
  assumes "idx s = None" and "queued_query s = None"
  shows "andThen (performSearch tr opts q s) (setIndex tr opts ix)
           = andThen (setIndex tr opts ix s) (performSearch tr opts q)
         \<and> andThen (performSearch tr opts q0 s)
               (\<lambda>s'. andThen (performSearch tr opts q s') (setIndex tr opts ix))
           = andThen (setIndex tr opts ix s) (performSearch tr opts q)"
proof -
  have pulse: "idx (startPulse s') = idx s'" "queued_query (startPulse s') = queued_query s'"
      "startPulse (s'\<lparr>idx := i\<rparr>) = (startPulse s')\<lparr>idx := i\<rparr>" for s' i
    by (simp_all add: startPulse_def pulse_def Let_def)
  have again: "startPulse (deferQuery q0 (startPulse s)) = deferQuery q0 (startPulse s)"
  proof -
    have "0 \<le> (pulse_status s + 1) mod 4" by simp
    then show ?thesis by (simp add: startPulse_def deferQuery_def pulse_def Let_def)
  qed
  have set: "andThen (setIndex tr opts ix s) (performSearch tr opts q)
      = run_query tr opts q ((startPulse s)\<lparr>idx := Some ix\<rparr>)"
    using assms by (simp add: setIndex_def performSearch_def hasIndex_def pulse)
  have unqueue: "s'\<lparr>queued_query := None\<rparr> = s'" if "queued_query s' = None" for s' :: search
    using that by simp
  have "setIndex tr opts ix (deferQuery q (startPulse s))
      = run_query tr opts q ((startPulse s)\<lparr>idx := Some ix\<rparr>)"
  proof -
    have "(startPulse s)\<lparr>idx := Some ix, queued_query := None\<rparr> = (startPulse s)\<lparr>idx := Some ix\<rparr>"
      by (rule unqueue) (simp add: pulse(2) assms)
    then show ?thesis by (simp add: setIndex_def deferQuery_def)
  qed
  moreover have "setIndex tr opts ix (deferQuery q (deferQuery q0 (startPulse s)))
      = setIndex tr opts ix (deferQuery q (startPulse s))"
    by (simp add: setIndex_def deferQuery_def)
  ultimately show ?thesis
    using set assms again pulse(1)
    by (simp add: performSearch_def hasIndex_def deferQuery_def)
qed

theorem deferred_query_runs_witness:
  "andThen (performSearch id sample_options ''packets'' new_search) (setIndex id sample_options sample_index)
   = andThen (setIndex id sample_options sample_index new_search) (performSearch id sample_options ''packets'')"
  using deferred_query_runs [of new_search id sample_options "''packets''" sample_index "[]"]
  by (simp add: new_search_def)

section \<open>The pulse\<close>

lemma pulse_timers_kept:
  "pulse_timers (stopPulse s) = pulse_timers s"
  "pulse_timers (pulse s) = pulse_timers s + 1"
  "pulse_timers s \<le> pulse_timers (startPulse s)"
  "run_query tr opts q s = Inr s' \<Longrightarrow> pulse_timers s' = pulse_timers s"
proof -
  have "-1 < (pulse_status s + 1) mod 4" using pos_mod_sign [of 4 "pulse_status s + 1"] by linarith
  then show pulse: "pulse_timers (pulse s) = pulse_timers s + 1" by (simp add: pulse_def Let_def)
  show "pulse_timers (stopPulse s) = pulse_timers s" by (simp add: stopPulse_def)
  show "pulse_timers s \<le> pulse_timers (startPulse s)" by (simp add: startPulse_def pulse)
  show "run_query tr opts q s = Inr s' \<Longrightarrow> pulse_timers s' = pulse_timers s"
    by (auto simp: run_query_def andThen_eq_Inr Let_def stopPulse_def split: option.splits if_splits)
qed

lemma pulse_timers_step:
  "search_step tr htmlToText opts s s' \<Longrightarrow> pulse_timers s \<le> pulse_timers s'"
proof (induction rule: search_step.induct)
  case (pulsing s)
  then show ?case by (simp add: pulse_timeout_def pulse_timers_kept)
next
  case (showing i s d')
  then show ?case by (simp add: set_display_def pulse_timers_kept Let_def)
next
  case (index ix s s')
  then show ?case by (auto simp: setIndex_def Let_def split: option.splits dest: pulse_timers_kept(4))
next
  case (searching q s s')
  then show ?case using pulse_timers_kept(3) [of s]
    by (auto simp: performSearch_def Let_def deferQuery_def dest: pulse_timers_kept(4) split: if_splits)
qed

text \<open>
  The pulse never stops: from the first search on, a timer of the pulse is pending at every
  later moment, and each time it fires it sets another one. \<open>stopPulse\<close> only restarts the
  count, because the status is never below zero afterwards.
\<close>

theorem pulse_never_stops:
  assumes "(search_step tr htmlToText opts)\<^sup>*\<^sup>* (startPulse new_search) s"
  shows "0 < pulse_timers s \<and> 0 < pulse_timers (stopPulse s)
         \<and> 0 < pulse_timers (pulse_timeout (stopPulse s))"
proof -
  have "pulse_timers (startPulse new_search) = 1"
    by (simp add: startPulse_def new_search_def pulse_timers_kept)
  moreover have "pulse_timers (startPulse new_search) \<le> pulse_timers s"
    using assms by (induction rule: rtranclp_induct) (auto dest: pulse_timers_step)
  ultimately have "0 < pulse_timers s" by simp
  then show ?thesis by (simp add: pulse_timers_kept pulse_timeout_def)
qed

theorem pulse_never_stops_witness:
  "0 < pulse_timers (pulse_timeout (stopPulse (startPulse new_search)))"
  using pulse_never_stops [OF rtranclp.rtrancl_refl] by blast

section \<open>Excerpts\<close>

lemma length_trim: "length (trim s) \<le> length s"
  unfolding trim_def length_rev
  by (rule order_trans [OF length_dropWhile_le]) (simp add: length_dropWhile_le)

text \<open>
  A summary has at most 246 characters. It ends in dots whenever the text does not end
  exactly 240 characters after its start, so also when nothing was cut off.
\<close>

theorem excerpt_bounds:
  "length (excerpt_of content keywords) \<le> 246
   \<and> (length content < 240 \<and> keywords = [] \<longrightarrow> excerpt_of content keywords = trim content @ ''...'')"
proof
  have "length (trim (take 240 (drop n content))) \<le> 240" for n
    by (rule order_trans [OF length_trim]) simp
  moreover have "length ((if b then ''...'' else []) @ t @ (if b' then ''...'' else [])) \<le> 246"
    if "length t \<le> 240" for b b' and t :: string
    using that by simp
  ultimately show "length (excerpt_of content keywords) \<le> 246"
    unfolding excerpt_of_def Let_def by blast
qed (simp add: excerpt_of_def)

theorem excerpt_bounds_witness:
  "excerpt_of ''all of it'' [] = ''all of it...''"
proof -
  have "trim ''all of it'' = ''all of it''" by code_simp
  then show ?thesis using excerpt_bounds [of "''all of it''" "[]"] by simp
qed

section \<open>From the search to the page found\<close>

lemma lower_space: "is_space (lower_char c) \<longleftrightarrow> is_space c"
  by (auto simp: is_space_def of_char_lower Let_def)

lemma lower_lower [simp]: "lower (lower s) = lower s"
proof -
  have "lower_char (lower_char c) = lower_char c" for c
    using of_char_lower [of "lower_char c"] of_char_lower [of c]
    by (intro of_char_eq_iff [where 'a = nat, THEN iffD1]) (auto simp: Let_def split: if_splits)
  then show ?thesis by (simp add: lower_def)
qed

lemma space_splits: "is_space c \<Longrightarrow> splitChars (of_char c)"
proof -
  assume "is_space c"
  then have "of_char c \<le> (47 :: nat) \<or> 123 \<le> (of_char c :: nat) \<and> of_char c \<le> (169 :: nat)"
    by (auto simp: is_space_def Let_def)
  moreover have "(0, 47) \<in> set ranges" "(123, 169) \<in> set ranges"
    unfolding ranges_def by (rule list.set_intros)+
  ultimately show ?thesis unfolding splitChars_def list_ex_iff by fastforce
qed

lemma split_word_no_space:
  assumes "t \<in> set (split_words q)" "c \<in> set t"
  shows "\<not> is_space c"
proof -
  obtain w n where w: "w \<in> set (splitQuery (map of_char q))" "n \<in> set w" "c = char_of n"
    using assms by (auto simp: split_words_def)
  then have "\<not> splitChars n" "n < 256" using splitQuery_word by fastforce+
  then have "\<not> splitChars (of_char c)" using w(3) by simp
  then show ?thesis using space_splits by blast
qed

text \<open>
  The page found highlights what was searched for: the address a result links to carries
  the words of the query that are no stop words, and the script of that page reads exactly
  these words back from it.
\<close>

theorem found_page_highlights_query:
  assumes "hlterms (parse_query q) \<noteq> []"
  shows "highlightSearchWords (highlight_string (parse_query q))
           = Inr (map lower (filter (\<lambda>t. lower t \<notin> set stopwords) (split_words q)))"
proof -
  let ?good = "filter (\<lambda>t. lower t \<notin> set stopwords) (split_words q)"
  have hl: "hlterms (parse_query q) = map lower ?good" by (rule parse_query_hlterms)
  have "\<forall>w \<in> set (map lower ?good). w \<noteq> [] \<and> (\<forall>c \<in> set w. \<not> is_space c)"
    using word_no_dash split_word_no_space by (auto simp: lower_def lower_space)
  then have "highlightSearchWords ([] @ ''?highlight='' @ urlencode (join '' '' (map lower ?good)))
      = Inr (map lower (map lower ?good))"
    using assms by (intro highlight_words) (auto simp: hl)
  then show ?thesis by (simp add: highlight_string_def hl)
qed

theorem found_page_highlights_query_witness:
  "highlightSearchWords (highlight_string (parse_query ''packets'')) = Inr [''packets'']"
proof -
  have "split_words ''packets'' = [''packets'']"
    by (rule split_words_letters) simp_all
  moreover have "lower ''packets'' = ''packets''" by code_simp
  ultimately show ?thesis
    using found_page_highlights_query [of "''packets''"] parse_query_hlterms [of "''packets''"]
    by (simp add: stopwords_def)
qed

end
