(* ===== verification/Underscore.thy ===== *)
theory Underscore
  imports JsCall
begin

text \<open>
  The documentation's collection library \<open>underscore-1.13.1.js\<close>, first part: type tests, keys,
  and the operations on objects and on property paths. Functions are no values here: a callback
  is an argument of its own (see \<open>Iteratee\<close>), and a property that names a built-in method
  reads as outside the model. Typed arrays, dates, regular expressions, symbols, maps and sets
  do not occur as values, so the tests for them are false.
\<close>

section \<open>Reading properties\<close>

text \<open>The methods of arrays, strings, numbers and booleans besides those of every object.\<close>

definition array_methods :: "string list" where
  "array_methods =
     [''at'', ''concat'', ''copyWithin'', ''entries'', ''every'', ''fill'', ''filter'', ''find'',
      ''findIndex'', ''findLast'', ''findLastIndex'', ''flat'', ''flatMap'', ''forEach'',
      ''includes'', ''indexOf'', ''join'', ''keys'', ''lastIndexOf'', ''map'', ''pop'', ''push'',
      ''reduce'', ''reduceRight'', ''reverse'', ''shift'', ''slice'', ''some'', ''sort'',
      ''splice'', ''toReversed'', ''toSorted'', ''toSpliced'', ''unshift'', ''values'', ''with'']"

definition string_methods :: "string list" where
  "string_methods =
     [''anchor'', ''at'', ''big'', ''blink'', ''bold'', ''charAt'', ''charCodeAt'', ''codePointAt'',
      ''concat'', ''endsWith'', ''fixed'', ''fontcolor'', ''fontsize'', ''includes'', ''indexOf'',
      ''isWellFormed'', ''italics'', ''lastIndexOf'', ''link'', ''localeCompare'', ''match'',
      ''matchAll'', ''normalize'', ''padEnd'', ''padStart'', ''repeat'', ''replace'',
      ''replaceAll'', ''search'', ''slice'', ''small'', ''split'', ''startsWith'', ''strike'',
      ''sub'', ''substr'', ''substring'', ''sup'', ''toLocaleLowerCase'', ''toLocaleUpperCase'',
      ''toLowerCase'', ''toUpperCase'', ''toWellFormed'', ''trim'', ''trimEnd'', ''trimLeft'',
      ''trimRight'', ''trimStart'']"

definition number_methods :: "string list" where
  "number_methods = [''toExponential'', ''toFixed'', ''toPrecision'']"

fun inherits :: "js \<Rightarrow> string \<Rightarrow> bool" where
  "inherits (JArr xs) k \<longleftrightarrow> k \<in> set inherited_names \<or> k \<in> set array_methods"
| "inherits (JStr s) k \<longleftrightarrow> k \<in> set inherited_names \<or> k \<in> set string_methods"
| "inherits (JNum n) k \<longleftrightarrow> k \<in> set inherited_names \<or> k \<in> set number_methods"
| "inherits _ k \<longleftrightarrow> k \<in> set inherited_names"

text \<open>\<open>obj[key]\<close>.\<close>

definition read :: "js \<Rightarrow> string \<Rightarrow> js res" where
  "read obj k =
     (if nullish obj then Inl TypeError
      else case own_prop obj k of
             Some v \<Rightarrow> Inr v
           | None \<Rightarrow> if inherits obj k then Inl OutsideModel else Inr JUndef)"

definition read_key :: "js \<Rightarrow> js \<Rightarrow> js res" where
  "read_key obj key =
     (if nullish obj then Inl TypeError else andThen (to_key key) (\<lambda>k. read obj k))"

text \<open>\<open>obj[key] = v\<close> on a plain object; writing \<open>__proto__\<close> is no write of a property.\<close>

definition write_key :: "string \<Rightarrow> js \<Rightarrow> jsobj \<Rightarrow> jsobj res" where
  "write_key k v ps = (if k = ''__proto__'' then Inl OutsideModel else Inr (AList.update k v ps))"

section \<open>Type tests\<close>

definition isObject :: "js \<Rightarrow> bool" where
  "isObject obj \<longleftrightarrow> typeof obj = ''function'' \<or> typeof obj = ''object'' \<and> truthy obj"

definition isNull :: "js \<Rightarrow> bool" where
  "isNull obj \<longleftrightarrow> obj = JNull"

definition isUndefined :: "js \<Rightarrow> bool" where
  "isUndefined obj \<longleftrightarrow> obj = JUndef"

text \<open>\<open>toString.call(obj)\<close>.\<close>

fun tag_of :: "js \<Rightarrow> string" where
  "tag_of JUndef = ''[object Undefined]''"
| "tag_of JNull = ''[object Null]''"
| "tag_of (JBool b) = ''[object Boolean]''"
| "tag_of (JNum n) = ''[object Number]''"
| "tag_of (JStr s) = ''[object String]''"
| "tag_of (JArr xs) = ''[object Array]''"
| "tag_of (JObj ps) = ''[object Object]''"

definition isBoolean :: "js \<Rightarrow> bool" where
  "isBoolean obj \<longleftrightarrow> obj = JBool True \<or> obj = JBool False \<or> tag_of obj = ''[object Boolean]''"

definition isElement :: "js \<Rightarrow> bool res" where
  "isElement obj =
     (if \<not> truthy obj then Inr False
      else andThen (read obj ''nodeType'') (\<lambda>t. Inr (t = JNum 1)))"

definition tagTester :: "string \<Rightarrow> js \<Rightarrow> bool" where
  "tagTester name obj \<longleftrightarrow> tag_of obj = ''[object '' @ name @ '']''"

definition isString :: "js \<Rightarrow> bool" where
  "isString = tagTester ''String''"

definition isNumber :: "js \<Rightarrow> bool" where
  "isNumber = tagTester ''Number''"

definition isArguments :: "js \<Rightarrow> bool" where
  "isArguments = tagTester ''Arguments''"

lemma tag_simps [simp]:
  "isString obj \<longleftrightarrow> typeof obj = ''string''" "isNumber obj \<longleftrightarrow> typeof obj = ''number''"
  "\<not> isArguments obj" "isBoolean obj \<longleftrightarrow> typeof obj = ''boolean''"
  by (cases obj; simp add: isString_def isNumber_def isArguments_def isBoolean_def tagTester_def)+

lemma isObject_iff [simp]: "isObject obj \<longleftrightarrow> is_ref obj"
  by (cases obj) (simp_all add: isObject_def)

section \<open>Sizes and keys\<close>

text \<open>\<open>shallowProperty\<close>; a missing \<open>length\<close> is \<open>undefined\<close> on every value that lacks it.\<close>

definition shallowProperty :: "string \<Rightarrow> js \<Rightarrow> js res" where
  "shallowProperty key obj = (if nullish obj then Inr JUndef else read obj key)"

definition getLength :: "js \<Rightarrow> js" where
  "getLength obj = (case shallowProperty ''length'' obj of Inr v \<Rightarrow> v | Inl e \<Rightarrow> JUndef)"

text \<open>\<open>createSizePropertyCheck(getLength)\<close>, with \<open>MAX_ARRAY_INDEX\<close> written out.\<close>

definition isArrayLike :: "js \<Rightarrow> bool" where
  "isArrayLike collection \<longleftrightarrow>
     (case getLength collection of JNum n \<Rightarrow> 0 \<le> n \<and> n \<le> 9007199254740991 | _ \<Rightarrow> False)"

definition keys :: "js \<Rightarrow> string list" where
  "keys obj = (if \<not> isObject obj then [] else map fst (own_entries obj))"

definition allKeys :: "js \<Rightarrow> string list" where
  "allKeys obj = (if \<not> isObject obj then [] else map fst (own_entries obj))"

definition has_own_key :: "js \<Rightarrow> string \<Rightarrow> bool" where
  "has_own_key obj key \<longleftrightarrow> \<not> nullish obj \<and> own_prop obj key \<noteq> None"

definition isEmpty :: "js \<Rightarrow> bool" where
  "isEmpty obj \<longleftrightarrow>
     (if nullish obj then True
      else
        let n = getLength obj
        in if typeof n = ''number'' \<and> (is_array obj \<or> isString obj \<or> isArguments obj)
           then n = JNum 0
           else keys obj = [])"

definition values_of :: "js \<Rightarrow> js list" where
  "values_of obj = map (prop_at obj) (keys obj)"

definition pairs :: "js \<Rightarrow> js" where
  "pairs obj = JArr (map (\<lambda>k. JArr [JStr k, prop_at obj k]) (keys obj))"

fun invert_loop :: "js \<Rightarrow> jsobj \<Rightarrow> string list \<Rightarrow> jsobj res" where
  "invert_loop obj result [] = Inr result"
| "invert_loop obj result (k # ks) =
     andThen (to_key (prop_at obj k)) (\<lambda>v.
     andThen (write_key v (JStr k) result) (\<lambda>result'. invert_loop obj result' ks))"

definition invert :: "js \<Rightarrow> jsobj res" where
  "invert obj = invert_loop obj [] (keys obj)"

text \<open>
  \<open>Object(object)\<close> for a primitive gives an object with the same properties; \<open>key in obj\<close> is
  looked at only after the values were found equal, so never for an inherited method.
\<close>

fun match_loop :: "js \<Rightarrow> js \<Rightarrow> string list \<Rightarrow> bool res" where
  "match_loop object attrs [] = Inr True"
| "match_loop object attrs (k # ks) =
     andThen (strict_eq (prop_at attrs k) (prop_at object k)) (\<lambda>same.
       if \<not> same \<or> own_prop object k = None then Inr False else match_loop object attrs ks)"

definition isMatch :: "js \<Rightarrow> js \<Rightarrow> bool res" where
  "isMatch object attrs =
     (if nullish object then Inr (keys attrs = []) else match_loop object attrs (keys attrs))"

section \<open>Assigning\<close>

text \<open>
  \<open>createAssigner\<close> on an object: the properties written to it, source after source. A source
  that is no object has no keys.
\<close>

definition assign_key :: "bool \<Rightarrow> js \<Rightarrow> string \<Rightarrow> jsobj \<Rightarrow> jsobj res" where
  "assign_key fill source k obj =
     (if fill \<and> map_of obj k = None \<and> k \<in> set inherited_names then Inr obj
      else if \<not> fill \<or> map_of obj k = None \<or> map_of obj k = Some JUndef
      then write_key k (prop_at source k) obj
      else Inr obj)"

fun assign_keys :: "bool \<Rightarrow> js \<Rightarrow> string list \<Rightarrow> jsobj \<Rightarrow> jsobj res" where
  "assign_keys fill source [] obj = Inr obj"
| "assign_keys fill source (k # ks) obj =
     andThen (assign_key fill source k obj) (\<lambda>obj'. assign_keys fill source ks obj')"

fun assign_sources :: "(js \<Rightarrow> string list) \<Rightarrow> bool \<Rightarrow> js list \<Rightarrow> jsobj \<Rightarrow> jsobj res" where
  "assign_sources keysFunc fill [] obj = Inr obj"
| "assign_sources keysFunc fill (source # sources) obj =
     andThen (assign_keys fill source (keysFunc source) obj) (\<lambda>obj'.
       assign_sources keysFunc fill sources obj')"

definition createAssigner :: "(js \<Rightarrow> string list) \<Rightarrow> bool \<Rightarrow> js \<Rightarrow> js list \<Rightarrow> js res" where
  "createAssigner keysFunc fill obj sources =
     (let obj = (if fill \<and> nullish obj then JObj [] else obj)
      in if sources = [] \<or> nullish obj then Inr obj
         else case obj of
                JObj ps \<Rightarrow> andThen (assign_sources keysFunc fill sources ps) (\<lambda>ps'. Inr (JObj ps'))
              | _ \<Rightarrow> Inl OutsideModel)"

definition extend :: "js \<Rightarrow> js list \<Rightarrow> js res" where
  "extend = createAssigner allKeys False"

definition extendOwn :: "js \<Rightarrow> js list \<Rightarrow> js res" where
  "extendOwn = createAssigner keys False"

definition fill_defaults :: "js \<Rightarrow> js list \<Rightarrow> js res" where
  "fill_defaults = createAssigner allKeys True"

definition clone :: "js \<Rightarrow> js res" where
  "clone obj =
     (if \<not> isObject obj then Inr obj
      else if is_array obj then Inr obj
      else extend (JObj []) [obj])"

section \<open>Property paths\<close>

definition toPath :: "js \<Rightarrow> js list" where
  "toPath path = (case path of JArr ks \<Rightarrow> ks | _ \<Rightarrow> [path])"

fun deepGet_loop :: "js \<Rightarrow> js list \<Rightarrow> js res" where
  "deepGet_loop obj [] = Inr obj"
| "deepGet_loop obj (key # path) =
     (if nullish obj then Inr JUndef
      else andThen (read_key obj key) (\<lambda>v. deepGet_loop v path))"

definition deepGet :: "js \<Rightarrow> js list \<Rightarrow> js res" where
  "deepGet obj path = (if path = [] then Inr JUndef else deepGet_loop obj path)"

definition get_path :: "js \<Rightarrow> js \<Rightarrow> js \<Rightarrow> js res" where
  "get_path object path defaultValue =
     andThen (deepGet object (toPath path)) (\<lambda>v. Inr (if isUndefined v then defaultValue else v))"

fun has_loop :: "js \<Rightarrow> js list \<Rightarrow> bool res" where
  "has_loop obj [] = Inr True"
| "has_loop obj (key # path) =
     (if nullish obj then Inr False
      else andThen (to_key key) (\<lambda>k.
        if \<not> has_own_key obj k then Inr False else has_loop (prop_at obj k) path))"

definition has_path :: "js \<Rightarrow> js \<Rightarrow> bool res" where
  "has_path obj path = (if toPath path = [] then Inr False else has_loop obj (toPath path))"

definition matcher :: "js \<Rightarrow> js \<Rightarrow> bool res" where
  "matcher attrs obj =
     andThen (extendOwn (JObj []) [attrs]) (\<lambda>attrs'. isMatch obj attrs')"

definition property :: "js \<Rightarrow> js \<Rightarrow> js res" where
  "property path obj = deepGet obj (toPath path)"

definition propertyOf :: "js \<Rightarrow> js \<Rightarrow> js res" where
  "propertyOf obj path = (if nullish obj then Inr JUndef else get_path obj path JUndef)"

text \<open>\<open>result\<close>: no property is a function, so none is called.\<close>

fun result_loop :: "js \<Rightarrow> js list \<Rightarrow> js \<Rightarrow> js res" where
  "result_loop obj [] fallback = Inr obj"
| "result_loop obj (key # path) fallback =
     andThen (if nullish obj then Inr JUndef else read_key obj key) (\<lambda>v.
       if v = JUndef then Inr fallback else result_loop v path fallback)"

definition result_of :: "js \<Rightarrow> js \<Rightarrow> js \<Rightarrow> js res" where
  "result_of obj path fallback =
     (if toPath path = [] then Inr fallback else result_loop obj (toPath path) fallback)"

end
