(* ===== verification/UnderscoreEq.thy ===== *)
theory UnderscoreEq
  imports Underscore
begin

text \<open>
  The deep comparison \<open>isEqual\<close> of \<open>underscore-1.13.1.js\<close>. Objects and arrays are compared by
  identity first; what \<open>===\<close> says of two references is an argument \<open>same\<close>, of which nothing is
  known but that identical objects have the same contents. Values are finite trees, so the
  stacks against cycles never answer; zero has one representation.
\<close>

definition identical :: "(js \<Rightarrow> js \<Rightarrow> bool) \<Rightarrow> js \<Rightarrow> js \<Rightarrow> bool" where
  "identical same a b \<longleftrightarrow> (if is_ref a \<and> is_ref b then same a b else a = b)"

text \<open>The linear search through \<open>aStack\<close>, from its top, which is the head of the list.\<close>

fun on_stack :: "(js \<Rightarrow> js \<Rightarrow> bool) \<Rightarrow> js \<Rightarrow> js \<Rightarrow> js list \<Rightarrow> js list \<Rightarrow> bool option" where
  "on_stack same a b (x # aStack) (y # bStack) =
     (if same x a then Some (same y b) else on_stack same a b aStack bStack)"
| "on_stack same a b _ _ = None"

text \<open>
  The comparison of constructors: two plain objects have the same one unless an own property of
  that name hides it.
\<close>

definition same_ctor :: "(js \<Rightarrow> js \<Rightarrow> bool) \<Rightarrow> jsobj \<Rightarrow> jsobj \<Rightarrow> bool" where
  "same_ctor same ps qs \<longleftrightarrow>
     (case (map_of ps ''constructor'', map_of qs ''constructor'') of
        (None, None) \<Rightarrow> True
      | (Some x, Some y) \<Rightarrow> identical same x y
      | _ \<Rightarrow> False)"

lemma size_pair: "(x, y) \<in> set (zip xs ys) \<Longrightarrow> size x < size (JArr xs)"
  by (rule size_element) (rule set_zip_leftD)

function eq :: "(js \<Rightarrow> js \<Rightarrow> bool) \<Rightarrow> js \<Rightarrow> js \<Rightarrow> js list \<Rightarrow> js list \<Rightarrow> bool"
  and deepEq :: "(js \<Rightarrow> js \<Rightarrow> bool) \<Rightarrow> js \<Rightarrow> js \<Rightarrow> js list \<Rightarrow> js list \<Rightarrow> bool" where
  "eq same a b aStack bStack =
     (if identical same a b then True
      else if nullish a \<or> nullish b then False
      else if typeof a \<noteq> ''function'' \<and> typeof a \<noteq> ''object'' \<and> typeof b \<noteq> ''object'' then False
      else deepEq same a b aStack bStack)"
| "deepEq same a b aStack bStack =
     (if tag_of a \<noteq> tag_of b then False
      else
        case (a, b) of
          (JArr xs, JArr ys) \<Rightarrow>
            (case on_stack same a b aStack bStack of
               Some r \<Rightarrow> r
             | None \<Rightarrow>
                 length xs = length ys
                 \<and> list_all (\<lambda>(x, y). eq same x y (a # aStack) (b # bStack)) (rev (zip xs ys)))
        | (JObj ps, JObj qs) \<Rightarrow>
            same_ctor same ps qs
            \<and> (case on_stack same a b aStack bStack of
                 Some r \<Rightarrow> r
               | None \<Rightarrow>
                   length (object_entries ps) = length (object_entries qs)
                   \<and> list_all (\<lambda>(k, x). case map_of qs k of
                         Some y \<Rightarrow> eq same x y (a # aStack) (b # bStack)
                       | None \<Rightarrow> False) (rev (object_entries ps)))
        | (JStr s, JStr t) \<Rightarrow> s = t
        | (JNum m, JNum n) \<Rightarrow> m = n
        | (JBool p, JBool q) \<Rightarrow> p = q
        | _ \<Rightarrow> False)"
  by pat_completeness auto
termination
  by (relation "measure (case_sum (\<lambda>(same, a, b, as, bs). 2 * size a + 1)
                                  (\<lambda>(same, a, b, as, bs). 2 * size a))")
    (auto dest!: size_pair size_member simp del: js.size)

definition isEqual :: "(js \<Rightarrow> js \<Rightarrow> bool) \<Rightarrow> js \<Rightarrow> js \<Rightarrow> bool" where
  "isEqual same a b = eq same a b [] []"

declare eq.simps [simp del] deepEq.simps [simp del]

section \<open>Equality up to the order of properties\<close>

function alike :: "js \<Rightarrow> js \<Rightarrow> bool" where
  "alike a b =
     (case (a, b) of
        (JArr xs, JArr ys) \<Rightarrow> length xs = length ys \<and> list_all (\<lambda>(x, y). alike x y) (zip xs ys)
      | (JObj ps, JObj qs) \<Rightarrow>
          length ps = length qs
          \<and> list_all (\<lambda>(k, x). case map_of qs k of Some y \<Rightarrow> alike x y | None \<Rightarrow> False) ps
      | _ \<Rightarrow> a = b)"
  by pat_completeness auto
termination
  by (relation "measure (\<lambda>(a, b). size a)") (auto dest!: size_pair size_member simp del: js.size)

declare alike.simps [simp del]

lemma alike_simps [simp]:
  "alike (JArr xs) (JArr ys) \<longleftrightarrow> length xs = length ys \<and> (\<forall>(x, y) \<in> set (zip xs ys). alike x y)"
  "alike (JObj ps) (JObj qs) \<longleftrightarrow> length ps = length qs \<and>
     (\<forall>(k, x) \<in> set ps. \<exists>y. map_of qs k = Some y \<and> alike x y)"
  "\<not> is_ref a \<or> \<not> is_ref b \<Longrightarrow> alike a b \<longleftrightarrow> a = b"
  "\<not> alike (JArr xs) (JObj ps)" "\<not> alike (JObj ps) (JArr xs)"
proof -
  show "alike (JArr xs) (JArr ys) \<longleftrightarrow> length xs = length ys \<and> (\<forall>(x, y) \<in> set (zip xs ys). alike x y)"
    by (subst alike.simps) (simp add: list_all_iff)
  show "alike (JObj ps) (JObj qs) \<longleftrightarrow> length ps = length qs \<and>
      (\<forall>(k, x) \<in> set ps. \<exists>y. map_of qs k = Some y \<and> alike x y)"
    by (subst alike.simps) (auto simp: list_all_iff split: option.splits)
  show "\<not> is_ref a \<or> \<not> is_ref b \<Longrightarrow> alike a b \<longleftrightarrow> a = b"
    by (subst alike.simps) (auto split: js.splits)
qed (simp_all add: alike.simps)

lemma alike_refl: "wf_js a \<Longrightarrow> alike a a"
proof (induction a rule: measure_induct_rule [of size])
  case (less a)
  show ?case
  proof (cases a)
    case (JArr xs)
    have "alike x y" if "(x, y) \<in> set (zip xs xs)" for x y
    proof -
      have "x = y" "x \<in> set xs" using that by (auto simp: in_set_zip dest: set_zip_leftD)
      then show ?thesis using less by (simp add: JArr size_element list_all_iff del: js.size)
    qed
    then show ?thesis by (auto simp: JArr)
  next
    case (JObj ps)
    have "\<exists>y. map_of ps k = Some y \<and> alike x y" if "(k, x) \<in> set ps" for k x
    proof -
      have "alike x x" using that less by (auto simp: JObj size_member list_all_iff simp del: js.size)
      then show ?thesis using that less.prems by (auto simp: JObj)
    qed
    then show ?thesis by (auto simp: JObj)
  qed simp_all
qed

text \<open>No object inside the value has a property \<open>constructor\<close>.\<close>

fun no_ctor :: "js \<Rightarrow> bool" where
  "no_ctor (JArr xs) = list_all no_ctor xs"
| "no_ctor (JObj ps) = (list_all (\<lambda>(k, v). k \<noteq> ''constructor'' \<and> no_ctor v) ps)"
| "no_ctor _ = True"

lemma on_stack_None:
  assumes "\<And>x y. same x y \<Longrightarrow> x = y"
  shows "\<forall>x \<in> set aStack. size a < size x \<Longrightarrow> on_stack same a b aStack bStack = None"
proof (induction aStack arbitrary: bStack)
  case (Cons x aStack)
  then have "\<not> same x a" using assms by fastforce
  with Cons show ?case by (cases bStack) simp_all
qed simp

lemma same_ctor_None: "no_ctor (JObj ps) \<Longrightarrow> no_ctor (JObj qs) \<Longrightarrow> same_ctor same ps qs"
proof -
  have "no_ctor (JObj rs) \<Longrightarrow> map_of rs ''constructor'' = None" for rs
    by (auto simp: map_of_eq_None_iff list_all_iff)
  then show "no_ctor (JObj ps) \<Longrightarrow> no_ctor (JObj qs) \<Longrightarrow> ?thesis" by (simp add: same_ctor_def)
qed

lemma eq_steps:
  "identical same a b \<Longrightarrow> eq same a b aStack bStack"
  "\<not> identical same a b \<Longrightarrow> tag_of a \<noteq> tag_of b \<Longrightarrow> \<not> eq same a b aStack bStack"
  "\<not> identical same a b \<Longrightarrow> \<not> is_ref a \<Longrightarrow> \<not> is_ref b \<Longrightarrow> \<not> eq same a b aStack bStack"
  "\<not> identical same (JArr xs) (JArr ys) \<Longrightarrow> on_stack same (JArr xs) (JArr ys) aStack bStack = None \<Longrightarrow>
     eq same (JArr xs) (JArr ys) aStack bStack \<longleftrightarrow> length xs = length ys \<and>
       (\<forall>(x, y) \<in> set (zip xs ys). eq same x y (JArr xs # aStack) (JArr ys # bStack))"
  "\<not> identical same (JObj ps) (JObj qs) \<Longrightarrow> on_stack same (JObj ps) (JObj qs) aStack bStack = None \<Longrightarrow>
     eq same (JObj ps) (JObj qs) aStack bStack \<longleftrightarrow> same_ctor same ps qs \<and> length ps = length qs \<and>
       (\<forall>(k, x) \<in> set ps. \<exists>y. map_of qs k = Some y \<and> eq same x y (JObj ps # aStack) (JObj qs # bStack))"
proof -
  show "identical same a b \<Longrightarrow> eq same a b aStack bStack" by (subst eq.simps) simp
  show "\<not> identical same a b \<Longrightarrow> tag_of a \<noteq> tag_of b \<Longrightarrow> \<not> eq same a b aStack bStack"
    by (subst eq.simps, subst deepEq.simps) simp
  show "\<not> identical same a b \<Longrightarrow> \<not> is_ref a \<Longrightarrow> \<not> is_ref b \<Longrightarrow> \<not> eq same a b aStack bStack"
    by (subst eq.simps) (cases a; cases b; simp)
  show "\<not> identical same (JArr xs) (JArr ys) \<Longrightarrow> on_stack same (JArr xs) (JArr ys) aStack bStack = None \<Longrightarrow>
     eq same (JArr xs) (JArr ys) aStack bStack \<longleftrightarrow> length xs = length ys \<and>
       (\<forall>(x, y) \<in> set (zip xs ys). eq same x y (JArr xs # aStack) (JArr ys # bStack))"
    by (subst eq.simps, subst deepEq.simps) (simp add: list_all_iff)
  have "length (object_entries rs) = length rs" for rs
    using mset_object_entries mset_eq_length by blast
  then show "\<not> identical same (JObj ps) (JObj qs) \<Longrightarrow> on_stack same (JObj ps) (JObj qs) aStack bStack = None \<Longrightarrow>
     eq same (JObj ps) (JObj qs) aStack bStack \<longleftrightarrow> same_ctor same ps qs \<and> length ps = length qs \<and>
       (\<forall>(k, x) \<in> set ps. \<exists>y. map_of qs k = Some y \<and> eq same x y (JObj ps # aStack) (JObj qs # bStack))"
    by (subst eq.simps, subst deepEq.simps) (auto simp: list_all_iff split: option.splits)
qed

lemma eq_alike:
  assumes same: "\<And>x y. same x y \<Longrightarrow> x = y"
  shows "wf_js a \<Longrightarrow> wf_js b \<Longrightarrow> no_ctor a \<Longrightarrow> no_ctor b \<Longrightarrow> \<forall>x \<in> set aStack. size a < size x \<Longrightarrow>
           eq same a b aStack bStack \<longleftrightarrow> alike a b"
proof (induction a arbitrary: b aStack bStack rule: measure_induct_rule [of size])
  case (less a)
  have stack: "\<forall>x \<in> set (a # aStack). size v < size x" if "size v < size a" for v
    using that less.prems(5) by auto
  show ?case
  proof (cases "identical same a b")
    case True
    then have "a = b" using same by (auto simp: identical_def split: if_splits)
    with True less.prems(1) show ?thesis by (simp add: eq_steps(1) alike_refl)
  next
    case nid: False
    have none: "on_stack same a b aStack bStack = None"
      by (rule on_stack_None [OF same less.prems(5)])
    consider (arr) xs ys where "a = JArr xs" "b = JArr ys" | (obj) ps qs where "a = JObj ps" "b = JObj qs"
      | (prim) "\<not> is_ref a" "\<not> is_ref b" | (tags) "tag_of a \<noteq> tag_of b" "is_ref a \<or> is_ref b"
      by (cases a; cases b; simp)
    then show ?thesis
    proof cases
      case arr
      have "eq same x y (a # aStack) (b # bStack) \<longleftrightarrow> alike x y" if "(x, y) \<in> set (zip xs ys)" for x y
      proof (rule less.IH)
        have xy: "x \<in> set xs" "y \<in> set ys" using that by (auto dest: set_zip_leftD set_zip_rightD)
        show "size x < size a" unfolding arr by (rule size_element [OF xy(1)])
        then show "\<forall>z \<in> set (a # aStack). size x < size z" by (rule stack)
        show "wf_js x" "wf_js y" "no_ctor x" "no_ctor y"
          using less.prems xy by (simp_all add: arr list_all_iff)
      qed
      with nid none show ?thesis by (auto simp: arr eq_steps)
    next
      case obj
      have "eq same x y (a # aStack) (b # bStack) \<longleftrightarrow> alike x y"
        if "(k, x) \<in> set ps" "map_of qs k = Some y" for k x y
      proof (rule less.IH)
        show "size x < size a" unfolding obj by (rule size_member [OF that(1)])
        then show "\<forall>z \<in> set (a # aStack). size x < size z" by (rule stack)
        have "(k, y) \<in> set qs" using that(2) by (rule map_of_SomeD)
        then show "wf_js x" "wf_js y" "no_ctor x" "no_ctor y"
          using less.prems that(1) by (auto simp: obj list_all_iff)
      qed
      then have "(\<forall>(k, x) \<in> set ps. \<exists>y. map_of qs k = Some y \<and> eq same x y (a # aStack) (b # bStack))
          \<longleftrightarrow> (\<forall>(k, x) \<in> set ps. \<exists>y. map_of qs k = Some y \<and> alike x y)"
        by (intro ball_cong refl) auto
      moreover have "same_ctor same ps qs" using less.prems obj by (intro same_ctor_None) simp_all
      ultimately show ?thesis using nid none unfolding obj by (simp add: eq_steps)
    next
      case prim
      with nid show ?thesis by (simp add: eq_steps(3) identical_def)
    next
      case tags
      with nid have "a \<noteq> b" "\<not> eq same a b aStack bStack" by (auto simp: eq_steps(2))
      with tags show ?thesis by (cases a; cases b; simp)
    qed
  qed
qed

text \<open>
  C26. \<open>isEqual\<close> decides equality up to the order of properties, whatever the identity of the objects
  inside: on well-formed values without an own property \<open>constructor\<close>, and with a test of
  identity that holds of equal values only, it holds exactly when both are equal primitives,
  arrays of equal elements at the same positions, or objects with the same keys and equal values
  under them.
\<close>

theorem isEqual_alike:
  assumes "\<And>x y. same x y \<Longrightarrow> x = y" and "wf_js a" and "wf_js b" and "no_ctor a" and "no_ctor b"
  shows "isEqual same a b \<longleftrightarrow> alike a b"
  using assms by (simp add: isEqual_def eq_alike)

theorem isEqual_alike_witness:
  "isEqual (\<lambda>x y. False) (JObj [(''a'', JArr [JNum 1]), (''b'', JNull)])
     (JObj [(''b'', JNull), (''a'', JArr [JNum 1])])"
  using isEqual_alike [of "\<lambda>x y. False" "JObj [(''a'', JArr [JNum 1]), (''b'', JNull)]"
      "JObj [(''b'', JNull), (''a'', JArr [JNum 1])]"]
  by simp

text \<open>
  The exception: two objects whose own property \<open>constructor\<close> holds different objects are
  unequal, even when these are equal, so \<open>isEqual\<close> is not determined by the contents there.
\<close>

theorem isEqual_constructor:
  assumes "is_ref v" and "same v v = False" and "same (JObj [(''constructor'', v)]) (JObj [(''constructor'', v)]) = False"
  shows "\<not> isEqual same (JObj [(''constructor'', v)]) (JObj [(''constructor'', v)])"
  using assms
  by (simp add: isEqual_def eq_steps(5) identical_def same_ctor_def)

theorem isEqual_constructor_witness:
  "\<not> isEqual (\<lambda>x y. False) (JObj [(''constructor'', JArr [])]) (JObj [(''constructor'', JArr [])])"
  using isEqual_constructor [of "JArr []" "\<lambda>x y. False"] by simp

end
