(* ===== verification/UnderscoreColl.thy ===== *)
theory UnderscoreColl
  imports Underscore
begin

text \<open>
  Second part of \<open>underscore-1.13.1.js\<close>: iteratees and the functions on collections. A collection
  is any value: what has a length is walked by index, everything else by its keys. A callback
  is a computation on a state \<open>'s\<close> of its own, which may throw; the binding of \<open>this\<close> is part of
  the callback.
\<close>

section \<open>Iteratees\<close>

text \<open>What is passed where a callback is expected: a function, or a value that stands for one.\<close>

datatype 's iteratee = ItFun "js \<Rightarrow> js \<Rightarrow> js \<Rightarrow> ('s, js) comp" | ItVal js

definition bool_res :: "bool res \<Rightarrow> js res" where
  "bool_res r = andThen r (\<lambda>b. Inr (JBool b))"

definition baseIteratee :: "'s iteratee \<Rightarrow> js \<Rightarrow> js \<Rightarrow> js \<Rightarrow> ('s, js) comp" where
  "baseIteratee it v k l =
     (case it of
        ItFun f \<Rightarrow> f v k l
      | ItVal w \<Rightarrow>
          if nullish w then ret v
          else if isObject w \<and> \<not> is_array w then lift (bool_res (matcher w v))
          else lift (property w v))"

definition test_c :: "'s iteratee \<Rightarrow> js \<Rightarrow> js \<Rightarrow> js \<Rightarrow> ('s, bool) comp" where
  "test_c it v k l = bind_c (baseIteratee it v k l) (\<lambda>r. ret (truthy r))"

definition negate :: "'s iteratee \<Rightarrow> 's iteratee" where
  "negate it = ItFun (\<lambda>v k l. bind_c (test_c it v k l) (\<lambda>b. ret (JBool (\<not> b))))"

section \<open>Walking a collection\<close>

definition size_of :: "js \<Rightarrow> nat" where
  "size_of obj = (case getLength obj of JNum n \<Rightarrow> nat n | _ \<Rightarrow> 0)"

text \<open>The visited keys and the values found there.\<close>

definition coll :: "js \<Rightarrow> (js \<times> js) list" where
  "coll obj =
     (if isArrayLike obj
      then map (\<lambda>i. (JNum (int i), prop_at obj (nat_str i))) [0..<size_of obj]
      else map (\<lambda>k. (JStr k, prop_at obj k)) (keys obj))"

definition each :: "js \<Rightarrow> (js \<Rightarrow> js \<Rightarrow> js \<Rightarrow> ('s, 'a) comp) \<Rightarrow> ('s, js) comp" where
  "each obj f =
     bind_c (fold_c (\<lambda>u (k, v). bind_c (f v k obj) (\<lambda>_. ret ())) () (coll obj)) (\<lambda>_. ret obj)"

definition map_u :: "js \<Rightarrow> 's iteratee \<Rightarrow> ('s, js) comp" where
  "map_u obj it = bind_c (map_c (\<lambda>(k, v). baseIteratee it v k obj) (coll obj)) (\<lambda>ys. ret (JArr ys))"

definition mapObject :: "js \<Rightarrow> 's iteratee \<Rightarrow> ('s, js) comp" where
  "mapObject obj it =
     bind_c (fold_c (\<lambda>ps k. bind_c (baseIteratee it (prop_at obj k) (JStr k) obj) (\<lambda>v.
                       lift (write_key k v ps))) [] (keys obj))
       (\<lambda>ps. ret (JObj ps))"

text \<open>\<open>createReduce(dir)\<close>: \<open>forwards\<close> is \<open>dir > 0\<close>; \<open>memo = None\<close> means it was not passed.\<close>

definition first_memo :: "bool \<Rightarrow> js \<Rightarrow> js res" where
  "first_memo forwards obj =
     (if nullish obj then Inl TypeError
      else if isArrayLike obj
      then Inr (prop_at obj (int_str (if forwards then 0 else int (size_of obj) - 1)))
      else case (if forwards then keys obj else rev (keys obj)) of
             [] \<Rightarrow> Inr (prop_at obj ''undefined'')
           | k # ks \<Rightarrow> Inr (prop_at obj k))"

definition createReduce ::
    "bool \<Rightarrow> js \<Rightarrow> (js \<Rightarrow> js \<Rightarrow> js \<Rightarrow> js \<Rightarrow> ('s, js) comp) \<Rightarrow> js option \<Rightarrow> ('s, js) comp" where
  "createReduce forwards obj f memo =
     (let es = (if forwards then coll obj else rev (coll obj));
          step = (\<lambda>m (k, v). f m v k obj)
      in case memo of
           Some m \<Rightarrow> fold_c step m es
         | None \<Rightarrow> bind_c (lift (first_memo forwards obj)) (\<lambda>m. fold_c step m (drop 1 es)))"

definition reduce where "reduce = createReduce True"

definition reduceRight where "reduceRight = createReduce False"

definition filter_u :: "js \<Rightarrow> 's iteratee \<Rightarrow> ('s, js) comp" where
  "filter_u obj it =
     bind_c (filter_c (\<lambda>(k, v). test_c it v k obj) (coll obj)) (\<lambda>es. ret (JArr (map snd es)))"

definition reject :: "js \<Rightarrow> 's iteratee \<Rightarrow> ('s, js) comp" where
  "reject obj it = filter_u obj (negate it)"

definition every :: "js \<Rightarrow> 's iteratee \<Rightarrow> ('s, bool) comp" where
  "every obj it =
     bind_c (first_c (\<lambda>(k, v). bind_c (test_c it v k obj) (\<lambda>b. ret (\<not> b))) (coll obj))
       (\<lambda>r. ret (r = None))"

definition some :: "js \<Rightarrow> 's iteratee \<Rightarrow> ('s, bool) comp" where
  "some obj it =
     bind_c (first_c (\<lambda>(k, v). test_c it v k obj) (coll obj)) (\<lambda>r. ret (r \<noteq> None))"

definition pluck :: "js \<Rightarrow> js \<Rightarrow> ('s, js) comp" where
  "pluck obj key = map_u obj (ItFun (\<lambda>v k l. lift (property key v)))"

definition where_u :: "js \<Rightarrow> js \<Rightarrow> ('s, js) comp" where
  "where_u obj attrs = filter_u obj (ItFun (\<lambda>v k l. lift (bool_res (matcher attrs v))))"

section \<open>Finding\<close>

definition findKey :: "js \<Rightarrow> 's iteratee \<Rightarrow> ('s, string option) comp" where
  "findKey obj it = first_c (\<lambda>k. test_c it (prop_at obj k) (JStr k) obj) (keys obj)"

text \<open>\<open>createPredicateIndexFinder(dir)\<close>; \<open>-1\<close> when there is none, or no length.\<close>

definition indices :: "bool \<Rightarrow> js \<Rightarrow> nat list" where
  "indices forwards array =
     (if forwards then [0..<size_of array] else rev [0..<size_of array])"

definition createPredicateIndexFinder :: "bool \<Rightarrow> js \<Rightarrow> 's iteratee \<Rightarrow> ('s, int) comp" where
  "createPredicateIndexFinder forwards array it =
     bind_c (first_c (\<lambda>i. test_c it (prop_at array (nat_str i)) (JNum (int i)) array)
               (indices forwards array))
       (\<lambda>r. ret (case r of Some i \<Rightarrow> int i | None \<Rightarrow> -1))"

definition findIndex where "findIndex = createPredicateIndexFinder True"

definition findLastIndex where "findLastIndex = createPredicateIndexFinder False"

definition find_u :: "js \<Rightarrow> 's iteratee \<Rightarrow> ('s, js) comp" where
  "find_u obj it =
     (if isArrayLike obj
      then bind_c (findIndex obj it) (\<lambda>i. ret (if i \<noteq> -1 then prop_at obj (int_str i) else JUndef))
      else bind_c (findKey obj it) (\<lambda>r. ret (case r of Some k \<Rightarrow> prop_at obj k | None \<Rightarrow> JUndef)))"

definition findWhere :: "js \<Rightarrow> js \<Rightarrow> ('s, js) comp" where
  "findWhere obj attrs = find_u obj (ItFun (\<lambda>v k l. lift (bool_res (matcher attrs v))))"

text \<open>The binary search of \<open>sortedIndex\<close>, on the half-open interval from \<open>low\<close> to \<open>high\<close>.\<close>

function sorted_loop :: "(js \<Rightarrow> ('s, js) comp) \<Rightarrow> js \<Rightarrow> js \<Rightarrow> nat \<Rightarrow> nat \<Rightarrow> ('s, nat) comp" where
  "sorted_loop f array v low high =
     (if low < high
      then
        bind_c (f (prop_at array (nat_str ((low + high) div 2)))) (\<lambda>c.
        bind_c (lift (js_less c v)) (\<lambda>lt.
          if lt then sorted_loop f array v ((low + high) div 2 + 1) high
          else sorted_loop f array v low ((low + high) div 2)))
      else ret low)"
  by pat_completeness auto
termination
  by (relation "measure (\<lambda>(f, array, v, low, high). high - low)") auto

declare sorted_loop.simps [simp del]

definition sortedIndex :: "js \<Rightarrow> js \<Rightarrow> 's iteratee \<Rightarrow> ('s, nat) comp" where
  "sortedIndex array obj it =
     (let f = (\<lambda>v. baseIteratee it v JUndef JUndef)
      in bind_c (f obj) (\<lambda>v. sorted_loop f array v 0 (size_of array)))"

text \<open>
  \<open>createIndexFinder\<close>: the position of an item, from \<open>idx\<close> on (or, backwards, up to it), where a
  truthy \<open>idx\<close> that is no number asks for the binary search. No value is \<open>NaN\<close>.
\<close>

fun find_res :: "('a \<Rightarrow> bool res) \<Rightarrow> 'a list \<Rightarrow> 'a option res" where
  "find_res p [] = Inr None"
| "find_res p (x # xs) = andThen (p x) (\<lambda>b. if b then Inr (Some x) else find_res p xs)"

definition from_position :: "int \<Rightarrow> js \<Rightarrow> int" where
  "from_position n idx = (case idx of JNum i \<Rightarrow> if 0 \<le> i then i else max (i + n) 0 | _ \<Rightarrow> 0)"

definition upto_position :: "int \<Rightarrow> js \<Rightarrow> int" where
  "upto_position n idx =
     (case idx of JNum i \<Rightarrow> if 0 \<le> i then min (i + 1) n else i + n + 1 | _ \<Rightarrow> n)"

definition scan :: "js \<Rightarrow> js \<Rightarrow> int list \<Rightarrow> int res" where
  "scan array item is =
     andThen (find_res (\<lambda>i. strict_eq (prop_at array (int_str i)) item) is)
       (\<lambda>r. Inr (case r of Some i \<Rightarrow> i | None \<Rightarrow> -1))"

definition indexOf :: "js \<Rightarrow> js \<Rightarrow> js \<Rightarrow> int res" where
  "indexOf array item idx =
     (case getLength array of
        JNum n \<Rightarrow>
          if typeof idx \<noteq> ''number'' \<and> truthy idx \<and> n \<noteq> 0
          then
            andThen (snd (sortedIndex array item (ItVal JUndef) ())) (\<lambda>i.
            andThen (strict_eq (prop_at array (nat_str i)) item) (\<lambda>b.
              Inr (if b then int i else -1)))
          else scan array item [from_position n idx..n - 1]
      | _ \<Rightarrow> Inr (-1))"

definition lastIndexOf :: "js \<Rightarrow> js \<Rightarrow> js \<Rightarrow> int res" where
  "lastIndexOf array item idx =
     (case getLength array of
        JNum n \<Rightarrow> scan array item (rev [0..upto_position n idx - 1])
      | _ \<Rightarrow> Inr (-1))"

definition contains :: "js \<Rightarrow> js \<Rightarrow> js \<Rightarrow> bool \<Rightarrow> bool res" where
  "contains obj item fromIndex guard =
     (let obj = (if isArrayLike obj then obj else JArr (values_of obj));
          from = (if typeof fromIndex \<noteq> ''number'' \<or> guard then JNum 0 else fromIndex)
      in andThen (indexOf obj item from) (\<lambda>i. Inr (0 \<le> i)))"

section \<open>Extremes, sorting and grouping\<close>

text \<open>\<open>None\<close> stands for the infinity the search starts from.\<close>

definition beyond :: "(js \<Rightarrow> js \<Rightarrow> bool res) \<Rightarrow> js \<Rightarrow> js option \<Rightarrow> bool res" where
  "beyond lt v best =
     (case best of
        None \<Rightarrow> andThen (to_num v) (\<lambda>x. Inr (x \<noteq> None))
      | Some b \<Rightarrow> lt b v)"

definition pick :: "(js \<Rightarrow> js \<Rightarrow> bool res) \<Rightarrow> js option \<Rightarrow> js \<Rightarrow> ('s, js option) comp" where
  "pick lt best v =
     (if nullish v then ret best
      else bind_c (lift (beyond lt v best)) (\<lambda>b. ret (if b then Some v else best)))"

definition plain_extreme :: "(js \<Rightarrow> js \<Rightarrow> bool res) \<Rightarrow> js list \<Rightarrow> ('s, js option) comp" where
  "plain_extreme lt vs = fold_c (pick lt) None vs"

definition extreme_step ::
    "(js \<Rightarrow> js \<Rightarrow> bool res) \<Rightarrow> 's iteratee \<Rightarrow> js \<Rightarrow> js option \<times> js option \<Rightarrow> js \<times> js \<Rightarrow>
     ('s, js option \<times> js option) comp" where
  "extreme_step lt it obj r e =
     bind_c (baseIteratee it (snd e) (fst e) obj) (\<lambda>computed.
     bind_c (lift (beyond lt computed (snd r))) (\<lambda>b.
       ret (if b then (Some (snd e), Some computed) else r)))"

definition extreme ::
    "(js \<Rightarrow> js \<Rightarrow> bool res) \<Rightarrow> js \<Rightarrow> 's iteratee \<Rightarrow> ('s, js option) comp" where
  "extreme lt obj it =
     bind_c (lift (case it of
        ItVal v \<Rightarrow>
          if nullish v then Inr True
          else if typeof v = ''number''
          then andThen (read obj ''0'') (\<lambda>x. Inr (typeof x \<noteq> ''object'' \<and> \<not> nullish obj))
          else Inr False
      | _ \<Rightarrow> Inr False)) (\<lambda>plain.
       if plain
       then plain_extreme lt (if isArrayLike obj then map snd (coll obj) else values_of obj)
       else
         bind_c (fold_c (extreme_step lt it obj) (None, None) (coll obj)) (\<lambda>r. ret (fst r)))"

definition max_u :: "js \<Rightarrow> 's iteratee \<Rightarrow> ('s, js option) comp" where
  "max_u = extreme js_less"

definition min_u :: "js \<Rightarrow> 's iteratee \<Rightarrow> ('s, js option) comp" where
  "min_u = extreme (\<lambda>a b. js_less b a)"

text \<open>The comparison of \<open>sortBy\<close> on (value, index, criteria).\<close>

definition compare_criteria :: "js \<times> nat \<times> js \<Rightarrow> js \<times> nat \<times> js \<Rightarrow> int res" where
  "compare_criteria left right =
     (let a = snd (snd left); b = snd (snd right);
          by_index = int (fst (snd left)) - int (fst (snd right))
      in andThen (strict_eq a b) (\<lambda>same.
         if same then Inr by_index
         else
           andThen (js_less b a) (\<lambda>gt.
           if gt \<or> a = JUndef then Inr 1
           else
             andThen (js_less a b) (\<lambda>lt.
             if lt \<or> b = JUndef then Inr (-1) else Inr by_index))))"

definition sort_res :: "('a \<Rightarrow> 'a \<Rightarrow> int res) \<Rightarrow> 'a list \<Rightarrow> 'a list res" where
  "sort_res cmp xs =
     (if list_all (\<lambda>x. list_all (\<lambda>y. cmp x y \<noteq> Inl OutsideModel) xs) xs
      then Inr (sort_by (\<lambda>x y. case cmp x y of Inr c \<Rightarrow> c \<le> 0 | Inl e \<Rightarrow> False) xs)
      else Inl OutsideModel)"

definition sortBy :: "js \<Rightarrow> 's iteratee \<Rightarrow> ('s, js) comp" where
  "sortBy obj it =
     bind_c (map_c (\<lambda>(i, k, v). bind_c (baseIteratee it v k obj) (\<lambda>c. ret (v, i, c)))
               (zip [0..<length (coll obj)] (coll obj)))
       (\<lambda>rows. bind_c (lift (sort_res compare_criteria rows)) (\<lambda>sorted.
          ret (JArr (map fst sorted))))"

text \<open>\<open>group\<close>: \<open>behavior\<close> adds a value under its key to the result.\<close>

definition group ::
    "('r \<Rightarrow> js \<Rightarrow> js \<Rightarrow> 'r res) \<Rightarrow> 'r \<Rightarrow> js \<Rightarrow> 's iteratee \<Rightarrow> ('s, 'r) comp" where
  "group behavior result obj it =
     fold_c (\<lambda>r (i, v). bind_c (baseIteratee it v i obj) (\<lambda>key. lift (behavior r v key)))
       result (coll obj)"

definition group_add :: "jsobj \<Rightarrow> js \<Rightarrow> js \<Rightarrow> jsobj res" where
  "group_add result v key =
     andThen (to_key key) (\<lambda>k.
       case map_of result k of
         Some (JArr vs) \<Rightarrow> write_key k (JArr (vs @ [v])) result
       | _ \<Rightarrow> write_key k (JArr [v]) result)"

definition index_add :: "jsobj \<Rightarrow> js \<Rightarrow> js \<Rightarrow> jsobj res" where
  "index_add result v key = andThen (to_key key) (\<lambda>k. write_key k v result)"

definition count_add :: "jsobj \<Rightarrow> js \<Rightarrow> js \<Rightarrow> jsobj res" where
  "count_add result v key =
     andThen (to_key key) (\<lambda>k.
       case map_of result k of
         Some (JNum n) \<Rightarrow> write_key k (JNum (n + 1)) result
       | _ \<Rightarrow> write_key k (JNum 1) result)"

definition partition_add :: "js list \<times> js list \<Rightarrow> js \<Rightarrow> js \<Rightarrow> (js list \<times> js list) res" where
  "partition_add result v pass =
     Inr (if truthy pass then (fst result @ [v], snd result) else (fst result, snd result @ [v]))"

definition groupBy :: "js \<Rightarrow> 's iteratee \<Rightarrow> ('s, jsobj) comp" where
  "groupBy = group group_add []"

definition indexBy :: "js \<Rightarrow> 's iteratee \<Rightarrow> ('s, jsobj) comp" where
  "indexBy = group index_add []"

definition countBy :: "js \<Rightarrow> 's iteratee \<Rightarrow> ('s, jsobj) comp" where
  "countBy = group count_add []"

definition partition :: "js \<Rightarrow> 's iteratee \<Rightarrow> ('s, js list \<times> js list) comp" where
  "partition = group partition_add ([], [])"

section \<open>Conversions and sampling\<close>

definition toArray :: "js \<Rightarrow> js list" where
  "toArray obj =
     (if \<not> truthy obj then []
      else case obj of
             JArr xs \<Rightarrow> xs
           | JStr s \<Rightarrow> map (\<lambda>c. JStr [c]) s
           | _ \<Rightarrow> if isArrayLike obj then map snd (coll obj) else values_of obj)"

definition size_u :: "js \<Rightarrow> int" where
  "size_u obj =
     (if nullish obj then 0
      else if isArrayLike obj then int (size_of obj)
      else int (length (keys obj)))"

text \<open>
  \<open>random\<close>: \<open>Math.random()\<close> is \<open>p / 2\<^sup>5\<^sup>3\<close> for a natural number \<open>p\<close> below \<open>2\<^sup>5\<^sup>3\<close>; the product is
  taken exactly.
\<close>

definition random :: "nat \<Rightarrow> int \<Rightarrow> int option \<Rightarrow> int" where
  "random p lo hi =
     (let (lo, hi) = (case hi of None \<Rightarrow> (0, lo) | Some h \<Rightarrow> (lo, h))
      in lo + int p * (hi - lo + 1) div 9007199254740992)"

definition swap :: "nat \<Rightarrow> nat \<Rightarrow> 'a list \<Rightarrow> 'a list" where
  "swap i j xs = (if i < length xs \<and> j < length xs then xs[i := xs ! j, j := xs ! i] else xs)"

text \<open>The loop of \<open>sample\<close>, with the numbers the calls of \<open>Math.random\<close> give.\<close>

fun sample_loop :: "nat list \<Rightarrow> nat \<Rightarrow> js list \<Rightarrow> js list" where
  "sample_loop [] index xs = xs"
| "sample_loop (p # ps) index xs =
     sample_loop ps (Suc index)
       (swap index (nat (random p (int index) (Some (int (length xs) - 1)))) xs)"

definition sample_from :: "js \<Rightarrow> js list res" where
  "sample_from obj =
     (if isArrayLike obj then (case obj of JArr xs \<Rightarrow> Inr xs | _ \<Rightarrow> Inl OutsideModel)
      else Inr (values_of obj))"

definition sample :: "(nat \<Rightarrow> nat) \<Rightarrow> js \<Rightarrow> int option \<Rightarrow> bool \<Rightarrow> js res" where
  "sample rnd obj n guard =
     (if n = None \<or> guard
      then
        let obj = (if isArrayLike obj then obj else JArr (values_of obj))
        in read obj (int_str (random (rnd 0) (int (size_of obj) - 1) None))
      else
        andThen (sample_from obj) (\<lambda>xs.
          let m = nat (max (min (the n) (int (length xs))) 0)
          in Inr (JArr (take m (sample_loop (map rnd [0..<m]) 0 xs)))))"

text \<open>\<open>shuffle\<close> samples with the bound \<open>Infinity\<close>: as many as there are.\<close>

definition shuffle :: "(nat \<Rightarrow> nat) \<Rightarrow> js \<Rightarrow> js res" where
  "shuffle rnd obj =
     andThen (sample_from obj) (\<lambda>xs. sample rnd obj (Some (int (length xs))) False)"

definition times :: "int \<Rightarrow> (js \<Rightarrow> ('s, js) comp) \<Rightarrow> ('s, js) comp" where
  "times n f = bind_c (map_c (\<lambda>i. f (JNum (int i))) [0..<nat n]) (\<lambda>ys. ret (JArr ys))"

end
