(* ===== verification/UnderscoreCollProps.thy ===== *)
theory UnderscoreCollProps
  imports UnderscoreColl
begin

text \<open>
  What the collection functions of \<open>underscore-1.13.1.js\<close> do on arrays: with callbacks that only
  compute, against the list functions of the library; with callbacks that record their calls,
  which calls are made; binary search, grouping, stable sorting, shuffling and extremes.
\<close>

section \<open>Arrays as collections\<close>

text \<open>The length of a JavaScript array is below \<open>2\<^sup>3\<^sup>2\<close>.\<close>

definition fits :: "'a list \<Rightarrow> bool" where
  "fits xs \<longleftrightarrow> length xs < 4294967296"

lemma getLength_simps [simp]:
  "getLength (JArr xs) = JNum (int (length xs))"
  "getLength (JStr t) = JNum (int (length t))"
  "getLength JUndef = JUndef" "getLength JNull = JUndef" "getLength (JBool b) = JUndef"
  "getLength (JNum n) = JUndef"
  by (simp_all add: getLength_def shallowProperty_def read_def inherited_names_def number_methods_def)

lemma size_of_arr [simp]: "size_of (JArr xs) = length xs"
  by (simp add: size_of_def)

lemma isArrayLike_arr [simp]: "fits xs \<Longrightarrow> isArrayLike (JArr xs)"
  by (simp add: isArrayLike_def fits_def)

lemma prop_at_fits [simp]: "fits xs \<Longrightarrow> i < length xs \<Longrightarrow> prop_at (JArr xs) (nat_str i) = xs ! i"
  by (simp add: fits_def)

lemma coll_arr: "fits xs \<Longrightarrow> coll (JArr xs) = map (\<lambda>i. (JNum (int i), xs ! i)) [0..<length xs]"
  by (simp add: coll_def)

lemma values_coll_arr [simp]: "fits xs \<Longrightarrow> map snd (coll (JArr xs)) = xs"
  by (simp add: coll_arr comp_def map_nth)

lemma coll_elem: "fits xs \<Longrightarrow> e \<in> set (coll (JArr xs)) \<Longrightarrow> snd e \<in> set xs"
  by (auto simp: coll_arr)

definition pure :: "(js \<Rightarrow> js) \<Rightarrow> 's iteratee" where
  "pure g = ItFun (\<lambda>v k l. ret (g v))"

lemma baseIteratee_pure [simp]: "baseIteratee (pure g) v k l = ret (g v)"
  by (simp add: baseIteratee_def pure_def)

lemma baseIteratee_fun [simp]: "baseIteratee (ItFun f) v k l = f v k l"
  by (simp add: baseIteratee_def)

lemma test_pure [simp]: "test_c (pure g) v k l = ret (truthy (g v))"
  by (simp add: test_c_def)

section \<open>Callbacks that only compute\<close>

lemma snd_filter: "map snd (filter (\<lambda>e. P (snd e)) es) = filter P (map snd es)"
  by (induction es) simp_all

lemma find_snd: "map_option snd (find (\<lambda>e. P (snd e)) es) = find P (map snd es)"
  by (induction es) simp_all

lemma find_snd_None: "find (\<lambda>e. P (snd e)) es = None \<longleftrightarrow> (\<forall>x \<in> set (map snd es). \<not> P x)"
  by (auto simp: find_None_iff)

lemma map_c_snd: "map_c (\<lambda>(k, v). ret (g v)) es = ret (map g (map snd es))"
  by (subst map_c_pure [where g = "\<lambda>e. g (snd e)"]) (auto simp: case_prod_beta comp_def)

lemma filter_c_snd: "filter_c (\<lambda>(k, v). ret (P v)) es = ret (filter (\<lambda>e. P (snd e)) es)"
  by (rule filter_c_pure) (simp add: case_prod_beta)

lemma first_c_snd: "first_c (\<lambda>(k, v). ret (P v)) es = ret (find (\<lambda>e. P (snd e)) es)"
  by (rule first_c_pure) (simp add: case_prod_beta)

lemma fold_c_snd: "fold_c (\<lambda>m (k, v). ret (h m v)) m es = ret (foldl h m (map snd es))"
  by (induction es arbitrary: m) (simp_all add: case_prod_beta)

lemma map_u_pure [simp]: "fits xs \<Longrightarrow> map_u (JArr xs) (pure g) = ret (JArr (map g xs))"
  using values_coll_arr [of xs] by (simp add: map_u_def map_c_snd del: map_map)

lemma filter_u_pure [simp]:
  "fits xs \<Longrightarrow> filter_u (JArr xs) (pure g) = ret (JArr (filter (\<lambda>x. truthy (g x)) xs))"
  using values_coll_arr [of xs]
  by (simp add: filter_u_def filter_c_snd snd_filter [where P = "\<lambda>x. truthy (g x)"])

lemma negate_pure: "negate (pure g) = pure (\<lambda>v. JBool (\<not> truthy (g v)))"
  by (simp add: negate_def pure_def test_c_def)

lemma some_pure [simp]:
  "fits xs \<Longrightarrow> some (JArr xs) (pure g) = ret (\<exists>x \<in> set xs. truthy (g x))"
  using find_snd_None [of "\<lambda>x. truthy (g x)" "coll (JArr xs)"] values_coll_arr [of xs]
  by (simp add: some_def first_c_snd del: set_map not_None_eq)

lemma every_pure [simp]:
  "fits xs \<Longrightarrow> every (JArr xs) (pure g) = ret (\<forall>x \<in> set xs. truthy (g x))"
  using find_snd_None [of "\<lambda>x. \<not> truthy (g x)" "coll (JArr xs)"] values_coll_arr [of xs]
  by (simp add: every_def first_c_snd [where P = "\<lambda>x. \<not> truthy (g x)"] del: set_map)

lemma reduce_pure:
  assumes "fits xs"
  shows "createReduce True (JArr xs) (\<lambda>m v k l. ret (h m v)) (Some m) = ret (foldl h m xs)"
    and "createReduce False (JArr xs) (\<lambda>m v k l. ret (h m v)) (Some m) = ret (foldr (\<lambda>v m. h m v) xs m)"
  using values_coll_arr [OF assms]
  by (simp_all add: createReduce_def fold_c_snd foldr_conv_foldl flip: rev_map)

lemma first_indices:
  assumes "fits xs" "set is \<subseteq> {0..<length xs}"
  shows "first_c (\<lambda>i. test_c (pure g) (prop_at (JArr xs) (nat_str i)) (JNum (int i)) l) is
    = ret (find (\<lambda>i. truthy (g (xs ! i))) is)"
  using assms by (intro first_c_pure) auto

lemma findIndex_pure:
  assumes "fits xs"
  shows "findIndex (JArr xs) (pure g) =
    ret (case find (\<lambda>i. truthy (g (xs ! i))) [0..<length xs] of Some i \<Rightarrow> int i | None \<Rightarrow> -1)"
    and "findLastIndex (JArr xs) (pure g) =
    ret (case find (\<lambda>i. truthy (g (xs ! i))) (rev [0..<length xs]) of Some i \<Rightarrow> int i | None \<Rightarrow> -1)"
  by (simp_all add: findIndex_def findLastIndex_def createPredicateIndexFinder_def indices_def
      first_indices [OF assms] atLeast0LessThan del: test_pure)

lemma find_upt:
  "find (\<lambda>i. P (xs ! i)) [0..<length xs] = Some i \<Longrightarrow> i < length xs \<and> find P xs = Some (xs ! i)"
proof (induction xs arbitrary: i)
  case (Cons x xs)
  have u: "[0..<Suc (length xs)] = 0 # map Suc [0..<length xs]"
    by (simp add: upt_conv_Cons map_Suc_upt del: upt_Suc)
  have m: "find (\<lambda>i. P ((x # xs) ! i)) (map Suc is) = map_option Suc (find (\<lambda>i. P (xs ! i)) is)" for "is"
    by (induction "is") simp_all
  show ?case
  proof (cases "P x")
    case True
    with Cons.prems show ?thesis by (simp add: u del: upt_Suc)
  next
    case False
    with Cons.prems obtain j where "find (\<lambda>i. P (xs ! i)) [0..<length xs] = Some j" "i = Suc j"
      by (auto simp: u m simp del: upt_Suc)
    with Cons.IH False show ?thesis by auto
  qed
qed simp

lemma find_u_pure [simp]:
  assumes "fits xs"
  shows "find_u (JArr xs) (pure g) =
    ret (case find (\<lambda>x. truthy (g x)) xs of Some x \<Rightarrow> x | None \<Rightarrow> JUndef)"
proof (cases "find (\<lambda>i. truthy (g (xs ! i))) [0..<length xs]")
  case None
  then have "\<not> (\<exists>x \<in> set xs. truthy (g x))" by (auto simp: find_None_iff in_set_conv_nth)
  then have "find (\<lambda>x. truthy (g x)) xs = None" by (simp add: find_None_iff)
  with None assms show ?thesis by (simp add: find_u_def findIndex_pure)
next
  case (Some i)
  then have "i < length xs" "find (\<lambda>x. truthy (g x)) xs = Some (xs ! i)"
    using find_upt [of "\<lambda>x. truthy (g x)" xs i] by auto
  with Some assms show ?thesis by (simp add: find_u_def findIndex_pure int_str_def)
qed

text \<open>
  On arrays, with callbacks that only compute, the collection functions are the list
  functions they are named after: \<open>map\<close>, \<open>filter\<close> and \<open>reject\<close> keep the order, \<open>every\<close>, \<open>some\<close>
  and \<open>find\<close> decide and find the first, \<open>reduce\<close> folds from the left and \<open>reduceRight\<close> from
  the right.
\<close>

lemma collections_are_lists:
  assumes "fits xs"
  shows "map_u (JArr xs) (pure g) = ret (JArr (map g xs))
    \<and> filter_u (JArr xs) (pure g) = ret (JArr (filter (\<lambda>x. truthy (g x)) xs))
    \<and> reject (JArr xs) (pure g) = ret (JArr (filter (\<lambda>x. \<not> truthy (g x)) xs))
    \<and> every (JArr xs) (pure g) = ret (\<forall>x \<in> set xs. truthy (g x))
    \<and> some (JArr xs) (pure g) = ret (\<exists>x \<in> set xs. truthy (g x))
    \<and> find_u (JArr xs) (pure g)
        = ret (case find (\<lambda>x. truthy (g x)) xs of Some x \<Rightarrow> x | None \<Rightarrow> JUndef)
    \<and> reduce (JArr xs) (\<lambda>m v k l. ret (h m v)) (Some m) = ret (foldl h m xs)
    \<and> reduceRight (JArr xs) (\<lambda>m v k l. ret (h m v)) (Some m) = ret (foldr (\<lambda>v m. h m v) xs m)"
  using assms
  by (simp add: reduce_def reduceRight_def reduce_pure reject_def negate_pure comp_def)

lemma collections_are_lists_witness:
  "(map_u (JArr [JNum 0, JNum 1]) (pure (\<lambda>v. JArr [v])) :: (unit, js) comp)
     = ret (JArr [JArr [JNum 0], JArr [JNum 1]])"
  using collections_are_lists [of "[JNum 0, JNum 1]" "\<lambda>v. JArr [v]"] by (simp add: fits_def)

section \<open>Which calls are made\<close>

text \<open>A callback that records the values it is called with.\<close>

definition logging :: "(js \<Rightarrow> js) \<Rightarrow> js list iteratee" where
  "logging g = ItFun (\<lambda>v k l s. (s @ [v], Inr (g v)))"

definition until_first :: "('a \<Rightarrow> bool) \<Rightarrow> 'a list \<Rightarrow> 'a list" where
  "until_first P xs = takeWhile (\<lambda>x. \<not> P x) xs @ take 1 (dropWhile (\<lambda>x. \<not> P x) xs)"

lemma test_logging: "test_c (logging g) v k l = (\<lambda>s. (s @ [v], Inr (truthy (g v))))"
  by (simp add: test_c_def baseIteratee_def logging_def bind_c_def ret_def)

lemma first_c_logging:
  "first_c (\<lambda>(k, v) s. (s @ [v], Inr (P v))) es s
     = (s @ until_first P (map snd es), Inr (find (\<lambda>e. P (snd e)) es))"
proof (induction es arbitrary: s)
  case (Cons e es)
  then show ?case by (cases e) (simp add: bind_c_def until_first_def ret_def)
qed (simp add: until_first_def ret_def)

lemma fold_c_logging:
  "fold_c (\<lambda>ys e. bind_c (\<lambda>s. (s @ [snd e], Inr (g (snd e)))) (\<lambda>y. ret (h ys e y))) acc es s
     = (s @ map snd es, Inr (foldl (\<lambda>ys e. h ys e (g (snd e))) acc es))"
  by (induction es arbitrary: acc s) (simp_all add: bind_c_def ret_def)

lemma foldl_snoc: "foldl (\<lambda>ys e. ys @ [f e]) acc es = acc @ map f es"
  by (induction es arbitrary: acc) simp_all

text \<open>
  The calls that are made: \<open>map\<close> calls its callback on every element in order; \<open>some\<close>
  calls it up to the first element that passes, \<open>every\<close> up to the first that fails, and none
  after it. A callback that throws ends the loop at once with its exception.
\<close>

theorem calls_made:
  assumes "fits xs"
  shows "map_u (JArr xs) (logging g) s = (s @ xs, Inr (JArr (map g xs)))
    \<and> some (JArr xs) (logging g) s
        = (s @ until_first (\<lambda>x. truthy (g x)) xs, Inr (\<exists>x \<in> set xs. truthy (g x)))
    \<and> every (JArr xs) (logging g) s
        = (s @ until_first (\<lambda>x. \<not> truthy (g x)) xs, Inr (\<forall>x \<in> set xs. truthy (g x)))
    \<and> (xs \<noteq> [] \<longrightarrow> map_u (JArr xs) (ItFun (\<lambda>v k l. raise e)) s = (s, Inl e))"
proof (intro conjI)
  show "map_u (JArr xs) (logging g) s = (s @ xs, Inr (JArr (map g xs)))"
  proof -
    have "map_c (\<lambda>(k, v). baseIteratee (logging g) v k (JArr xs)) (coll (JArr xs)) s
        = (s @ map snd (coll (JArr xs)), Inr (map (\<lambda>e. g (snd e)) (coll (JArr xs))))"
    proof -
      have "(\<lambda>(k, v). baseIteratee (logging g) v k (JArr xs)) = (\<lambda>e s. (s @ [snd e], Inr (g (snd e))))"
        by (auto simp: fun_eq_iff logging_def)
      then show ?thesis
        using fold_c_logging [of g "\<lambda>ys e y. ys @ [y]" "[]" "coll (JArr xs)" s]
        by (simp only: map_c_def foldl_snoc append_Nil)
    qed
    moreover have "map (\<lambda>e. g (snd e)) es = map g (map snd es)" for es :: "(js \<times> js) list" by simp
    then have "map (\<lambda>e. g (snd e)) (coll (JArr xs)) = map g xs"
      by (simp only: values_coll_arr [OF assms])
    ultimately show ?thesis
      using values_coll_arr [OF assms] by (simp add: map_u_def bind_Inr ret_def del: map_map)
  qed
  show "some (JArr xs) (logging g) s
      = (s @ until_first (\<lambda>x. truthy (g x)) xs, Inr (\<exists>x \<in> set xs. truthy (g x)))"
    using first_c_logging [of "\<lambda>v. truthy (g v)" "coll (JArr xs)" s] values_coll_arr [OF assms]
      find_snd_None [of "\<lambda>x. truthy (g x)" "coll (JArr xs)"]
    by (simp add: some_def test_logging bind_Inr ret_def case_prod_beta del: set_map not_None_eq)
  show "every (JArr xs) (logging g) s
      = (s @ until_first (\<lambda>x. \<not> truthy (g x)) xs, Inr (\<forall>x \<in> set xs. truthy (g x)))"
  proof -
    have "(\<lambda>(k, v). bind_c (test_c (logging g) v k (JArr xs)) (\<lambda>b. ret (\<not> b)))
        = (\<lambda>(k, v) s. (s @ [v], Inr (\<not> truthy (g v))))"
      by (simp add: test_logging bind_c_def ret_def fun_eq_iff)
    then show ?thesis
      using first_c_logging [of "\<lambda>v. \<not> truthy (g v)" "coll (JArr xs)" s] values_coll_arr [OF assms]
        find_snd_None [of "\<lambda>x. \<not> truthy (g x)" "coll (JArr xs)"]
      by (simp add: every_def bind_Inr ret_def del: set_map not_None_eq)
  qed
  show "xs \<noteq> [] \<longrightarrow> map_u (JArr xs) (ItFun (\<lambda>v k l. raise e)) s = (s, Inl e)"
  proof
    assume "xs \<noteq> []"
    then obtain x es where "coll (JArr xs) = x # es"
      using values_coll_arr [OF assms] by (cases "coll (JArr xs)") auto
    then show "map_u (JArr xs) (ItFun (\<lambda>v k l. raise e)) s = (s, Inl e)"
      by (cases x) (simp add: map_u_def map_c_def, simp add: run_laws)
  qed
qed

theorem calls_made_witness:
  "some (JArr [JNum 0, JNum 1, JNum 2]) (logging id) [] = ([JNum 0, JNum 1], Inr True)"
  using calls_made [of "[JNum 0, JNum 1, JNum 2]" id "[]" TypeError] by (simp add: fits_def until_first_def)

section \<open>Binary search\<close>

definition smaller :: "int list \<Rightarrow> int \<Rightarrow> nat" where
  "smaller ns n = length (filter (\<lambda>m. m < n) ns)"

lemma sorted_smaller: "sorted ns \<Longrightarrow> i < length ns \<Longrightarrow> ns ! i < n \<longleftrightarrow> i < smaller ns n"
proof (induction ns arbitrary: i)
  case (Cons m ns)
  show ?case
  proof (cases "m < n")
    case True
    with Cons show ?thesis by (cases i) (simp_all add: smaller_def)
  next
    case False
    with Cons.prems have "\<forall>x \<in> set ns. \<not> x < n" by auto
    with False Cons.prems(2) show ?thesis by (cases i) (simp_all add: smaller_def filter_empty_conv)
  qed
qed simp

lemma smaller_le: "smaller ns n \<le> length ns"
  by (simp add: smaller_def)

lemma sorted_loop_smaller:
  assumes "sorted ns" "fits ns" "high \<le> length ns" "low \<le> smaller ns n" "smaller ns n \<le> high"
  shows "sorted_loop (\<lambda>v. ret v) (JArr (map JNum ns)) (JNum n) low high
    = (ret (smaller ns n) :: ('s, nat) comp)"
  using assms(3-)
proof (induction "high - low" arbitrary: low high rule: less_induct)
  case less
  let ?mid = "(low + high) div 2"
  show ?case
  proof (cases "low < high")
    case True
    then have mid: "low \<le> ?mid" "?mid < high" "?mid < length ns" using less.prems by auto
    have get: "prop_at (JArr (map JNum ns)) (nat_str ?mid) = JNum (ns ! ?mid)"
      using mid assms(2) by (simp add: fits_def)
    show ?thesis
    proof (cases "ns ! ?mid < n")
      case lt: True
      then have "?mid < smaller ns n" using sorted_smaller [OF assms(1) mid(3)] by simp
      then have "sorted_loop (\<lambda>v. ret v) (JArr (map JNum ns)) (JNum n) (?mid + 1) high
          = (ret (smaller ns n) :: ('s, nat) comp)"
        using less.prems mid by (intro less.hyps) auto
      with True lt show ?thesis by (subst sorted_loop.simps) (simp add: get)
    next
      case ge: False
      then have "smaller ns n \<le> ?mid" using sorted_smaller [OF assms(1) mid(3)] by simp
      then have "sorted_loop (\<lambda>v. ret v) (JArr (map JNum ns)) (JNum n) low ?mid
          = (ret (smaller ns n) :: ('s, nat) comp)"
        using less.prems mid by (intro less.hyps) auto
      with True ge show ?thesis by (subst sorted_loop.simps) (simp add: get)
    qed
  next
    case False
    with less.prems have "low = smaller ns n" by simp
    with False show ?thesis by (subst sorted_loop.simps) simp
  qed
qed

lemma sortedIndex_smaller:
  assumes "sorted ns" "fits ns"
  shows "sortedIndex (JArr (map JNum ns)) (JNum n) (ItVal JUndef) = ret (smaller ns n)"
  by (simp add: sortedIndex_def baseIteratee_def sorted_loop_smaller assms smaller_le)

lemma find_res_int:
  "find_res (\<lambda>i. Inr (P i)) is = Inr (find P is)"
  by (induction "is") simp_all

lemma find_res_cong: "(\<And>x. x \<in> set xs \<Longrightarrow> p x = q x) \<Longrightarrow> find_res p xs = find_res q xs"
  by (induction xs) (auto simp: andThen_def split: sum.split)

lemma find_smaller:
  assumes "sorted ns"
  shows "find (\<lambda>i. ns ! nat i = n) [0..int (length ns) - 1]
    = (if smaller ns n < length ns \<and> ns ! smaller ns n = n then Some (int (smaller ns n)) else None)"
proof -
  let ?s = "smaller ns n"
  have lower: "ns ! i \<noteq> n" if "i < ?s" for i
    using that sorted_smaller [OF assms, of i n] smaller_le [of ns n] by auto
  show ?thesis
  proof (cases "?s < length ns \<and> ns ! ?s = n")
    case True
    have "[0..int (length ns) - 1] = [0..int ?s - 1] @ int ?s # [int ?s + 1..int (length ns) - 1]"
      using True by (metis (no_types, lifting) add.commute add_diff_cancel_left' int_nat_eq
          of_nat_0_le_iff of_nat_less_iff upto_rec1 upto_split1 zle_diff1_eq)
    moreover have "find (\<lambda>i. ns ! nat i = n) [0..int ?s - 1] = None"
      using lower by (auto simp: find_None_iff)
    moreover have "find P (us @ x # vs) = Some x" if "find P us = None" "P x" for P us vs and x :: int
      using that by (induction us) (auto split: if_splits)
    ultimately show ?thesis using True by simp
  next
    case False
    have "ns ! j \<noteq> n" if "j < length ns" for j
    proof
      assume j: "ns ! j = n"
      then have "?s \<le> j" using lower [of j] by (cases "?s \<le> j") auto
      then have "ns ! ?s \<le> n" using assms that j by (auto simp: sorted_iff_nth_mono)
      moreover have "?s < length ns" using \<open>?s \<le> j\<close> that by simp
      then have "\<not> ns ! ?s < n" using sorted_smaller [OF assms, of ?s n] by simp
      ultimately show False using False \<open>?s < length ns\<close> by simp
    qed
    then have "find (\<lambda>i. ns ! nat i = n) [0..int (length ns) - 1] = None"
      by (auto simp: find_None_iff nat_less_iff)
    with False show ?thesis by simp
  qed
qed

text \<open>
  C27. On a sorted array of numbers the binary search finds the number of smaller elements, so
  the first place to insert at; and looking an item up with it (\<open>isSorted\<close>) gives the same
  position, or \<open>-1\<close>, as the linear search.
\<close>

theorem binary_search_correct:
  assumes "sorted ns" and "fits ns"
  shows "sortedIndex (JArr (map JNum ns)) (JNum n) (ItVal JUndef)
           = (ret (length (filter (\<lambda>m. m < n) ns)) :: ('s, nat) comp)
         \<and> indexOf (JArr (map JNum ns)) (JNum n) (JBool True)
             = indexOf (JArr (map JNum ns)) (JNum n) JUndef"
proof
  show "sortedIndex (JArr (map JNum ns)) (JNum n) (ItVal JUndef)
      = (ret (length (filter (\<lambda>m. m < n) ns)) :: ('s, nat) comp)"
    using sortedIndex_smaller [OF assms] by (simp add: smaller_def)
  let ?s = "smaller ns n"
  have at: "prop_at (JArr (map JNum ns)) (nat_str i) = JNum (ns ! i)" if "i < length ns" for i
    using that assms(2) by (simp add: fits_def)
  have lin: "indexOf (JArr (map JNum ns)) (JNum n) JUndef =
      Inr (if ?s < length ns \<and> ns ! ?s = n then int ?s else -1)"
  proof -
    have "find_res (\<lambda>i. strict_eq (prop_at (JArr (map JNum ns)) (int_str i)) (JNum n)) [0..int (length ns) - 1]
        = find_res (\<lambda>i. Inr (ns ! nat i = n)) [0..int (length ns) - 1]"
      by (rule find_res_cong) (auto simp: int_str_def at nat_less_iff)
    then show ?thesis
      by (simp add: indexOf_def scan_def from_position_def find_res_int find_smaller [OF assms(1)])
  qed
  show "indexOf (JArr (map JNum ns)) (JNum n) (JBool True)
      = indexOf (JArr (map JNum ns)) (JNum n) JUndef"
  proof (cases "ns = []")
    case True
    then show ?thesis by (simp add: indexOf_def from_position_def)
  next
    case False
    show ?thesis
    proof (cases "?s < length ns")
      case True
      with False lin show ?thesis
        by (simp add: indexOf_def sortedIndex_smaller [OF assms] run_laws at)
    next
      case ge: False
      then have "?s = length ns" using smaller_le [of ns n] by simp
      moreover have "prop_at (JArr (map JNum ns)) (nat_str (length ns)) = JUndef"
        by (rule prop_beyond) simp
      ultimately show ?thesis using False lin
        by (simp add: indexOf_def sortedIndex_smaller [OF assms] run_laws)
    qed
  qed
qed

theorem binary_search_correct_witness:
  "indexOf (JArr (map JNum [1, 3, 3, 8])) (JNum 3) (JBool True) = indexOf (JArr (map JNum [1, 3, 3, 8])) (JNum 3) JUndef"
  by (rule binary_search_correct [THEN conjunct2]) (simp_all add: fits_def)

section \<open>Grouping\<close>

lemma group_fold:
  "fold_c (\<lambda>r (i, v). bind_c (ret (g v)) (\<lambda>key. lift (behavior r v key))) r es
     = fold_c (\<lambda>r v. lift (behavior r v (g v))) r (map snd es)"
  by (induction es arbitrary: r) (simp_all add: case_prod_beta)

lemma group_snd:
  "fits xs \<Longrightarrow> group behavior r (JArr xs) (pure g) = fold_c (\<lambda>r v. lift (behavior r v (g v))) r xs"
  by (simp add: group_def group_fold del: bind_laws)

text \<open>A grouping whose steps succeed keeps an invariant that says what each key holds.\<close>

lemma fold_c_invariant:
  assumes "\<And>r v us. I us r \<Longrightarrow> \<exists>r'. f r v = ret r' \<and> I (us @ [v]) r'" and "I [] r"
  shows "\<exists>r'. fold_c f r xs = ret r' \<and> I xs r'"
proof -
  have "I us r \<Longrightarrow> \<exists>r'. fold_c f r xs = ret r' \<and> I (us @ xs) r'" for us r
  proof (induction xs arbitrary: us r)
    case (Cons x xs)
    obtain r1 where r1: "f r x = ret r1" "I (us @ [x]) r1" using assms(1) [OF Cons.prems] by blast
    obtain r2 where "fold_c f r1 xs = ret r2" "I ((us @ [x]) @ xs) r2" using Cons.IH [OF r1(2)] by blast
    with r1(1) show ?case by auto
  qed simp
  then show ?thesis using assms(2) by fastforce
qed

definition grouped :: "(js \<Rightarrow> string) \<Rightarrow> (js list \<Rightarrow> js) \<Rightarrow> js list \<Rightarrow> jsobj \<Rightarrow> bool" where
  "grouped key val xs ps \<longleftrightarrow> distinct (map fst ps) \<and>
     (\<forall>k. map_of ps k =
        (if k \<in> key ` set xs then Some (val (filter (\<lambda>x. key x = k) xs)) else None))"

lemma grouped_look:
  "grouped key val us ps \<Longrightarrow>
     (key v \<in> key ` set us \<longrightarrow> map_of ps (key v) = Some (val (filter (\<lambda>x. key x = key v) us)))
     \<and> (key v \<notin> key ` set us \<longrightarrow> map_of ps (key v) = None \<and> filter (\<lambda>x. key x = key v) us = [])"
proof (intro conjI impI)
  assume g: "grouped key val us ps"
  show "key v \<in> key ` set us \<Longrightarrow> map_of ps (key v) = Some (val (filter (\<lambda>x. key x = key v) us))"
    "key v \<notin> key ` set us \<Longrightarrow> map_of ps (key v) = None"
    using g by (simp_all add: grouped_def)
  assume "key v \<notin> key ` set us"
  then have "key x \<noteq> key v" if "x \<in> set us" for x using that by (metis imageI)
  then show "filter (\<lambda>x. key x = key v) us = []" by (simp add: filter_empty_conv)
qed

lemma grouped_step:
  assumes "grouped key val us ps" and "v' = val (filter (\<lambda>x. key x = key v) (us @ [v]))"
  shows "grouped key val (us @ [v]) (AList.update (key v) v' ps)"
  using assms by (auto simp: grouped_def distinct_update)

lemma partition_fold:
  "fold_c (\<lambda>r v. lift (partition_add r v (g v))) (us, vs) xs
     = ret (us @ filter (\<lambda>x. truthy (g x)) xs, vs @ filter (\<lambda>x. \<not> truthy (g x)) xs)"
  by (induction xs arbitrary: us vs) (simp_all add: partition_add_def)

text \<open>
  Grouping an array by a key: \<open>groupBy\<close> holds under each key that occurs exactly the
  elements with this key, in order; \<open>countBy\<close> holds their number and \<open>indexBy\<close> the last of
  them; \<open>partition\<close> separates the elements that pass from the others and keeps both in order.
\<close>

theorem grouping_by_key:
  assumes "fits xs" and "\<And>x. key x \<noteq> ''__proto__''"
  shows "(\<exists>ps. groupBy (JArr xs) (pure (JStr \<circ> key)) = ret ps \<and> grouped key JArr xs ps)
    \<and> (\<exists>ps. countBy (JArr xs) (pure (JStr \<circ> key)) = ret ps
           \<and> grouped key (\<lambda>vs. JNum (int (length vs))) xs ps)
    \<and> (\<exists>ps. indexBy (JArr xs) (pure (JStr \<circ> key)) = ret ps \<and> grouped key last xs ps)
    \<and> partition (JArr xs) (pure g)
        = ret (filter (\<lambda>x. truthy (g x)) xs, filter (\<lambda>x. \<not> truthy (g x)) xs)"
proof (intro conjI)
  show "\<exists>ps. groupBy (JArr xs) (pure (JStr \<circ> key)) = ret ps \<and> grouped key JArr xs ps"
    unfolding groupBy_def group_snd [OF assms(1)]
  proof (rule fold_c_invariant)
    fix ps v us
    assume inv: "grouped key JArr us ps"
    have "group_add ps v (JStr (key v)) =
        Inr (AList.update (key v) (JArr (filter (\<lambda>x. key x = key v) (us @ [v]))) ps)"
      using grouped_look [OF inv, of v] assms(2)
      by (cases "key v \<in> key ` set us") (simp_all add: group_add_def write_key_def)
    then show "\<exists>ps'. lift (group_add ps v ((JStr \<circ> key) v)) = ret ps' \<and> grouped key JArr (us @ [v]) ps'"
      using grouped_step [OF inv refl] by auto
  qed (simp add: grouped_def)
  show "\<exists>ps. countBy (JArr xs) (pure (JStr \<circ> key)) = ret ps
      \<and> grouped key (\<lambda>vs. JNum (int (length vs))) xs ps"
    unfolding countBy_def group_snd [OF assms(1)]
  proof (rule fold_c_invariant)
    fix ps v us
    assume inv: "grouped key (\<lambda>vs. JNum (int (length vs))) us ps"
    have "count_add ps v (JStr (key v)) =
        Inr (AList.update (key v) (JNum (int (length (filter (\<lambda>x. key x = key v) (us @ [v]))))) ps)"
      using grouped_look [OF inv, of v] assms(2)
      by (cases "key v \<in> key ` set us") (simp_all add: count_add_def write_key_def add.commute)
    then show "\<exists>ps'. lift (count_add ps v ((JStr \<circ> key) v)) = ret ps'
        \<and> grouped key (\<lambda>vs. JNum (int (length vs))) (us @ [v]) ps'"
      using grouped_step [OF inv refl] by auto
  qed (simp add: grouped_def)
  show "\<exists>ps. indexBy (JArr xs) (pure (JStr \<circ> key)) = ret ps \<and> grouped key last xs ps"
    unfolding indexBy_def group_snd [OF assms(1)]
  proof (rule fold_c_invariant)
    fix ps v us
    assume inv: "grouped key last us ps"
    show "\<exists>ps'. lift (index_add ps v ((JStr \<circ> key) v)) = ret ps' \<and> grouped key last (us @ [v]) ps'"
      using grouped_step [OF inv, of v v] assms(2) by (simp add: index_add_def write_key_def)
  qed (simp add: grouped_def)
  show "partition (JArr xs) (pure g)
      = ret (filter (\<lambda>x. truthy (g x)) xs, filter (\<lambda>x. \<not> truthy (g x)) xs)"
    by (simp add: partition_def group_snd [OF assms(1)] partition_fold)
qed

theorem grouping_by_key_witness:
  "\<exists>ps. (groupBy (JArr [JNum 1, JNum 2, JNum 3]) (pure (JStr \<circ> (\<lambda>v. if v = JNum 2 then ''even'' else ''odd'')))
       :: (unit, jsobj) comp) = ret ps \<and> map_of ps ''odd'' = Some (JArr [JNum 1, JNum 3])"
proof -
  let ?key = "\<lambda>v. if v = JNum 2 then ''even'' else ''odd''"
  obtain ps where "(groupBy (JArr [JNum 1, JNum 2, JNum 3]) (pure (JStr \<circ> ?key)) :: (unit, jsobj) comp) = ret ps"
    and "grouped ?key JArr [JNum 1, JNum 2, JNum 3] ps"
  proof -
    have "\<exists>ps. (groupBy (JArr [JNum 1, JNum 2, JNum 3]) (pure (JStr \<circ> ?key)) :: (unit, jsobj) comp) = ret ps
        \<and> grouped ?key JArr [JNum 1, JNum 2, JNum 3] ps"
      by (rule grouping_by_key [THEN conjunct1]) (simp_all add: fits_def)
    then show thesis using that by blast
  qed
  then show ?thesis by (auto simp: grouped_def)
qed

section \<open>Sorting\<close>

lemma compare_numbers:
  "compare_criteria (v, i, JNum m) (w, j, JNum n) =
     Inr (if m = n then int i - int j else if n < m then 1 else -1)"
  by (simp add: compare_criteria_def)

text \<open>The order of the rows: by criterion, then by position.\<close>

definition row_le :: "(js \<Rightarrow> int) \<Rightarrow> js \<times> nat \<times> js \<Rightarrow> js \<times> nat \<times> js \<Rightarrow> bool" where
  "row_le c r s \<longleftrightarrow> c (fst r) < c (fst s) \<or> c (fst r) = c (fst s) \<and> fst (snd r) \<le> fst (snd s)"

definition rows_of :: "(js \<Rightarrow> int) \<Rightarrow> js list \<Rightarrow> (js \<times> nat \<times> js) list" where
  "rows_of c xs = map (\<lambda>(i, v). (v, i, JNum (c v))) (zip [0..<length xs] xs)"

lemma rows_simps:
  "map fst (rows_of c xs) = xs" "map (fst \<circ> snd) (rows_of c xs) = [0..<length xs]"
proof -
  have "map fst (rows_of c xs) = map snd (zip [0..<length xs] xs)"
    by (simp add: rows_of_def case_prod_beta comp_def)
  then show "map fst (rows_of c xs) = xs" by simp
  have "map (fst \<circ> snd) (rows_of c xs) = map fst (zip [0..<length xs] xs)"
    by (simp add: rows_of_def case_prod_beta comp_def)
  then show "map (fst \<circ> snd) (rows_of c xs) = [0..<length xs]" by simp
qed

lemma sort_rows: "sort_res compare_criteria (rows_of c xs) = Inr (sort_by (row_le c) (rows_of c xs))"
proof -
  have cmp: "\<exists>d. compare_criteria r s = Inr d \<and> (d \<le> 0 \<longleftrightarrow> row_le c r s)"
    if "r \<in> set (rows_of c xs)" "s \<in> set (rows_of c xs)" for r s
  proof -
    obtain v i w j where "r = (v, i, JNum (c v))" "s = (w, j, JNum (c w))"
      using \<open>r \<in> _\<close> \<open>s \<in> _\<close> by (auto simp: rows_of_def)
    then show ?thesis by (auto simp: compare_numbers row_le_def)
  qed
  then have "list_all (\<lambda>x. list_all (\<lambda>y. compare_criteria x y \<noteq> Inl OutsideModel) (rows_of c xs)) (rows_of c xs)"
    by (fastforce simp: list_all_iff)
  moreover have "sort_by (\<lambda>x y. case compare_criteria x y of Inr c \<Rightarrow> c \<le> 0 | Inl e \<Rightarrow> False) (rows_of c xs)
      = sort_by (row_le c) (rows_of c xs)"
    using cmp by (intro sort_by_cong) fastforce
  ultimately show ?thesis by (simp add: sort_res_def)
qed

lemma sorted_rows_stable: "map fst (sort_by (row_le c) (rows_of c xs)) = sort_key c xs"
proof (rule properties_for_sort_key [symmetric])
  let ?rows = "rows_of c xs"
  let ?S = "sort_by (row_le c) ?rows"
  have S: "sorted_wrt (row_le c) ?S"
    by (rule sorted_sort_by) (auto simp: row_le_def transp_def)
  have "mset (map fst ?S) = mset (map fst ?rows)" by simp
  then show "mset (map fst ?S) = mset xs" by (simp only: rows_simps)
  have "sorted_wrt (\<lambda>r s. c (fst r) \<le> c (fst s)) ?S"
    by (rule sorted_wrt_mono_rel [OF _ S]) (auto simp: row_le_def)
  then show "sorted (map c (map fst ?S))" by (simp add: sorted_map)
  fix k
  let ?P = "\<lambda>r. c k = c (fst r)"
  have dist: "distinct (map (fst \<circ> snd) ?rows)" by (simp only: rows_simps distinct_upt)
  have "mset (map (fst \<circ> snd) ?S) = mset (map (fst \<circ> snd) ?rows)" by simp
  then have distS: "distinct (map (fst \<circ> snd) ?S)" using dist mset_eq_imp_distinct_iff by blast
  have "filter ?P ?S = filter ?P ?rows"
  proof (rule map_sorted_distinct_set_unique [where f = "fst \<circ> snd"])
    show "inj_on (fst \<circ> snd) (set (filter ?P ?S) \<union> set (filter ?P ?rows))"
      using dist by (auto simp: distinct_map intro: inj_on_subset)
    show "distinct (map (fst \<circ> snd) (filter ?P ?S))" "distinct (map (fst \<circ> snd) (filter ?P ?rows))"
      using dist distS by (simp_all add: distinct_map_filter)
    have "sorted_wrt (row_le c) (filter ?P ?S)" by (rule sorted_wrt_filter [OF S])
    then have "sorted_wrt (\<lambda>r s. fst (snd r) \<le> fst (snd s)) (filter ?P ?S)"
      by (rule sorted_wrt_mono_rel [rotated]) (auto simp: row_le_def)
    then show "sorted (map (fst \<circ> snd) (filter ?P ?S))" by (simp add: sorted_map)
    have "sorted (map (fst \<circ> snd) ?rows)" by (simp only: rows_simps sorted_upt)
    then show "sorted (map (fst \<circ> snd) (filter ?P ?rows))"
      by (simp add: sorted_map sorted_wrt_filter)
  qed simp
  then have "filter (\<lambda>x. c k = c x) (map fst ?S) = filter (\<lambda>x. c k = c x) (map fst ?rows)"
    by (simp add: filter_map comp_def)
  then show "filter (\<lambda>x. c k = c x) (map fst ?S) = filter (\<lambda>x. c k = c x) xs"
    by (simp only: rows_simps)
qed

lemma sort_criteria_rows:
  "fits xs \<Longrightarrow> map_c (\<lambda>(i, k, v). bind_c (ret (JNum (c v))) (\<lambda>y. ret (v, i, y)))
      (zip [0..<length (coll (JArr xs))] (coll (JArr xs)))
    = ret (rows_of c xs)"
proof -
  assume xs: "fits xs"
  have len: "length (coll (JArr xs)) = length xs" using xs by (simp add: coll_arr)
  have "map (\<lambda>(i, k, v). (v, i, JNum (c v))) (zip is es)
      = map (\<lambda>(i, v). (v, i, JNum (c v))) (zip is (map snd es))" for "is" and es :: "(js \<times> js) list"
    by (induction "is" arbitrary: es) (auto simp: zip_Cons1 split: list.split)
  from this [of "[0..<length xs]" "coll (JArr xs)"]
  have "map (\<lambda>(i, k, v). (v, i, JNum (c v))) (zip [0..<length (coll (JArr xs))] (coll (JArr xs)))
      = rows_of c xs"
    by (simp only: rows_of_def len values_coll_arr [OF xs])
  then show ?thesis
    by (subst map_c_pure [where g = "\<lambda>(i, k, v). (v, i, JNum (c v))"]) auto
qed

text \<open>
  \<open>sortBy\<close> with a numeric criterion is the stable sort by it: the elements in ascending
  order of the criterion, those with equal criteria in their original order.
\<close>

theorem sortBy_stable:
  assumes "fits xs"
  shows "sortBy (JArr xs) (pure (JNum \<circ> c)) = ret (JArr (sort_key c xs))"
  using sorted_rows_stable [of c xs]
  by (simp add: sortBy_def sort_criteria_rows [OF assms] sort_rows del: bind_laws)
    (simp add: sort_rows)

theorem sortBy_stable_witness:
  "(sortBy (JArr [JNum 5, JNum (-2), JNum 2]) (pure (JNum \<circ> (\<lambda>v. case v of JNum n \<Rightarrow> n * n | _ \<Rightarrow> 0))) :: (unit, js) comp)
     = ret (JArr [JNum (-2), JNum 2, JNum 5])"
  using sortBy_stable [of "[JNum 5, JNum (-2), JNum 2]" "\<lambda>v. case v of JNum n \<Rightarrow> n * n | _ \<Rightarrow> 0"]
  by (simp add: fits_def)

section \<open>Sampling\<close>

lemma div_bound: "x < 9007199254740992 * k \<Longrightarrow> x div 9007199254740992 < (k :: int)"
proof -
  have "9007199254740992 * (x div 9007199254740992) \<le> x" by simp
  then show "x < 9007199254740992 * k \<Longrightarrow> ?thesis" by linarith
qed

lemma random_bounds:
  assumes "p < 9007199254740992" "lo \<le> hi"
  shows "lo \<le> random p lo (Some hi)" "random p lo (Some hi) \<le> hi"
proof -
  have "int p * (hi - lo + 1) < 9007199254740992 * (hi - lo + 1)"
    using assms by (intro mult_strict_right_mono) auto
  then have "int p * (hi - lo + 1) div 9007199254740992 < hi - lo + 1" by (rule div_bound)
  moreover have "0 \<le> int p * (hi - lo + 1) div 9007199254740992"
    using assms(2) by (intro div_int_pos_iff [THEN iffD2]) simp
  ultimately show "lo \<le> random p lo (Some hi)" "random p lo (Some hi) \<le> hi"
    by (simp_all add: random_def)
qed

lemma mset_swap_id [simp]: "mset (swap i j xs) = mset xs"
  by (simp add: swap_def mset_swap)

lemma sample_loop_mset: "mset (sample_loop ps index xs) = mset xs"
  by (induction ps arbitrary: index xs) simp_all

text \<open>
  \<open>random\<close> stays between its bounds, and so every swap of the Fisher-Yates loop stays inside
  the array; \<open>shuffle\<close> returns the elements in some order, none lost and none repeated, and
  \<open>sample\<close> as many of them as asked for and present, whatever the random numbers.
\<close>

theorem shuffle_permutes:
  assumes "fits xs" and "p < 9007199254740992" and "lo \<le> hi"
  shows "lo \<le> random p lo (Some hi) \<and> random p lo (Some hi) \<le> hi
    \<and> (\<exists>ys. shuffle rnd (JArr xs) = Inr (JArr ys) \<and> mset ys = mset xs)
    \<and> (\<exists>ys. sample rnd (JArr xs) (Some n) False = Inr (JArr ys)
           \<and> length ys = nat (max (min n (int (length xs))) 0) \<and> mset ys \<subseteq># mset xs)"
proof (intro conjI)
  let ?m = "nat (max (min n (int (length xs))) 0)"
  let ?loop = "\<lambda>m. sample_loop (map rnd [0..<m]) 0 xs"
  have len: "length (?loop m) = length xs" for m using sample_loop_mset mset_eq_length by metis
  have "shuffle rnd (JArr xs) = Inr (JArr (take (length xs) (?loop (length xs))))"
    using assms(1) by (simp add: shuffle_def sample_def sample_from_def Let_def)
  then show "\<exists>ys. shuffle rnd (JArr xs) = Inr (JArr ys) \<and> mset ys = mset xs"
    using len [of "length xs"] sample_loop_mset by fastforce
  have "sample rnd (JArr xs) (Some n) False = Inr (JArr (take ?m (?loop ?m)))"
    using assms(1) by (simp add: sample_def sample_from_def Let_def)
  moreover have "length (take ?m (?loop ?m)) = ?m" using len [of ?m] by simp
  moreover have "mset (take ?m (?loop ?m)) \<subseteq># mset xs"
    using sample_loop_mset [of "map rnd [0..<?m]" 0 xs]
    by (metis append_take_drop_id mset_append mset_subset_eq_add_left)
  ultimately show "\<exists>ys. sample rnd (JArr xs) (Some n) False = Inr (JArr ys)
      \<and> length ys = ?m \<and> mset ys \<subseteq># mset xs" by blast
qed (use random_bounds [OF assms(2,3)] in simp_all)

theorem shuffle_permutes_witness:
  "\<exists>ys. shuffle (\<lambda>i. 4503599627370496) (JArr [JNum 1, JNum 2, JNum 3]) = Inr (JArr ys)
     \<and> mset ys = mset [JNum 1, JNum 2, JNum 3]"
  using shuffle_permutes [of "[JNum 1, JNum 2, JNum 3]" 0 0 0 "\<lambda>i. 4503599627370496" 0]
  by (simp add: fits_def)

section \<open>Extremes\<close>

lemma beyond_number: "beyond lt (JNum n) None = Inr True"
  by (simp add: beyond_def)

lemma pick_step:
  "pick js_less (Some (JNum m)) (JNum n) = ret (Some (JNum (max m n)))"
  "pick (\<lambda>a b. js_less b a) (Some (JNum m)) (JNum n) = ret (Some (JNum (min m n)))"
  by (simp_all add: pick_def beyond_def max_def min_def)

lemma Max_insert2: "Max (insert m (insert n (set ns))) = Max (insert (max m n) (set ns))"
  and Min_insert2: "Min (insert m (insert n (set ns))) = Min (insert (min m n) (set ns))"
  for m n :: int
  by (cases "set ns = {}"; simp add: max.assoc min.assoc)+

lemma pick_max:
  "fold_c (pick js_less) (Some (JNum m)) (map JNum ns) = ret (Some (JNum (Max (insert m (set ns)))))"
  by (induction ns arbitrary: m) (simp_all add: pick_step Max_insert2 del: Max_insert)

lemma pick_min:
  "fold_c (pick (\<lambda>a b. js_less b a)) (Some (JNum m)) (map JNum ns)
     = ret (Some (JNum (Min (insert m (set ns)))))"
  by (induction ns arbitrary: m) (simp_all add: pick_step Min_insert2 del: Min_insert)

text \<open>
  \<open>max\<close> and \<open>min\<close> of an array of numbers are its greatest and least element; of the empty
  array they are the infinity the search starts from.
\<close>

theorem extremes_of_numbers:
  assumes "fits ns"
  shows "max_u (JArr (map JNum ns)) (ItVal JUndef)
      = ret (if ns = [] then None else Some (JNum (Max (set ns))))
    \<and> min_u (JArr (map JNum ns)) (ItVal JUndef)
      = ret (if ns = [] then None else Some (JNum (Min (set ns))))"
proof -
  have "fits (map JNum ns)" using assms by (simp add: fits_def)
  then show ?thesis
    using values_coll_arr [of "map JNum ns"]
    by (cases ns) (simp_all add: max_u_def min_u_def extreme_def plain_extreme_def pick_def [of _ None]
        beyond_number pick_max pick_min)
qed

theorem extremes_of_numbers_witness:
  "(max_u (JArr (map JNum [3, 9, 4])) (ItVal JUndef) :: (unit, js option) comp) = ret (Some (JNum 9))"
proof -
  have "(max_u (JArr (map JNum [3, 9, 4])) (ItVal JUndef) :: (unit, js option) comp)
      = ret (if [3, 9, 4 :: int] = [] then None else Some (JNum (Max (set [3, 9, 4]))))"
    by (rule extremes_of_numbers [THEN conjunct1]) (simp add: fits_def)
  then show ?thesis by simp
qed

end
