(* ===== verification/UnderscoreArr.thy ===== *)
theory UnderscoreArr
  imports UnderscoreCollProps
begin

text \<open>
  Third part of \<open>underscore-1.13.1.js\<close>: the functions on arrays, and \<open>pick\<close> and \<open>omit\<close>, which
  take lists of keys. A depth of flattening is an integer or \<open>None\<close> for \<open>Infinity\<close>; \<open>true\<close> and
  \<open>false\<close> passed as a depth are \<open>1\<close> and \<open>Infinity\<close>.
\<close>

section \<open>Flattening\<close>

definition elements :: "js \<Rightarrow> js list" where
  "elements array = map (\<lambda>i. prop_at array (nat_str i)) [0..<size_of array]"

definition deeper :: "int option \<Rightarrow> bool" where
  "deeper depth \<longleftrightarrow> (case depth of Some d \<Rightarrow> 1 < d | None \<Rightarrow> True)"

function flat_values :: "int option \<Rightarrow> bool \<Rightarrow> js list \<Rightarrow> js list" where
  "flat_values depth strict [] = []"
| "flat_values depth strict (v # vs) =
     (case v of
        JArr xs \<Rightarrow>
          (if deeper depth then flat_values (map_option (\<lambda>d. d - 1) depth) strict xs else xs)
      | _ \<Rightarrow> if strict then [] else [v])
     @ flat_values depth strict vs"
  by pat_completeness auto
termination
  by (relation "measure (\<lambda>(depth, strict, vs). size_list size vs)") auto

definition flatten1 :: "js \<Rightarrow> int option \<Rightarrow> bool \<Rightarrow> js list" where
  "flatten1 input depth strict =
     (case depth of
        Some d \<Rightarrow>
          if d \<le> 0 then (case input of JArr xs \<Rightarrow> xs | _ \<Rightarrow> [input])
          else flat_values depth strict (elements input)
      | None \<Rightarrow> flat_values depth strict (elements input))"

definition flatten :: "js \<Rightarrow> int option \<Rightarrow> js" where
  "flatten array depth = JArr (flatten1 array depth False)"

section \<open>Ends of an array\<close>

text \<open>\<open>slice.call(array, a)\<close>: a negative start counts from the end.\<close>

definition slice_from :: "int \<Rightarrow> 'a list \<Rightarrow> 'a list" where
  "slice_from a xs = drop (nat (if a < 0 then max (a + int (length xs)) 0 else a)) xs"

definition array_of :: "js \<Rightarrow> js list res" where
  "array_of array =
     (if nullish array then Inl TypeError
      else case array of JArr xs \<Rightarrow> Inr xs | _ \<Rightarrow> Inl OutsideModel)"

definition count_or_one :: "int option \<Rightarrow> bool \<Rightarrow> int" where
  "count_or_one n guard = (case n of Some k \<Rightarrow> if guard then 1 else k | None \<Rightarrow> 1)"

definition initial :: "js \<Rightarrow> int option \<Rightarrow> bool \<Rightarrow> js list res" where
  "initial array n guard =
     andThen (array_of array) (\<lambda>xs.
       Inr (take (nat (max 0 (int (length xs) - count_or_one n guard))) xs))"

definition rest :: "js \<Rightarrow> int option \<Rightarrow> bool \<Rightarrow> js list res" where
  "rest array n guard =
     andThen (array_of array) (\<lambda>xs. Inr (slice_from (count_or_one n guard) xs))"

definition first :: "js \<Rightarrow> int option \<Rightarrow> bool \<Rightarrow> js res" where
  "first array n guard =
     (if nullish array \<or> array = JArr [] then Inr (if n = None \<or> guard then JUndef else JArr [])
      else
        andThen (array_of array) (\<lambda>xs.
          if n = None \<or> guard then Inr (hd xs)
          else andThen (initial array (Some (int (length xs) - the n)) False) (\<lambda>ys. Inr (JArr ys))))"

definition last_u :: "js \<Rightarrow> int option \<Rightarrow> bool \<Rightarrow> js res" where
  "last_u array n guard =
     (if nullish array \<or> array = JArr [] then Inr (if n = None \<or> guard then JUndef else JArr [])
      else
        andThen (array_of array) (\<lambda>xs.
          if n = None \<or> guard then Inr (last xs)
          else andThen (rest array (Some (max 0 (int (length xs) - the n))) False)
                 (\<lambda>ys. Inr (JArr ys))))"

definition compact :: "js \<Rightarrow> ('s, js) comp" where
  "compact array = filter_u array (ItFun (\<lambda>v k l. ret (JBool (truthy v))))"

section \<open>Sets of elements\<close>

definition has_item :: "js list \<Rightarrow> js \<Rightarrow> bool res" where
  "has_item xs v = contains (JArr xs) v JUndef False"

definition difference :: "js \<Rightarrow> js list \<Rightarrow> ('s, js) comp" where
  "difference array others =
     (let others' = flatten1 (JArr others) (Some 1) True
      in filter_u array
           (ItFun (\<lambda>v k l. lift (andThen (has_item others' v) (\<lambda>b. Inr (JBool (\<not> b)))))))"

definition without :: "js \<Rightarrow> js list \<Rightarrow> ('s, js) comp" where
  "without array otherArrays = difference array [JArr otherArrays]"

text \<open>The loop of \<open>uniq\<close>: the result and what was \<open>seen\<close>, which for a sorted array without an
  iteratee is the element before.\<close>

definition uniq_step ::
    "bool \<Rightarrow> 's iteratee option \<Rightarrow> js \<Rightarrow> js list \<times> js list \<Rightarrow> nat \<Rightarrow> ('s, js list \<times> js list) comp" where
  "uniq_step isSorted it array rs i =
     (let (result, seen) = rs; v = prop_at array (nat_str i)
      in bind_c (case it of None \<Rightarrow> ret v | Some f \<Rightarrow> baseIteratee f v (JNum (int i)) array) (\<lambda>computed.
         if isSorted \<and> it = None
         then
           bind_c (if i = 0 then ret True
                   else lift (andThen (strict_eq (hd seen) computed) (\<lambda>b. Inr (\<not> b)))) (\<lambda>new.
             ret (if new then result @ [v] else result, [computed]))
         else if it \<noteq> None
         then
           bind_c (lift (has_item seen computed)) (\<lambda>b.
             ret (if b then rs else (result @ [v], seen @ [computed])))
         else
           bind_c (lift (has_item result v)) (\<lambda>b. ret (if b then rs else (result @ [v], seen)))))"

definition uniq :: "js \<Rightarrow> bool \<Rightarrow> 's iteratee option \<Rightarrow> ('s, js list) comp" where
  "uniq array isSorted it =
     bind_c (fold_c (uniq_step isSorted it array) ([], []) [0..<size_of array]) (\<lambda>r. ret (fst r))"

definition union :: "js list \<Rightarrow> ('s, js list) comp" where
  "union arrays = uniq (JArr (flatten1 (JArr arrays) (Some 1) True)) False None"

fun in_all :: "js \<Rightarrow> js list \<Rightarrow> bool res" where
  "in_all item [] = Inr True"
| "in_all item (a # as) =
     andThen (contains a item JUndef False) (\<lambda>b. if b then in_all item as else Inr False)"

fun intersect_loop :: "js list \<Rightarrow> js list \<Rightarrow> js list \<Rightarrow> js list res" where
  "intersect_loop others result [] = Inr result"
| "intersect_loop others result (item # items) =
     andThen (has_item result item) (\<lambda>b.
       if b then intersect_loop others result items
       else andThen (in_all item others) (\<lambda>a.
         intersect_loop others (if a then result @ [item] else result) items))"

definition intersection :: "js \<Rightarrow> js list \<Rightarrow> js list res" where
  "intersection array others = intersect_loop others [] (elements array)"

section \<open>Zipping, objects, ranges and chunks\<close>

definition longest :: "js \<Rightarrow> ('s, nat) comp" where
  "longest array =
     (if \<not> truthy array then ret 0
      else bind_c (max_u array (ItFun (\<lambda>v k l. ret (getLength v)))) (\<lambda>m.
        ret (case m of Some v \<Rightarrow> size_of v | None \<Rightarrow> 0)))"

definition unzip :: "js \<Rightarrow> ('s, js list) comp" where
  "unzip array =
     bind_c (longest array) (\<lambda>n. map_c (\<lambda>i. pluck array (JNum (int i))) [0..<n])"

definition zip_u :: "js list \<Rightarrow> ('s, js list) comp" where
  "zip_u arrays = unzip (JArr arrays)"

fun object_loop :: "js option \<Rightarrow> nat \<Rightarrow> js list \<Rightarrow> jsobj \<Rightarrow> jsobj res" where
  "object_loop vals i [] result = Inr result"
| "object_loop vals i (e # es) result =
     andThen (case vals of
                Some w \<Rightarrow> andThen (to_key e) (\<lambda>k. Inr (k, prop_at w (nat_str i)))
              | None \<Rightarrow>
                  andThen (read e ''0'') (\<lambda>kv. andThen (read e ''1'') (\<lambda>v.
                  andThen (to_key kv) (\<lambda>k. Inr (k, v)))))
       (\<lambda>(k, v). andThen (write_key k v result) (\<lambda>result'. object_loop vals (Suc i) es result'))"

definition object_u :: "js \<Rightarrow> js \<Rightarrow> jsobj res" where
  "object_u list vals =
     object_loop (if truthy vals then Some vals else None) 0 (elements list) []"

definition range_bounds :: "int option \<Rightarrow> int option \<Rightarrow> int \<times> int" where
  "range_bounds start stop =
     (case stop of
        None \<Rightarrow> (0, case start of Some s \<Rightarrow> s | None \<Rightarrow> 0)
      | Some t \<Rightarrow> (the start, t))"

text \<open>\<open>Math.ceil(a / b)\<close> on integers is \<open>- (- a div b)\<close>.\<close>

definition range_u :: "int option \<Rightarrow> int option \<Rightarrow> int option \<Rightarrow> int list res" where
  "range_u start stop step =
     (if start = None \<and> stop \<noteq> None then Inl OutsideModel
      else
        let (a, b) = range_bounds start stop;
            d = (case step of Some d \<Rightarrow> if d = 0 then (if b < a then -1 else 1) else d
                 | None \<Rightarrow> if b < a then -1 else 1);
            n = nat (max (- (- (b - a) div d)) 0)
        in Inr (map (\<lambda>i. a + int i * d) [0..<n]))"

function chunk_loop :: "nat \<Rightarrow> 'a list \<Rightarrow> 'a list list" where
  "chunk_loop n xs = (if xs = [] \<or> n = 0 then [] else take n xs # chunk_loop n (drop n xs))"
  by pat_completeness auto
termination
  by (relation "measure (\<lambda>(n, xs). length xs)") auto

declare chunk_loop.simps [simp del]

definition chunk :: "js \<Rightarrow> int option \<Rightarrow> js list list res" where
  "chunk array n =
     (case n of
        None \<Rightarrow> Inr []
      | Some c \<Rightarrow>
          if c < 1 then Inr []
          else andThen (array_of array) (\<lambda>xs. Inr (chunk_loop (nat c) xs)))"

section \<open>Selecting properties\<close>

fun pick_keys_loop :: "js \<Rightarrow> js list \<Rightarrow> jsobj \<Rightarrow> jsobj res" where
  "pick_keys_loop obj [] result = Inr result"
| "pick_keys_loop obj (key # ks) result =
     andThen (read_key obj key) (\<lambda>v. andThen (to_key key) (\<lambda>k.
     andThen (if own_prop obj k \<noteq> None then write_key k v result else Inr result) (\<lambda>result'.
       pick_keys_loop obj ks result')))"

definition pick_keys :: "js \<Rightarrow> js list \<Rightarrow> jsobj res" where
  "pick_keys obj ks =
     (if nullish obj then Inr [] else pick_keys_loop obj (flatten1 (JArr ks) None False) [])"

definition pick_by :: "js \<Rightarrow> (js \<Rightarrow> js \<Rightarrow> js \<Rightarrow> ('s, js) comp) \<Rightarrow> ('s, jsobj) comp" where
  "pick_by obj f =
     (if nullish obj then ret []
      else fold_c (\<lambda>result k.
             let v = prop_at obj k
             in bind_c (f v (JStr k) obj) (\<lambda>b.
                  if truthy b then lift (write_key k v result) else ret result))
             [] (allKeys obj))"

definition omit_keys :: "js \<Rightarrow> js list \<Rightarrow> ('s, jsobj) comp" where
  "omit_keys obj ks =
     bind_c (lift (map_res to_key (flatten1 (JArr ks) None False))) (\<lambda>names.
       pick_by obj (\<lambda>v k l. lift (andThen (has_item (map JStr names) k) (\<lambda>b. Inr (JBool (\<not> b))))))"

definition omit_by :: "js \<Rightarrow> 's iteratee \<Rightarrow> ('s, jsobj) comp" where
  "omit_by obj it = pick_by obj (baseIteratee (negate it))"

end
