(* ===== verification/UnderscoreArrProps.thy ===== *)
theory UnderscoreArrProps
  imports UnderscoreArr
begin

text \<open>
  What the array functions of \<open>underscore-1.13.1.js\<close> promise: slices and chunks lose nothing,
  flattening, the set functions on primitive elements, pairs and objects as inverses, ranges.
\<close>

section \<open>Slices and chunks\<close>

lemma chunk_loop_concat: "0 < n \<Longrightarrow> concat (chunk_loop n xs) = xs"
proof (induction n xs rule: chunk_loop.induct)
  case (1 n xs)
  then show ?case by (subst chunk_loop.simps) auto
qed

lemma chunk_loop_sizes:
  "0 < n \<Longrightarrow> \<forall>c \<in> set (chunk_loop n xs). c \<noteq> [] \<and> length c \<le> n"
proof (induction n xs rule: chunk_loop.induct)
  case (1 n xs)
  then show ?case by (subst chunk_loop.simps) auto
qed

lemma chunk_loop_full:
  "0 < n \<Longrightarrow> \<forall>c \<in> set (butlast (chunk_loop n xs)). length c = n"
proof (induction n xs rule: chunk_loop.induct)
  case (1 n xs)
  show ?case
  proof (cases "xs = []")
    case True
    then show ?thesis by (simp add: chunk_loop.simps)
  next
    case False
    with "1.prems" have c: "chunk_loop n xs = take n xs # chunk_loop n (drop n xs)"
      by (subst chunk_loop.simps) simp
    show ?thesis
    proof (cases "chunk_loop n (drop n xs) = []")
      case True
      with c show ?thesis by simp
    next
      case more: False
      then have "drop n xs \<noteq> []" using "1.prems" by (auto simp: chunk_loop.simps [of n "[]"])
      then have "length (take n xs) = n" by simp
      with c more 1 False show ?thesis by simp
    qed
  qed
qed

text \<open>
  Taking an array apart loses nothing: the chunks joined are the array, each has at most the
  size asked for and all but the last have it; what \<open>first\<close> and \<open>rest\<close>, and what \<open>initial\<close> and
  \<open>last\<close>, give for the same count joins to the array; a chunk size below one gives no chunks.
\<close>

theorem slices_lose_nothing:
  assumes "0 < n" and "0 \<le> k" and "k \<le> int (length xs)" and "xs \<noteq> []"
  shows "(\<exists>css. chunk (JArr xs) (Some n) = Inr css \<and> concat css = xs
            \<and> (\<forall>c \<in> set css. c \<noteq> [] \<and> length c \<le> nat n)
            \<and> (\<forall>c \<in> set (butlast css). length c = nat n))
    \<and> (\<exists>ys zs. first (JArr xs) (Some k) False = Inr (JArr ys)
            \<and> rest (JArr xs) (Some k) False = Inr zs \<and> ys @ zs = xs)
    \<and> (\<exists>ys zs. initial (JArr xs) (Some k) False = Inr ys
            \<and> last_u (JArr xs) (Some k) False = Inr (JArr zs) \<and> ys @ zs = xs)
    \<and> chunk (JArr xs) (Some (1 - n)) = Inr [] \<and> chunk (JArr xs) None = Inr []"
proof (intro conjI)
  have "chunk (JArr xs) (Some n) = Inr (chunk_loop (nat n) xs)"
    using assms(1) by (simp add: chunk_def array_of_def)
  then show "\<exists>css. chunk (JArr xs) (Some n) = Inr css \<and> concat css = xs
      \<and> (\<forall>c \<in> set css. c \<noteq> [] \<and> length c \<le> nat n) \<and> (\<forall>c \<in> set (butlast css). length c = nat n)"
    using assms(1) chunk_loop_concat chunk_loop_sizes chunk_loop_full by (metis zero_less_nat_eq)
  have "first (JArr xs) (Some k) False = Inr (JArr (take (nat k) xs))"
    using assms by (simp add: first_def initial_def array_of_def count_or_one_def)
  moreover have "rest (JArr xs) (Some k) False = Inr (drop (nat k) xs)"
    using assms by (simp add: rest_def array_of_def count_or_one_def slice_from_def)
  ultimately show "\<exists>ys zs. first (JArr xs) (Some k) False = Inr (JArr ys)
      \<and> rest (JArr xs) (Some k) False = Inr zs \<and> ys @ zs = xs" by simp
  have "initial (JArr xs) (Some k) False = Inr (take (nat (int (length xs) - k)) xs)"
    using assms by (simp add: initial_def array_of_def count_or_one_def max_def)
  moreover have "last_u (JArr xs) (Some k) False = Inr (JArr (drop (nat (int (length xs) - k)) xs))"
    using assms by (simp add: last_u_def rest_def array_of_def count_or_one_def slice_from_def max_def)
  ultimately show "\<exists>ys zs. initial (JArr xs) (Some k) False = Inr ys
      \<and> last_u (JArr xs) (Some k) False = Inr (JArr zs) \<and> ys @ zs = xs" by simp
  show "chunk (JArr xs) (Some (1 - n)) = Inr []" "chunk (JArr xs) None = Inr []"
    using assms(1) by (simp_all add: chunk_def)
qed

theorem slices_lose_nothing_witness:
  "\<exists>css. chunk (JArr [JNum 1, JNum 2, JNum 3]) (Some 2) = Inr css \<and> concat css = [JNum 1, JNum 2, JNum 3]
     \<and> (\<forall>c \<in> set (butlast css). length c = 2)"
  using slices_lose_nothing [of 2 1 "[JNum 1, JNum 2, JNum 3]"] by auto

section \<open>Flattening\<close>

lemma elements_arr [simp]: "fits xs \<Longrightarrow> elements (JArr xs) = xs"
proof -
  assume "fits xs"
  then have "map (\<lambda>i. prop_at (JArr xs) (nat_str i)) [0..<length xs] = map ((!) xs) [0..<length xs]"
    by (simp add: fits_def)
  then show ?thesis by (simp add: elements_def map_nth)
qed

text \<open>The reference: the leaves of nested arrays, from left to right.\<close>

function leaves :: "js \<Rightarrow> js list" where
  "leaves v = (case v of JArr xs \<Rightarrow> concat (map leaves xs) | _ \<Rightarrow> [v])"
  by pat_completeness auto
termination
  by (relation "measure size") (auto dest: size_element simp del: js.size)

declare leaves.simps [simp del]

lemma leaves_simps: "leaves (JArr xs) = concat (map leaves xs)" "\<not> is_array v \<Longrightarrow> leaves v = [v]"
  by (subst leaves.simps, simp) (subst leaves.simps, cases v; simp)

lemma deeper_simps [simp]: "deeper None" "\<not> deeper (Some 1)"
  by (simp_all add: deeper_def)

lemma flat_values_leaves: "flat_values None False vs = concat (map leaves vs)"
proof (induction "None :: int option" False vs rule: flat_values.induct)
  case (2 v vs)
  then show ?case by (cases v) (simp_all add: leaves_simps deeper_def)
qed simp

lemma flat_values_shallow:
  "flat_values (Some 1) False vs = concat (map (\<lambda>v. case v of JArr xs \<Rightarrow> xs | _ \<Rightarrow> [v]) vs)"
  "flat_values (Some 1) True vs = concat (map (\<lambda>v. case v of JArr xs \<Rightarrow> xs | _ \<Rightarrow> []) vs)"
  by (induction vs) (auto simp: deeper_def split: js.splits)

lemma leaves_no_array: "\<forall>l \<in> set (leaves v). \<not> is_array l"
proof (induction v rule: leaves.induct)
  case (1 v)
  then show ?case by (cases v) (auto simp: leaves_simps)
qed

text \<open>
  \<open>flatten\<close> without a depth gives the leaves of the nested arrays from left to right, so an
  array without arrays in it, and flattening that again changes nothing; with depth one it
  joins the elements that are arrays with the others.
\<close>

theorem flatten_leaves:
  assumes "fits xs" and "fits (concat (map leaves xs))"
  shows "flatten (JArr xs) None = JArr (concat (map leaves xs))
    \<and> (\<forall>v \<in> set (concat (map leaves xs)). \<not> is_array v)
    \<and> flatten (flatten (JArr xs) None) None = flatten (JArr xs) None
    \<and> flatten (JArr xs) (Some 1) = JArr (concat (map (\<lambda>v. case v of JArr ys \<Rightarrow> ys | _ \<Rightarrow> [v]) xs))"
proof (intro conjI)
  show f: "flatten (JArr xs) None = JArr (concat (map leaves xs))"
    using assms(1) by (simp add: flatten_def flatten1_def flat_values_leaves)
  show n: "\<forall>v \<in> set (concat (map leaves xs)). \<not> is_array v" using leaves_no_array by auto
  have "\<forall>v \<in> set vs. \<not> is_array v \<Longrightarrow> concat (map leaves vs) = vs" for vs
    by (induction vs) (simp_all add: leaves_simps)
  with n have "concat (map leaves (concat (map leaves xs))) = concat (map leaves xs)" by blast
  then show "flatten (flatten (JArr xs) None) None = flatten (JArr xs) None"
    unfolding f using assms(2) by (simp add: flatten_def flatten1_def flat_values_leaves)
  show "flatten (JArr xs) (Some 1) = JArr (concat (map (\<lambda>v. case v of JArr ys \<Rightarrow> ys | _ \<Rightarrow> [v]) xs))"
    using assms(1) by (simp add: flatten_def flatten1_def flat_values_shallow)
qed

theorem flatten_leaves_witness:
  "flatten (JArr [JNum 1, JArr [JNum 2, JArr [JNum 3]]]) None = JArr [JNum 1, JNum 2, JNum 3]"
  using flatten_leaves [of "[JNum 1, JArr [JNum 2, JArr [JNum 3]]]"]
  by (simp add: fits_def leaves_simps)

section \<open>Sets of primitive elements\<close>

definition prims :: "js list \<Rightarrow> bool" where
  "prims xs \<longleftrightarrow> (\<forall>v \<in> set xs. \<not> is_ref v)"

lemma has_item_prim: "fits xs \<Longrightarrow> \<not> is_ref v \<Longrightarrow> has_item xs v = Inr (v \<in> set xs)"
proof -
  assume xs: "fits xs" "\<not> is_ref v"
  have "find_res (\<lambda>i. strict_eq (prop_at (JArr xs) (int_str i)) v) [0..int (length xs) - 1]
      = find_res (\<lambda>i. Inr (xs ! nat i = v)) [0..int (length xs) - 1]"
    using xs by (intro find_res_cong) (auto simp: int_str_def nat_less_iff)
  moreover have "find (\<lambda>i. xs ! nat i = v) [0..int (length xs) - 1] = None \<longleftrightarrow> v \<notin> set xs"
  proof -
    have "(\<exists>i \<in> {0..int (length xs) - 1}. xs ! nat i = v) \<longleftrightarrow> v \<in> set xs"
    proof
      assume "\<exists>i \<in> {0..int (length xs) - 1}. xs ! nat i = v"
      then show "v \<in> set xs" by (auto simp: nat_less_iff)
    next
      assume "v \<in> set xs"
      then obtain j where "j < length xs" "xs ! j = v" by (auto simp: in_set_conv_nth)
      then show "\<exists>i \<in> {0..int (length xs) - 1}. xs ! nat i = v" by (intro bexI [of _ "int j"]) auto
    qed
    then show ?thesis by (auto simp: find_None_iff)
  qed
  moreover have "find P is = Some i \<Longrightarrow> i \<in> set is" for P and i :: int and "is"
    by (auto simp: find_Some_iff)
  ultimately show ?thesis
    using xs by (fastforce simp: has_item_def contains_def indexOf_def scan_def from_position_def
        find_res_int split: option.split)
qed

lemma has_item_prims: "fits xs \<Longrightarrow> prims xs \<Longrightarrow> has_item xs v = Inr (v \<in> set xs)"
proof (cases "is_ref v")
  case True
  assume xs: "fits xs" "prims xs"
  have "find_res (\<lambda>i. strict_eq (prop_at (JArr xs) (int_str i)) v) [0..int (length xs) - 1]
      = find_res (\<lambda>i. Inr (xs ! nat i = v)) [0..int (length xs) - 1]"
    using xs by (intro find_res_cong) (auto simp: int_str_def nat_less_iff prims_def)
  moreover have v: "v \<notin> set xs" using True xs by (auto simp: prims_def)
  then have "find (\<lambda>i. xs ! nat i = v) [0..int (length xs) - 1] = None"
    by (auto simp: find_None_iff nat_less_iff)
  ultimately show ?thesis
    using xs v by (simp add: has_item_def contains_def indexOf_def scan_def from_position_def find_res_int)
qed (simp add: has_item_prim)

text \<open>The reference: each element once, at its first position.\<close>

definition nub :: "'a list \<Rightarrow> 'a list" where
  "nub xs = fold (\<lambda>x ys. if x \<in> set ys then ys else ys @ [x]) xs []"

lemma nub_snoc: "nub (xs @ [x]) = (if x \<in> set (nub xs) then nub xs else nub xs @ [x])"
  by (simp add: nub_def)

lemma nub_single: "nub [x] = [x]"
  by (simp add: nub_def)

lemma nub_set [simp]: "set (nub xs) = set xs" and nub_distinct [simp]: "distinct (nub xs)"
proof (induction xs rule: rev_induct)
  case (snoc x xs)
  show "set (nub (xs @ [x])) = set (xs @ [x])" "distinct (nub (xs @ [x]))"
    using snoc by (auto simp: nub_snoc)
qed (simp_all add: nub_def)

lemma nub_length: "length (nub xs) \<le> length xs"
  by (metis card_length distinct_card nub_distinct nub_set)

lemma fits_mono: "length ys \<le> length xs \<Longrightarrow> fits xs \<Longrightarrow> fits ys"
  by (simp add: fits_def)

lemma fits_take: "fits xs \<Longrightarrow> fits (take n xs)"
  by (simp add: fits_def)

lemma uniq_loop:
  assumes "fits xs" "prims xs" "n \<le> length xs"
  shows "fold_c (uniq_step False None (JArr xs)) ([], []) [0..<n] = ret (nub (take n xs), [])"
  using assms(3)
proof (induction n)
  case (Suc n)
  have "take (Suc n) xs = take n xs @ [xs ! n]" using Suc.prems by (simp add: take_Suc_conv_app_nth)
  moreover have "fits (nub (take n xs))"
    using assms(1) by (intro fits_mono [OF order_trans [OF nub_length]]) auto
  moreover have "\<not> is_ref (xs ! n)" using assms(2) Suc.prems by (simp add: prims_def)
  ultimately show ?case
    using Suc assms(1)
    by (simp add: fold_c_append uniq_step_def has_item_prim nub_snoc)
qed (simp add: nub_def)

lemma uniq_nub: "fits xs \<Longrightarrow> prims xs \<Longrightarrow> uniq (JArr xs) False None = ret (nub xs)"
  using uniq_loop [of xs "length xs"] by (simp add: uniq_def uniq_loop)

text \<open>For a sorted array comparing with the element before is enough.\<close>

lemma uniq_sorted_loop:
  assumes "fits xs" "prims xs" "n \<le> length xs"
    and "\<forall>i j. i < j \<longrightarrow> j < length xs \<longrightarrow> xs ! i = xs ! j \<longrightarrow> xs ! (j - 1) = xs ! j"
  shows "fold_c (uniq_step True None (JArr xs)) ([], []) [0..<n]
      = ret (nub (take n xs), if n = 0 then [] else [xs ! (n - 1)])"
  using assms(3)
proof (induction n)
  case (Suc n)
  have t: "take (Suc n) xs = take n xs @ [xs ! n]" using Suc.prems by (simp add: take_Suc_conv_app_nth)
  have p: "\<not> is_ref (xs ! n)" using assms(2) Suc.prems by (simp add: prims_def)
  have at: "prop_at (JArr xs) (nat_str n) = xs ! n" using Suc.prems assms(1) by simp
  have "n \<noteq> 0 \<Longrightarrow> xs ! n \<in> set (take n xs) \<longleftrightarrow> xs ! (n - 1) = xs ! n"
  proof
    assume "n \<noteq> 0" "xs ! n \<in> set (take n xs)"
    then obtain i where "i < n" "xs ! i = xs ! n" using Suc.prems by (auto simp: in_set_conv_nth)
    then show "xs ! (n - 1) = xs ! n" using assms(4) Suc.prems by auto
  next
    assume "n \<noteq> 0" "xs ! (n - 1) = xs ! n"
    then show "xs ! n \<in> set (take n xs)"
      using Suc.prems by (auto simp: in_set_conv_nth intro!: exI [of _ "n - 1"])
  qed
  then show ?case
    using Suc assms(1) t p at
    by (cases "n = 0") (simp_all add: fold_c_append uniq_step_def nub_snoc Let_def nub_single)
qed (simp add: nub_def)

lemma item_pure:
  "fits ys \<Longrightarrow> prims ys \<Longrightarrow>
     ItFun (\<lambda>v k l. lift (andThen (has_item ys v) (\<lambda>b. Inr (JBool (\<not> b))))) = pure (\<lambda>v. JBool (v \<notin> set ys))"
  by (simp add: pure_def has_item_prims)

lemma filter_item_c:
  assumes "fits xs" "fits ys" "prims ys"
  shows "filter_u (JArr xs) (ItFun (\<lambda>v k l. lift (andThen (has_item ys v) (\<lambda>b. Inr (JBool (\<not> b))))))
    = ret (JArr (filter (\<lambda>x. x \<notin> set ys) xs))"
  using assms by (simp add: item_pure)

lemma intersect_loop_nub:
  assumes "fits items" "fits result" "fits (result @ items)" "prims items"
    "\<forall>a \<in> set others. fits a"
  shows "intersect_loop (map JArr others) result items
    = Inr (fold (\<lambda>x ys. if x \<in> set ys \<or> (\<exists>a \<in> set others. x \<notin> set a) then ys else ys @ [x]) items result)"
  using assms(1-4)
proof (induction items arbitrary: result)
  case (Cons x items)
  have x: "\<not> is_ref x" using Cons.prems by (simp add: prims_def)
  have item: "has_item a x = Inr (x \<in> set a)" if "fits a" for a using that x by (rule has_item_prim)
  have "contains (JArr a) x JUndef False = Inr (x \<in> set a)" if "fits a" for a
    using item [OF that] by (simp add: has_item_def)
  then have all: "in_all x (map JArr others) = Inr (\<forall>a \<in> set others. x \<in> set a)"
    using assms(5) by (induction others) auto
  have "fits items" "prims items" "fits (result @ items)" "fits ((result @ [x]) @ items)" "fits (result @ [x])"
    using Cons.prems by (auto simp: fits_def prims_def)
  then show ?case using Cons.IH [of result] Cons.IH [of "result @ [x]"] Cons.prems(2) item all by auto
qed simp

lemma fold_nub_filter:
  "fold (\<lambda>x ys. if x \<in> set ys \<or> \<not> P x then ys else ys @ [x]) xs (filter P (nub us))
     = filter P (fold (\<lambda>x ys. if x \<in> set ys then ys else ys @ [x]) xs (nub us))"
proof (induction xs arbitrary: us)
  case (Cons x xs)
  show ?case using Cons [of us] Cons [of "us @ [x]"]
    by (cases "P x"; cases "x \<in> set us") (simp_all add: nub_snoc)
qed simp

text \<open>
  On arrays of primitive values: \<open>uniq\<close> keeps the first occurrence of each element, and the
  faster test for a sorted array (equal elements are adjacent) gives the same; \<open>union\<close> is
  \<open>uniq\<close> of the arrays joined, \<open>intersection\<close> keeps the elements of the first array that are
  in all others, each once, and \<open>difference\<close> those in none.
\<close>

theorem set_functions:
  assumes "fits xs" and "prims xs" and "fits ys" and "prims ys" and "fits (xs @ ys)"
    and "\<forall>i j. i < j \<longrightarrow> j < length xs \<longrightarrow> xs ! i = xs ! j \<longrightarrow> xs ! (j - 1) = xs ! j"
  shows "uniq (JArr xs) False None = ret (nub xs)
    \<and> uniq (JArr xs) True None = ret (nub xs)
    \<and> union [JArr xs, JArr ys] = ret (nub (xs @ ys))
    \<and> intersection (JArr xs) [JArr ys] = Inr (filter (\<lambda>x. x \<in> set ys) (nub xs))
    \<and> difference (JArr xs) [JArr ys] = ret (JArr (filter (\<lambda>x. x \<notin> set ys) xs))
    \<and> without (JArr xs) ys = ret (JArr (filter (\<lambda>x. x \<notin> set ys) xs))"
proof (intro conjI)
  show "uniq (JArr xs) False None = ret (nub xs)" using assms(1,2) by (rule uniq_nub)
  show "uniq (JArr xs) True None = ret (nub xs)"
    using uniq_sorted_loop [OF assms(1,2) _ assms(6)] by (simp add: uniq_def uniq_sorted_loop [OF assms(1,2) _ assms(6)])
  have "fits [JArr xs, JArr ys]" "fits [JArr ys]" by (simp_all add: fits_def)
  then have two: "flatten1 (JArr [JArr xs, JArr ys]) (Some 1) True = xs @ ys"
    and one: "flatten1 (JArr [JArr ys]) (Some 1) True = ys"
    by (simp_all add: flatten1_def flat_values_shallow)
  have "prims (xs @ ys)" using assms(2,4) by (auto simp: prims_def)
  then show "union [JArr xs, JArr ys] = ret (nub (xs @ ys))"
    using assms(5) by (simp add: union_def two uniq_nub)
  have "intersect_loop (map JArr [ys]) [] xs
      = Inr (fold (\<lambda>x zs. if x \<in> set zs \<or> (\<exists>a \<in> set [ys]. x \<notin> set a) then zs else zs @ [x]) xs [])"
    using assms by (intro intersect_loop_nub) (auto simp: fits_def)
  then show "intersection (JArr xs) [JArr ys] = Inr (filter (\<lambda>x. x \<in> set ys) (nub xs))"
    using assms(1) fold_nub_filter [of "\<lambda>x. x \<in> set ys" xs "[]"]
    by (simp add: intersection_def nub_def)
  show "difference (JArr xs) [JArr ys] = ret (JArr (filter (\<lambda>x. x \<notin> set ys) xs))"
    using assms by (simp add: difference_def one filter_item_c)
  show "without (JArr xs) ys = ret (JArr (filter (\<lambda>x. x \<notin> set ys) xs))"
    using assms by (simp add: without_def difference_def one filter_item_c)
qed

theorem set_functions_witness:
  "intersection (JArr [JNum 1, JNum 1, JNum 2]) [JArr [JNum 1]] = Inr [JNum 1]"
proof -
  have adj: "\<forall>i j. i < j \<longrightarrow> j < length [JNum 1, JNum 1, JNum 2] \<longrightarrow>
      [JNum 1, JNum 1, JNum 2] ! i = [JNum 1, JNum 1, JNum 2] ! j \<longrightarrow>
      [JNum 1, JNum 1, JNum 2] ! (j - 1) = [JNum 1, JNum 1, JNum 2] ! j"
    by (auto simp: less_Suc_eq numeral_3_eq_3)
  have "intersection (JArr [JNum 1, JNum 1, JNum 2]) [JArr [JNum 1]]
      = Inr (filter (\<lambda>x. x \<in> set [JNum 1]) (nub [JNum 1, JNum 1, JNum 2]))"
    by (rule set_functions [THEN conjunct2, THEN conjunct2, THEN conjunct2, THEN conjunct1, OF _ _ _ _ _ adj])
      (simp_all add: fits_def prims_def)
  then show ?thesis by (simp add: nub_def)
qed

section \<open>Transposition\<close>

lemma nat_str_not_name: "list_all (\<lambda>k. k \<noteq> [] \<and> \<not> is_digit (hd k)) names \<Longrightarrow> nat_str i \<notin> set names"
proof
  assume names: "list_all (\<lambda>k. k \<noteq> [] \<and> \<not> is_digit (hd k)) names" and "nat_str i \<in> set names"
  then have "\<not> is_digit (hd (nat_str i))" by (auto simp: list_all_iff)
  moreover have "list_all is_digit (nat_str i)" by (rule nat_str_digits)
  ultimately show False by (cases "nat_str i") simp_all
qed

lemma not_inherited_index: "\<not> inherits (JArr xs) (nat_str i)"
proof -
  have "list_all (\<lambda>k. k \<noteq> [] \<and> \<not> is_digit (hd k)) inherited_names"
    "list_all (\<lambda>k. k \<noteq> [] \<and> \<not> is_digit (hd k)) array_methods"
    by (simp_all add: inherited_names_def array_methods_def is_digit_def)
  then show ?thesis using nat_str_not_name by simp
qed

lemma read_prop_at: "\<not> nullish obj \<Longrightarrow> \<not> inherits obj k \<Longrightarrow> read obj k = Inr (prop_at obj k)"
  by (simp add: read_def prop_at_def split: option.split)

definition cell :: "js list \<Rightarrow> nat \<Rightarrow> js" where
  "cell row i = (if i < length row then row ! i else JUndef)"

lemma read_index: "fits row \<Longrightarrow> read (JArr row) (nat_str i) = Inr (cell row i)"
proof -
  have "read (JArr row) (nat_str i) = Inr (prop_at (JArr row) (nat_str i))"
    by (rule read_prop_at) (simp, rule not_inherited_index)
  then show "fits row \<Longrightarrow> ?thesis" by (simp add: cell_def prop_beyond)
qed

lemma property_index: "fits row \<Longrightarrow> property (JNum (int i)) (JArr row) = Inr (cell row i)"
  by (simp add: property_def toPath_def deepGet_def read_key_def int_str_def read_index)

definition longer :: "js option \<times> js option \<Rightarrow> js \<Rightarrow> js option \<times> js option" where
  "longer r v =
     (case (snd r, getLength v) of
        (Some (JNum m), JNum n) \<Rightarrow> if m < n then (Some v, Some (JNum n)) else r
      | (None, JNum n) \<Rightarrow> (Some v, Some (JNum n))
      | _ \<Rightarrow> r)"

lemma longer_arr [simp]:
  "longer (None, None) (JArr row) = (Some (JArr row), Some (JNum (int (length row))))"
  "longer (v, Some (JNum m)) (JArr row) =
     (if m < int (length row) then (Some (JArr row), Some (JNum (int (length row)))) else (v, Some (JNum m)))"
  by (simp_all add: longer_def)

lemma longest_rows:
  "rows \<noteq> [] \<Longrightarrow> \<exists>r \<in> set rows. foldl longer (None, None) (map JArr rows)
      = (Some (JArr r), Some (JNum (int (length r)))) \<and> (\<forall>q \<in> set rows. length q \<le> length r)"
proof (induction rows rule: rev_induct)
  case (snoc q rows)
  show ?case
  proof (cases "rows = []")
    case True
    then show ?thesis by simp
  next
    case False
    with snoc.IH obtain r where r: "r \<in> set rows"
      "foldl longer (None, None) (map JArr rows) = (Some (JArr r), Some (JNum (int (length r))))"
      "\<forall>q \<in> set rows. length q \<le> length r" by blast
    show ?thesis
    proof (cases "length r < length q")
      case True
      with r have "\<forall>p \<in> set (rows @ [q]). length p \<le> length q" by (auto intro: order_trans less_imp_le)
      with r True show ?thesis by (intro bexI [of _ q]) auto
    next
      case False
      with r show ?thesis by (intro bexI [of _ r]) auto
    qed
  qed
qed simp

lemma longer_numbers:
  "\<forall>m. snd (foldl longer (None, None) vs) = Some m \<longrightarrow> (\<exists>n. m = JNum n)"
proof (induction vs rule: rev_induct)
  case (snoc v vs)
  then show ?case by (auto simp: longer_def split: option.splits js.splits if_splits)
qed simp

lemma extreme_step_longer:
  "\<forall>m. snd r = Some m \<longrightarrow> (\<exists>n. m = JNum n) \<Longrightarrow> is_array (snd e) \<Longrightarrow>
     extreme_step js_less (pure getLength) obj r e = ret (longer r (snd e))"
  by (cases "snd r"; cases "snd e")
    (auto simp: extreme_step_def longer_def beyond_def prod_eq_iff)

lemma extreme_fold:
  "\<forall>e \<in> set es. is_array (snd e) \<Longrightarrow>
     fold_c (extreme_step js_less (pure getLength) obj) (None, None) es
       = ret (foldl longer (None, None) (map snd es))"
proof (induction es rule: rev_induct)
  case (snoc e es)
  then show ?case
    using extreme_step_longer [OF longer_numbers, of e obj] by (simp add: fold_c_append)
qed simp

lemma extreme_pure:
  "extreme lt obj (pure g)
     = bind_c (fold_c (extreme_step lt (pure g) obj) (None, None) (coll obj)) (\<lambda>r. ret (fst r))"
  by (simp add: extreme_def pure_def)

lemma rows_coll:
  assumes "fits rows"
  shows "\<forall>e \<in> set (coll (JArr (map JArr rows))). is_array (snd e)"
proof -
  have fit: "fits (map JArr rows)" using assms by (simp add: fits_def)
  then show ?thesis using coll_elem [OF fit] by fastforce
qed

lemma longest_foldl:
  assumes "fits rows"
  shows "longest (JArr (map JArr rows))
    = ret (case fst (foldl longer (None, None) (map JArr rows)) of Some v \<Rightarrow> size_of v | None \<Rightarrow> 0)"
proof -
  have fit: "fits (map JArr rows)" using assms by (simp add: fits_def)
  show ?thesis
    using assms values_coll_arr [OF fit]
    by (simp add: longest_def max_u_def extreme_pure extreme_fold [OF rows_coll [OF assms]] flip: pure_def)
qed

lemma longest_c:
  assumes "fits rows" "rows \<noteq> []"
  shows "\<exists>r \<in> set rows. longest (JArr (map JArr rows)) = ret (length r)
    \<and> (\<forall>q \<in> set rows. length q \<le> length r)"
  using longest_rows [OF assms(2)] assms(1) by (auto simp: longest_foldl)

lemma pluck_rows:
  assumes "fits rows" and "\<forall>r \<in> set rows. fits r"
  shows "pluck (JArr (map JArr rows)) (JNum (int i))
    = (ret (JArr (map (\<lambda>r. cell r i) rows)) :: ('s, js) comp)"
proof -
  have fit: "fits (map JArr rows)" using assms(1) by (simp add: fits_def)
  define g where "g v = (case v of JArr r \<Rightarrow> cell r i | _ \<Rightarrow> JUndef)" for v
  have each_row: "\<forall>e \<in> set (coll (JArr (map JArr rows))). property (JNum (int i)) (snd e) = Inr (g (snd e))"
    using assms(2) coll_elem [OF fit] by (fastforce simp: property_index g_def)
  then have "map_c (\<lambda>(k, v). lift (property (JNum (int i)) v)) (coll (JArr (map JArr rows)))
      = (ret (map (\<lambda>e. g (snd e)) (coll (JArr (map JArr rows)))) :: ('s, js list) comp)"
    by (intro map_c_pure) (auto simp: case_prod_beta)
  moreover have "map (\<lambda>e. g (snd e)) (coll (JArr (map JArr rows))) = map g (map JArr rows)"
    using values_coll_arr [OF fit] by (metis (no_types) comp_apply map_map map_eq_conv)
  moreover have "map g (map JArr rows) = map (\<lambda>r. cell r i) rows" by (simp add: g_def)
  ultimately show ?thesis by (simp add: pluck_def map_u_def)
qed

text \<open>Unzipping turns rows into columns: the result has as many columns as the longest row has
  cells, and the cell of row \<open>r\<close> in column \<open>i\<close> is \<open>r[i]\<close>, undefined where the row is shorter.\<close>
theorem unzip_transposes:
  assumes "fits rows" and "\<forall>r \<in> set rows. fits r" and "rows \<noteq> []"
  shows "unzip (JArr (map JArr rows))
    = (ret (map (\<lambda>i. JArr (map (\<lambda>r. cell r i) rows)) [0..<Max (set (map length rows))])
        :: ('s, js list) comp)"
proof -
  obtain r where r: "r \<in> set rows" "\<forall>q \<in> set rows. length q \<le> length r"
    and len: "longest (JArr (map JArr rows)) = (ret (length r) :: ('s, nat) comp)"
    using longest_c [OF assms(1,3)] by blast
  have "Max (set (map length rows)) = length r" using r by (intro Max_eqI) auto
  then show ?thesis
    by (simp add: unzip_def len pluck_rows [OF assms(1,2)] map_c_pure)
qed

theorem unzip_transposes_witness:
  "unzip (JArr (map JArr [[JNum 1, JNum 2], [JNum 3]]))
    = (ret [JArr [JNum 1, JNum 3], JArr [JNum 2, JUndef]] :: (unit, js list) comp)"
proof -
  have "unzip (JArr (map JArr [[JNum 1, JNum 2], [JNum 3]]))
    = (ret (map (\<lambda>i. JArr (map (\<lambda>r. cell r i) [[JNum 1, JNum 2], [JNum 3]]))
        [0..<Max (set (map length [[JNum 1, JNum 2], [JNum 3]]))]) :: (unit, js list) comp)"
    by (rule unzip_transposes) (simp_all add: fits_def)
  then show ?thesis by (simp add: cell_def numeral_2_eq_2)
qed

end
