(* ===== verification/UnderscoreText.thy ===== *)
theory UnderscoreText
  imports Underscore
begin

text \<open>
  \<open>underscore-1.13.1.js\<close>: escaping and unescaping of HTML, templates and unique identifiers.
  A template is compiled to JavaScript text; the text is computed here, and running it is the
  engine's \<open>new Function\<close>, a parameter. Code units above 255, among them the two line separators
  of the table \<open>escapes\<close>, have no representation.
\<close>

section \<open>Escaping\<close>

definition escapeMap :: jsobj where
  "escapeMap =
     [([CHR ''&''], JStr ''&amp;''), ([CHR ''<''], JStr ''&lt;''), ([CHR ''>''], JStr ''&gt;''),
      ([CHR 0x22], JStr ''&quot;''), ([CHR 0x27], JStr ''&#x27;''), ([CHR 0x60], JStr ''&#x60;'')]"

definition unescapeMap :: "jsobj res" where
  "unescapeMap = invert (JObj escapeMap)"

text \<open>
  The regular expression of \<open>createEscaper\<close> is the alternation of the keys; they are literal texts
  when none has a special character. \<open>find_key\<close> matches at the start of the text, \<open>test_keys\<close>
  anywhere, \<open>replace_keys\<close> replaces every match from left to right.
\<close>

definition literal_keys :: "string list \<Rightarrow> bool" where
  "literal_keys ks \<longleftrightarrow>
     ks \<noteq> [] \<and> list_all (\<lambda>k. k \<noteq> [] \<and> list_all (\<lambda>c. c \<notin> set (CHR 0x5C # ''.*+?^${}()|[]'')) k) ks"

definition find_key :: "string list \<Rightarrow> string \<Rightarrow> string option" where
  "find_key ks s = find (\<lambda>k. take (length k) s = k) ks"

lemma find_key_take: "find_key ks s = Some k \<Longrightarrow> take (length k) s = k"
  by (auto simp: find_key_def find_Some_iff)

lemma find_key_shorter: "find_key ks s = Some k \<Longrightarrow> k \<noteq> [] \<Longrightarrow> length s - length k < length s"
  using find_key_take [of ks s k] by (cases s) auto

fun test_keys :: "string list \<Rightarrow> string \<Rightarrow> bool" where
  "test_keys ks [] \<longleftrightarrow> find_key ks [] \<noteq> None"
| "test_keys ks (c # cs) \<longleftrightarrow> find_key ks (c # cs) \<noteq> None \<or> test_keys ks cs"

function replace_keys :: "jsobj \<Rightarrow> string \<Rightarrow> string res" where
  "replace_keys m s =
     (case find_key (keys (JObj m)) s of
        Some k \<Rightarrow>
          if k = [] then Inl OutsideModel
          else andThen (to_key (prop_at (JObj m) k)) (\<lambda>t.
               andThen (replace_keys m (drop (length k) s)) (\<lambda>r. Inr (t @ r)))
      | None \<Rightarrow>
          (case s of
             [] \<Rightarrow> Inr []
           | c # cs \<Rightarrow> andThen (replace_keys m cs) (\<lambda>r. Inr (c # r))))"
  by pat_completeness auto
termination
  by (relation "measure (\<lambda>(m, s). length s)") (auto dest: find_key_shorter)

declare replace_keys.simps [simp del]

definition createEscaper :: "jsobj \<Rightarrow> js \<Rightarrow> string res" where
  "createEscaper m v =
     (if \<not> literal_keys (keys (JObj m)) then Inl OutsideModel
      else andThen (if nullish v then Inr [] else to_key v) (\<lambda>s.
             if test_keys (keys (JObj m)) s then replace_keys m s else Inr s))"

definition escape_html :: "js \<Rightarrow> string res" where
  "escape_html v = createEscaper escapeMap v"

definition unescape_html :: "js \<Rightarrow> string res" where
  "unescape_html v = andThen unescapeMap (\<lambda>m. createEscaper m v)"

section \<open>Templates\<close>

definition escapes :: "(char \<times> char) list" where
  "escapes = [(CHR 0x27, CHR 0x27), (CHR 0x5C, CHR 0x5C), (CHR 0x0D, CHR ''r''), (CHR 0x0A, CHR ''n'')]"

definition escapeChar :: "char \<Rightarrow> string" where
  "escapeChar c = (case map_of escapes c of Some e \<Rightarrow> [CHR 0x5C, e] | None \<Rightarrow> [c])"

text \<open>\<open>text.replace(escapeRegExp, escapeChar)\<close>.\<close>

definition escape_literal :: "string \<Rightarrow> string" where
  "escape_literal s = concat (map escapeChar s)"

datatype token = Escape string | Interpolate string | Evaluate string

text \<open>
  One match of the combined delimiters \<open><%-\<close>, \<open><%=\<close>, \<open><%\<close> (in this order), with the shortest
  body of at least one character before \<open>%>\<close>.
\<close>

fun close_tag :: "string \<Rightarrow> (string \<times> string) option" where
  "close_tag [] = None"
| "close_tag (c # cs) =
     (if take 2 (c # cs) = ''%>'' then Some ([], drop 2 (c # cs))
      else map_option (\<lambda>(b, r). (c # b, r)) (close_tag cs))"

definition tag_body :: "string \<Rightarrow> string \<Rightarrow> (string \<times> string) option" where
  "tag_body opening s =
     (if take (length opening) s = opening
      then case drop (length opening) s of
             [] \<Rightarrow> None
           | c # cs \<Rightarrow> map_option (\<lambda>(b, r). (c # b, r)) (close_tag cs)
      else None)"

definition match_tag :: "string \<Rightarrow> (token \<times> string) option" where
  "match_tag s =
     (case tag_body ''<%-'' s of
        Some (b, r) \<Rightarrow> Some (Escape b, r)
      | None \<Rightarrow>
          (case tag_body ''<%='' s of
             Some (b, r) \<Rightarrow> Some (Interpolate b, r)
           | None \<Rightarrow> map_option (\<lambda>(b, r). (Evaluate b, r)) (tag_body ''<%'' s)))"

abbreviation newline :: string where "newline \<equiv> [CHR 0x0A]"
abbreviation quote :: string where "quote \<equiv> [CHR 0x27]"

fun token_source :: "token \<Rightarrow> string" where
  "token_source (Escape b) =
     quote @ ''+'' @ newline @ ''((__t=('' @ b @ ''))==null?'' @ quote @ quote @ '':_.escape(__t))+''
     @ newline @ quote"
| "token_source (Interpolate b) =
     quote @ ''+'' @ newline @ ''((__t=('' @ b @ ''))==null?'' @ quote @ quote @ '':__t)+''
     @ newline @ quote"
| "token_source (Evaluate b) =
     quote @ '';'' @ newline @ b @ newline @ ''__p+='' @ quote"

text \<open>The loop over the matches; \<open>pending\<close> is the text since the last one.\<close>

lemma close_tag_length: "close_tag s = Some (b, r) \<Longrightarrow> length r < length s"
  by (induction s arbitrary: b) (auto split: if_splits)

lemma tag_body_length: "tag_body opening s = Some (b, r) \<Longrightarrow> length r < length s"
proof -
  assume "tag_body opening s = Some (b, r)"
  then obtain c cs b' where "drop (length opening) s = c # cs" "close_tag cs = Some (b', r)"
    by (auto simp: tag_body_def split: if_splits list.splits)
  then have "length r < length cs" "Suc (length cs) = length s - length opening"
    using close_tag_length [of cs b' r] by (simp, metis length_Cons length_drop)
  then show ?thesis by linarith
qed

lemma match_tag_length: "match_tag s = Some (t, r) \<Longrightarrow> length r < length s"
  by (auto simp: match_tag_def dest!: tag_body_length split: option.splits)

function template_loop :: "string \<Rightarrow> string \<Rightarrow> string" where
  "template_loop pending s =
     (case match_tag s of
        Some (t, r) \<Rightarrow> escape_literal pending @ token_source t @ template_loop [] r
      | None \<Rightarrow>
          (case s of
             [] \<Rightarrow> escape_literal pending
           | c # cs \<Rightarrow> template_loop (pending @ [c]) cs))"
  by pat_completeness auto
termination
  by (relation "measure (\<lambda>(pending, s). length s)") (auto dest: match_tag_length)

declare template_loop.simps [simp del]

definition bareIdentifier :: "string \<Rightarrow> bool" where
  "bareIdentifier s =
     (let t = dropWhile is_space s; word = (\<lambda>c. is_word_char c \<or> c = CHR ''$'')
      in takeWhile word t \<noteq> [] \<and> list_all is_space (dropWhile word t))"

text \<open>The parameter of the generated function and its source; an empty variable counts as none.\<close>

definition template_code :: "string \<Rightarrow> string \<Rightarrow> (string \<times> string) res" where
  "template_code tmpl var =
     (let body = ''__p+='' @ quote @ template_loop [] tmpl @ quote @ '';'' @ newline;
          wrap = (\<lambda>source. ''var __t,__p='' @ quote @ quote @ '',__j=Array.prototype.join,''
                    @ ''print=function(){__p+=__j.call(arguments,'' @ quote @ quote @ '');};'' @ newline
                    @ source @ ''return __p;'' @ newline)
      in if var \<noteq> [] then
           if bareIdentifier var then Inr (var, wrap body) else Inl GenericError
         else Inr (''obj'', wrap (''with(obj||{}){'' @ newline @ body @ ''}'' @ newline)))"

definition template ::
    "(string \<Rightarrow> string \<Rightarrow> 'f res) \<Rightarrow> string \<Rightarrow> string \<Rightarrow> ('f \<times> string) res" where
  "template compile tmpl var =
     andThen (template_code tmpl var) (\<lambda>(argument, source).
     andThen (compile argument source) (\<lambda>render.
       Inr (render, ''function('' @ argument @ ''){'' @ newline @ source @ ''}'')))"

section \<open>Unique identifiers\<close>

definition uniqueId :: "string \<Rightarrow> int \<Rightarrow> int \<times> string" where
  "uniqueId prefix idCounter = (idCounter + 1, prefix @ int_str (idCounter + 1))"

section \<open>Escaping is safe and can be undone\<close>

lemma find_key_Nil [simp]: "find_key [] s = None"
  by (simp add: find_key_def)

lemma find_key_Cons: "find_key (k # ks) s = (if take (length k) s = k then Some k else find_key ks s)"
  by (simp add: find_key_def)

lemma replace_keys_none: "\<not> test_keys (keys (JObj m)) s \<Longrightarrow> replace_keys m s = Inr s"
  by (induction s) (simp_all add: replace_keys.simps)

lemma createEscaper_string:
  "literal_keys (keys (JObj m)) \<Longrightarrow> createEscaper m (JStr s) = replace_keys m s"
  by (simp add: createEscaper_def replace_keys_none)

lemma escape_keys:
  "keys (JObj escapeMap) = [[CHR ''&''], [CHR ''<''], [CHR ''>''], [CHR 0x22], [CHR 0x27], [CHR 0x60]]"
  "literal_keys (keys (JObj escapeMap))"
  by code_simp+

definition unescape_table :: jsobj where
  "unescape_table =
     [(''&amp;'', JStr [CHR ''&'']), (''&lt;'', JStr [CHR ''<'']), (''&gt;'', JStr [CHR ''>'']),
      (''&quot;'', JStr [CHR 0x22]), (''&#x27;'', JStr [CHR 0x27]), (''&#x60;'', JStr [CHR 0x60])]"

lemma unescapeMap_table: "unescapeMap = Inr unescape_table"
  by code_simp

lemma unescape_keys:
  "keys (JObj unescape_table) = [''&amp;'', ''&lt;'', ''&gt;'', ''&quot;'', ''&#x27;'', ''&#x60;'']"
  "literal_keys (keys (JObj unescape_table))"
  by code_simp+

definition entity :: "char \<Rightarrow> string" where
  "entity c = (case map_of escapeMap [c] of Some (JStr t) \<Rightarrow> t | _ \<Rightarrow> [c])"

lemma entity_simps:
  "entity CHR ''&'' = ''&amp;''" "entity CHR ''<'' = ''&lt;''" "entity CHR ''>'' = ''&gt;''"
  "entity CHR 0x22 = ''&quot;''" "entity CHR 0x27 = ''&#x27;''" "entity CHR 0x60 = ''&#x60;''"
  "c \<notin> {CHR ''&'', CHR ''<'', CHR ''>'', CHR 0x22, CHR 0x27, CHR 0x60} \<Longrightarrow> entity c = [c]"
  by (simp_all add: entity_def escapeMap_def)

lemma replace_escape: "replace_keys escapeMap s = Inr (concat (map entity s))"
proof (induction s)
  case Nil
  then show ?case by (simp add: replace_keys.simps escape_keys find_key_Cons)
next
  case (Cons c s)
  have "prop_at (JObj escapeMap) [d] = JStr (entity d)"
    if "d \<in> {CHR ''&'', CHR ''<'', CHR ''>'', CHR 0x22, CHR 0x27, CHR 0x60}" for d
    using that by (auto simp: entity_simps prop_at_def escapeMap_def)
  with Cons show ?case
    by (cases "c \<in> {CHR ''&'', CHR ''<'', CHR ''>'', CHR 0x22, CHR 0x27, CHR 0x60}")
      (auto simp: replace_keys.simps [of _ "c # s"] escape_keys find_key_Cons entity_simps)
qed

lemma escape_entities: "escape_html (JStr s) = Inr (concat (map entity s))"
  by (simp add: escape_html_def createEscaper_string [OF escape_keys(2)] replace_escape)

lemma unescape_props:
  "prop_at (JObj unescape_table) ''&amp;'' = JStr [CHR ''&'']"
  "prop_at (JObj unescape_table) ''&lt;'' = JStr [CHR ''<'']"
  "prop_at (JObj unescape_table) ''&gt;'' = JStr [CHR ''>'']"
  "prop_at (JObj unescape_table) ''&quot;'' = JStr [CHR 0x22]"
  "prop_at (JObj unescape_table) ''&#x27;'' = JStr [CHR 0x27]"
  "prop_at (JObj unescape_table) ''&#x60;'' = JStr [CHR 0x60]"
  by (simp_all add: prop_at_def unescape_table_def)

lemma unescape_entity:
  "replace_keys unescape_table (entity c @ r) = andThen (replace_keys unescape_table r) (\<lambda>t. Inr (c # t))"
proof (cases "c \<in> {CHR ''&'', CHR ''<'', CHR ''>'', CHR 0x22, CHR 0x27, CHR 0x60}")
  case True
  then show ?thesis
    by (auto simp: entity_simps replace_keys.simps [of _ "_ # _"] unescape_keys(1) find_key_Cons
        unescape_props)
next
  case False
  then have "find_key (keys (JObj unescape_table)) (c # r) = None"
    by (auto simp: unescape_keys find_key_Cons)
  with False show ?thesis by (simp add: entity_simps replace_keys.simps [of _ "c # r"])
qed

lemma unescape_entities: "replace_keys unescape_table (concat (map entity s)) = Inr s"
proof (induction s)
  case Nil
  then show ?case by (simp add: replace_keys.simps unescape_keys find_key_Cons)
qed (simp add: unescape_entity)

lemma entity_safe: "set (entity c) \<inter> {CHR ''<'', CHR ''>'', CHR 0x22, CHR 0x27, CHR 0x60} = {}"
  by (cases "c \<in> {CHR ''&'', CHR ''<'', CHR ''>'', CHR 0x22, CHR 0x27, CHR 0x60}")
    (auto simp: entity_simps)

text \<open>Escaping for HTML loses nothing and lets nothing through: unescaping gives the text back,
  and the escaped text has no angle bracket, quote or back quote in it.
\<close>
lemma escape_roundtrip:
  "\<exists>t. escape_html (JStr s) = Inr t \<and> unescape_html (JStr t) = Inr s
     \<and> set t \<inter> {CHR ''<'', CHR ''>'', CHR 0x22, CHR 0x27, CHR 0x60} = {}"
proof (intro exI conjI)
  show "escape_html (JStr s) = Inr (concat (map entity s))" by (rule escape_entities)
  show "unescape_html (JStr (concat (map entity s))) = Inr s"
    by (simp add: unescape_html_def unescapeMap_table createEscaper_string [OF unescape_keys(2)] unescape_entities)
  show "set (concat (map entity s)) \<inter> {CHR ''<'', CHR ''>'', CHR 0x22, CHR 0x27, CHR 0x60} = {}"
    unfolding set_concat set_map using entity_safe by blast
qed

section \<open>Generated templates say what the template says\<close>

text \<open>Reading a string literal of JavaScript in single quotes, up to the closing quote.\<close>

fun read_quoted :: "string \<Rightarrow> (string \<times> string) option" where
  "read_quoted [] = None"
| "read_quoted (c # cs) =
     (if c = CHR 0x27 then Some ([], cs)
      else if c = CHR 0x5C then
        (case cs of
           [] \<Rightarrow> None
         | d # ds \<Rightarrow>
             (case find (\<lambda>(x, e). e = d) escapes of
                Some (x, e) \<Rightarrow> map_option (\<lambda>(t, r). (x # t, r)) (read_quoted ds)
              | None \<Rightarrow> None))
      else if c = CHR 0x0A \<or> c = CHR 0x0D then None
      else map_option (\<lambda>(t, r). (c # t, r)) (read_quoted cs))"

lemma read_escaped_char:
  "read_quoted (escapeChar c @ r) = map_option (\<lambda>(t, r). (c # t, r)) (read_quoted r)"
  by (auto simp: escapeChar_def escapes_def split: option.split)

lemma read_escaped: "read_quoted (escape_literal s @ quote @ r) = Some (s, r)"
  by (induction s) (simp_all add: escape_literal_def read_escaped_char)

datatype piece = Text string | Tag token

fun piece_text :: "piece \<Rightarrow> string" where
  "piece_text (Text s) = s"
| "piece_text (Tag (Escape b)) = ''<%-'' @ b @ ''%>''"
| "piece_text (Tag (Interpolate b)) = ''<%='' @ b @ ''%>''"
| "piece_text (Tag (Evaluate b)) = ''<%'' @ b @ ''%>''"

fun piece_source :: "piece \<Rightarrow> string" where
  "piece_source (Text s) = escape_literal s"
| "piece_source (Tag t) = token_source t"

definition text_of :: "piece list \<Rightarrow> string" where
  "text_of ps = concat (map piece_text ps)"

lemma text_of_simps [simp]:
  "text_of [] = []" "text_of (p # ps) = piece_text p @ text_of ps"
  by (simp_all add: text_of_def)

lemma tag_text_not_empty [simp]: "piece_text (Tag t) \<noteq> []"
  by (cases t) simp_all

text \<open>
  What the regular expression of the tags means. A text may start with a tag of a kind when its
  delimiters and a body of at least one character stand there; of several kinds escaping goes
  before interpolating and interpolating before evaluating, and the body is the shortest one.
\<close>

fun body :: "token \<Rightarrow> string" where
  "body (Escape b) = b" | "body (Interpolate b) = b" | "body (Evaluate b) = b"

fun rank :: "token \<Rightarrow> nat" where
  "rank (Escape b) = 0" | "rank (Interpolate b) = 1" | "rank (Evaluate b) = 2"

definition could_start :: "token \<Rightarrow> string \<Rightarrow> bool" where
  "could_start t s \<longleftrightarrow> body t \<noteq> [] \<and> (\<exists>r. s = piece_text (Tag t) @ r)"

definition starts :: "token \<Rightarrow> string \<Rightarrow> bool" where
  "starts t s \<longleftrightarrow> could_start t s
     \<and> (\<forall>t'. could_start t' s \<longrightarrow> rank t < rank t' \<or> rank t = rank t' \<and> length (body t) \<le> length (body t'))"

text \<open>
  Text and tags in turn, beginning and ending with text. Where a tag stands, the template starts
  with that tag, and nowhere in a text could one start.
\<close>

fun well_split :: "piece list \<Rightarrow> bool" where
  "well_split [Text p] \<longleftrightarrow> (\<forall>u v t. p = u @ v \<longrightarrow> \<not> could_start t v)"
| "well_split (Text p # Tag t # ps) \<longleftrightarrow>
     (\<forall>u v t'. p = u @ v \<and> v \<noteq> [] \<longrightarrow> \<not> could_start t' (v @ text_of (Tag t # ps)))
     \<and> starts t (text_of (Tag t # ps)) \<and> well_split ps"
| "well_split ps \<longleftrightarrow> False"

lemma close_tag_parts: "close_tag s = Some (b, r) \<Longrightarrow> s = b @ ''%>'' @ r"
proof (induction s arbitrary: b)
  case (Cons c cs)
  show ?case
  proof (cases "take 2 (c # cs) = ''%>''")
    case True
    then have "c # cs = ''%>'' @ drop 2 (c # cs)" by (metis append_take_drop_id)
    with True Cons.prems show ?thesis by simp
  qed (use Cons in auto)
qed simp

lemma close_tag_finds: "\<exists>b' r'. close_tag (b @ ''%>'' @ r) = Some (b', r') \<and> length b' \<le> length b"
  by (induction b) auto

lemma tag_body_parts: "tag_body opening' s = Some (b, r) \<Longrightarrow> s = opening' @ b @ ''%>'' @ r \<and> b \<noteq> []"
proof -
  assume "tag_body opening' s = Some (b, r)"
  then obtain c cs b' where p: "take (length opening') s = opening'" "drop (length opening') s = c # cs"
      "close_tag cs = Some (b', r)" "b = c # b'"
    by (auto simp: tag_body_def split: if_splits list.splits)
  then have "s = opening' @ c # cs" by (metis append_take_drop_id)
  with p close_tag_parts [of cs b' r] show ?thesis by simp
qed

lemma tag_body_finds:
  "b \<noteq> [] \<Longrightarrow> \<exists>b' r'. tag_body opening' (opening' @ b @ ''%>'' @ r) = Some (b', r') \<and> length b' \<le> length b"
proof -
  assume "b \<noteq> []"
  then obtain c cs where b: "b = c # cs" by (cases b) auto
  from close_tag_finds [of cs r] b show ?thesis by (auto simp: tag_body_def)
qed

lemma match_tag_could:
  assumes "could_start t s"
  shows "\<exists>t' r. match_tag s = Some (t', r) \<and>
           (rank t' < rank t \<or> rank t' = rank t \<and> length (body t') \<le> length (body t))"
proof -
  from assms obtain r where s: "s = piece_text (Tag t) @ r" and b: "body t \<noteq> []"
    by (auto simp: could_start_def)
  note finds = tag_body_finds [OF b, of _ r]
  show ?thesis
    using finds [of "''<%-''"] finds [of "''<%=''"] finds [of "''<%''"] s
    by (cases t; cases "tag_body ''<%-'' s"; cases "tag_body ''<%='' s")
      (auto simp: match_tag_def)
qed

lemma match_tag_starts:
  assumes "match_tag s = Some (t, r)"
  shows "s = piece_text (Tag t) @ r" and "starts t s"
proof -
  show s: "s = piece_text (Tag t) @ r"
    using assms by (auto simp: match_tag_def split: option.splits dest!: tag_body_parts)
  have "body t \<noteq> []"
    using assms by (auto simp: match_tag_def split: option.splits dest!: tag_body_parts)
  with s have "could_start t s" by (auto simp: could_start_def)
  with match_tag_could [of _ s] assms show "starts t s" by (fastforce simp: starts_def)
qed

lemma match_tag_None: "match_tag s = None \<longleftrightarrow> (\<forall>t. \<not> could_start t s)"
proof
  show "match_tag s = None \<Longrightarrow> \<forall>t. \<not> could_start t s" using match_tag_could by fastforce
  show "\<forall>t. \<not> could_start t s \<Longrightarrow> match_tag s = None"
    using match_tag_starts(2) by (cases "match_tag s") (auto simp: starts_def)
qed

text \<open>At most one tag starts a text.\<close>

lemma starts_unique:
  assumes "starts t s" and "starts t' s"
  shows "t = t'"
proof -
  have "rank t < rank t' \<or> rank t = rank t' \<and> length (body t) \<le> length (body t')"
    and "rank t' < rank t \<or> rank t' = rank t \<and> length (body t') \<le> length (body t)"
    using assms by (simp_all add: starts_def)
  then have "rank t = rank t'" "length (body t) = length (body t')" by auto
  moreover from assms obtain r r' where "piece_text (Tag t) @ r = piece_text (Tag t') @ r'"
    by (auto simp: starts_def could_start_def)
  ultimately show ?thesis by (cases t; cases t') auto
qed

lemma match_tag_here: "starts t (piece_text (Tag t) @ r) \<Longrightarrow> match_tag (piece_text (Tag t) @ r) = Some (t, r)"
proof -
  let ?s = "piece_text (Tag t) @ r"
  assume t: "starts t ?s"
  then have "match_tag ?s \<noteq> None" using match_tag_None by (auto simp: starts_def)
  then obtain t' r' where m: "match_tag ?s = Some (t', r')" by auto
  from starts_unique [OF t match_tag_starts(2) [OF m]] match_tag_starts(1) [OF m] m show ?thesis by simp
qed

text \<open>The loop skips text in which no tag starts.\<close>

lemma loop_skips:
  "(\<And>u v t. p = u @ v \<Longrightarrow> v \<noteq> [] \<Longrightarrow> \<not> could_start t (v @ s)) \<Longrightarrow>
     template_loop pending (p @ s) = template_loop (pending @ p) s"
proof (induction p arbitrary: pending)
  case (Cons c p)
  have "match_tag (c # p @ s) = None"
    using Cons.prems [of "[]" "c # p"] match_tag_None by simp
  moreover have "template_loop (pending @ [c]) (p @ s) = template_loop ((pending @ [c]) @ p) s"
    by (rule Cons.IH) (use Cons.prems in \<open>metis append_Cons\<close>)
  ultimately show ?case by (simp add: template_loop.simps [of pending "c # p @ s"])
qed simp

lemma loop_split: "well_split ps \<Longrightarrow> template_loop [] (text_of ps) = concat (map piece_source ps)"
proof (induction ps rule: well_split.induct)
  case (1 p)
  then have "template_loop [] (p @ []) = template_loop ([] @ p) []"
    by (intro loop_skips) simp
  moreover have "match_tag [] = None" using 1 match_tag_None by force
  ultimately show ?case by (simp add: template_loop.simps [of p "[]"])
next
  case (2 p t ps)
  then have "template_loop [] (p @ text_of (Tag t # ps)) = template_loop ([] @ p) (text_of (Tag t # ps))"
    by (intro loop_skips) simp
  moreover from 2 have "match_tag (text_of (Tag t # ps)) = Some (t, text_of ps)"
    by (simp add: match_tag_here)
  ultimately show ?case using 2 by (simp add: template_loop.simps [of p "_"])
qed simp_all

text \<open>Every template can be split, in one way only.\<close>

lemma split_exists:
  "(\<And>u v t. pending = u @ v \<Longrightarrow> v \<noteq> [] \<Longrightarrow> \<not> could_start t (v @ s)) \<Longrightarrow>
     \<exists>ps. well_split ps \<and> text_of ps = pending @ s"
proof (induction pending s rule: template_loop.induct)
  case (1 pending s)
  show ?case
  proof (cases "match_tag s")
    case None
    show ?thesis
    proof (cases s)
      case Nil
      have "\<not> could_start t v" if "pending = u @ v" for u v t
        using that 1(3) [of u v t] None Nil match_tag_None by (cases "v = []") auto
      then show ?thesis using Nil by (intro exI [of _ "[Text pending]"]) simp
    next
      case (Cons c cs)
      have "\<exists>ps. well_split ps \<and> text_of ps = (pending @ [c]) @ cs"
      proof (rule 1(1) [OF None Cons])
        fix u v t
        assume v: "pending @ [c] = u @ v" "v \<noteq> []"
        then obtain v' where v': "v = v' @ [c]" "pending = u @ v'"
          by (cases v rule: rev_cases) auto
        then show "\<not> could_start t (v @ cs)"
          using 1(3) [of u v' t] None Cons match_tag_None by (cases "v' = []") auto
      qed
      with Cons show ?thesis by simp
    qed
  next
    case (Some m)
    then obtain t r where m: "match_tag s = Some (t, r)" by (cases m) auto
    from 1(2) [OF m refl] obtain ps where ps: "well_split ps" "text_of ps = r" by auto
    with 1(3) match_tag_starts [OF m] show ?thesis
      by (intro exI [of _ "Text pending # Tag t # ps"]) auto
  qed
qed

lemma split_first:
  assumes "well_split (Text p # ps)" and "well_split (Text q # qs)"
    and "text_of (Text p # ps) = text_of (Text q # qs)" and "length p \<le> length q"
  shows "p = q"
proof (rule ccontr)
  assume "p \<noteq> q"
  from assms(3,4) obtain v where q: "q = p @ v" and rest: "text_of ps = v @ text_of qs"
    by (auto simp: append_eq_append_conv2)
  with \<open>p \<noteq> q\<close> have v: "v \<noteq> []" by auto
  show False
  proof (cases ps)
    case Nil
    with rest v show False by simp
  next
    case (Cons t ps')
    with assms(1) obtain t' where t: "t = Tag t'" by (cases t) auto
    with Cons assms(1) have t': "could_start t' (v @ text_of qs)" by (simp add: starts_def flip: rest)
    show False
    proof (cases qs)
      case Nil
      with assms(2) q t' show False by auto
    next
      case (Cons u qs')
      with assms(2) obtain u' where "u = Tag u'" by (cases u) auto
      with Cons assms(2) q v t' show False by auto
    qed
  qed
qed

lemma split_unique: "well_split ps \<Longrightarrow> well_split qs \<Longrightarrow> text_of ps = text_of qs \<Longrightarrow> ps = qs"
proof (induction ps arbitrary: qs rule: well_split.induct)
  case (1 p)
  from 1(2) obtain q qs' where qs: "qs = Text q # qs'" by (cases qs rule: well_split.cases) auto
  with 1 split_first [of p "[]" q qs'] split_first [of q qs' p "[]"] have "p = q" by fastforce
  with 1 qs show ?case by (cases qs rule: well_split.cases) (auto simp: starts_def could_start_def)
next
  case (2 p t ps)
  from 2(3) obtain q qs' where qs: "qs = Text q # qs'" by (cases qs rule: well_split.cases) auto
  with 2 split_first [of p "Tag t # ps" q qs'] split_first [of q qs' p "Tag t # ps"]
  have pq: "p = q" by fastforce
  with 2 qs have rest: "text_of (Tag t # ps) = text_of qs'" by simp
  show ?case
  proof (cases qs')
    case Nil
    with rest show ?thesis by (cases t) simp_all
  next
    case (Cons u us)
    with 2(3) qs obtain t' where t': "u = Tag t'" by (cases u) auto
    with 2 qs Cons rest have "starts t (text_of qs')" "starts t' (text_of qs')" "well_split us" by simp_all
    with starts_unique Cons t' rest 2 qs pq show ?thesis by auto
  qed
qed simp_all

text \<open>The parameter: a word of letters, digits, \<open>_\<close> and \<open>$\<close>, and spaces around it.\<close>

definition one_word :: "string \<Rightarrow> bool" where
  "one_word s \<longleftrightarrow> (\<exists>l w r. s = l @ w @ r \<and> w \<noteq> [] \<and> list_all is_space l \<and> list_all is_space r
     \<and> list_all (\<lambda>c. is_word_char c \<or> c = CHR ''$'') w)"

definition prologue :: string where
  "prologue =
     ''var __t,__p='' @ quote @ quote @ '',__j=Array.prototype.join,''
     @ ''print=function(){__p+=__j.call(arguments,'' @ quote @ quote @ '');};'' @ newline"

lemma template_code_eq:
  "template_code tmpl var =
     (if var = [] then
        Inr (''obj'', prologue @ ''with(obj||{}){'' @ newline @ ''__p+='' @ quote @ template_loop [] tmpl
               @ quote @ '';'' @ newline @ ''}'' @ newline @ ''return __p;'' @ newline)
      else if bareIdentifier var then
        Inr (var, prologue @ ''__p+='' @ quote @ template_loop [] tmpl @ quote @ '';'' @ newline
               @ ''return __p;'' @ newline)
      else Inl GenericError)"
  by (simp add: template_code_def prologue_def)

lemma word_no_space: "is_word_char c \<or> c = CHR ''$'' \<Longrightarrow> \<not> is_space c"
  by (auto simp: is_word_char_def is_space_def Let_def)

lemma bareIdentifier_one_word: "bareIdentifier s \<longleftrightarrow> one_word s"
proof
  let ?t = "dropWhile is_space s" and ?word = "\<lambda>c. is_word_char c \<or> c = CHR ''$''"
  assume "bareIdentifier s"
  then have "takeWhile ?word ?t \<noteq> []" "list_all is_space (dropWhile ?word ?t)"
    by (simp_all add: bareIdentifier_def Let_def)
  moreover have "s = takeWhile is_space s @ takeWhile ?word ?t @ dropWhile ?word ?t" by simp
  moreover have "list_all is_space (takeWhile is_space s)" "list_all ?word (takeWhile ?word ?t)"
    by (auto simp: list_all_iff dest: set_takeWhileD)
  ultimately show "one_word s" unfolding one_word_def by blast
next
  let ?word = "\<lambda>c. is_word_char c \<or> c = CHR ''$''"
  assume "one_word s"
  then obtain l w r where s: "s = l @ w @ r" and w: "w \<noteq> []" "list_all ?word w"
    and sp: "list_all is_space l" "list_all is_space r" by (auto simp: one_word_def)
  from w obtain c w' where c: "w = c # w'" "?word c" by (cases w) auto
  have "dropWhile is_space s = w @ r"
    using sp(1) c word_no_space [of c] by (simp add: s list_all_iff dropWhile_append2)
  moreover have "takeWhile ?word (w @ r) = w @ takeWhile ?word r" "dropWhile ?word (w @ r) = dropWhile ?word r"
    using w(2) by (simp_all add: list_all_iff takeWhile_append2 dropWhile_append2)
  moreover have "list_all is_space (dropWhile ?word r)"
    using sp(2) by (auto simp: list_all_iff dest: set_dropWhileD)
  ultimately show "bareIdentifier s" using w(1) by (simp add: bareIdentifier_def Let_def)
qed

text \<open>The statement that builds up the output, and the whole source.\<close>

definition body_source :: "piece list \<Rightarrow> string" where
  "body_source ps = ''__p+='' @ quote @ concat (map piece_source ps) @ quote @ '';'' @ newline"

definition expected_code :: "piece list \<Rightarrow> string \<Rightarrow> (string \<times> string) res" where
  "expected_code ps var =
     (if var = [] then
        Inr (''obj'', prologue @ ''with(obj||{}){'' @ newline @ body_source ps @ ''}'' @ newline
               @ ''return __p;'' @ newline)
      else if one_word var then Inr (var, prologue @ body_source ps @ ''return __p;'' @ newline)
      else Inl GenericError)"

text \<open>
  C30. A template is split in exactly one way into texts and tags such that a tag stands
  wherever one can start, escaping tried before interpolating and interpolating before
  evaluating, each with the shortest body; the generated code is that of these pieces in their
  order between a fixed head and end. The literal of a text reads as that text. The name given
  for the parameter is accepted exactly when it is one word of letters, digits, \<open>_\<close> and \<open>$\<close>
  with spaces around it.
\<close>

theorem template_faithful:
  "(\<exists>!ps. well_split ps \<and> text_of ps = tmpl)
   \<and> (\<forall>ps. well_split ps \<and> text_of ps = tmpl \<longrightarrow> template_code tmpl var = expected_code ps var)
   \<and> (\<forall>s r. read_quoted (piece_source (Text s) @ quote @ r) = Some (s, r))"
proof (intro conjI allI impI)
  obtain ps where "well_split ps \<and> text_of ps = tmpl" using split_exists [of "[]" tmpl] by auto
  with split_unique show "\<exists>!ps. well_split ps \<and> text_of ps = tmpl" by metis
  show "template_code tmpl var = expected_code ps var" if "well_split ps \<and> text_of ps = tmpl" for ps
    using that loop_split [of ps]
    by (auto simp: template_code_eq expected_code_def body_source_def bareIdentifier_one_word)
  show "read_quoted (piece_source (Text s) @ quote @ r) = Some (s, r)" for s r
    using read_escaped by simp
qed

theorem template_faithful_witness:
  "template_code ''a<%=b%>'' ''x'' = expected_code [Text ''a'', Tag (Interpolate ''b''), Text []] ''x''"
proof -
  have m: "match_tag ''<%=b%>'' = Some (Interpolate ''b'', [])" by code_simp
  have none: "match_tag ''a<%=b%>'' = None" "match_tag [] = None" by code_simp+
  have "\<not> could_start t' (v @ ''<%=b%>'')" if "''a'' = u @ v" "v \<noteq> []" for u v t'
    using that none(1) match_tag_None [of "''a<%=b%>''"] by (auto simp: append_eq_Cons_conv Cons_eq_append_conv)
  moreover have "\<not> could_start t' []" for t' using none(2) match_tag_None by blast
  ultimately have "well_split [Text ''a'', Tag (Interpolate ''b''), Text []]"
    using match_tag_starts(2) [OF m] by auto
  with template_faithful [of "''a<%=b%>''" "''x''"] show ?thesis by simp
qed

section \<open>Unique identifiers are unique for one prefix\<close>

text \<open>The identifiers for a list of prefixes, asked for one after the other.\<close>

fun uniqueIds :: "int \<Rightarrow> string list \<Rightarrow> string list" where
  "uniqueIds n [] = []"
| "uniqueIds n (p # ps) = (let (n', i) = uniqueId p n in i # uniqueIds n' ps)"

lemma trailing_digits:
  assumes "p = [] \<or> \<not> is_digit (last p)"
  shows "takeWhile is_digit (rev (p @ nat_str n)) = rev (nat_str n)"
proof -
  have "\<forall>c \<in> set (rev (nat_str n)). is_digit c"
    using nat_str_digits [of n] by (simp add: list_all_iff)
  moreover have "takeWhile is_digit (rev p) = []"
    using assms by (cases p rule: rev_cases) auto
  ultimately show ?thesis by (simp add: takeWhile_append)
qed

lemma uniqueIds_nat:
  "0 \<le> n \<Longrightarrow> uniqueIds n ps = map (\<lambda>i. (ps ! i) @ nat_str (nat n + i + 1)) [0..<length ps]"
proof (induction ps arbitrary: n)
  case (Cons p ps)
  have "[0..<length (p # ps)] = 0 # map Suc [0..<length ps]" by (simp add: upt_conv_Cons map_Suc_upt del: upt_Suc)
  with Cons show ?case
    by (simp add: uniqueId_def int_str_def nat_add_distrib del: upt_Suc)
qed simp

text \<open>
  The identifiers of a session are distinct as long as no prefix ends in a digit, so always
  for a single prefix. With prefixes that do, the same identifier can be given out twice.
\<close>
theorem uniqueIds_distinct:
  assumes "\<forall>p \<in> set ps. p = [] \<or> \<not> is_digit (last p)" and "0 \<le> n"
  shows "distinct (uniqueIds n ps) \<and> snd (uniqueId ''a1'' 0) = snd (uniqueId ''a'' 10)"
proof
  have "i = j" if "i < length ps" "j < length ps"
      and eq: "ps ! i @ nat_str (nat n + i + 1) = ps ! j @ nat_str (nat n + j + 1)" for i j
  proof -
    have "rev (nat_str (nat n + i + 1)) = rev (nat_str (nat n + j + 1))"
      using assms(1) that(1,2) trailing_digits [of "ps ! i"] trailing_digits [of "ps ! j"] eq
      by (metis nth_mem)
    then show ?thesis by simp
  qed
  then show "distinct (uniqueIds n ps)"
    using assms(2) by (auto simp: uniqueIds_nat distinct_map inj_on_def)
  show "snd (uniqueId ''a1'' 0) = snd (uniqueId ''a'' 10)"
    by code_simp
qed

theorem uniqueIds_distinct_witness: "distinct (uniqueIds 0 [''row'', ''row''])"
  using uniqueIds_distinct [of "[''row'', ''row'']" 0] by (simp add: is_digit_def)

end
