(* ===== verification/UnderscoreFun.thy ===== *)
theory UnderscoreFun
  imports Underscore
begin

text \<open>
  \<open>underscore-1.13.1.js\<close>: functions on functions. A function is a computation on its list of
  arguments; the value of \<open>this\<close> is not modelled. What the returned function captures
  (\<open>times\<close>, \<open>memo\<close>, \<open>timeout\<close>, \<open>previous\<close>) is its state. \<open>throttle\<close> and \<open>debounce\<close> work with
  the clock and with one timer each: their calls, the firing of the timer and \<open>cancel\<close> are the
  steps of a relation, and the moment of a step is any time not before the previous one; a
  timer fires when it is due or later.
\<close>

section \<open>Arguments\<close>

type_synonym 's fn = "js list \<Rightarrow> ('s, js) comp"

text \<open>\<open>arguments[i]\<close>.\<close>

definition argument :: "js list \<Rightarrow> nat \<Rightarrow> js" where
  "argument args i = (if i < length args then args ! i else JUndef)"

definition restArguments :: "'s fn \<Rightarrow> nat \<Rightarrow> 's fn" where
  "restArguments func startIndex args =
     func (map (argument args) [0..<startIndex] @ [JArr (drop startIndex args)])"

text \<open>Bound arguments of \<open>partial\<close>; \<open>None\<close> is the placeholder.\<close>

fun fill_bound :: "js option list \<Rightarrow> js list \<Rightarrow> js list" where
  "fill_bound [] args = args"
| "fill_bound (Some b # bs) args = b # fill_bound bs args"
| "fill_bound (None # bs) args = argument args 0 # fill_bound bs (drop 1 args)"

definition partial :: "'s fn \<Rightarrow> js option list \<Rightarrow> 's fn" where
  "partial func boundArgs args = func (fill_bound boundArgs args)"

definition compose :: "'s fn list \<Rightarrow> 's fn" where
  "compose fs args =
     (case rev fs of
        [] \<Rightarrow> raise TypeError
      | f # gs \<Rightarrow> bind_c (f args) (\<lambda>r. fold_c (\<lambda>r g. g [r]) r gs))"

section \<open>Counting calls\<close>

definition after :: "'s fn \<Rightarrow> (int \<times> 's) fn" where
  "after func args = (\<lambda>(times, s).
     if times - 1 < 1 then let (s', r) = func args s in ((times - 1, s'), r)
     else ((times - 1, s), Inr JUndef))"

definition before :: "'s fn \<Rightarrow> (int \<times> js \<times> 's) fn" where
  "before func args = (\<lambda>(times, memo, s).
     if 0 < times - 1 then
       case func args s of
         (s', Inr v) \<Rightarrow> ((times - 1, v, s'), Inr v)
       | (s', Inl e) \<Rightarrow> ((times - 1, memo, s'), Inl e)
     else ((times - 1, memo, s), Inr memo))"

definition once_start :: "'s \<Rightarrow> int \<times> js \<times> 's" where
  "once_start s = (2, JUndef, s)"

section \<open>Memoizing\<close>

text \<open>The function may use the memoized one, so it works on the cache, too.\<close>

definition hash_address :: "(jsobj \<times> 's) fn option \<Rightarrow> js list \<Rightarrow> (jsobj \<times> 's, string) comp" where
  "hash_address hasher args =
     bind_c (case hasher of Some h \<Rightarrow> h args | None \<Rightarrow> ret (argument args 0)) (\<lambda>a. lift (to_key a))"

definition store_cache :: "string \<Rightarrow> js \<Rightarrow> (jsobj \<times> 's, js) comp" where
  "store_cache address v = (\<lambda>(cache, s).
     case write_key address v cache of
       Inr cache' \<Rightarrow> ((cache', s), Inr v)
     | Inl e \<Rightarrow> ((cache, s), Inl e))"

definition memoize :: "(jsobj \<times> 's) fn \<Rightarrow> (jsobj \<times> 's) fn option \<Rightarrow> (jsobj \<times> 's) fn" where
  "memoize func hasher args =
     bind_c (hash_address hasher args) (\<lambda>address. (\<lambda>(cache, s).
       case map_of cache address of
         Some v \<Rightarrow> ((cache, s), Inr v)
       | None \<Rightarrow> bind_c (func args) (store_cache address) (cache, s)))"

section \<open>Throttling\<close>

text \<open>
  \<open>timeout\<close> holds when the pending timer is due, \<open>executed\<close> the calls of the function with their
  times, \<open>calls\<close> those of the throttled function; \<open>clock\<close> is the time of the last step.
\<close>

record 'a limiter =
  clock :: int
  timeout :: "int option"
  previous :: int
  args_of :: "'a option"
  executed :: "(int \<times> 'a option) list"
  calls :: "(int \<times> 'a) list"

definition new_limiter :: "int \<Rightarrow> 'a limiter" where
  "new_limiter now =
     \<lparr>clock = now, timeout = None, previous = 0, args_of = None, executed = [], calls = []\<rparr>"

definition execute :: "int \<Rightarrow> 'a limiter \<Rightarrow> 'a limiter" where
  "execute now s = s\<lparr>executed := executed s @ [(now, args_of s)]\<rparr>"

definition drop_args :: "'a limiter \<Rightarrow> 'a limiter" where
  "drop_args s = (if timeout s = None then s\<lparr>args_of := None\<rparr> else s)"

definition throttle_later :: "bool \<Rightarrow> int \<Rightarrow> 'a limiter \<Rightarrow> 'a limiter" where
  "throttle_later leading now s =
     drop_args (execute now (s\<lparr>previous := (if leading then now else 0), timeout := None\<rparr>))"

definition throttled :: "int \<Rightarrow> bool \<Rightarrow> bool \<Rightarrow> int \<Rightarrow> 'a \<Rightarrow> 'a limiter \<Rightarrow> 'a limiter" where
  "throttled wait leading trailing now a s =
     (let s1 = (if previous s = 0 \<and> \<not> leading then s\<lparr>previous := now\<rparr> else s);
          remaining = wait - (now - previous s1);
          s2 = s1\<lparr>args_of := Some a\<rparr>
      in if remaining \<le> 0 \<or> wait < remaining
         then drop_args (execute now (s2\<lparr>timeout := None, previous := now\<rparr>))
         else if timeout s2 = None \<and> trailing then s2\<lparr>timeout := Some (now + remaining)\<rparr>
         else s2)"

definition throttle_cancel :: "'a limiter \<Rightarrow> 'a limiter" where
  "throttle_cancel s = s\<lparr>timeout := None, previous := 0, args_of := None\<rparr>"

inductive throttle_step :: "int \<Rightarrow> bool \<Rightarrow> bool \<Rightarrow> 'a limiter \<Rightarrow> 'a limiter \<Rightarrow> bool"
  for wait leading trailing where
  call: "clock s \<le> now \<Longrightarrow> throttle_step wait leading trailing s
     (throttled wait leading trailing now a (s\<lparr>clock := now, calls := calls s @ [(now, a)]\<rparr>))"
| fire: "timeout s = Some due \<Longrightarrow> due \<le> now \<Longrightarrow> clock s \<le> now \<Longrightarrow>
     throttle_step wait leading trailing s (throttle_later leading now (s\<lparr>clock := now\<rparr>))"

section \<open>Debouncing\<close>

definition debounce_later :: "int \<Rightarrow> bool \<Rightarrow> int \<Rightarrow> 'a limiter \<Rightarrow> 'a limiter" where
  "debounce_later wait immediate now s =
     (let passed = now - previous s
      in if passed < wait then s\<lparr>timeout := Some (now + (wait - passed))\<rparr>
         else
           let s1 = s\<lparr>timeout := None\<rparr>
           in drop_args (if \<not> immediate then execute now s1 else s1))"

definition debounced :: "int \<Rightarrow> bool \<Rightarrow> int \<Rightarrow> 'a \<Rightarrow> 'a limiter \<Rightarrow> 'a limiter" where
  "debounced wait immediate now a s =
     (let s1 = s\<lparr>args_of := Some a, previous := now\<rparr>
      in if timeout s1 = None
         then let s2 = s1\<lparr>timeout := Some (now + wait)\<rparr> in if immediate then execute now s2 else s2
         else s1)"

definition debounce_cancel :: "'a limiter \<Rightarrow> 'a limiter" where
  "debounce_cancel s = s\<lparr>timeout := None, args_of := None\<rparr>"

inductive debounce_step :: "int \<Rightarrow> bool \<Rightarrow> 'a limiter \<Rightarrow> 'a limiter \<Rightarrow> bool"
  for wait immediate where
  call: "clock s \<le> now \<Longrightarrow> debounce_step wait immediate s
     (debounced wait immediate now a (s\<lparr>clock := now, calls := calls s @ [(now, a)]\<rparr>))"
| fire: "timeout s = Some due \<Longrightarrow> due \<le> now \<Longrightarrow> clock s \<le> now \<Longrightarrow>
     debounce_step wait immediate s (debounce_later wait immediate now (s\<lparr>clock := now\<rparr>))"

section \<open>Throttled calls are spaced, and the last one is made\<close>

definition spaced :: "int \<Rightarrow> (int \<times> 'a option) list \<Rightarrow> bool" where
  "spaced wait log \<longleftrightarrow> sorted_wrt (\<lambda>x y. fst x + wait \<le> fst y) log"

lemma spaced_snoc:
  "0 \<le> wait \<Longrightarrow> spaced wait (log @ [x]) \<longleftrightarrow> spaced wait log \<and> (log = [] \<or> fst (last log) + wait \<le> fst x)"
proof (induction log rule: rev_induct)
  case (snoc y log)
  then show ?case by (auto simp: spaced_def sorted_wrt_append)
qed (simp add: spaced_def)

text \<open>
  The steps between two uses of \<open>cancel\<close>; what holds between two steps: the last execution lies \<open>wait\<close> before a pending timer, and
  not after \<open>previous\<close>; the last call has been executed or is what the timer will execute.
\<close>

definition throttle_inv :: "int \<Rightarrow> bool \<Rightarrow> bool \<Rightarrow> 'a limiter \<Rightarrow> bool" where
  "throttle_inv wait leading trailing s \<longleftrightarrow>
     spaced wait (executed s) \<and> 0 \<le> clock s \<and> previous s \<le> clock s
     \<and> (executed s \<noteq> [] \<longrightarrow>
          fst (last (executed s)) \<le> clock s
          \<and> (fst (last (executed s)) \<le> previous s \<or> previous s = 0 \<and> \<not> leading)
          \<and> (\<forall>due. timeout s = Some due \<longrightarrow> fst (last (executed s)) + wait \<le> due))
     \<and> (calls s \<noteq> [] \<longrightarrow> (timeout s = None \<and> trailing \<longrightarrow> executed s \<noteq> [] \<and>
            snd (last (executed s)) = Some (snd (last (calls s))))
          \<and> (timeout s \<noteq> None \<longrightarrow> args_of s = Some (snd (last (calls s)))))"

lemma throttle_inv_call:
  assumes "throttle_inv wait leading trailing s" and "clock s \<le> now" and "0 < wait"
  shows "throttle_inv wait leading trailing
     (throttled wait leading trailing now a (s\<lparr>clock := now, calls := calls s @ [(now, a)]\<rparr>))"
  using assms
  by (auto simp: throttle_inv_def throttled_def execute_def drop_args_def Let_def spaced_snoc)

lemma throttle_inv_fire:
  assumes "throttle_inv wait leading trailing s" and "timeout s = Some due" and "due \<le> now"
    and "clock s \<le> now" and "0 < wait"
  shows "throttle_inv wait leading trailing (throttle_later leading now (s\<lparr>clock := now\<rparr>))"
  using assms
  by (auto simp: throttle_inv_def throttle_later_def execute_def drop_args_def spaced_snoc)

lemma throttle_inv_steps:
  "(throttle_step wait leading trailing)\<^sup>*\<^sup>* s0 s \<Longrightarrow> throttle_inv wait leading trailing s0 \<Longrightarrow>
     0 < wait \<Longrightarrow> throttle_inv wait leading trailing s"
  by (induction rule: rtranclp_induct)
    (auto elim!: throttle_step.cases intro: throttle_inv_call throttle_inv_fire)

text \<open>
  C28. A throttled function (with a positive \<open>wait\<close>, and as long as it is not cancelled) runs at most
  once in any window of length \<open>wait\<close>, whatever the times of the calls and however late its timer fires. With a trailing
  edge, but not without one, the last call is not lost: its arguments are those of the last run,
  or a timer is pending that will run with them. A \<open>cancel\<close> restarts the window: with a
  leading edge the next call, at a time of at least \<open>wait\<close>, runs at once.
\<close>

theorem throttle_correct:
  assumes "(throttle_step wait leading trailing)\<^sup>*\<^sup>* (new_limiter t0) s" and "0 < wait" and "0 \<le> t0"
  shows "spaced wait (executed s)
    \<and> (trailing \<and> calls s \<noteq> [] \<longrightarrow>
         (if timeout s = None
          then executed s \<noteq> [] \<and> snd (last (executed s)) = Some (snd (last (calls s)))
          else args_of s = Some (snd (last (calls s)))))
    \<and> (leading \<and> wait \<le> now \<longrightarrow>
         executed (throttled wait leading trailing now a (throttle_cancel s)) = executed s @ [(now, Some a)])"
proof -
  have "throttle_inv wait leading trailing (new_limiter t0)"
    using assms(3) by (simp add: throttle_inv_def new_limiter_def spaced_def)
  then have "throttle_inv wait leading trailing s" using throttle_inv_steps assms(1,2) by blast
  moreover have "leading \<and> wait \<le> now \<longrightarrow>
      executed (throttled wait leading trailing now a (throttle_cancel s)) = executed s @ [(now, Some a)]"
    by (simp add: throttled_def throttle_cancel_def execute_def drop_args_def)
  ultimately show ?thesis by (auto simp: throttle_inv_def)
qed

theorem throttle_correct_witness:
  "\<exists>s :: int limiter. (throttle_step 100 True True)\<^sup>*\<^sup>* (new_limiter 1000) s \<and> length (executed s) = 2
     \<and> spaced 100 (executed s)"
proof -
  let ?a = "throttled 100 True True 1000 (7 :: int) (new_limiter 1000\<lparr>clock := 1000, calls := [(1000, 7)]\<rparr>)"
  let ?b = "throttled 100 True True 1010 8 (?a\<lparr>clock := 1010, calls := calls ?a @ [(1010, 8)]\<rparr>)"
  let ?c = "throttle_later True 1105 (?b\<lparr>clock := 1105\<rparr>)"
  have 1: "throttle_step 100 True True (new_limiter 1000) ?a"
    using throttle_step.call [of "new_limiter 1000" 1000 100 True True 7] by (simp add: new_limiter_def)
  have 2: "throttle_step 100 True True ?a ?b"
    by (rule throttle_step.call)
      (simp add: new_limiter_def throttled_def execute_def drop_args_def)
  have 3: "throttle_step 100 True True ?b ?c"
    by (rule throttle_step.fire [where due = 1100])
      (simp_all add: new_limiter_def throttled_def execute_def drop_args_def)
  have run: "(throttle_step 100 True True)\<^sup>*\<^sup>* (new_limiter 1000) ?c"
    using 1 2 3 by (meson converse_rtranclp_into_rtranclp rtranclp.rtrancl_refl)
  moreover have "length (executed ?c) = 2"
    by (simp add: new_limiter_def throttled_def throttle_later_def execute_def drop_args_def)
  moreover have "spaced 100 (executed ?c)" by (rule throttle_correct [OF run, THEN conjunct1]) simp_all
  ultimately show ?thesis by (intro exI [of _ ?c] conjI)
qed

section \<open>Debounced calls run once per burst\<close>

text \<open>
  A run at the end of a burst: \<open>wait\<close> after one call, and before the next. A run at its
  beginning: with a call, and \<open>wait\<close> after all calls before it.
\<close>

definition after_burst :: "int \<Rightarrow> (int \<times> 'a) list \<Rightarrow> int \<times> 'a option \<Rightarrow> bool" where
  "after_burst wait cs x \<longleftrightarrow>
     (\<exists>us p a vs. cs = us @ (p, a) # vs \<and> snd x = Some a \<and> p + wait \<le> fst x
        \<and> (\<forall>v \<in> set vs. fst x \<le> fst v))"

definition before_burst :: "int \<Rightarrow> (int \<times> 'a) list \<Rightarrow> int \<times> 'a option \<Rightarrow> bool" where
  "before_burst wait cs x \<longleftrightarrow>
     (\<exists>us a vs. cs = us @ (fst x, a) # vs \<and> snd x = Some a \<and> (\<forall>u \<in> set us. fst u + wait \<le> fst x))"

lemma after_burst_later: "after_burst wait cs x \<Longrightarrow> fst x \<le> t \<Longrightarrow> after_burst wait (cs @ [(t, a)]) x"
  unfolding after_burst_def by fastforce

lemma before_burst_later: "before_burst wait cs x \<Longrightarrow> before_burst wait (cs @ [c]) x"
  unfolding before_burst_def by fastforce

definition burst_ok :: "int \<Rightarrow> bool \<Rightarrow> 'a limiter \<Rightarrow> bool" where
  "burst_ok wait immediate s \<longleftrightarrow>
     (\<forall>x \<in> set (executed s).
        (if immediate then before_burst wait (calls s) x else after_burst wait (calls s) x))"

definition debounce_inv :: "int \<Rightarrow> bool \<Rightarrow> 'a limiter \<Rightarrow> bool" where
  "debounce_inv wait immediate s \<longleftrightarrow>
     burst_ok wait immediate s
     \<and> (\<forall>x \<in> set (executed s). fst x \<le> clock s) \<and> (\<forall>c \<in> set (calls s). fst c \<le> clock s)
     \<and> (timeout s \<noteq> None \<longrightarrow>
          calls s \<noteq> [] \<and> previous s = fst (last (calls s)) \<and> args_of s = Some (snd (last (calls s))))
     \<and> (timeout s = None \<and> \<not> immediate \<and> calls s \<noteq> [] \<longrightarrow>
          executed s \<noteq> [] \<and> snd (last (executed s)) = Some (snd (last (calls s))))
     \<and> (timeout s = None \<longrightarrow> (\<forall>c \<in> set (calls s). fst c + wait \<le> clock s))
     \<and> (\<forall>c \<in> set (calls s). fst c \<le> fst (last (calls s)))"

lemma burst_ok_call:
  "burst_ok wait immediate s \<Longrightarrow> \<forall>x \<in> set (executed s). fst x \<le> now \<Longrightarrow>
     burst_ok wait immediate (s\<lparr>calls := calls s @ [(now, a)]\<rparr>)"
  by (auto simp: burst_ok_def intro: after_burst_later before_burst_later)

lemma before_burst_now:
  "\<forall>c \<in> set cs. fst c + wait \<le> now \<Longrightarrow> before_burst wait (cs @ [(now, a)]) (now, Some a)"
  unfolding before_burst_def by (intro exI [of _ cs] exI [of _ a] exI [of _ "[]"]) simp

lemma after_burst_now:
  "cs \<noteq> [] \<Longrightarrow> fst (last cs) + wait \<le> now \<Longrightarrow> after_burst wait cs (now, Some (snd (last cs)))"
  unfolding after_burst_def
  by (intro exI [of _ "butlast cs"] exI [of _ "fst (last cs)"] exI [of _ "snd (last cs)"] exI [of _ "[]"])
    simp

lemma burst_ok_fields:
  "executed s' = executed s \<Longrightarrow> calls s' = calls s \<Longrightarrow> burst_ok wait imm s' = burst_ok wait imm s"
  by (simp add: burst_ok_def)

lemma debounce_inv_call:
  assumes "debounce_inv wait immediate s" and "clock s \<le> now" and "0 < wait"
  shows "debounce_inv wait immediate
     (debounced wait immediate now a (s\<lparr>clock := now, calls := calls s @ [(now, a)]\<rparr>))"
proof -
  have late: "\<forall>x \<in> set (executed s). fst x \<le> now" "\<forall>c \<in> set (calls s). fst c \<le> now"
    using assms(1,2) by (auto simp: debounce_inv_def)
  then have ok: "burst_ok wait immediate (s\<lparr>calls := calls s @ [(now, a)]\<rparr>)"
    using assms(1) by (intro burst_ok_call) (auto simp: debounce_inv_def)
  show ?thesis
  proof (cases "timeout s = None \<and> immediate")
    case True
    then have "before_burst wait (calls s @ [(now, a)]) (now, Some a)"
      using assms(1,2) by (intro before_burst_now) (auto simp: debounce_inv_def)
    with True ok assms late show ?thesis
      by (auto simp: debounce_inv_def debounced_def execute_def Let_def burst_ok_def)
  next
    case False
    with ok assms late show ?thesis
      by (auto simp: debounce_inv_def debounced_def execute_def Let_def burst_ok_def)
  qed
qed

lemma debounce_inv_fire:
  assumes "debounce_inv wait immediate s" and "timeout s = Some due" and "clock s \<le> now" and "0 < wait"
  shows "debounce_inv wait immediate (debounce_later wait immediate now (s\<lparr>clock := now\<rparr>))"
proof -
  have pending: "calls s \<noteq> []" "previous s = fst (last (calls s))" "args_of s = Some (snd (last (calls s)))"
    using assms(1,2) by (auto simp: debounce_inv_def)
  have late: "\<forall>x \<in> set (executed s). fst x \<le> now" "\<forall>c \<in> set (calls s). fst c \<le> now"
    using assms(1,3) by (auto simp: debounce_inv_def)
  show ?thesis
  proof (cases "now - previous s < wait")
    case True
    with assms late pending show ?thesis
      by (auto simp: debounce_inv_def debounce_later_def burst_ok_def)
  next
    case False
    then have quiet: "fst (last (calls s)) + wait \<le> now" using pending by simp
    then have "after_burst wait (calls s) (now, Some (snd (last (calls s))))"
      using pending by (intro after_burst_now) auto
    moreover have "\<forall>c \<in> set (calls s). fst c + wait \<le> now"
      using quiet assms(1) by (fastforce simp: debounce_inv_def)
    ultimately show ?thesis using False assms late pending
      by (auto simp: debounce_inv_def debounce_later_def drop_args_def execute_def Let_def burst_ok_def)
  qed
qed

lemma debounce_inv_steps:
  "(debounce_step wait immediate)\<^sup>*\<^sup>* s0 s \<Longrightarrow> debounce_inv wait immediate s0 \<Longrightarrow>
     0 < wait \<Longrightarrow> debounce_inv wait immediate s"
  by (induction rule: rtranclp_induct)
    (auto elim!: debounce_step.cases intro: debounce_inv_call debounce_inv_fire)

text \<open>
  C29. A debounced function (with a positive \<open>wait\<close>, and as long as it is not cancelled) that is not
  immediate runs only after a pause:
  each run happens \<open>wait\<close> or more after one call, before the next, with the arguments of that
  call, and the last call is not lost: as long as it has not run, a timer is pending that will
  run with its arguments. In immediate mode each run happens with a call that comes \<open>wait\<close> or
  more after all earlier ones; the later calls of a burst are dropped.
\<close>

theorem debounce_correct:
  assumes "(debounce_step wait immediate)\<^sup>*\<^sup>* (new_limiter t0) s" and "0 < wait"
  shows "(\<forall>x \<in> set (executed s).
            (if immediate then before_burst wait (calls s) x else after_burst wait (calls s) x))
    \<and> (\<not> immediate \<and> calls s \<noteq> [] \<longrightarrow>
         (if timeout s = None
          then executed s \<noteq> [] \<and> snd (last (executed s)) = Some (snd (last (calls s)))
          else args_of s = Some (snd (last (calls s)))))"
proof -
  have "debounce_inv wait immediate (new_limiter t0)"
    by (simp add: debounce_inv_def burst_ok_def new_limiter_def)
  then have "debounce_inv wait immediate s" using debounce_inv_steps assms by blast
  then show ?thesis by (auto simp: debounce_inv_def burst_ok_def)
qed

theorem debounce_correct_witness:
  "\<exists>s. (debounce_step 100 True)\<^sup>*\<^sup>* (new_limiter 1000) s \<and> executed s = [(1000, Some (7 :: int))]
     \<and> before_burst 100 (calls s) (1000, Some 7)"
proof -
  let ?a = "debounced 100 True 1000 (7 :: int) (new_limiter 1000\<lparr>clock := 1000, calls := [(1000, 7)]\<rparr>)"
  have "debounce_step 100 True (new_limiter 1000) ?a"
    using debounce_step.call [of "new_limiter 1000" 1000 100 True 7] by (simp add: new_limiter_def)
  then have run: "(debounce_step 100 True)\<^sup>*\<^sup>* (new_limiter 1000) ?a" by (rule r_into_rtranclp)
  moreover have "executed ?a = [(1000, Some 7)]"
    by (simp add: new_limiter_def debounced_def execute_def)
  moreover from this have "before_burst 100 (calls ?a) (1000, Some 7)"
    using debounce_correct [OF run, THEN conjunct1] by simp
  ultimately show ?thesis by (intro exI [of _ ?a] conjI)
qed

section \<open>Arguments, counted calls and memoized calls\<close>

lemma fill_bound_given: "fill_bound (map Some bs) args = bs @ args"
  by (induction bs) simp_all

lemma fill_bound_length: "length (filter (\<lambda>b. b = None) bs) \<le> length args \<Longrightarrow>
    length (fill_bound bs args) = length args + length (filter (\<lambda>b. b \<noteq> None) bs)"
  by (induction bs args rule: fill_bound.induct) auto

lemma restArguments_split:
  "n \<le> length args \<Longrightarrow> restArguments f n args = f (take n args @ [JArr (drop n args)])"
proof -
  assume "n \<le> length args"
  then have "map (argument args) [0..<n] = take n args"
    by (intro nth_equalityI) (auto simp: argument_def)
  then show ?thesis by (simp add: restArguments_def)
qed

lemma compose_snoc: "compose (f # fs @ [h]) args = bind_c (compose (fs @ [h]) args) (\<lambda>r. f [r])"
proof -
  have "fold_c (\<lambda>r g. g [r]) r (gs @ [f]) = bind_c (fold_c (\<lambda>r g. g [r]) r gs) (\<lambda>r. f [r])" for r gs
    by (simp add: fold_c_append)
  then show ?thesis by (simp add: compose_def bind_assoc)
qed

text \<open>A function that keeps a log of its arguments.\<close>

definition recorded :: "(js list \<Rightarrow> js) \<Rightarrow> js list list fn" where
  "recorded g args = (\<lambda>log. (log @ [args], Inr (g args)))"

definition recorded_cached :: "(js list \<Rightarrow> js) \<Rightarrow> (jsobj \<times> js list list) fn" where
  "recorded_cached g args = (\<lambda>(cache, log). ((cache, log @ [args]), Inr (g args)))"

lemma map_c_snoc: "map_c f (xs @ [x]) = bind_c (map_c f xs) (\<lambda>ys. bind_c (f x) (\<lambda>y. ret (ys @ [y])))"
  by (simp add: map_c_def fold_c_append)

lemma map_c_run_snoc:
  "map_c f xs s = (s1, Inr ys) \<Longrightarrow> f x s1 = (s2, Inr y) \<Longrightarrow> map_c f (xs @ [x]) s = (s2, Inr (ys @ [y]))"
  by (simp add: map_c_snoc bind_Inr run_laws)

lemma map_c_run_Nil: "map_c f [] s = (s, Inr [])"
  by (simp add: map_c_def run_laws)

definition before_result :: "(js list \<Rightarrow> js) \<Rightarrow> int \<Rightarrow> js list list \<Rightarrow> nat \<Rightarrow> js" where
  "before_result g n argss i =
     (let k = min i (nat (n - 1)) in if k = 0 then JUndef else g (argss ! (k - 1)))"

lemma before_run:
  "map_c (before (recorded g)) argss (n, JUndef, [])
     = ((n - int (length argss), before_result g n argss (length argss), take (nat (n - 1)) argss),
        Inr (map (\<lambda>i. before_result g n argss (Suc i)) [0..<length argss]))"
proof (induction argss rule: rev_induct)
  case Nil
  then show ?case by (simp add: map_c_run_Nil before_result_def)
next
  case (snoc args argss)
  have old: "before_result g n (argss @ [args]) i = before_result g n argss i" if "i \<le> length argss" for i
    using that by (auto simp: before_result_def nth_append Let_def min_def)
  have "before (recorded g) args
      (n - int (length argss), before_result g n argss (length argss), take (nat (n - 1)) argss)
    = ((n - int (length (argss @ [args])), before_result g n (argss @ [args]) (Suc (length argss)),
        take (nat (n - 1)) (argss @ [args])), Inr (before_result g n (argss @ [args]) (Suc (length argss))))"
    by (cases "nat (n - 1) = length argss")
      (auto simp: before_def recorded_def before_result_def nth_append Let_def min_def)
  from map_c_run_snoc [OF snoc.IH this] show ?case using old by simp
qed

lemma after_run:
  "map_c (after (recorded g)) argss (n, [])
     = ((n - int (length argss), drop (nat (n - 1)) argss),
        Inr (map (\<lambda>i. if n \<le> int i + 1 then g (argss ! i) else JUndef) [0..<length argss]))"
proof (induction argss rule: rev_induct)
  case Nil
  then show ?case by (simp add: map_c_run_Nil)
next
  case (snoc args argss)
  have "after (recorded g) args (n - int (length argss), drop (nat (n - 1)) argss)
    = ((n - int (length (argss @ [args])), drop (nat (n - 1)) (argss @ [args])),
       Inr (if n \<le> int (length argss) + 1 then g args else JUndef))"
    by (auto simp: after_def recorded_def Let_def)
  from map_c_run_snoc [OF snoc.IH this] show ?case by (simp add: nth_append)
qed

text \<open>
  Of the calls of a function made with \<open>before(n)\<close> exactly the first \<open>n - 1\<close> run, and each later
  one returns the result of the last that ran; with \<open>after(n)\<close> exactly those from the \<open>n\<close>-th on
  run. So a function made with \<open>once\<close> runs at the first call and returns that result forever.
\<close>
theorem counted_calls:
  "map_c (before (recorded g)) argss (n, JUndef, [])
     = ((n - int (length argss), before_result g n argss (length argss), take (nat (n - 1)) argss),
        Inr (map (\<lambda>i. before_result g n argss (Suc i)) [0..<length argss]))
   \<and> map_c (after (recorded g)) argss (n, [])
     = ((n - int (length argss), drop (nat (n - 1)) argss),
        Inr (map (\<lambda>i. if n \<le> int i + 1 then g (argss ! i) else JUndef) [0..<length argss]))
   \<and> map_c (before (recorded g)) (args # argss) (once_start [])
     = ((1 - int (length argss), g args, [args]), Inr (replicate (Suc (length argss)) (g args)))"
proof (intro conjI before_run after_run)
  have one: "before_result g 2 (args # argss) (Suc i) = g args" for i by (simp add: before_result_def)
  then have "map (\<lambda>i. before_result g 2 (args # argss) (Suc i)) [0..<length (args # argss)]
      = replicate (Suc (length argss)) (g args)"
    by (intro replicate_eqI) auto
  with before_run [of g "args # argss" 2] one
  show "map_c (before (recorded g)) (args # argss) (once_start [])
      = ((1 - int (length argss), g args, [args]), Inr (replicate (Suc (length argss)) (g args)))"
    by (simp add: once_start_def)
qed

lemma memoize_hit:
  "map_of cache k = Some v \<Longrightarrow> memoize f None [JStr k] (cache, s) = ((cache, s), Inr v)"
  by (simp add: memoize_def hash_address_def argument_def)

lemma memoize_miss:
  "map_of cache k = None \<Longrightarrow> k \<noteq> ''__proto__'' \<Longrightarrow>
     memoize (recorded_cached g) None [JStr k] (cache, log)
       = ((AList.update k (g [JStr k]) cache, log @ [[JStr k]]), Inr (g [JStr k]))"
  by (simp add: memoize_def hash_address_def argument_def bind_c_def recorded_cached_def store_cache_def
      write_key_def ret_def)

definition cached :: "(js list \<Rightarrow> js) \<Rightarrow> string list \<Rightarrow> jsobj \<Rightarrow> bool" where
  "cached g ks cache \<longleftrightarrow> (\<forall>k. map_of cache k = (if k \<in> set ks then Some (g [JStr k]) else None))"

lemma memoize_run:
  "list_all (\<lambda>k. k \<noteq> ''__proto__'') ks \<Longrightarrow>
   \<exists>cache log. map_c (\<lambda>k. memoize (recorded_cached g) None [JStr k]) ks ([], [])
      = ((cache, map (\<lambda>k. [JStr k]) log), Inr (map (\<lambda>k. g [JStr k]) ks))
      \<and> distinct log \<and> set log = set ks \<and> cached g ks cache"
proof (induction ks rule: rev_induct)
  case Nil
  then show ?case by (simp add: map_c_run_Nil cached_def)
next
  case (snoc k ks)
  then obtain cache log where IH:
    "map_c (\<lambda>k. memoize (recorded_cached g) None [JStr k]) ks ([], [])
      = ((cache, map (\<lambda>k. [JStr k]) log), Inr (map (\<lambda>k. g [JStr k]) ks))"
    "distinct log" "set log = set ks" "cached g ks cache" by auto
  show ?case
  proof (cases "k \<in> set ks")
    case True
    then have "memoize (recorded_cached g) None [JStr k] (cache, map (\<lambda>k. [JStr k]) log)
        = ((cache, map (\<lambda>k. [JStr k]) log), Inr (g [JStr k]))"
      using IH(4) by (intro memoize_hit) (simp add: cached_def)
    from map_c_run_snoc [OF IH(1) this] True IH show ?thesis
      by (intro exI [of _ cache] exI [of _ log]) (auto simp: cached_def)
  next
    case False
    then have "memoize (recorded_cached g) None [JStr k] (cache, map (\<lambda>k. [JStr k]) log)
        = ((AList.update k (g [JStr k]) cache, map (\<lambda>k. [JStr k]) log @ [[JStr k]]), Inr (g [JStr k]))"
      using IH(4) snoc.prems by (intro memoize_miss) (simp_all add: cached_def)
    from map_c_run_snoc [OF IH(1) this] False IH show ?thesis
      by (intro exI [of _ "AList.update k (g [JStr k]) cache"] exI [of _ "log @ [k]"])
        (auto simp: cached_def update_conv)
  qed
qed

text \<open>
  A memoized function runs once for each different argument, however often it is called with
  it, and every call returns what the function returns for it.
\<close>
theorem memoize_runs_once:
  assumes "list_all (\<lambda>k. k \<noteq> ''__proto__'') ks"
  shows "\<exists>cache log. map_c (\<lambda>k. memoize (recorded_cached g) None [JStr k]) ks ([], [])
      = ((cache, map (\<lambda>k. [JStr k]) log), Inr (map (\<lambda>k. g [JStr k]) ks))
      \<and> distinct log \<and> set log = set ks"
  using memoize_run [OF assms] by blast

theorem memoize_runs_once_witness:
  "\<exists>cache log. map_c (\<lambda>k. memoize (recorded_cached (\<lambda>args. JNum 1)) None [JStr k])
        [''a'', ''b'', ''a''] ([], [])
      = ((cache, map (\<lambda>k. [JStr k]) log), Inr [JNum 1, JNum 1, JNum 1])
      \<and> distinct log \<and> set log = {''a'', ''b''}"
  using memoize_runs_once [of "[''a'', ''b'', ''a'']" "\<lambda>args. JNum 1"] by (simp add: insert_commute)

end
