(* ===== verification/Comments.thy ===== *)
theory Comments
  imports JsCall
begin

text \<open>
  The comments of a documentation page, \<open>websupport.js\<close>: what the page holds and shows is the
  state, a click or an answer of the server an operation. Animations are the change they end
  with. Each comment is shown in an element with its data, its links and the list of its
  replies; an id names one element of the page. Links with the class \<open>un\<close> and the links that
  close a reply start hidden, as the style sheet of the comments does.
\<close>

section \<open>Comments and their order\<close>

record comment =
  c_id :: string
  c_node :: string
  c_parent :: string
  c_user :: string
  c_text :: string
  c_rating :: int
  c_vote :: int
  c_age :: int
  c_displayed :: bool
  c_proposal :: bool

text \<open>A comment with its replies, as the server sends it.\<close>

datatype tree = Tree (root: comment) (replies: "tree list")

text \<open>\<open>comment[name]\<close> for the names of numeric properties; all others are no numbers.\<close>

definition num_field :: "string \<Rightarrow> comment \<Rightarrow> int option" where
  "num_field name c =
     (if name = ''rating'' then Some (c_rating c)
      else if name = ''vote'' then Some (c_vote c)
      else if name = ''age'' then Some (c_age c)
      else None)"

definition minus_opt :: "int option \<Rightarrow> int option \<Rightarrow> int option" where
  "minus_opt a b = (case (a, b) of (Some x, Some y) \<Rightarrow> Some (x - y) | _ \<Rightarrow> None)"

text \<open>The comparator for the order \<open>by\<close>; \<open>None\<close> is \<open>NaN\<close>.\<close>

definition compare_by :: "string \<Rightarrow> comment \<Rightarrow> comment \<Rightarrow> int option" where
  "compare_by by_key a b =
     (if take 3 by_key = ''asc''
      then minus_opt (num_field (drop 3 by_key) a) (num_field (drop 3 by_key) b)
      else minus_opt (num_field by_key b) (num_field by_key a))"

text \<open>For \<open>sort\<close> a result that is no number counts as 0; for the test \<open>comp(a, b) <= 0\<close> it fails.\<close>

definition in_order :: "string \<Rightarrow> comment \<Rightarrow> comment \<Rightarrow> bool" where
  "in_order by_key a b \<longleftrightarrow> (case compare_by by_key a b of Some d \<Rightarrow> d \<le> 0 | None \<Rightarrow> True)"

definition goes_before :: "string \<Rightarrow> comment \<Rightarrow> comment \<Rightarrow> bool" where
  "goes_before by_key a b \<longleftrightarrow> (case compare_by by_key a b of Some d \<Rightarrow> d \<le> 0 | None \<Rightarrow> False)"

lemma size_replies: "t \<in> set ts \<Longrightarrow> size_list size (replies t) < size_list size ts"
proof (induction ts)
  case (Cons s ts)
  then show ?case by (cases t) auto
qed simp

function sortComments :: "string \<Rightarrow> tree list \<Rightarrow> tree list" where
  "sortComments by_key ts =
     map (\<lambda>t. Tree (root t) (sortComments by_key (replies t)))
       (sort_by (\<lambda>s t. in_order by_key (root s) (root t)) ts)"
  by pat_completeness auto
termination
  by (relation "measure (\<lambda>(by_key, ts). size_list size ts)") (auto dest: size_replies)

declare sortComments.simps [simp del]

section \<open>What is shown\<close>

record view =
  up_vote :: bool
  up_unvote :: bool
  down_vote :: bool
  down_unvote :: bool
  rating_text :: string
  shown_user :: string
  shown_text :: string
  css_moderate :: bool
  reply_link :: bool
  close_reply_link :: bool
  proposal_link :: bool
  accept_link :: bool
  delete_link :: bool

text \<open>
  An entry of a list: a comment with its view and replies, the note about a comment that waits
  for a moderator, the note that there are none, the form of a reply, or the entry left when its content was removed.
\<close>

datatype item = Item comment view "item list" | Waiting | NoComments | ReplyForm | Blank

record opts =
  voting :: bool
  moderator :: bool
  username :: string

definition points :: "int \<Rightarrow> string" where
  "points n = int_str n @ '' point'' @ (if n = 1 then [] else ''s'')"

definition createCommentDiv :: "opts \<Rightarrow> comment \<Rightarrow> view option" where
  "createCommentDiv o' c =
     (if \<not> c_displayed c \<and> \<not> moderator o' then None
      else
        let links = moderator o' \<or> c_text c \<noteq> ''[deleted]''
        in Some
          \<lparr>up_vote = \<not> (c_vote c = 1), up_unvote = (c_vote c = 1),
           down_vote = (c_vote c = 0 \<or> c_vote c = 1), down_unvote = (c_vote c \<noteq> 0 \<and> c_vote c \<noteq> 1),
           rating_text = points (c_rating c), shown_user = c_user c, shown_text = c_text c,
           css_moderate = (\<not> c_displayed c), reply_link = links, close_reply_link = False,
           proposal_link = (links \<and> c_proposal c),
           accept_link = (links \<and> moderator o' \<and> \<not> c_displayed c),
           delete_link = (links \<and> (moderator o' \<or> username o' = c_user c))\<rparr>)"

text \<open>Replies are appended to the list of the element that was created, so not for a note.\<close>

fun item_of_tree :: "opts \<Rightarrow> tree \<Rightarrow> item" where
  "item_of_tree o' (Tree c ts) =
     (case createCommentDiv o' c of
        Some v \<Rightarrow> Item c v (map (item_of_tree o') ts)
      | None \<Rightarrow> Waiting)"

definition appendComments :: "opts \<Rightarrow> tree list \<Rightarrow> item list \<Rightarrow> item list" where
  "appendComments o' ts ul = ul @ map (item_of_tree o') ts"

text \<open>The comments of a list, with the replies shown below them.\<close>

fun tree_of_item :: "item \<Rightarrow> tree list" where
  "tree_of_item (Item c v is) = [Tree c (concat (map tree_of_item is))]"
| "tree_of_item _ = []"

definition getChildren :: "item list \<Rightarrow> tree list" where
  "getChildren ul = concat (map tree_of_item ul)"

fun insert_item :: "string \<Rightarrow> comment \<Rightarrow> item \<Rightarrow> item list \<Rightarrow> item list" where
  "insert_item by_key c it [] = [it]"
| "insert_item by_key c it (Item d v ds # is) =
     (if goes_before by_key c d then it # Item d v ds # is
      else Item d v ds # insert_item by_key c it is)"
| "insert_item by_key c it (i # is) = i # insert_item by_key c it is"

text \<open>A change of the element of a comment, and of its list of replies.\<close>

fun change_item :: "string \<Rightarrow> (item \<Rightarrow> item list) \<Rightarrow> item \<Rightarrow> item list" where
  "change_item i f (Item c v is) =
     (if c_id c = i then f (Item c v is) else [Item c v (concat (map (change_item i f) is))])"
| "change_item i f it = [it]"

fun change_replies :: "string \<Rightarrow> (item list \<Rightarrow> item list) \<Rightarrow> item \<Rightarrow> item" where
  "change_replies i f (Item c v is) =
     (if c_id c = i then Item c v (f is) else Item c v (map (change_replies i f) is))"
| "change_replies i f it = it"

section \<open>The page\<close>

datatype request =
    GetComments string
  | AddComment string string string string
  | AcceptComment string
  | DeleteComment string
  | ProcessVote string int

record popup =
  p_items :: "item list"
  p_empty :: bool
  p_disabled :: bool

record page =
  order_by :: string
  cookies :: "(string \<times> string) list"
  popups :: "(string \<times> popup) list"
  errors :: "string list"
  requests :: "request list"

definition showError :: "string \<Rightarrow> page \<Rightarrow> page" where
  "showError message w = w\<lparr>errors := errors w @ [message]\<rparr>"

definition request :: "request \<Rightarrow> page \<Rightarrow> page" where
  "request r w = w\<lparr>requests := requests w @ [r]\<rparr>"

definition on_popups :: "(string \<Rightarrow> popup \<Rightarrow> popup) \<Rightarrow> page \<Rightarrow> page" where
  "on_popups f w = w\<lparr>popups := map (\<lambda>(i, p). (i, f i p)) (popups w)\<rparr>"

text \<open>The list \<open>#cl\<close> with an id: the one of a popup or the replies of a comment.\<close>

definition on_list :: "string \<Rightarrow> (item list \<Rightarrow> item list) \<Rightarrow> page \<Rightarrow> page" where
  "on_list i f = on_popups (\<lambda>j p.
     if j = i then p\<lparr>p_items := f (p_items p)\<rparr>
     else p\<lparr>p_items := map (change_replies i f) (p_items p)\<rparr>)"

definition on_item :: "string \<Rightarrow> (item \<Rightarrow> item list) \<Rightarrow> page \<Rightarrow> page" where
  "on_item i f = on_popups (\<lambda>j p. p\<lparr>p_items := concat (map (change_item i f) (p_items p))\<rparr>)"

text \<open>
  \<open>document.cookie\<close>, and the order \<open>initComparator\<close> takes from it. The names of orders consist of
  characters that \<open>escape\<close> and \<open>unescape\<close> leave alone.
\<close>

definition document_cookie :: "(string \<times> string) list \<Rightarrow> string" where
  "document_cookie cs = join ''; '' (map (\<lambda>(k, v). k @ ''='' @ v) cs)"

definition initComparator :: "string \<Rightarrow> string" where
  "initComparator cookie =
     (case index_of ''sortBy='' cookie of
        None \<Rightarrow> ''rating''
      | Some i \<Rightarrow>
          let value = drop (i + 7) cookie
          in if CHR '';'' \<in> set value then ''rating'' else value)"

definition init_page :: "(string \<times> string) list \<Rightarrow> page" where
  "init_page cs =
     \<lparr>order_by = initComparator (document_cookie cs), cookies = cs, popups = [], errors = [],
      requests = []\<rparr>"

section \<open>Opening, loading and sorting\<close>

definition show_popup :: "string \<Rightarrow> page \<Rightarrow> page" where
  "show_popup i w =
     request (GetComments i)
       (w\<lparr>popups := AList.update i \<lparr>p_items = [], p_empty = False, p_disabled = False\<rparr> (popups w)\<rparr>)"

definition hide_popup :: "string \<Rightarrow> page \<Rightarrow> page" where
  "hide_popup i w = w\<lparr>popups := AList.delete i (popups w)\<rparr>"

definition getComments_success :: "opts \<Rightarrow> string \<Rightarrow> tree list \<Rightarrow> page \<Rightarrow> page" where
  "getComments_success o' i comments w =
     on_popups (\<lambda>j p.
       if j \<noteq> i then p
       else if comments = [] then p\<lparr>p_items := [NoComments], p_empty := True\<rparr>
       else p\<lparr>p_items := appendComments o' (sortComments (order_by w) comments) (p_items p), p_empty := False\<rparr>) w"

definition getComments_error :: "page \<Rightarrow> page" where
  "getComments_error = showError ''Oops, there was a problem retrieving the comments.''"

text \<open>The order a click on a sort link selects: of its classes the last but \<open>sort-option\<close>.\<close>

definition selected_by :: "string list \<Rightarrow> string \<Rightarrow> string" where
  "selected_by classes old =
     foldl (\<lambda>b cl. if cl \<noteq> ''sort-option'' then drop 2 cl else b) old classes"

text \<open>The classes of the link for an order; the one of the current order is marked \<open>sel\<close>.\<close>

definition link_classes :: "string \<Rightarrow> string \<Rightarrow> string list" where
  "link_classes current order =
     [''sort-option'', ''by'' @ order] @ (if order = current then [''sel''] else [])"

definition handleReSort :: "opts \<Rightarrow> string list \<Rightarrow> page \<Rightarrow> page" where
  "handleReSort o' classes w =
     (let b = selected_by classes (order_by w)
      in on_popups (\<lambda>j p. p\<lparr>p_items := appendComments o' (sortComments b (getChildren (p_items p))) []\<rparr>)
           (w\<lparr>order_by := b, cookies := AList.update ''sortBy'' b (cookies w)\<rparr>))"

section \<open>Adding comments\<close>

definition addComment :: "string \<Rightarrow> string \<Rightarrow> string \<Rightarrow> string \<Rightarrow> page \<Rightarrow> page" where
  "addComment node parent content proposal w =
     (if content = [] then showError ''Please enter a comment.'' w
      else request (AddComment node parent content proposal)
             (on_popups (\<lambda>j p. if j = node then p\<lparr>p_disabled := True\<rparr> else p) w))"

definition insertComment :: "opts \<Rightarrow> comment \<Rightarrow> page \<Rightarrow> page" where
  "insertComment o' c w =
     on_list (if c_node c \<noteq> [] then c_node c else c_parent c)
       (insert_item (order_by w) c (item_of_tree o' (Tree c []))) w"

definition addComment_success :: "opts \<Rightarrow> string \<Rightarrow> string \<Rightarrow> comment \<Rightarrow> page \<Rightarrow> page" where
  "addComment_success o' node parent c w =
     insertComment o' c
       (on_popups (\<lambda>j p.
          let p1 = (if j = node then p\<lparr>p_disabled := False\<rparr> else p)
          in if j = (if node \<noteq> [] then node else parent) \<and> p_empty p1
             then p1\<lparr>p_items := [], p_empty := False\<rparr> else p1) w)"

definition addComment_error :: "string \<Rightarrow> page \<Rightarrow> page" where
  "addComment_error node w =
     showError ''Oops, there was a problem adding the comment.''
       (on_popups (\<lambda>j p. if j = node then p\<lparr>p_disabled := False\<rparr> else p) w)"

definition openReply :: "string \<Rightarrow> page \<Rightarrow> page" where
  "openReply i w =
     on_list i (\<lambda>ul. ReplyForm # ul)
       (on_item i (\<lambda>it. case it of
          Item c v is \<Rightarrow> [Item c (v\<lparr>reply_link := False, close_reply_link := True\<rparr>) is]
        | _ \<Rightarrow> [it]) w)"

definition closeReply :: "string \<Rightarrow> page \<Rightarrow> page" where
  "closeReply i w =
     on_item i (\<lambda>it. case it of
          Item c v is \<Rightarrow> [Item c (v\<lparr>reply_link := True, close_reply_link := False\<rparr>) is]
        | _ \<Rightarrow> [it])
       (on_list i (map (\<lambda>it. if it = ReplyForm then Blank else it)) w)"

section \<open>Moderating and voting\<close>

definition acceptComment_success :: "string \<Rightarrow> page \<Rightarrow> page" where
  "acceptComment_success i =
     on_item i (\<lambda>it. case it of
          Item c v is \<Rightarrow> [Item c (v\<lparr>accept_link := False, css_moderate := False\<rparr>) is]
        | _ \<Rightarrow> [it])"

definition acceptComment_error :: "page \<Rightarrow> page" where
  "acceptComment_error = showError ''Oops, there was a problem accepting the comment.''"

text \<open>A moderator's deletion removes the element; a user's one blanks it and removes its links.\<close>

definition deleteComment_success :: "string \<Rightarrow> string \<Rightarrow> page \<Rightarrow> page" where
  "deleteComment_success data i =
     on_item i (\<lambda>it. case it of
          Item c v is \<Rightarrow>
            if data = ''delete'' then [Blank]
            else [Item (c\<lparr>c_user := ''[deleted]'', c_text := ''[deleted]''\<rparr>)
                   (v\<lparr>shown_user := ''[deleted]'', shown_text := ''[deleted]'', accept_link := False,
                      delete_link := False, proposal_link := False, reply_link := False,
                      close_reply_link := False\<rparr>) is]
        | _ \<Rightarrow> [it])"

definition deleteComment_error :: "page \<Rightarrow> page" where
  "deleteComment_error = showError ''Oops, there was a problem deleting the comment.''"

datatype arrow = Up | Down

definition vote_value :: "arrow \<Rightarrow> bool \<Rightarrow> int" where
  "vote_value a unvote = (if unvote then 0 else if a = Up then 1 else -1)"

text \<open>The links after a click on one of the four, and the comment's data.\<close>

definition vote_links :: "arrow \<Rightarrow> bool \<Rightarrow> int \<Rightarrow> view \<Rightarrow> view" where
  "vote_links a unvote vote v =
     (let value = vote_value a unvote;
          v1 = (case a of
                  Up \<Rightarrow> v\<lparr>up_vote := unvote, up_unvote := \<not> unvote\<rparr>
                | Down \<Rightarrow> v\<lparr>down_vote := unvote, down_unvote := \<not> unvote\<rparr>)
      in if value \<noteq> 0 \<and> vote = value * -1
         then if value = 1 then v1\<lparr>down_unvote := False, down_vote := True\<rparr>
              else v1\<lparr>up_unvote := False, up_vote := True\<rparr>
         else v1)"

definition voted :: "int \<Rightarrow> comment \<Rightarrow> comment" where
  "voted value c =
     c\<lparr>c_rating := c_rating c + (if c_vote c = 0 then value else value - c_vote c), c_vote := value\<rparr>"

definition handleVote :: "opts \<Rightarrow> arrow \<Rightarrow> bool \<Rightarrow> string \<Rightarrow> page \<Rightarrow> page" where
  "handleVote o' a unvote i w =
     (if \<not> voting o' then showError (''You'' @ [CHR 0x27] @ ''ll need to login to vote.'') w
      else
        request (ProcessVote i (vote_value a unvote))
          (on_item i (\<lambda>it. case it of
             Item c v is \<Rightarrow>
               let c' = voted (vote_value a unvote) c
               in [Item c' ((vote_links a unvote (c_vote c) v)\<lparr>rating_text := points (c_rating c')\<rparr>) is]
           | _ \<Rightarrow> [it]) w))"

definition handleVote_error :: "page \<Rightarrow> page" where
  "handleVote_error = showError ''Oops, there was a problem casting that vote.''"

section \<open>Sorting\<close>

definition sort_value :: "string \<Rightarrow> comment \<Rightarrow> int option" where
  "sort_value k c =
     (if take 3 k = ''asc'' then num_field (drop 3 k) c else map_option uminus (num_field k c))"

lemma num_field_uniform: "num_field k a = None \<longleftrightarrow> num_field k b = None"
  by (simp add: num_field_def)

lemma sort_value_uniform: "sort_value k a = None \<longleftrightarrow> sort_value k b = None"
  using num_field_uniform by (simp add: sort_value_def)

lemma compare_value:
  "compare_by k a b = minus_opt (sort_value k a) (sort_value k b)"
  by (auto simp: compare_by_def sort_value_def minus_opt_def split: option.split)

lemma in_order_value:
  "in_order k a b \<longleftrightarrow> (\<forall>x y. sort_value k a = Some x \<longrightarrow> sort_value k b = Some y \<longrightarrow> x \<le> y)"
  by (auto simp: in_order_def compare_value minus_opt_def split: option.split)

lemma in_order_total: "\<not> in_order k a b \<Longrightarrow> in_order k b a"
  by (auto simp: in_order_value)

lemma in_order_trans: "in_order k a b \<Longrightarrow> in_order k b c \<Longrightarrow> in_order k a c"
  using sort_value_uniform [of k a b] by (cases "sort_value k b") (fastforce simp: in_order_value)+

lemma goes_before_order: "goes_before k a b \<Longrightarrow> in_order k a b" "\<not> goes_before k a b \<Longrightarrow> in_order k b a"
  by (auto simp: goes_before_def in_order_value compare_value minus_opt_def split: option.splits)

lemma transp_in_order: "transp (\<lambda>s t. in_order k (f s) (f t))"
  by (auto intro!: transpI intro: in_order_trans)

text \<open>The comments of a tree, who replies to whom, and the order at every level.\<close>

fun comments_of :: "tree \<Rightarrow> comment list" where
  "comments_of (Tree c ts) = c # concat (map comments_of ts)"

fun edges_of :: "tree \<Rightarrow> (comment \<times> comment) list" where
  "edges_of (Tree c ts) = map (\<lambda>t. (c, root t)) ts @ concat (map edges_of ts)"

fun level_ok :: "string \<Rightarrow> tree \<Rightarrow> bool" where
  "level_ok k (Tree c ts) \<longleftrightarrow>
     sorted_wrt (in_order k) (map root ts) \<and> list_all (level_ok k) ts"

definition levels_ok :: "string \<Rightarrow> tree list \<Rightarrow> bool" where
  "levels_ok k ts \<longleftrightarrow> sorted_wrt (in_order k) (map root ts) \<and> list_all (level_ok k) ts"

lemma mset_concat_map_perm:
  fixes f g :: "'b \<Rightarrow> 'a list"
  assumes m: "mset xs = mset ys" and fg: "\<And>x. x \<in> set ys \<Longrightarrow> mset (f x) = mset (g x)"
  shows "mset (concat (map f xs)) = mset (concat (map g ys))"
proof -
  have "mset (concat (map h zs)) = \<Sum>\<^sub># (image_mset (\<lambda>x. mset (h x)) (mset zs))" for h :: "'b \<Rightarrow> 'a list" and zs
    by (induction zs) simp_all
  moreover have "image_mset (\<lambda>x. mset (f x)) (mset ys) = image_mset (\<lambda>x. mset (g x)) (mset ys)"
    using fg by (intro image_mset_cong) simp
  ultimately show ?thesis using m by simp
qed

lemma map_root_sort:
  "map root (sortComments k ts) = map root (sort_by (\<lambda>s t. in_order k (root s) (root t)) ts)"
  by (simp add: sortComments.simps [of k ts])

lemma mset_map_root_sort: "mset (map root (sortComments k ts)) = mset (map root ts)"
  by (simp add: map_root_sort)

lemma sortComments_comments:
  "mset (concat (map comments_of (sortComments k ts))) = mset (concat (map comments_of ts))"
proof (induction k ts rule: sortComments.induct)
  case (1 k ts)
  let ?s = "sort_by (\<lambda>s t. in_order k (root s) (root t)) ts"
  have "mset (concat (map (\<lambda>t. comments_of (Tree (root t) (sortComments k (replies t)))) ?s))
      = mset (concat (map comments_of ts))"
  proof (rule mset_concat_map_perm)
    fix t assume "t \<in> set ts"
    with 1 have "mset (concat (map comments_of (sortComments k (replies t)))) = mset (concat (map comments_of (replies t)))"
      by simp
    then show "mset (comments_of (Tree (root t) (sortComments k (replies t)))) = mset (comments_of t)"
      by (cases t) simp
  qed simp
  then show ?case by (simp add: sortComments.simps [of k ts] comp_def)
qed

lemma mset_map_pair_root: "mset (map root ts) = mset (map root us) \<Longrightarrow>
    mset (map (\<lambda>t. (c, root t)) ts) = mset (map (\<lambda>t. (c, root t)) us)"
proof -
  assume "mset (map root ts) = mset (map root us)"
  then have "image_mset (Pair c) (mset (map root ts)) = image_mset (Pair c) (mset (map root us))" by simp
  then show ?thesis by (simp add: multiset.map_comp comp_def)
qed

lemma sortComments_edges:
  "mset (concat (map edges_of (sortComments k ts))) = mset (concat (map edges_of ts))"
proof (induction k ts rule: sortComments.induct)
  case (1 k ts)
  let ?s = "sort_by (\<lambda>s t. in_order k (root s) (root t)) ts"
  have "mset (concat (map (\<lambda>t. edges_of (Tree (root t) (sortComments k (replies t)))) ?s))
      = mset (concat (map edges_of ts))"
  proof (rule mset_concat_map_perm)
    fix t assume "t \<in> set ts"
    with 1 have "mset (concat (map edges_of (sortComments k (replies t)))) = mset (concat (map edges_of (replies t)))"
      by simp
    moreover have "mset (map (\<lambda>r. (root t, root r)) (sortComments k (replies t)))
        = mset (map (\<lambda>r. (root t, root r)) (replies t))"
      by (rule mset_map_pair_root) (rule mset_map_root_sort)
    ultimately show "mset (edges_of (Tree (root t) (sortComments k (replies t)))) = mset (edges_of t)"
      by (cases t) simp
  qed simp
  then show ?case by (simp add: sortComments.simps [of k ts] comp_def)
qed

lemma sortComments_levels: "levels_ok k (sortComments k ts)"
proof (induction k ts rule: sortComments.induct)
  case (1 k ts)
  have "sorted_wrt (\<lambda>s t. in_order k (root s) (root t)) (sort_by (\<lambda>s t. in_order k (root s) (root t)) ts)"
    by (rule sorted_sort_by) (auto intro: in_order_total transp_in_order)
  then have "sorted_wrt (in_order k) (map root (sortComments k ts))"
    by (simp add: map_root_sort sorted_wrt_map)
  moreover have "list_all (level_ok k) (sortComments k ts)"
    using 1 by (auto simp: sortComments.simps [of k ts] list_all_iff levels_ok_def)
  ultimately show ?case by (simp add: levels_ok_def)
qed

lemma sortComments_unknown:
  "(\<And>c. sort_value k c = None) \<Longrightarrow> sortComments k ts = ts"
proof (induction k ts rule: sortComments.induct)
  case (1 k ts)
  have "sort_by (\<lambda>s t. True) ts = ts"
  proof -
    have "fold (insert_by (\<lambda>s t. True)) ts us = us @ ts" for us
    proof (induction ts arbitrary: us)
      case (Cons t ts)
      have "insert_by (\<lambda>s t. True) t us = us @ [t]" for us by (induction us) simp_all
      with Cons show ?case by simp
    qed simp
    then show ?thesis by (simp add: sort_by_def)
  qed
  moreover have "in_order k a b" for a b using 1(2) by (simp add: in_order_value)
  moreover have "map (\<lambda>t. Tree (root t) (sortComments k (replies t))) ts = ts"
    using 1 calculation by (intro map_idI) simp
  ultimately show ?case by (simp add: sortComments.simps [of k ts])
qed

section \<open>Inserting\<close>

definition shown_comments :: "item list \<Rightarrow> comment list" where
  "shown_comments is = map root (getChildren is)"

lemma getChildren_Cons: "getChildren (i # is) = tree_of_item i @ getChildren is"
  by (simp add: getChildren_def)

lemma shown_simps [simp]:
  "shown_comments [] = []"
  "shown_comments (Item c v ds # is) = c # shown_comments is"
  "shown_comments (Waiting # is) = shown_comments is"
  "shown_comments (NoComments # is) = shown_comments is"
  "shown_comments (ReplyForm # is) = shown_comments is"
  "shown_comments (Blank # is) = shown_comments is"
  by (simp_all add: shown_comments_def getChildren_def)

lemma mset_insert_item:
  "mset (shown_comments (insert_item k c (Item c v []) is)) = add_mset c (mset (shown_comments is))"
  by (induction k c "Item c v []" "is" rule: insert_item.induct) auto

lemma sorted_insert_item:
  "sorted_wrt (in_order k) (shown_comments is) \<Longrightarrow>
     sorted_wrt (in_order k) (shown_comments (insert_item k c (Item c v []) is))"
proof (induction k c "Item c v []" "is" rule: insert_item.induct)
  case (2 k c d u ds "is")
  show ?case
  proof (cases "goes_before k c d")
    case True
    with 2 show ?thesis by (auto dest: goes_before_order(1) intro: in_order_trans)
  next
    case False
    then have "in_order k d c" by (rule goes_before_order)
    moreover have "set (shown_comments (insert_item k c (Item c v []) is)) = insert c (set (shown_comments is))"
      using mset_insert_item [of k c v "is"] by (metis set_mset_add_mset_insert set_mset_mset)
    ultimately show ?thesis using 2 False by simp
  qed
qed simp_all

section \<open>What holds of every page\<close>

text \<open>
  A property of every comment shown, with its view; what is sent by the server need not be
  trusted but for votes being 1, 0 or -1.
\<close>

fun every_item :: "(comment \<Rightarrow> view \<Rightarrow> bool) \<Rightarrow> item \<Rightarrow> bool" where
  "every_item P (Item c v is) \<longleftrightarrow> P c v \<and> list_all (every_item P) is"
| "every_item P _ \<longleftrightarrow> True"

definition page_every :: "(comment \<Rightarrow> view \<Rightarrow> bool) \<Rightarrow> page \<Rightarrow> bool" where
  "page_every P w \<longleftrightarrow> (\<forall>(j, p) \<in> set (popups w). list_all (every_item P) (p_items p))"

fun every_tree :: "(comment \<Rightarrow> bool) \<Rightarrow> tree \<Rightarrow> bool" where
  "every_tree Q (Tree c ts) \<longleftrightarrow> Q c \<and> list_all (every_tree Q) ts"

text \<open>
  Where a comment comes from: the server has sent one with its id, and its rating differs from
  the one sent by the difference of the votes only.
\<close>

definition vote_ok :: "comment \<Rightarrow> bool" where
  "vote_ok c \<longleftrightarrow> c_vote c \<in> {-1, 0, 1}"

definition sent_as :: "comment set \<Rightarrow> comment \<Rightarrow> bool" where
  "sent_as S c \<longleftrightarrow> (\<exists>s \<in> S. c_id s = c_id c \<and> c_rating c - c_rating s = c_vote c - c_vote s)"

definition from_server :: "comment set \<Rightarrow> comment \<Rightarrow> bool" where
  "from_server S c \<longleftrightarrow> vote_ok c \<and> sent_as S c"

text \<open>
  What the view of a comment has to do with its data: exactly the link for the vote cast is
  shown of each arrow; the rating, the user and the text are those of the data; nothing is shown
  that waits for a moderator and may not be seen; and the mark of such a comment, the link to
  accept it, to delete it and to see its proposal are shown only where they belong.
\<close>

definition agrees :: "opts \<Rightarrow> comment \<Rightarrow> view \<Rightarrow> bool" where
  "agrees o' c v \<longleftrightarrow>
     (up_unvote v \<longleftrightarrow> c_vote c = 1) \<and> (up_vote v \<longleftrightarrow> c_vote c \<noteq> 1)
     \<and> (down_unvote v \<longleftrightarrow> c_vote c = -1) \<and> (down_vote v \<longleftrightarrow> c_vote c \<noteq> -1)
     \<and> rating_text v = points (c_rating c) \<and> shown_user v = c_user c \<and> shown_text v = c_text c
     \<and> (c_displayed c \<or> moderator o')
     \<and> (css_moderate v \<longrightarrow> \<not> c_displayed c)
     \<and> (accept_link v \<longrightarrow> moderator o' \<and> \<not> c_displayed c)
     \<and> (delete_link v \<longrightarrow> moderator o' \<or> username o' = c_user c)
     \<and> (proposal_link v \<longrightarrow> c_proposal c)"

definition view_ok :: "opts \<Rightarrow> comment set \<Rightarrow> comment \<Rightarrow> view \<Rightarrow> bool" where
  "view_ok o' S c v \<longleftrightarrow> from_server S c \<and> agrees o' c v"

definition link_visible :: "arrow \<Rightarrow> bool \<Rightarrow> view \<Rightarrow> bool" where
  "link_visible a unvote v =
     (case a of Up \<Rightarrow> if unvote then up_unvote v else up_vote v
      | Down \<Rightarrow> if unvote then down_unvote v else down_vote v)"

lemma createCommentDiv_ok: "createCommentDiv o' c = Some v \<Longrightarrow> from_server S c \<Longrightarrow> view_ok o' S c v"
  by (auto simp: createCommentDiv_def view_ok_def agrees_def from_server_def vote_ok_def Let_def
      split: if_splits)

lemma item_of_tree_ok: "every_tree (from_server S) t \<Longrightarrow> every_item (view_ok o' S) (item_of_tree o' t)"
  by (induction o' t rule: item_of_tree.induct)
    (auto simp: list_all_iff createCommentDiv_ok split: option.split)

lemma every_tree_iff: "every_tree Q t \<longleftrightarrow> Q (root t) \<and> list_all (every_tree Q) (replies t)"
  by (cases t) simp

lemma every_tree_sort:
  "list_all (every_tree Q) ts \<Longrightarrow> list_all (every_tree Q) (sortComments k ts)"
proof (induction k ts rule: sortComments.induct)
  case (1 k ts)
  have "every_tree Q (Tree (root t) (sortComments k (replies t)))" if "t \<in> set ts" for t
  proof -
    from 1(2) that have "every_tree Q t" by (simp add: list_all_iff)
    then have "Q (root t)" "list_all (every_tree Q) (replies t)" by (simp_all add: every_tree_iff)
    with 1(1) that show ?thesis by simp
  qed
  then show ?case by (simp add: sortComments.simps [of k ts] list_all_iff del: every_tree.simps)
qed

lemma every_tree_of_item: "every_item P i \<Longrightarrow> (\<And>c v. P c v \<Longrightarrow> Q c) \<Longrightarrow> list_all (every_tree Q) (tree_of_item i)"
  by (induction i) (auto simp: list_all_iff)

lemma appendComments_ok:
  "list_all (every_item (view_ok o' S)) ul \<Longrightarrow> list_all (every_tree (from_server S)) ts \<Longrightarrow>
     list_all (every_item (view_ok o' S)) (appendComments o' ts ul)"
  by (auto simp: appendComments_def list_all_iff item_of_tree_ok)

lemma insert_item_every:
  "list_all (every_item P) is \<Longrightarrow> every_item P it \<Longrightarrow> list_all (every_item P) (insert_item k c it is)"
  by (induction k c it "is" rule: insert_item.induct) auto

lemma every_item_mono: "every_item P it \<Longrightarrow> (\<And>c v. P c v \<Longrightarrow> R c v) \<Longrightarrow> every_item R it"
  by (induction it) (auto simp: list_all_iff)

lemma every_item_conj: "every_item P it \<Longrightarrow> every_item R it \<Longrightarrow> every_item (\<lambda>c v. P c v \<and> R c v) it"
  by (induction it) (auto simp: list_all_iff)

lemma change_item_every:
  assumes "\<And>c v is. every_item P (Item c v is) \<Longrightarrow> c_id c = i \<Longrightarrow> list_all (every_item R) (f (Item c v is))"
    and "\<And>c v. P c v \<Longrightarrow> R c v"
  shows "every_item P it \<Longrightarrow> list_all (every_item R) (change_item i f it)"
  using assms by (induction i f it rule: change_item.induct) (auto simp: list_all_iff)

lemma change_replies_every:
  assumes "\<And>is. list_all (every_item P) is \<Longrightarrow> list_all (every_item P) (f is)"
  shows "every_item P it \<Longrightarrow> every_item P (change_replies i f it)"
  using assms by (induction i f it rule: change_replies.induct) (auto simp: list_all_iff)

lemma on_popups_every:
  assumes "page_every P w"
    and "\<And>j p. list_all (every_item P) (p_items p) \<Longrightarrow> list_all (every_item R) (p_items (f j p))"
  shows "page_every R (on_popups f w)"
  using assms by (auto simp: page_every_def on_popups_def)

lemma list_all_concat_map:
  "list_all P (concat (map g xs)) \<longleftrightarrow> list_all (\<lambda>x. list_all P (g x)) xs"
  by (auto simp: list_all_iff)

lemma on_item_every:
  assumes "page_every P w"
    and "\<And>c v is. every_item P (Item c v is) \<Longrightarrow> c_id c = i \<Longrightarrow> list_all (every_item R) (f (Item c v is))"
    and "\<And>c v. P c v \<Longrightarrow> R c v"
  shows "page_every R (on_item i f w)"
proof -
  have "every_item P it \<Longrightarrow> list_all (every_item R) (change_item i f it)" for it
    by (rule change_item_every) (rule assms(2), assumption, assumption, rule assms(3))
  then have "list_all (every_item P) ul \<Longrightarrow> list_all (every_item R) (concat (map (change_item i f) ul))" for ul
    by (simp add: list_all_concat_map list_all_iff) blast
  then show ?thesis unfolding on_item_def by (intro on_popups_every [OF assms(1)]) simp
qed

lemma on_list_every:
  assumes "page_every P w"
    and "\<And>is. list_all (every_item P) is \<Longrightarrow> list_all (every_item P) (f is)"
  shows "page_every P (on_list i f w)"
proof -
  have "every_item P it \<Longrightarrow> every_item P (change_replies i f it)" for it
    by (rule change_replies_every) (rule assms(2))
  then have "list_all (every_item P) ul \<Longrightarrow> list_all (every_item P) (map (change_replies i f) ul)" for ul
    by (auto simp: list_all_iff)
  then show ?thesis unfolding on_list_def using assms(2) by (intro on_popups_every [OF assms(1)]) simp
qed

lemma page_every_popups: "popups w' = popups w \<Longrightarrow> page_every P w' = page_every P w"
  by (simp add: page_every_def)

lemma page_every_request [simp]: "page_every P (request r w) = page_every P w"
  by (rule page_every_popups) (simp add: request_def)

lemma page_every_error [simp]: "page_every P (showError m w) = page_every P w"
  by (rule page_every_popups) (simp add: showError_def)

text \<open>
  Everything that can happen, with any data from the server whose votes are possible; \<open>S\<close> are
  the comments the server sends.
\<close>

inductive page_step :: "opts \<Rightarrow> comment set \<Rightarrow> page \<Rightarrow> page \<Rightarrow> bool" for o' S where
  opened: "page_step o' S w (show_popup i w)"
| closed: "page_step o' S w (hide_popup i w)"
| got: "list_all (every_tree (\<lambda>c. vote_ok c \<and> c \<in> S)) ts \<Longrightarrow> page_step o' S w (getComments_success o' i ts w)"
| not_got: "page_step o' S w (getComments_error w)"
| resorted: "page_step o' S w (handleReSort o' classes w)"
| adding: "page_step o' S w (addComment node parent content proposal w)"
| added: "vote_ok c \<Longrightarrow> c \<in> S \<Longrightarrow> page_step o' S w (addComment_success o' node parent c w)"
| not_added: "page_step o' S w (addComment_error node w)"
| replying: "page_step o' S w (openReply i w)"
| not_replying: "page_step o' S w (closeReply i w)"
| accepted: "page_step o' S w (acceptComment_success i w)"
| not_accepted: "page_step o' S w (acceptComment_error w)"
| deleted: "page_step o' S w (deleteComment_success data i w)"
| not_deleted: "page_step o' S w (deleteComment_error w)"
| vote: "page_every (\<lambda>c v. c_id c = i \<longrightarrow> link_visible a unvote v) w \<Longrightarrow>
     page_step o' S w (handleVote o' a unvote i w)"
| not_voted: "page_step o' S w (handleVote_error w)"

lemma sent_from_server: "vote_ok c \<Longrightarrow> c \<in> S \<Longrightarrow> from_server S c"
  by (force simp: from_server_def sent_as_def)

lemma every_tree_mono: "every_tree P t \<Longrightarrow> (\<And>c. P c \<Longrightarrow> Q c) \<Longrightarrow> every_tree Q t"
  by (induction P t rule: every_tree.induct) (auto simp: list_all_iff)

lemma getChildren_ok:
  "list_all (every_item (view_ok o' S)) is \<Longrightarrow> list_all (every_tree (from_server S)) (getChildren is)"
  unfolding getChildren_def list_all_concat_map
  by (auto simp: list_all_iff view_ok_def
      dest!: every_tree_of_item [where Q = "from_server S", unfolded list_all_iff])

lemma view_ok_reply:
  "view_ok o' S c (v\<lparr>reply_link := a, close_reply_link := b\<rparr>) = view_ok o' S c v"
  by (simp add: view_ok_def agrees_def)

lemma voted_from_server: "from_server S c \<Longrightarrow> from_server S (voted (vote_value a unvote) c)"
  by (force simp: from_server_def vote_ok_def sent_as_def voted_def vote_value_def)

lemma agrees_voted:
  assumes "agrees o' c v" and "link_visible a unvote v" and "vote_ok c"
  shows "agrees o' (voted (vote_value a unvote) c)
       ((vote_links a unvote (c_vote c) v)\<lparr>rating_text := points (c_rating (voted (vote_value a unvote) c))\<rparr>)"
proof -
  consider "c_vote c = 1" | "c_vote c = 0" | "c_vote c = -1" using assms(3) by (auto simp: vote_ok_def)
  then show ?thesis
    using assms(1,2)
    by cases (cases a; cases unvote; simp add: agrees_def link_visible_def voted_def vote_value_def
        vote_links_def)+
qed

lemma view_ok_voted:
  "view_ok o' S c v \<Longrightarrow> link_visible a unvote v \<Longrightarrow>
     view_ok o' S (voted (vote_value a unvote) c)
       ((vote_links a unvote (c_vote c) v)\<lparr>rating_text := points (c_rating (voted (vote_value a unvote) c))\<rparr>)"
  unfolding view_ok_def by (intro conjI voted_from_server agrees_voted) (auto simp: from_server_def)

lemma page_every_mono: "page_every P w \<Longrightarrow> (\<And>c v. P c v \<Longrightarrow> R c v) \<Longrightarrow> page_every R w"
  by (fastforce simp: page_every_def list_all_iff intro: every_item_mono)

lemma every_item_view: "every_item P (Item c v is) \<Longrightarrow> P c v' \<Longrightarrow> every_item P (Item c v' is)"
  by simp

lemma set_update_subset: "set (AList.update k v al) \<subseteq> insert (k, v) (set al)"
  by (induction al) auto

lemma deleted_view_ok:
  "view_ok o' S c v \<Longrightarrow>
     view_ok o' S (c\<lparr>c_user := u, c_text := t\<rparr>)
       (v\<lparr>shown_user := u, shown_text := t, accept_link := False, delete_link := False,
          proposal_link := False, reply_link := False, close_reply_link := False\<rparr>)"
  by (simp add: view_ok_def agrees_def from_server_def vote_ok_def sent_as_def)

lemma page_step_ok:
  "page_step o' S w w' \<Longrightarrow> page_every (view_ok o' S) w \<Longrightarrow> page_every (view_ok o' S) w'"
proof (induction rule: page_step.induct)
  case (opened w i)
  then show ?case
    by (auto simp: show_popup_def request_def page_every_def dest!: set_update_subset [THEN subsetD])
next
  case (closed w i)
  then show ?case by (auto simp: hide_popup_def page_every_def AList.delete_eq)
next
  case (got ts w i)
  then have "list_all (every_tree (from_server S)) ts"
    by (auto simp: list_all_iff intro: every_tree_mono sent_from_server)
  with got show ?case unfolding getComments_success_def
    by (intro on_popups_every) (auto intro: appendComments_ok every_tree_sort)
next
  case (resorted w classes)
  show ?case unfolding handleReSort_def Let_def
  proof (rule on_popups_every [where P = "view_ok o' S"], goal_cases)
    case 1
    from resorted show ?case by (simp add: page_every_def)
  next
    case (2 j p)
    then show ?case by (simp add: appendComments_ok every_tree_sort getChildren_ok [of o'])
  qed
next
  case (adding w node parent content proposal)
  then show ?case by (auto simp: addComment_def intro: on_popups_every)
next
  case (added c w node parent)
  have "every_item (view_ok o' S) (item_of_tree o' (Tree c []))"
    by (rule item_of_tree_ok) (simp add: added sent_from_server)
  with added show ?case unfolding addComment_success_def insertComment_def
    by (intro on_list_every on_popups_every insert_item_every) (auto simp: Let_def)
next
  case (not_added w node)
  then show ?case by (auto simp: addComment_error_def intro: on_popups_every)
next
  case (replying w i)
  then show ?case unfolding openReply_def
    by (intro on_list_every on_item_every) (auto simp: view_ok_reply)
next
  case (not_replying w i)
  then show ?case unfolding closeReply_def
    by (intro on_list_every on_item_every) (auto simp: view_ok_reply list_all_iff)
next
  case (accepted w i)
  then show ?case unfolding acceptComment_success_def
    by (intro on_item_every) (auto simp: view_ok_def agrees_def)
next
  case (deleted w data i)
  then show ?case unfolding deleteComment_success_def
    by (intro on_item_every) (auto simp: deleted_view_ok)
next
  case (vote i a unvote w)
  then have both: "page_every (\<lambda>c v. view_ok o' S c v \<and> (c_id c = i \<longrightarrow> link_visible a unvote v)) w"
    by (fastforce simp: page_every_def list_all_iff intro: every_item_conj)
  have "page_every (view_ok o' S) (on_item i (\<lambda>it. case it of
      Item c v is \<Rightarrow>
        let c' = voted (vote_value a unvote) c
        in [Item c' ((vote_links a unvote (c_vote c) v)\<lparr>rating_text := points (c_rating c')\<rparr>) is]
    | _ \<Rightarrow> [it]) w)"
    by (rule on_item_every [OF both])
      (auto simp: Let_def view_ok_voted list_all_iff intro: every_item_mono)
  with vote show ?case by (simp add: handleVote_def)
qed (simp_all add: getComments_error_def acceptComment_error_def deleteComment_error_def handleVote_error_def)

text \<open>
  C31. Whatever happens on the page, in any order, every comment shown agrees with its data: of
  the two links of an arrow exactly the one for the vote cast is shown; rating, user and text are
  those of the data; no comment is shown that the user may not see; the mark of a comment that
  waits for a moderator and the links to accept, delete and compare are shown only where they
  belong (the converse is not claimed: accepting a comment removes the mark and leaves the data).
  And the rating of a comment differs from the one the server sent for it by the vote that
  stands minus the vote the server knew, however often votes are cast and taken back.
\<close>

theorem votes_consistent:
  assumes "(page_step o' S)\<^sup>*\<^sup>* (init_page cs) w"
  shows "page_every (agrees o') w \<and> page_every (\<lambda>c v. sent_as S c) w"
proof -
  have "page_every (view_ok o' S) w"
    using assms
  proof (induction rule: rtranclp_induct)
    case base
    show ?case by (simp add: page_every_def init_page_def)
  qed (rule page_step_ok)
  then show ?thesis
    by (auto simp: view_ok_def from_server_def elim: page_every_mono)
qed

section \<open>Re-sorting\<close>

lemma createCommentDiv_None: "createCommentDiv o' c = None \<longleftrightarrow> \<not> (c_displayed c \<or> moderator o')"
  by (auto simp: createCommentDiv_def Let_def)

lemma tree_of_item_of_tree:
  "every_tree (\<lambda>c. c_displayed c \<or> moderator o') t \<Longrightarrow> tree_of_item (item_of_tree o' t) = [t]"
proof (induction o' t rule: item_of_tree.induct)
  case (1 o' c ts)
  then obtain v where v: "createCommentDiv o' c = Some v"
    using createCommentDiv_None [of o' c] by (cases "createCommentDiv o' c") auto
  have "concat (map (tree_of_item \<circ> item_of_tree o') us) = us" if "set us \<subseteq> set ts" for us
    using that 1 v by (induction us) (auto simp: list_all_iff)
  then show ?case using v by simp
qed

lemma getChildren_append:
  "list_all (every_tree (\<lambda>c. c_displayed c \<or> moderator o')) ts \<Longrightarrow>
     getChildren (appendComments o' ts []) = ts"
  by (induction ts) (simp_all add: getChildren_def appendComments_def tree_of_item_of_tree)

lemma getChildren_shown:
  "list_all (every_item (view_ok o' S)) is \<Longrightarrow>
     list_all (every_tree (\<lambda>c. c_displayed c \<or> moderator o')) (getChildren is)"
  unfolding getChildren_def list_all_concat_map
  by (auto simp: list_all_iff view_ok_def agrees_def
      dest!: every_tree_of_item [where Q = "\<lambda>c. c_displayed c \<or> moderator o'", unfolded list_all_iff])

text \<open>Choosing an order re-arranges every list of the page and changes nothing else: the same
  comments are shown, each with the same replies, and at every level they are in the order
  chosen. (Notes about comments that wait for a moderator disappear.)
\<close>
lemma resort_keeps_comments:
  assumes "page_every (view_ok o' S) w" and "(j, p) \<in> set (popups w)"
  shows "\<exists>p'. (j, p') \<in> set (popups (handleReSort o' classes w))
    \<and> levels_ok (selected_by classes (order_by w)) (getChildren (p_items p'))
    \<and> mset (concat (map comments_of (getChildren (p_items p')))) = mset (concat (map comments_of (getChildren (p_items p))))
    \<and> mset (concat (map edges_of (getChildren (p_items p')))) = mset (concat (map edges_of (getChildren (p_items p))))
    \<and> Waiting \<notin> set (p_items p')"
proof -
  let ?b = "selected_by classes (order_by w)" and ?ts = "getChildren (p_items p)"
  let ?p = "p\<lparr>p_items := appendComments o' (sortComments ?b ?ts) []\<rparr>"
  have "list_all (every_item (view_ok o' S)) (p_items p)" using assms by (auto simp: page_every_def)
  then have shown: "list_all (every_tree (\<lambda>c. c_displayed c \<or> moderator o')) (sortComments ?b ?ts)"
    by (intro every_tree_sort getChildren_shown)
  then have ch: "getChildren (p_items ?p) = sortComments ?b ?ts" by (simp add: getChildren_append)
  have "item_of_tree o' t \<noteq> Waiting" if "t \<in> set (sortComments ?b ?ts)" for t
  proof -
    have "every_tree (\<lambda>c. c_displayed c \<or> moderator o') t" using shown that by (simp add: list_all_iff)
    then have "tree_of_item (item_of_tree o' t) = [t]" by (rule tree_of_item_of_tree)
    then show ?thesis by auto
  qed
  then have "Waiting \<notin> item_of_tree o' ` set (sortComments ?b ?ts)" by (metis imageE)
  then have "Waiting \<notin> set (p_items ?p)" by (simp add: appendComments_def)
  moreover have "(j, ?p) \<in> set (popups (handleReSort o' classes w))"
    using assms(2) by (force simp: handleReSort_def on_popups_def Let_def)
  ultimately show ?thesis
    using ch sortComments_levels [of ?b ?ts] sortComments_comments [of ?b ?ts] sortComments_edges [of ?b ?ts]
    by (intro exI [of _ ?p]) simp
qed

text \<open>
  The link of the current order carries the class \<open>sel\<close>, too, and is taken for the name of an
  order: a click on it selects the order \<open>l\<close>, which no comment has a number for, so nothing is
  sorted any more, and the cookie keeps it so. The cookie is read only when it is the last one.
\<close>
theorem selected_sort_link:
  "selected_by (link_classes current order) old = (if order = current then ''l'' else order)
   \<and> sortComments ''l'' ts = ts
   \<and> initComparator (document_cookie [(''sortBy'', ''l'')]) = ''l''
   \<and> initComparator (document_cookie [(''sortBy'', v), (k, u)]) = ''rating''"
proof (intro conjI)
  show "selected_by (link_classes current order) old = (if order = current then ''l'' else order)"
    by (simp add: selected_by_def link_classes_def)
  show "sortComments ''l'' ts = ts"
    by (rule sortComments_unknown) (simp add: sort_value_def num_field_def)
  show "initComparator (document_cookie [(''sortBy'', ''l'')]) = ''l''"
    by (simp add: initComparator_def document_cookie_def)
  show "initComparator (document_cookie [(''sortBy'', v), (k, u)]) = ''rating''"
    by (simp add: initComparator_def document_cookie_def Let_def)
qed

definition sample_comment :: comment where
  "sample_comment =
     \<lparr>c_id = ''7'', c_node = ''n1'', c_parent = [], c_user = ''ann'', c_text = ''well'', c_rating = 3,
      c_vote = 0, c_age = 5, c_displayed = True, c_proposal = False\<rparr>"

definition sample_opts :: opts where
  "sample_opts = \<lparr>voting = True, moderator = False, username = ''bob''\<rparr>"

definition sample_page :: page where
  "sample_page =
     getComments_success sample_opts ''n1'' [Tree sample_comment []] (show_popup ''n1'' (init_page []))"

lemma sortComments_single: "sortComments k [Tree c []] = [Tree c []]"
proof -
  have "sortComments k [] = []" by (subst sortComments.simps) (simp add: sort_by_def)
  then show ?thesis by (subst sortComments.simps) (simp add: sort_by_def)
qed

lemma sample_page_reached: "(page_step sample_opts {sample_comment})\<^sup>*\<^sup>* (init_page []) sample_page"
proof -
  have "page_step sample_opts {sample_comment} (init_page []) (show_popup ''n1'' (init_page []))" by (rule page_step.opened)
  moreover have "page_step sample_opts {sample_comment} (show_popup ''n1'' (init_page [])) sample_page"
    unfolding sample_page_def by (rule page_step.got) (simp add: vote_ok_def sample_comment_def)
  ultimately show ?thesis by (meson converse_rtranclp_into_rtranclp r_into_rtranclp)
qed

lemma sample_page_vote:
  "(page_step sample_opts {sample_comment})\<^sup>*\<^sup>* (init_page []) (handleVote sample_opts Up False ''7'' sample_page)"
proof -
  have "page_step sample_opts {sample_comment} sample_page (handleVote sample_opts Up False ''7'' sample_page)"
  proof (rule page_step.vote)
    show "page_every (\<lambda>c v. c_id c = ''7'' \<longrightarrow> link_visible Up False v) sample_page"
      by (simp add: sample_page_def getComments_success_def show_popup_def request_def init_page_def
          on_popups_def page_every_def appendComments_def sortComments_single
          createCommentDiv_def sample_comment_def sample_opts_def link_visible_def Let_def)
  qed
  with sample_page_reached show ?thesis by (rule rtranclp.rtrancl_into_rtrancl)
qed

theorem votes_consistent_witness:
  "page_every (agrees sample_opts) (handleVote sample_opts Up False ''7'' sample_page)
   \<and> shown_comments (p_items (snd (hd (popups (handleVote sample_opts Up False ''7'' sample_page)))))
       = [sample_comment\<lparr>c_rating := 4, c_vote := 1\<rparr>]"
proof
  show "page_every (agrees sample_opts) (handleVote sample_opts Up False ''7'' sample_page)"
    using votes_consistent [OF sample_page_vote] by blast
  show "shown_comments (p_items (snd (hd (popups (handleVote sample_opts Up False ''7'' sample_page)))))
       = [sample_comment\<lparr>c_rating := 4, c_vote := 1\<rparr>]"
    by (simp add: sample_page_def getComments_success_def show_popup_def request_def init_page_def
          on_popups_def appendComments_def sortComments_single handleVote_def on_item_def
          createCommentDiv_def sample_comment_def sample_opts_def Let_def voted_def vote_value_def)
qed

lemma sample_page_popup: "\<exists>p. (''n1'', p) \<in> set (popups sample_page) \<and> shown_comments (p_items p) = [sample_comment]"
  by (simp add: sample_page_def getComments_success_def show_popup_def request_def init_page_def
      on_popups_def appendComments_def sortComments_single createCommentDiv_def
      sample_comment_def sample_opts_def Let_def)

lemma sample_page_ok: "page_every (view_ok sample_opts {sample_comment}) sample_page"
  using sample_page_reached
proof (induction rule: rtranclp_induct)
  case base
  show ?case by (simp add: page_every_def init_page_def)
qed (rule page_step_ok)

lemma resort_keeps_comments_witness:
  "\<exists>p'. (''n1'', p') \<in> set (popups (handleReSort sample_opts [''sort-option'', ''byage''] sample_page))
     \<and> levels_ok ''age'' (getChildren (p_items p'))"
proof -
  obtain p where "(''n1'', p) \<in> set (popups sample_page)" using sample_page_popup by blast
  from resort_keeps_comments [OF sample_page_ok this, of "[''sort-option'', ''byage'']"]
  show ?thesis by (auto simp: selected_by_def)
qed

end
