(* ===== verification/LunrQuery.thy ===== *)
theory LunrQuery
  imports JsCall "HOL-Library.Word"
begin

unbundle bit_operations_syntax

text \<open>
  The query language of \<open>lunr\<close>, the full-text search engine of the documentation's second
  theme (\<open>javascripts/application.js\<close>): \<open>lunr.Query\<close>, \<open>lunr.QueryLexer\<close> and
  \<open>lunr.QueryParser\<close>.

  \<^item> A scanner (\<open>lexer\<close>) is the source's object: the text, the position, the start of the current
    lexeme, the lexemes found, and the positions of the escape characters in the current one.
    Its states are the functions of the source that return the next one, so \<open>lex_step\<close> is one
    turn of the loop in \<open>run\<close> and \<open>lex_run\<close> the loop, which need not end by itself.
  \<^item> A clause is a record whose properties are optional while the parser builds it;
    \<open>clause_add\<close> (\<open>lunr.Query.prototype.clause\<close>) supplies what is missing.
  \<^item> The parser's states are functions as well; each consumes lexemes, so \<open>parse_run\<close> is a
    total function. \<open>QueryParseError\<close> carries the message and the part of the text it concerns.

  Numbers in a text are read exactly; \<open>parseInt\<close> rounds from 9007199254740992 on.
\<close>

section \<open>The scanner\<close>

datatype lexeme_type = L_FIELD | L_TERM | L_EDIT_DISTANCE | L_BOOST | L_PRESENCE

fun type_str :: "lexeme_type \<Rightarrow> string" where
  "type_str L_FIELD = ''FIELD''"
| "type_str L_TERM = ''TERM''"
| "type_str L_EDIT_DISTANCE = ''EDIT_DISTANCE''"
| "type_str L_BOOST = ''BOOST''"
| "type_str L_PRESENCE = ''PRESENCE''"

record lexeme =
  lx_type :: lexeme_type
  lx_str :: string
  lx_start :: nat
  lx_end :: nat

record lexer =
  lex_str :: string
  lex_pos :: nat
  lex_start :: nat
  lex_lexemes :: "lexeme list"
  escapeCharPositions :: "nat list"

definition new_lexer :: "string \<Rightarrow> lexer" where
  "new_lexer s = \<lparr>lex_str = s, lex_pos = 0, lex_start = 0, lex_lexemes = [], escapeCharPositions = []\<rparr>"

definition slice_s :: "string \<Rightarrow> nat \<Rightarrow> nat \<Rightarrow> string" where
  "slice_s s a b = take (b - a) (drop a s)"

text \<open>The text of the current lexeme without its escape characters.\<close>

fun subSlices :: "string \<Rightarrow> nat \<Rightarrow> nat \<Rightarrow> nat list \<Rightarrow> string list" where
  "subSlices s sliceStart pos [] = [slice_s s sliceStart pos]"
| "subSlices s sliceStart pos (e # es) = slice_s s sliceStart e # subSlices s (e + 1) pos es"

definition sliceString :: "lexer \<Rightarrow> string" where
  "sliceString lx = concat (subSlices (lex_str lx) (lex_start lx) (lex_pos lx) (escapeCharPositions lx))"

definition emit_lexeme :: "lexeme_type \<Rightarrow> lexer \<Rightarrow> lexer" where
  "emit_lexeme ty lx =
     lx\<lparr>lex_lexemes := lex_lexemes lx @
          [\<lparr>lx_type = ty, lx_str = sliceString lx, lx_start = lex_start lx, lx_end = lex_pos lx\<rparr>],
        escapeCharPositions := [], lex_start := lex_pos lx\<rparr>"

definition escapeCharacter :: "lexer \<Rightarrow> lexer" where
  "escapeCharacter lx =
     lx\<lparr>escapeCharPositions := escapeCharPositions lx @ [lex_pos lx - 1], lex_pos := lex_pos lx + 1\<rparr>"

text \<open>\<open>None\<close> stands for \<open>lunr.QueryLexer.EOS\<close>, a string that no single character is.\<close>

definition next_char :: "lexer \<Rightarrow> char option \<times> lexer" where
  "next_char lx =
     (if lex_pos lx \<ge> length (lex_str lx) then (None, lx)
      else (Some (lex_str lx ! lex_pos lx), lx\<lparr>lex_pos := lex_pos lx + 1\<rparr>))"

definition width :: "lexer \<Rightarrow> nat" where
  "width lx = lex_pos lx - lex_start lx"

definition ignore :: "lexer \<Rightarrow> lexer" where
  "ignore lx =
     (let lx = (if lex_start lx = lex_pos lx then lx\<lparr>lex_pos := lex_pos lx + 1\<rparr> else lx)
      in lx\<lparr>lex_start := lex_pos lx\<rparr>)"

definition backup :: "lexer \<Rightarrow> lexer" where
  "backup lx = lx\<lparr>lex_pos := lex_pos lx - 1\<rparr>"

definition has_more :: "lexer \<Rightarrow> bool" where
  "has_more lx \<longleftrightarrow> lex_pos lx < length (lex_str lx)"

function acceptDigitRun :: "lexer \<Rightarrow> lexer" where
  "acceptDigitRun lx =
     (case next_char lx of
        (None, lx') \<Rightarrow> lx'
      | (Some c, lx') \<Rightarrow> if is_digit c then acceptDigitRun lx' else backup lx')"
  by pat_completeness auto
termination
  by (relation "measure (\<lambda>lx. length (lex_str lx) - lex_pos lx)")
     (auto simp: next_char_def split: if_splits)

text \<open>The separator \<open>/[\s\-]+/\<close>.\<close>

definition is_separator :: "char \<Rightarrow> bool" where
  "is_separator c \<longleftrightarrow> is_space c \<or> c = CHR ''-''"

datatype lex_state = LexText | LexField | LexTerm | LexEditDistance | LexBoost | LexEOS

definition emit_pending :: "lexer \<Rightarrow> lexer" where
  "emit_pending lx = (if 0 < width lx then emit_lexeme L_TERM lx else lx)"

function lexText :: "lexer \<Rightarrow> lex_state \<times> lexer" where
  "lexText lx =
     (case next_char lx of
        (None, lx1) \<Rightarrow> (LexEOS, lx1)
      | (Some c, lx1) \<Rightarrow>
          if c = CHR 0x5C then lexText (escapeCharacter lx1)
          else if c = CHR '':'' then (LexField, lx1)
          else if c = CHR ''~'' then (LexEditDistance, emit_pending (backup lx1))
          else if c = CHR ''^'' then (LexBoost, emit_pending (backup lx1))
          else if c = CHR ''+'' \<and> width lx1 = 1 then (LexText, emit_lexeme L_PRESENCE lx1)
          else if c = CHR ''-'' \<and> width lx1 = 1 then (LexText, emit_lexeme L_PRESENCE lx1)
          else if is_separator c then (LexTerm, lx1)
          else lexText lx1)"
  by pat_completeness auto
termination
  by (relation "measure (\<lambda>lx. length (lex_str lx) - lex_pos lx)")
     (auto simp: next_char_def escapeCharacter_def split: if_splits)

declare acceptDigitRun.simps [simp del] lexText.simps [simp del]

fun lex_step :: "lex_state \<Rightarrow> lexer \<Rightarrow> lex_state option \<times> lexer" where
  "lex_step LexText lx = apfst Some (lexText lx)"
| "lex_step LexField lx = (Some LexText, ignore (emit_lexeme L_FIELD (backup lx)))"
| "lex_step LexTerm lx =
     (let lx = ignore (if 1 < width lx then emit_lexeme L_TERM (backup lx) else lx)
      in (if has_more lx then Some LexText else None, lx))"
| "lex_step LexEditDistance lx = (Some LexText, emit_lexeme L_EDIT_DISTANCE (acceptDigitRun (ignore lx)))"
| "lex_step LexBoost lx = (Some LexText, emit_lexeme L_BOOST (acceptDigitRun (ignore lx)))"
| "lex_step LexEOS lx = (None, emit_pending lx)"

partial_function (option) lex_run :: "lex_state \<Rightarrow> lexer \<Rightarrow> lexer option" where
  "lex_run st lx =
     (case lex_step st lx of (None, lx') \<Rightarrow> Some lx' | (Some st', lx') \<Rightarrow> lex_run st' lx')"

section \<open>Queries\<close>

datatype presence = OPTIONAL | REQUIRED | PROHIBITED

record clause =
  cl_fields :: "string list option"
  cl_boost :: "int option"
  cl_usePipeline :: "bool option"
  cl_wildcard :: "32 word option"
  cl_presence :: "presence option"
  cl_term :: string
  cl_editDistance :: "nat option"

definition empty_clause :: clause where
  "empty_clause =
     \<lparr>cl_fields = None, cl_boost = None, cl_usePipeline = None, cl_wildcard = None,
      cl_presence = None, cl_term = [], cl_editDistance = None\<rparr>"

record lunr_query =
  q_clauses :: "clause list"
  q_allFields :: "string list"

abbreviation wildcard_NONE :: "32 word" where "wildcard_NONE \<equiv> 0"
abbreviation wildcard_LEADING :: "32 word" where "wildcard_LEADING \<equiv> 1"
abbreviation wildcard_TRAILING :: "32 word" where "wildcard_TRAILING \<equiv> 2"

definition or_default :: "'a \<Rightarrow> 'a option \<Rightarrow> 'a option" where
  "or_default d v = (case v of None \<Rightarrow> Some d | Some x \<Rightarrow> Some x)"

definition leading_wildcard :: "32 word \<Rightarrow> string \<Rightarrow> string" where
  "leading_wildcard w t =
     (if w AND wildcard_LEADING \<noteq> 0 \<and> take 1 t \<noteq> ''*'' then ''*'' @ t else t)"

definition trailing_wildcard :: "32 word \<Rightarrow> string \<Rightarrow> string" where
  "trailing_wildcard w t =
     (if w AND wildcard_TRAILING \<noteq> 0 \<and> drop (length t - 1) t \<noteq> ''*'' then t @ ''*'' else t)"

definition clause_add :: "clause \<Rightarrow> lunr_query \<Rightarrow> lunr_query" where
  "clause_add c q =
     (let w = (case cl_wildcard c of None \<Rightarrow> wildcard_NONE | Some w \<Rightarrow> w);
          c = c\<lparr>cl_fields := or_default (q_allFields q) (cl_fields c),
                cl_boost := or_default 1 (cl_boost c),
                cl_usePipeline := or_default True (cl_usePipeline c),
                cl_wildcard := Some w,
                cl_presence := or_default OPTIONAL (cl_presence c),
                cl_term := trailing_wildcard w (leading_wildcard w (cl_term c))\<rparr>
      in q\<lparr>q_clauses := q_clauses q @ [c]\<rparr>)"

definition isNegated :: "lunr_query \<Rightarrow> bool" where
  "isNegated q \<longleftrightarrow> list_all (\<lambda>c. cl_presence c = Some PROHIBITED) (q_clauses q)"

section \<open>The parser\<close>

text \<open>The outcome is a \<open>QueryParseError\<close> or the parser's next state.\<close>

record parse_error =
  pe_message :: string
  pe_start :: nat
  pe_end :: nat

record parser =
  ps_lexemes :: "lexeme list"
  ps_lexemeIdx :: nat
  ps_currentClause :: clause
  ps_query :: lunr_query

datatype parse_state = ParseClause | ParsePresence | ParseField | ParseTerm | ParseEditDistance | ParseBoost

definition error_at :: "string \<Rightarrow> lexeme \<Rightarrow> parse_error" where
  "error_at msg lx = \<lparr>pe_message = msg, pe_start = lx_start lx, pe_end = lx_end lx\<rparr>"

definition quoted :: "string \<Rightarrow> string" where
  "quoted s = [CHR 0x27] @ s @ [CHR 0x27]"

definition peekLexeme :: "parser \<Rightarrow> lexeme option" where
  "peekLexeme p =
     (if ps_lexemeIdx p < length (ps_lexemes p) then Some (ps_lexemes p ! ps_lexemeIdx p) else None)"

definition consumeLexeme :: "parser \<Rightarrow> lexeme option \<times> parser" where
  "consumeLexeme p = (peekLexeme p, p\<lparr>ps_lexemeIdx := ps_lexemeIdx p + 1\<rparr>)"

definition nextClause :: "parser \<Rightarrow> parser" where
  "nextClause p =
     p\<lparr>ps_query := clause_add (ps_currentClause p) (ps_query p), ps_currentClause := empty_clause\<rparr>"

abbreviation current :: "(clause \<Rightarrow> clause) \<Rightarrow> parser \<Rightarrow> parser" where
  "current f p \<equiv> p\<lparr>ps_currentClause := f (ps_currentClause p)\<rparr>"

type_synonym parse_result = "parse_error + (parse_state option \<times> parser)"

definition parseClause :: "parser \<Rightarrow> parse_result" where
  "parseClause p =
     (case peekLexeme p of
        None \<Rightarrow> Inr (None, p)
      | Some lx \<Rightarrow>
          (case lx_type lx of
             L_PRESENCE \<Rightarrow> Inr (Some ParsePresence, p)
           | L_FIELD \<Rightarrow> Inr (Some ParseField, p)
           | L_TERM \<Rightarrow> Inr (Some ParseTerm, p)
           | ty \<Rightarrow>
               Inl (error_at (''expected either a field or a term, found '' @ type_str ty
                 @ (if 1 \<le> length (lx_str lx) then '' with value '' @ quoted (lx_str lx) else []))
                 lx)))"

definition parsePresence :: "parser \<Rightarrow> parse_result" where
  "parsePresence p =
     (case consumeLexeme p of
        (None, p) \<Rightarrow> Inr (None, p)
      | (Some lx, p) \<Rightarrow>
          let after = (\<lambda>pr.
            let p = current (cl_presence_update (\<lambda>_. Some pr)) p
            in case peekLexeme p of
                 None \<Rightarrow> Inl (error_at ''expecting term or field, found nothing'' lx)
               | Some nx \<Rightarrow>
                   (case lx_type nx of
                      L_FIELD \<Rightarrow> Inr (Some ParseField, p)
                    | L_TERM \<Rightarrow> Inr (Some ParseTerm, p)
                    | ty \<Rightarrow> Inl (error_at (''expecting term or field, found '' @ quoted (type_str ty)) nx)))
          in if lx_str lx = ''-'' then after PROHIBITED
             else if lx_str lx = ''+'' then after REQUIRED
             else Inl (error_at (''unrecognised presence operator'' @ quoted (lx_str lx)) lx))"

definition parseField :: "parser \<Rightarrow> parse_result" where
  "parseField p =
     (case consumeLexeme p of
        (None, p) \<Rightarrow> Inr (None, p)
      | (Some lx, p) \<Rightarrow>
          if lx_str lx \<notin> set (q_allFields (ps_query p)) then
            Inl (error_at (''unrecognised field '' @ quoted (lx_str lx) @ '', possible fields: ''
              @ join '', '' (map quoted (q_allFields (ps_query p)))) lx)
          else
            let p = current (cl_fields_update (\<lambda>_. Some [lx_str lx])) p
            in case peekLexeme p of
                 None \<Rightarrow> Inl (error_at ''expecting term, found nothing'' lx)
               | Some nx \<Rightarrow>
                   (case lx_type nx of
                      L_TERM \<Rightarrow> Inr (Some ParseTerm, p)
                    | ty \<Rightarrow> Inl (error_at (''expecting term, found '' @ quoted (type_str ty)) nx)))"

text \<open>
  The end of \<open>parseTerm\<close>, \<open>parseEditDistance\<close> and \<open>parseBoost\<close>: what may follow. Their switches
  have a case for each of the five types of lexemes.
\<close>

definition after_term :: "parser \<Rightarrow> parse_result" where
  "after_term p =
     (case peekLexeme p of
        None \<Rightarrow> Inr (None, nextClause p)
      | Some nx \<Rightarrow>
          (case lx_type nx of
             L_TERM \<Rightarrow> Inr (Some ParseTerm, nextClause p)
           | L_FIELD \<Rightarrow> Inr (Some ParseField, nextClause p)
           | L_EDIT_DISTANCE \<Rightarrow> Inr (Some ParseEditDistance, p)
           | L_BOOST \<Rightarrow> Inr (Some ParseBoost, p)
           | L_PRESENCE \<Rightarrow> Inr (Some ParsePresence, nextClause p)))"

definition parseTerm :: "parser \<Rightarrow> parse_result" where
  "parseTerm p =
     (case consumeLexeme p of
        (None, p) \<Rightarrow> Inr (None, p)
      | (Some lx, p) \<Rightarrow>
          after_term (current (\<lambda>c. c\<lparr>cl_term := lower (lx_str lx),
            cl_usePipeline := (if CHR ''*'' \<in> set (lx_str lx) then Some False else cl_usePipeline c)\<rparr>) p))"

text \<open>\<open>parseInt(s, 10)\<close> of a run of digits.\<close>

definition parse_digits :: "string \<Rightarrow> nat option" where
  "parse_digits s =
     (let ds = takeWhile is_digit s in if ds = [] then None else Some (digits_val ds))"

definition parseEditDistance :: "parser \<Rightarrow> parse_result" where
  "parseEditDistance p =
     (case consumeLexeme p of
        (None, p) \<Rightarrow> Inr (None, p)
      | (Some lx, p) \<Rightarrow>
          (case parse_digits (lx_str lx) of
             None \<Rightarrow> Inl (error_at ''edit distance must be numeric'' lx)
           | Some n \<Rightarrow> after_term (current (cl_editDistance_update (\<lambda>_. Some n)) p)))"

definition parseBoost :: "parser \<Rightarrow> parse_result" where
  "parseBoost p =
     (case consumeLexeme p of
        (None, p) \<Rightarrow> Inr (None, p)
      | (Some lx, p) \<Rightarrow>
          (case parse_digits (lx_str lx) of
             None \<Rightarrow> Inl (error_at ''boost must be numeric'' lx)
           | Some n \<Rightarrow> after_term (current (cl_boost_update (\<lambda>_. Some (int n))) p)))"

fun parse_step :: "parse_state \<Rightarrow> parser \<Rightarrow> parse_result" where
  "parse_step ParseClause p = parseClause p"
| "parse_step ParsePresence p = parsePresence p"
| "parse_step ParseField p = parseField p"
| "parse_step ParseTerm p = parseTerm p"
| "parse_step ParseEditDistance p = parseEditDistance p"
| "parse_step ParseBoost p = parseBoost p"

lemmas parser_defs =
  parseClause_def parsePresence_def parseField_def parseTerm_def parseEditDistance_def
  parseBoost_def after_term_def consumeLexeme_def peekLexeme_def nextClause_def Let_def

fun parse_left :: "parse_state \<times> parser \<Rightarrow> nat" where
  "parse_left (st, p) =
     2 * (length (ps_lexemes p) - ps_lexemeIdx p) + (if st = ParseClause then 1 else 0)"

lemma parse_step_left:
  "parse_step st p = Inr (Some st', p') \<Longrightarrow> parse_left (st', p') < parse_left (st, p)"
  by (cases st) (auto simp: parser_defs split: option.splits lexeme_type.splits if_splits)

function parse_run :: "parse_state \<Rightarrow> parser \<Rightarrow> parse_error + lunr_query" where
  "parse_run st p =
     (case parse_step st p of
        Inl e \<Rightarrow> Inl e
      | Inr (None, p') \<Rightarrow> Inr (ps_query p')
      | Inr (Some st', p') \<Rightarrow> parse_run st' p')"
  by pat_completeness auto
termination
  by (relation "measure parse_left") (auto dest: parse_step_left)

declare parse_run.simps [simp del]

definition new_parser :: "lexeme list \<Rightarrow> lunr_query \<Rightarrow> parser" where
  "new_parser lxs q =
     \<lparr>ps_lexemes = lxs, ps_lexemeIdx = 0, ps_currentClause = empty_clause, ps_query = q\<rparr>"

definition query_parse :: "string \<Rightarrow> lunr_query \<Rightarrow> (parse_error + lunr_query) option" where
  "query_parse s q =
     (case lex_run LexText (new_lexer s) of
        None \<Rightarrow> None
      | Some lx \<Rightarrow> Some (parse_run ParseClause (new_parser (lex_lexemes lx) q)))"

end
