(* ===== verification/LunrQueryProps.thy ===== *)
theory LunrQueryProps
  imports LunrQuery
begin

text \<open>
  The properties of lunr's query language: scanning ends for every text; the parser accepts
  exactly the texts whose lexemes form clauses, with the meaning of these clauses, and its
  errors point at a lexeme; a query that is written out with escapes is read back as the same
  query. \<open>written\<close> is the abstract syntax of a clause, \<open>clause_words\<close> its lexemes, \<open>clause_text\<close> its
  text, \<open>meaning\<close> the clause object it stands for.
\<close>

section \<open>Scanning ends\<close>

lemmas lexer_defs =
  next_char_def emit_lexeme_def escapeCharacter_def width_def ignore_def backup_def has_more_def emit_pending_def
  Let_def

lemma lexText_end: "length (lex_str lx) \<le> lex_pos lx \<Longrightarrow> lexText lx = (LexEOS, lx)"
  by (subst lexText.simps) (simp add: next_char_def)

lemma lexText_char:
  assumes "lex_pos lx < length (lex_str lx)"
  shows "lexText lx =
    (let c = lex_str lx ! lex_pos lx; lx1 = lx\<lparr>lex_pos := lex_pos lx + 1\<rparr>
     in if c = CHR 0x5C then lexText (escapeCharacter lx1)
        else if c = CHR '':'' then (LexField, lx1)
        else if c = CHR ''~'' then (LexEditDistance, emit_pending (backup lx1))
        else if c = CHR ''^'' then (LexBoost, emit_pending (backup lx1))
        else if c = CHR ''+'' \<and> width lx1 = 1 then (LexText, emit_lexeme L_PRESENCE lx1)
        else if c = CHR ''-'' \<and> width lx1 = 1 then (LexText, emit_lexeme L_PRESENCE lx1)
        else if is_separator c then (LexTerm, lx1)
        else lexText lx1)"
  using assms by (subst lexText.simps) (simp add: next_char_def Let_def)

lemma acceptDigitRun_char:
  "acceptDigitRun lx =
     (if lex_pos lx < length (lex_str lx)
      then if is_digit (lex_str lx ! lex_pos lx) then acceptDigitRun (lx\<lparr>lex_pos := lex_pos lx + 1\<rparr>) else lx
      else lx)"
  by (subst acceptDigitRun.simps) (simp add: next_char_def backup_def)

definition advances :: "lexer \<Rightarrow> lex_state \<times> lexer \<Rightarrow> bool" where
  "advances lx r =
     (case r of (st, lx') \<Rightarrow>
        lex_str lx' = lex_str lx \<and> lex_start lx' \<le> lex_pos lx' \<and>
        (st = LexEOS \<or>
         lex_pos lx < length (lex_str lx) \<and>
         (case st of
            LexText \<Rightarrow> lex_pos lx < lex_pos lx'
          | LexField \<Rightarrow> lex_pos lx < lex_pos lx' \<and> lex_start lx' < lex_pos lx'
          | LexTerm \<Rightarrow> lex_pos lx < lex_pos lx' \<and> lex_start lx' < lex_pos lx'
          | _ \<Rightarrow> lex_pos lx \<le> lex_pos lx' \<and> lex_start lx' = lex_pos lx')))"

lemma lexText_advances: "lex_start lx \<le> lex_pos lx \<Longrightarrow> advances lx (lexText lx)"
proof (induction "length (lex_str lx) - lex_pos lx" arbitrary: lx rule: less_induct)
  case less
  show ?case
  proof (cases "lex_pos lx < length (lex_str lx)")
    case False
    with less.prems show ?thesis by (simp add: lexText_end advances_def)
  next
    case True
    let ?c = "lex_str lx ! lex_pos lx" and ?lx1 = "lx\<lparr>lex_pos := lex_pos lx + 1\<rparr>"
    have IH: "advances ?lx1 (lexText ?lx1)" "advances (escapeCharacter ?lx1) (lexText (escapeCharacter ?lx1))"
      using less.prems True by (auto intro!: less.hyps simp: escapeCharacter_def)
    have later: "advances ?lx1 r \<Longrightarrow> advances lx r"
      "advances (escapeCharacter ?lx1) r \<Longrightarrow> advances lx r" for r
      using True by (auto simp: advances_def escapeCharacter_def split: prod.splits lex_state.splits)
    have start: "lex_start lx < Suc (lex_pos lx)" using less.prems by simp
    show ?thesis
      using later(1) [OF IH(1)] later(2) [OF IH(2)] True start
      by (subst lexText_char [OF True])
        (auto simp: advances_def lexer_defs split del: prod.splits)
  qed
qed

lemma acceptDigitRun_shape:
  "lex_str (acceptDigitRun lx) = lex_str lx \<and> lex_start (acceptDigitRun lx) = lex_start lx
   \<and> lex_pos lx \<le> lex_pos (acceptDigitRun lx)"
proof (induction "length (lex_str lx) - lex_pos lx" arbitrary: lx rule: less_induct)
  case less
  show ?case
    using less.hyps [of "lx\<lparr>lex_pos := lex_pos lx + 1\<rparr>"]
    by (subst (1 2 3) acceptDigitRun_char) (auto intro: Suc_leD simp: diff_less_mono2)
qed

lemma lex_run_ends: "lex_start lx \<le> lex_pos lx \<Longrightarrow> \<exists>lx'. lex_run LexText lx = Some lx'"
proof (induction "length (lex_str lx) - lex_pos lx" arbitrary: lx rule: less_induct)
  case less
  obtain st lx1 where r: "lexText lx = (st, lx1)" by (cases "lexText lx")
  then have adv: "advances lx (st, lx1)" using lexText_advances [OF less.prems] by simp
  have step: "lex_run LexText lx = lex_run st lx1"
    by (subst lex_run.simps) (simp add: r)
  have again: "\<exists>lx'. lex_run LexText lx2 = Some lx'"
    if "lex_str lx2 = lex_str lx" "lex_pos lx < lex_pos lx2" "lex_start lx2 \<le> lex_pos lx2"
      "lex_pos lx < length (lex_str lx)" for lx2
    using less.hyps [of lx2] that by simp
  show ?case
  proof (cases st)
    case LexText
    with adv again [of lx1] show ?thesis by (simp add: step advances_def)
  next
    case LexField
    with adv have "lex_run st lx1 = lex_run LexText (ignore (emit_lexeme L_FIELD (backup lx1)))"
      by (subst lex_run.simps) simp
    with LexField adv again [of "ignore (emit_lexeme L_FIELD (backup lx1))"] show ?thesis
      by (auto simp: step advances_def lexer_defs)
  next
    case LexTerm
    let ?lx = "ignore (if 1 < width lx1 then emit_lexeme L_TERM (backup lx1) else lx1)"
    have "lex_run st lx1 = (if has_more ?lx then lex_run LexText ?lx else Some ?lx)"
      by (subst lex_run.simps) (simp add: LexTerm Let_def)
    with LexTerm adv again [of ?lx] show ?thesis
      by (auto simp: step advances_def lexer_defs split: if_splits)
  next
    case LexEditDistance
    let ?lx = "emit_lexeme L_EDIT_DISTANCE (acceptDigitRun (ignore lx1))"
    have "lex_run st lx1 = lex_run LexText ?lx"
      by (subst lex_run.simps) (simp add: LexEditDistance)
    with LexEditDistance adv again [of ?lx] acceptDigitRun_shape [of "ignore lx1"] show ?thesis
      by (auto simp: step advances_def lexer_defs)
  next
    case LexBoost
    let ?lx = "emit_lexeme L_BOOST (acceptDigitRun (ignore lx1))"
    have "lex_run st lx1 = lex_run LexText ?lx"
      by (subst lex_run.simps) (simp add: LexBoost)
    with LexBoost adv again [of ?lx] acceptDigitRun_shape [of "ignore lx1"] show ?thesis
      by (auto simp: step advances_def lexer_defs)
  next
    case LexEOS
    then show ?thesis by (simp add: step) (subst lex_run.simps, simp)
  qed
qed

lemma query_parse_returns: "\<exists>r. query_parse s q = Some r"
  using lex_run_ends [of "new_lexer s"] by (auto simp: query_parse_def new_lexer_def)

section \<open>What the parser accepts\<close>

text \<open>
  The words of a query are its lexemes without their positions. A clause as it is written has a
  presence and a field or not, a term, and numbers that modify it; \<open>meaning\<close> is the clause
  object it stands for.
\<close>

type_synonym word_l = "lexeme_type \<times> string"

definition word_of :: "lexeme \<Rightarrow> word_l" where
  "word_of lx = (lx_type lx, lx_str lx)"

record written =
  w_presence :: "presence option"
  w_field :: "string option"
  w_term :: string
  w_mods :: "word_l list"

fun presence_words :: "presence option \<Rightarrow> word_l list" where
  "presence_words (Some REQUIRED) = [(L_PRESENCE, ''+'')]"
| "presence_words (Some PROHIBITED) = [(L_PRESENCE, ''-'')]"
| "presence_words _ = []"

definition clause_words :: "written \<Rightarrow> word_l list" where
  "clause_words w =
     presence_words (w_presence w)
     @ (case w_field w of None \<Rightarrow> [] | Some f \<Rightarrow> [(L_FIELD, f)])
     @ (L_TERM, w_term w) # w_mods w"

definition mod_ok :: "word_l \<Rightarrow> bool" where
  "mod_ok m \<longleftrightarrow> fst m \<in> {L_EDIT_DISTANCE, L_BOOST} \<and> parse_digits (snd m) \<noteq> None"

definition written_ok :: "string list \<Rightarrow> written \<Rightarrow> bool" where
  "written_ok names w \<longleftrightarrow>
     w_presence w \<noteq> Some OPTIONAL
     \<and> (case w_field w of None \<Rightarrow> True | Some f \<Rightarrow> f \<in> set names)
     \<and> list_all mod_ok (w_mods w)"

definition put_mod :: "clause \<Rightarrow> word_l \<Rightarrow> clause" where
  "put_mod c m =
     (let n = the (parse_digits (snd m))
      in if fst m = L_EDIT_DISTANCE then c\<lparr>cl_editDistance := Some n\<rparr> else c\<lparr>cl_boost := Some (int n)\<rparr>)"

definition put_term :: "string \<Rightarrow> clause \<Rightarrow> clause" where
  "put_term t c =
     c\<lparr>cl_term := lower t,
       cl_usePipeline := (if CHR ''*'' \<in> set t then Some False else cl_usePipeline c)\<rparr>"

definition put_field :: "string option \<Rightarrow> clause \<Rightarrow> clause" where
  "put_field f c = (case f of None \<Rightarrow> c | Some f \<Rightarrow> c\<lparr>cl_fields := Some [f]\<rparr>)"

definition put_presence :: "presence option \<Rightarrow> clause \<Rightarrow> clause" where
  "put_presence pr c = (case pr of None \<Rightarrow> c | Some p \<Rightarrow> c\<lparr>cl_presence := Some p\<rparr>)"

definition meaning :: "written \<Rightarrow> clause" where
  "meaning w =
     foldl put_mod (put_term (w_term w) (put_field (w_field w) (put_presence (w_presence w) empty_clause)))
       (w_mods w)"

definition add_written :: "lunr_query \<Rightarrow> written \<Rightarrow> lunr_query" where
  "add_written q w = clause_add (meaning w) q"

lemma allFields_add [simp]: "q_allFields (clause_add c q) = q_allFields q"
  by (simp add: clause_add_def Let_def)

text \<open>\<open>reads\<close>: these words are clauses that lead from one query to the other. \<open>reads_on\<close>: the
  same with the rest of a clause in front, behind its term.\<close>

definition reads :: "lunr_query \<Rightarrow> word_l list \<Rightarrow> lunr_query \<Rightarrow> bool" where
  "reads q ws q' \<longleftrightarrow>
     (\<exists>cs. ws = concat (map clause_words cs) \<and> list_all (written_ok (q_allFields q)) cs
        \<and> q' = foldl add_written q cs)"

definition reads_on :: "clause \<Rightarrow> lunr_query \<Rightarrow> word_l list \<Rightarrow> lunr_query \<Rightarrow> bool" where
  "reads_on c q ws q' \<longleftrightarrow>
     (\<exists>ms ws'. ws = ms @ ws' \<and> list_all mod_ok ms \<and> reads (clause_add (foldl put_mod c ms) q) ws' q')"

lemma clause_words_ne [simp]: "clause_words w \<noteq> []"
  by (simp add: clause_words_def)

lemma reads_Nil: "reads q [] q' \<longleftrightarrow> q' = q"
  by (auto simp: reads_def)

lemma reads_clause:
  "reads q ws q' \<longleftrightarrow> ws = [] \<and> q' = q \<or>
     (\<exists>pr f t ws'. ws = presence_words pr @ (case f of None \<Rightarrow> [] | Some f \<Rightarrow> [(L_FIELD, f)]) @ (L_TERM, t) # ws'
        \<and> pr \<noteq> Some OPTIONAL \<and> (case f of None \<Rightarrow> True | Some f \<Rightarrow> f \<in> set (q_allFields q))
        \<and> reads_on (put_term t (put_field f (put_presence pr empty_clause))) q ws' q')"
  (is "?L \<longleftrightarrow> ?R")
proof
  assume ?L
  then obtain cs where cs: "ws = concat (map clause_words cs)" "list_all (written_ok (q_allFields q)) cs"
    "q' = foldl add_written q cs" by (auto simp: reads_def)
  show ?R
  proof (cases cs)
    case Nil
    with cs show ?thesis by simp
  next
    case (Cons w cs')
    have "reads (add_written q w) (concat (map clause_words cs')) q'"
      using cs Cons by (auto simp: reads_def add_written_def)
    then have "reads_on (put_term (w_term w) (put_field (w_field w) (put_presence (w_presence w) empty_clause))) q
        (w_mods w @ concat (map clause_words cs')) q'"
      using cs Cons unfolding reads_on_def
      by (intro exI [of _ "w_mods w"] exI conjI) (auto simp: written_ok_def add_written_def meaning_def)
    with cs Cons show ?thesis
      by (intro disjI2 exI [of _ "w_presence w"] exI [of _ "w_field w"] exI [of _ "w_term w"] exI)
        (auto simp: clause_words_def written_ok_def)
  qed
next
  assume ?R
  then show ?L
  proof (elim disjE exE conjE)
    assume "ws = []" "q' = q"
    then show ?L by (simp add: reads_Nil)
  next
    fix pr f t ws'
    assume ws: "ws = presence_words pr @ (case f of None \<Rightarrow> [] | Some f \<Rightarrow> [(L_FIELD, f)]) @ (L_TERM, t) # ws'"
      "pr \<noteq> Some OPTIONAL" "case f of None \<Rightarrow> True | Some f \<Rightarrow> f \<in> set (q_allFields q)"
      and "reads_on (put_term t (put_field f (put_presence pr empty_clause))) q ws' q'"
    then obtain ms cs where m: "ws' = ms @ concat (map clause_words cs)" "list_all mod_ok ms"
      "list_all (written_ok (q_allFields q)) cs"
      "q' = foldl add_written (clause_add (foldl put_mod (put_term t (put_field f (put_presence pr empty_clause))) ms) q) cs"
      by (auto simp: reads_on_def reads_def)
    let ?w = "\<lparr>w_presence = pr, w_field = f, w_term = t, w_mods = ms\<rparr>"
    show ?L
      unfolding reads_def
      by (rule exI [of _ "?w # cs"]) (use ws m in \<open>simp add: clause_words_def written_ok_def add_written_def meaning_def\<close>)
  qed
qed

fun is_mod :: "lexeme_type \<Rightarrow> bool" where
  "is_mod L_EDIT_DISTANCE = True"
| "is_mod L_BOOST = True"
| "is_mod _ = False"

lemma reads_TERM:
  "reads q ((L_TERM, t) # ws) q' \<longleftrightarrow> reads_on (put_term t empty_clause) q ws q'"
proof
  assume "reads q ((L_TERM, t) # ws) q'"
  then obtain pr f t' ws' where *: "(L_TERM, t) # ws =
      presence_words pr @ (case f of None \<Rightarrow> [] | Some f \<Rightarrow> [(L_FIELD, f)]) @ (L_TERM, t') # ws'"
    "pr \<noteq> Some OPTIONAL" "reads_on (put_term t' (put_field f (put_presence pr empty_clause))) q ws' q'"
    by (subst (asm) reads_clause) auto
  then have "pr = None" "f = None"
    by (cases pr rule: presence_words.cases; cases f; simp)+
  with * show "reads_on (put_term t empty_clause) q ws q'"
    by (simp add: put_field_def put_presence_def)
next
  assume "reads_on (put_term t empty_clause) q ws q'"
  then show "reads q ((L_TERM, t) # ws) q'"
    by (subst reads_clause)
      (auto simp: put_field_def put_presence_def intro!: exI [of _ None])
qed

lemma reads_FIELD:
  "reads q ((L_FIELD, f) # ws) q' \<longleftrightarrow> f \<in> set (q_allFields q) \<and>
     (\<exists>t ws'. ws = (L_TERM, t) # ws' \<and> reads_on (put_term t (put_field (Some f) empty_clause)) q ws' q')"
proof
  assume "reads q ((L_FIELD, f) # ws) q'"
  then obtain pr g t' ws' where *: "(L_FIELD, f) # ws =
      presence_words pr @ (case g of None \<Rightarrow> [] | Some f \<Rightarrow> [(L_FIELD, f)]) @ (L_TERM, t') # ws'"
    "pr \<noteq> Some OPTIONAL" "case g of None \<Rightarrow> True | Some f \<Rightarrow> f \<in> set (q_allFields q)"
    "reads_on (put_term t' (put_field g (put_presence pr empty_clause))) q ws' q'"
    by (subst (asm) reads_clause) auto
  then have "pr = None" "g = Some f"
    by (cases pr rule: presence_words.cases; cases g; simp)+
  with * show "f \<in> set (q_allFields q) \<and>
     (\<exists>t ws'. ws = (L_TERM, t) # ws' \<and> reads_on (put_term t (put_field (Some f) empty_clause)) q ws' q')"
    by (simp add: put_presence_def)
next
  assume "f \<in> set (q_allFields q) \<and>
     (\<exists>t ws'. ws = (L_TERM, t) # ws' \<and> reads_on (put_term t (put_field (Some f) empty_clause)) q ws' q')"
  then show "reads q ((L_FIELD, f) # ws) q'"
    by (subst reads_clause)
      (auto simp: put_presence_def intro!: exI [of _ None] exI [of _ "Some f"])
qed

fun presence_of :: "string \<Rightarrow> presence option" where
  "presence_of s = (if s = ''-'' then Some PROHIBITED else if s = ''+'' then Some REQUIRED else None)"

lemma reads_PRESENCE:
  "reads q ((L_PRESENCE, s) # ws) q' \<longleftrightarrow> (\<exists>pr. presence_of s = Some pr \<and>
     ((\<exists>t ws'. ws = (L_TERM, t) # ws' \<and> reads_on (put_term t (put_presence (Some pr) empty_clause)) q ws' q') \<or>
      (\<exists>f t ws'. ws = (L_FIELD, f) # (L_TERM, t) # ws' \<and> f \<in> set (q_allFields q)
         \<and> reads_on (put_term t (put_field (Some f) (put_presence (Some pr) empty_clause))) q ws' q')))"
  (is "_ \<longleftrightarrow> ?R")
proof
  assume "reads q ((L_PRESENCE, s) # ws) q'"
  then obtain pr g t' ws' where *: "(L_PRESENCE, s) # ws =
      presence_words pr @ (case g of None \<Rightarrow> [] | Some f \<Rightarrow> [(L_FIELD, f)]) @ (L_TERM, t') # ws'"
    "pr \<noteq> Some OPTIONAL" "case g of None \<Rightarrow> True | Some f \<Rightarrow> f \<in> set (q_allFields q)"
    "reads_on (put_term t' (put_field g (put_presence pr empty_clause))) q ws' q'"
    by (subst (asm) reads_clause) auto
  then show ?R
    by (cases pr rule: presence_words.cases; cases g) (auto simp: put_field_def)
next
  assume ?R
  then show "reads q ((L_PRESENCE, s) # ws) q'"
  proof (elim exE conjE disjE)
    fix pr t ws'
    assume "presence_of s = Some pr" "ws = (L_TERM, t) # ws'"
      "reads_on (put_term t (put_presence (Some pr) empty_clause)) q ws' q'"
    then show ?thesis
      by (subst reads_clause, intro disjI2 exI [of _ "Some pr"] exI [of _ None] exI [of _ t] exI [of _ ws'])
        (auto simp: put_field_def split: if_splits)
  next
    fix pr f t ws'
    assume "presence_of s = Some pr" "ws = (L_FIELD, f) # (L_TERM, t) # ws'" "f \<in> set (q_allFields q)"
      "reads_on (put_term t (put_field (Some f) (put_presence (Some pr) empty_clause))) q ws' q'"
    then show ?thesis
      by (subst reads_clause, intro disjI2 exI [of _ "Some pr"] exI [of _ "Some f"] exI [of _ t] exI [of _ ws'])
        (auto split: if_splits)
  qed
qed

lemma reads_mod: "is_mod ty \<Longrightarrow> \<not> reads q ((ty, s) # ws) q'"
proof
  assume "is_mod ty" "reads q ((ty, s) # ws) q'"
  then obtain pr g t' ws' where "is_mod ty" "(ty, s) # ws =
      presence_words pr @ (case g of None \<Rightarrow> [] | Some f \<Rightarrow> [(L_FIELD, f)]) @ (L_TERM, t') # ws'"
    by (subst (asm) reads_clause) auto
  then show False by (cases pr rule: presence_words.cases; cases g) auto
qed

lemma reads_on_Nil: "reads_on c q [] q' \<longleftrightarrow> q' = clause_add c q"
  by (simp add: reads_on_def reads_Nil)

lemma is_mod_iff: "is_mod ty \<longleftrightarrow> ty \<in> {L_EDIT_DISTANCE, L_BOOST}"
  by (cases ty) simp_all

lemma reads_on_step:
  "reads_on c q ws q' \<longleftrightarrow> reads (clause_add c q) ws q' \<or>
     (\<exists>m ws'. ws = m # ws' \<and> mod_ok m \<and> reads_on (put_mod c m) q ws' q')" (is "?L \<longleftrightarrow> ?R")
proof
  assume ?L
  then obtain ms ws' where ms: "ws = ms @ ws'" "list_all mod_ok ms"
    "reads (clause_add (foldl put_mod c ms) q) ws' q'" by (auto simp: reads_on_def)
  show ?R
  proof (cases ms)
    case Nil
    with ms show ?thesis by simp
  next
    case (Cons m ms')
    with ms have "reads_on (put_mod c m) q (ms' @ ws') q'" by (auto simp: reads_on_def)
    with ms Cons show ?thesis by simp
  qed
next
  assume ?R
  then show ?L
  proof (elim disjE exE conjE)
    assume "reads (clause_add c q) ws q'"
    then show ?L unfolding reads_on_def by (intro exI [of _ "[]"] exI [of _ ws]) simp
  next
    fix m ws' assume "ws = m # ws'" "mod_ok m" "reads_on (put_mod c m) q ws' q'"
    then obtain ms ws'' where "ws = m # ms @ ws''" "list_all mod_ok (m # ms)"
      "reads (clause_add (foldl put_mod c (m # ms)) q) ws'' q'" by (auto simp: reads_on_def)
    then show ?L unfolding reads_on_def by (intro exI [of _ "m # ms"] exI [of _ ws'']) simp
  qed
qed

lemma reads_on_mod:
  "is_mod ty \<Longrightarrow> reads_on c q ((ty, s) # ws) q' \<longleftrightarrow>
     parse_digits s \<noteq> None \<and> reads_on (put_mod c (ty, s)) q ws q'"
  by (subst reads_on_step) (auto simp: reads_mod mod_ok_def is_mod_iff)

lemma reads_on_other:
  "\<not> is_mod ty \<Longrightarrow> reads_on c q ((ty, s) # ws) q' \<longleftrightarrow> reads (clause_add c q) ((ty, s) # ws) q'"
  by (subst reads_on_step) (auto simp: mod_ok_def is_mod_iff)

lemmas reads_laws =
  reads_Nil reads_TERM reads_FIELD reads_PRESENCE reads_mod reads_on_Nil reads_on_mod reads_on_other

text \<open>The parser in front of the lexemes \<open>rest\<close>.\<close>

definition at_rest :: "lexeme list \<Rightarrow> lexeme list \<Rightarrow> clause \<Rightarrow> lunr_query \<Rightarrow> parser" where
  "at_rest pre rest c q =
     \<lparr>ps_lexemes = pre @ rest, ps_lexemeIdx = length pre, ps_currentClause = c, ps_query = q\<rparr>"

definition parse_on :: "parse_result \<Rightarrow> parse_error + lunr_query" where
  "parse_on r =
     (case r of
        Inl e \<Rightarrow> Inl e
      | Inr (None, p') \<Rightarrow> Inr (ps_query p')
      | Inr (Some st', p') \<Rightarrow> parse_run st' p')"

lemma parse_on_simps [simp]:
  "parse_on (Inl e) = Inl e"
  "parse_on (Inr (None, p)) = Inr (ps_query p)"
  "parse_on (Inr (Some st, p)) = parse_run st p"
  by (simp_all add: parse_on_def)

lemma parse_run_step: "parse_run st p = parse_on (parse_step st p)"
  by (subst parse_run.simps) (simp add: parse_on_def)

lemma at_rest_simps [simp]:
  "peekLexeme (at_rest pre [] c q) = None"
  "peekLexeme (at_rest pre (l # ls) c q) = Some l"
  "consumeLexeme (at_rest pre [] c q) = (None, (at_rest pre [] c q)\<lparr>ps_lexemeIdx := Suc (length pre)\<rparr>)"
  "consumeLexeme (at_rest pre (l # ls) c q) = (Some l, at_rest (pre @ [l]) ls c q)"
  "nextClause (at_rest pre ls c q) = at_rest pre ls empty_clause (clause_add c q)"
  "(at_rest pre ls c q)\<lparr>ps_currentClause := d\<rparr> = at_rest pre ls d q"
  "ps_query (at_rest pre ls c q) = q"
  "ps_currentClause (at_rest pre ls c q) = c"
  by (simp_all add: at_rest_def peekLexeme_def consumeLexeme_def nextClause_def)

lemma parse_term_at [simp]:
  "parse_run ParseTerm (at_rest pre (l # ls) c q)
     = parse_on (after_term (at_rest (pre @ [l]) ls (put_term (lx_str l) c) q))"
  by (subst parse_run_step) (simp add: parseTerm_def put_term_def)

lemma parse_mod_at [simp]:
  "parse_run ParseEditDistance (at_rest pre (l # ls) c q) =
     (case parse_digits (lx_str l) of
        None \<Rightarrow> Inl (error_at ''edit distance must be numeric'' l)
      | Some n \<Rightarrow> parse_on (after_term (at_rest (pre @ [l]) ls (put_mod c (L_EDIT_DISTANCE, lx_str l)) q)))"
  "parse_run ParseBoost (at_rest pre (l # ls) c q) =
     (case parse_digits (lx_str l) of
        None \<Rightarrow> Inl (error_at ''boost must be numeric'' l)
      | Some n \<Rightarrow> parse_on (after_term (at_rest (pre @ [l]) ls (put_mod c (L_BOOST, lx_str l)) q)))"
  by (subst parse_run_step, simp add: parseEditDistance_def put_mod_def split: option.split,
      subst parse_run_step, simp add: parseBoost_def put_mod_def split: option.split)

lemma parse_field_at [simp]:
  "parse_run ParseField (at_rest pre (l # ls) c q) = Inr q' \<longleftrightarrow>
     lx_str l \<in> set (q_allFields q) \<and>
     (\<exists>t ls'. ls = t # ls' \<and> lx_type t = L_TERM
        \<and> parse_run ParseTerm (at_rest (pre @ [l]) ls (put_field (Some (lx_str l)) c) q) = Inr q')"
  by (subst parse_run_step)
    (cases ls; auto simp: parseField_def put_field_def Let_def split: lexeme_type.splits)

lemma parse_presence_at:
  "parse_run ParsePresence (at_rest pre (l # ls) c q) = Inr q' \<longleftrightarrow>
     (\<exists>pr. presence_of (lx_str l) = Some pr \<and> (\<exists>t ls'. ls = t # ls'
        \<and> (lx_type t = L_TERM
             \<and> parse_run ParseTerm (at_rest (pre @ [l]) ls (put_presence (Some pr) c) q) = Inr q'
           \<or> lx_type t = L_FIELD
             \<and> parse_run ParseField (at_rest (pre @ [l]) ls (put_presence (Some pr) c) q) = Inr q')))"
  by (subst parse_run_step, cases ls)
    (auto simp: parsePresence_def put_presence_def Let_def split: lexeme_type.splits if_splits)

lemma after_term_at:
  "after_term (at_rest pre [] c q) = Inr (None, at_rest pre [] empty_clause (clause_add c q))"
  "after_term (at_rest pre (l # ls) c q) =
     (case lx_type l of
        L_EDIT_DISTANCE \<Rightarrow> Inr (Some ParseEditDistance, at_rest pre (l # ls) c q)
      | L_BOOST \<Rightarrow> Inr (Some ParseBoost, at_rest pre (l # ls) c q)
      | _ \<Rightarrow> parseClause (at_rest pre (l # ls) empty_clause (clause_add c q)))"
  by (auto simp: after_term_def parseClause_def split: lexeme_type.split)

lemma parse_reads:
  "(parse_on (after_term (at_rest pre rest c q)) = Inr q' \<longleftrightarrow> reads_on c q (map word_of rest) q') \<and>
   (parse_on (parseClause (at_rest pre rest empty_clause q)) = Inr q' \<longleftrightarrow> reads q (map word_of rest) q')"
proof (induction "length rest" arbitrary: pre rest c q rule: less_induct)
  case less
  have A: "parse_on (after_term (at_rest pre' rest' c' q'')) = Inr q' \<longleftrightarrow> reads_on c' q'' (map word_of rest') q'"
    if "length rest' < length rest" for pre' rest' c' q''
    using less.hyps [OF that] by blast
  have B: "parse_on (parseClause (at_rest pre rest empty_clause q)) = Inr q' \<longleftrightarrow> reads q (map word_of rest) q'"
    for q
  proof (cases rest)
    case Nil
    then show ?thesis by (auto simp: parseClause_def reads_Nil)
  next
    case (Cons l ls)
    then show ?thesis
      by (cases "lx_type l")
        (auto simp: parseClause_def parse_presence_at reads_laws word_of_def A Cons_eq_map_conv)
  qed
  show ?case
  proof (intro conjI B)
    show "parse_on (after_term (at_rest pre rest c q)) = Inr q' \<longleftrightarrow> reads_on c q (map word_of rest) q'"
    proof (cases rest)
      case Nil
      then show ?thesis by (auto simp: after_term_at reads_on_Nil)
    next
      case (Cons l ls)
      then show ?thesis
        using B [of "clause_add c q"]
        by (cases "lx_type l")
          (auto simp: after_term_at reads_on_mod reads_on_other word_of_def A split: option.splits)
    qed
  qed
qed

text \<open>Errors point at a lexeme of the text.\<close>

definition points_into :: "lexeme list \<Rightarrow> parse_error \<Rightarrow> bool" where
  "points_into lxs e \<longleftrightarrow> (\<exists>lx \<in> set lxs. pe_start e = lx_start lx \<and> pe_end e = lx_end lx)"

lemma points_into_error [simp]: "lx \<in> set lxs \<Longrightarrow> points_into lxs (error_at msg lx)"
  by (auto simp: points_into_def error_at_def)

lemma parse_step_error: "parse_step st p = Inl e \<Longrightarrow> points_into (ps_lexemes p) e"
  by (cases st) (auto simp: parser_defs split: option.splits lexeme_type.splits if_splits)

lemma parse_step_lexemes: "parse_step st p = Inr (st', p') \<Longrightarrow> ps_lexemes p' = ps_lexemes p"
  by (cases st) (auto simp: parser_defs split: option.splits lexeme_type.splits if_splits)

lemma parse_run_error: "parse_run st p = Inl e \<Longrightarrow> points_into (ps_lexemes p) e"
proof (induction st p rule: parse_run.induct)
  case (1 st p)
  show ?case
  proof (cases "parse_step st p")
    case (Inl e')
    with 1 show ?thesis by (auto simp: parse_run_step dest: parse_step_error)
  next
    case (Inr r)
    obtain st' p' where r: "r = (st', p')" by (cases r)
    with 1 Inr show ?thesis
      using parse_step_lexemes [of st p st' p'] by (cases st') (auto simp: parse_run_step [of st p])
  qed
qed

text \<open>C32. Whatever is typed into the search field, the query parser returns: either with a query, exactly
  when the lexemes of the text are clauses (presence or not, a known field or not, a term,
  numbers), and then the query gets the meaning of these clauses, in order; or with an error
  that points at one of the lexemes.
\<close>
theorem parser_accepts_clauses:
  "\<exists>lx r. lex_run LexText (new_lexer s) = Some lx \<and> query_parse s q = Some r
     \<and> (\<forall>q'. r = Inr q' \<longleftrightarrow>
          (\<exists>cs. map word_of (lex_lexemes lx) = concat (map clause_words cs)
             \<and> list_all (written_ok (q_allFields q)) cs \<and> q' = foldl add_written q cs))
     \<and> (case r of Inl e \<Rightarrow> points_into (lex_lexemes lx) e | Inr _ \<Rightarrow> True)"
proof -
  obtain lx where lx: "lex_run LexText (new_lexer s) = Some lx"
    using lex_run_ends [of "new_lexer s"] by (auto simp: new_lexer_def)
  let ?p = "new_parser (lex_lexemes lx) q"
  have p: "?p = at_rest [] (lex_lexemes lx) empty_clause q"
    by (simp add: new_parser_def at_rest_def)
  have "parse_run ParseClause ?p = Inr q' \<longleftrightarrow> reads q (map word_of (lex_lexemes lx)) q'" for q'
    unfolding p parse_run_step parse_step.simps using parse_reads by blast
  moreover have "parse_run ParseClause ?p = Inl e \<Longrightarrow> points_into (lex_lexemes lx) e" for e
    using parse_run_error [of ParseClause ?p e] by (simp add: p at_rest_def)
  ultimately show ?thesis
    by (auto simp: lx query_parse_def reads_def split: sum.split)
qed

section \<open>Writing a query down\<close>

definition special :: "char \<Rightarrow> bool" where
  "special c \<longleftrightarrow> c = CHR 0x5C \<or> c \<in> set '':~^+'' \<or> is_separator c"

definition escape_text :: "string \<Rightarrow> string" where
  "escape_text t = concat (map (\<lambda>c. if special c then [CHR 0x5C, c] else [c]) t)"

lemma escape_text_simps [simp]:
  "escape_text [] = []"
  "escape_text (c # t) = (if special c then [CHR 0x5C, c] else [c]) @ escape_text t"
  by (simp_all add: escape_text_def)

definition mod_text :: "word_l \<Rightarrow> string" where
  "mod_text m = (if fst m = L_EDIT_DISTANCE then CHR ''~'' else CHR ''^'') # snd m"

definition clause_text :: "written \<Rightarrow> string" where
  "clause_text w =
     concat (map snd (presence_words (w_presence w)))
     @ (case w_field w of None \<Rightarrow> [] | Some f \<Rightarrow> escape_text f @ '':'')
     @ escape_text (w_term w) @ concat (map mod_text (w_mods w))"

definition query_text :: "written list \<Rightarrow> string" where
  "query_text ws = join '' '' (map clause_text ws)"

text \<open>The scanner after the part \<open>u\<close> of a lexeme that starts behind \<open>pre\<close>.\<close>

definition mid :: "string \<Rightarrow> string \<Rightarrow> string \<Rightarrow> nat list \<Rightarrow> lexeme list \<Rightarrow> lexer" where
  "mid pre u rest es lxs =
     \<lparr>lex_str = pre @ u @ rest, lex_pos = length pre + length u, lex_start = length pre,
      lex_lexemes = lxs, escapeCharPositions = es\<rparr>"

definition last_cut :: "nat \<Rightarrow> nat list \<Rightarrow> nat" where
  "last_cut a es = (if es = [] then a else Suc (last es))"

lemma subSlices_grow:
  "last_cut a es \<le> b \<Longrightarrow> b < length s \<Longrightarrow>
     concat (subSlices s a (Suc b) es) = concat (subSlices s a b es) @ [s ! b]"
proof (induction s a b es rule: subSlices.induct)
  case (1 s a b)
  have "take (Suc b - a) (drop a s) = take (b - a) (drop a s) @ [drop a s ! (b - a)]"
    using 1 by (simp add: Suc_diff_le last_cut_def take_Suc_conv_app_nth)
  then show ?case using 1 by (simp add: slice_s_def last_cut_def)
next
  case (2 s a b e es)
  then show ?case by (cases es) (auto simp: last_cut_def)
qed

lemma subSlices_cut:
  "concat (subSlices s a b (es @ [e])) = concat (subSlices s a e es) @ slice_s s (Suc e) b"
  by (induction s a b es rule: subSlices.induct) simp_all

definition pending_is :: "string \<Rightarrow> lexer \<Rightarrow> bool" where
  "pending_is t lx \<longleftrightarrow>
     sliceString lx = t \<and> last_cut (lex_start lx) (escapeCharPositions lx) \<le> lex_pos lx"

lemma pending_start: "pending_is [] (mid pre [] rest [] lxs)"
  by (simp add: pending_is_def sliceString_def mid_def slice_s_def last_cut_def)

lemma scan_plain:
  assumes "\<not> special c" and "pending_is t (mid pre u (c # rest) es lxs)"
  shows "lexText (mid pre u (c # rest) es lxs) = lexText (mid pre (u @ [c]) rest es lxs)
     \<and> pending_is (t @ [c]) (mid pre (u @ [c]) rest es lxs)"
proof
  show "lexText (mid pre u (c # rest) es lxs) = lexText (mid pre (u @ [c]) rest es lxs)"
    using assms(1) by (subst lexText_char) (auto simp: mid_def special_def nth_append is_separator_def Let_def)
  show "pending_is (t @ [c]) (mid pre (u @ [c]) rest es lxs)"
    using assms(2) subSlices_grow [of "length pre" es "length pre + length u" "pre @ u @ c # rest"]
    by (simp add: pending_is_def sliceString_def mid_def nth_append)
qed

lemma scan_escaped:
  assumes "pending_is t (mid pre u (CHR 0x5C # c # rest) es lxs)"
  shows "\<exists>es'. lexText (mid pre u (CHR 0x5C # c # rest) es lxs) = lexText (mid pre (u @ [CHR 0x5C, c]) rest es' lxs)
     \<and> pending_is (t @ [c]) (mid pre (u @ [CHR 0x5C, c]) rest es' lxs)"
proof (intro exI conjI)
  let ?es = "es @ [length pre + length u]"
  show "lexText (mid pre u (CHR 0x5C # c # rest) es lxs) = lexText (mid pre (u @ [CHR 0x5C, c]) rest ?es lxs)"
    by (subst lexText_char) (auto simp: mid_def nth_append escapeCharacter_def)
  have "slice_s (pre @ u @ CHR 0x5C # c # rest) (Suc (length pre + length u)) (Suc (Suc (length pre + length u))) = [c]"
    by (simp add: slice_s_def)
  then show "pending_is (t @ [c]) (mid pre (u @ [CHR 0x5C, c]) rest ?es lxs)"
    using assms by (simp add: pending_is_def sliceString_def mid_def subSlices_cut last_cut_def)
qed

lemma scan_text:
  "pending_is t0 (mid pre u (escape_text t @ rest) es lxs) \<Longrightarrow>
   \<exists>es'. lexText (mid pre u (escape_text t @ rest) es lxs) = lexText (mid pre (u @ escape_text t) rest es' lxs)
     \<and> pending_is (t0 @ t) (mid pre (u @ escape_text t) rest es' lxs)"
proof (induction t arbitrary: t0 u es)
  case Nil
  then show ?case by auto
next
  case (Cons c t)
  show ?case
  proof (cases "special c")
    case True
    with Cons.prems scan_escaped [of t0 pre u c "escape_text t @ rest" es lxs]
    obtain es1 where "lexText (mid pre u (escape_text (c # t) @ rest) es lxs)
        = lexText (mid pre (u @ [CHR 0x5C, c]) (escape_text t @ rest) es1 lxs)"
      "pending_is (t0 @ [c]) (mid pre (u @ [CHR 0x5C, c]) (escape_text t @ rest) es1 lxs)"
      by auto
    with Cons.IH [of "t0 @ [c]" "u @ [CHR 0x5C, c]" es1] True show ?thesis by simp
  next
    case False
    with Cons.prems scan_plain [of c t0 pre u "escape_text t @ rest" es lxs]
      Cons.IH [of "t0 @ [c]" "u @ [c]" es] show ?thesis by simp
  qed
qed

text \<open>
  \<open>scans txt rest ws\<close>: in front of \<open>txt\<close> and then \<open>rest\<close>, the scanner finds the words \<open>ws\<close> and
  goes on in front of \<open>rest\<close>.
\<close>

definition scans :: "string \<Rightarrow> string \<Rightarrow> word_l list \<Rightarrow> bool" where
  "scans txt rest ws \<longleftrightarrow>
     (\<forall>pre lxs. \<exists>new. map word_of new = ws \<and>
        lex_run LexText (mid pre [] (txt @ rest) [] lxs)
        = lex_run LexText (mid (pre @ txt) [] rest [] (lxs @ new)))"

lemma scans_Nil: "scans [] rest []"
  by (simp add: scans_def)

lemma scans_append:
  assumes "scans t1 (t2 @ rest) w1" and "scans t2 rest w2"
  shows "scans (t1 @ t2) rest (w1 @ w2)"
  unfolding scans_def
proof (intro allI)
  fix pre lxs
  obtain n1 where 1: "map word_of n1 = w1" "lex_run LexText (mid pre [] (t1 @ t2 @ rest) [] lxs)
      = lex_run LexText (mid (pre @ t1) [] (t2 @ rest) [] (lxs @ n1))"
    using assms(1) unfolding scans_def by blast
  obtain n2 where 2: "map word_of n2 = w2" "lex_run LexText (mid (pre @ t1) [] (t2 @ rest) [] (lxs @ n1))
      = lex_run LexText (mid ((pre @ t1) @ t2) [] rest [] ((lxs @ n1) @ n2))"
    using assms(2) unfolding scans_def by blast
  show "\<exists>new. map word_of new = w1 @ w2 \<and>
      lex_run LexText (mid pre [] ((t1 @ t2) @ rest) [] lxs)
      = lex_run LexText (mid (pre @ t1 @ t2) [] rest [] (lxs @ new))"
    using 1 2 by (intro exI [of _ "n1 @ n2"]) simp
qed

lemma lex_run_text: "lexText lx = (st, lx') \<Longrightarrow> lex_run LexText lx = lex_run st lx'"
  by (subst lex_run.simps) simp

text \<open>At the end of a lexeme its text is the pending one.\<close>

abbreviation found :: "lexeme_type \<Rightarrow> string \<Rightarrow> string \<Rightarrow> string \<Rightarrow> lexeme" where
  "found ty t pre u \<equiv>
     \<lparr>lx_type = ty, lx_str = t, lx_start = length pre, lx_end = length pre + length u\<rparr>"

lemma emit_mid:
  "pending_is t (mid pre u rest es lxs) \<Longrightarrow>
     emit_lexeme ty (mid pre u rest es lxs) = mid (pre @ u) [] rest [] (lxs @ [found ty t pre u])"
  by (simp add: pending_is_def emit_lexeme_def mid_def)

lemma backup_mid: "(mid pre u (c # rest) es lxs)\<lparr>lex_pos := length pre + length u\<rparr> = mid pre u (c # rest) es lxs"
  by (simp add: mid_def)

lemma escape_text_ne: "t \<noteq> [] \<Longrightarrow> escape_text t \<noteq> []"
  by (cases t) auto

lemma lexText_stop:
  assumes "c \<in> set ''~^: ''"
  shows "lexText (mid pre u (c # rest) es lxs) =
     (if c = CHR ''~'' then (LexEditDistance, emit_pending (mid pre u (c # rest) es lxs))
      else if c = CHR ''^'' then (LexBoost, emit_pending (mid pre u (c # rest) es lxs))
      else (if c = CHR '':'' then LexField else LexTerm, mid pre (u @ [c]) rest es lxs))"
  using assms
  by (subst lexText_char) (auto simp: mid_def nth_append backup_def is_separator_def is_space_def)

lemma scans_term:
  assumes "t \<noteq> []" and "rest = [] \<or> hd rest \<in> set ''~^ ''"
    and more: "rest \<noteq> [] \<Longrightarrow> hd rest = CHR '' '' \<Longrightarrow> tl rest \<noteq> []"
  shows "scans (escape_text t) rest [(L_TERM, t)]"
  unfolding scans_def
proof (intro allI exI conjI)
  fix pre lxs
  let ?u = "escape_text t" and ?new = "[found L_TERM t pre (escape_text t)]"
  show "map word_of ?new = [(L_TERM, t)]" by (simp add: word_of_def)
  obtain es where es: "lexText (mid pre [] (?u @ rest) [] lxs) = lexText (mid pre ?u rest es lxs)"
    "pending_is t (mid pre ?u rest es lxs)"
    using scan_text [OF pending_start, of pre t rest lxs] by auto
  have "lex_run LexText (mid pre [] (?u @ rest) [] lxs) = lex_run LexText (mid pre ?u rest es lxs)"
    by (subst (1 2) lex_run.simps) (simp add: es)
  also have "\<dots> = lex_run LexText (mid (pre @ ?u) [] rest [] (lxs @ ?new))"
  proof (cases rest)
    case Nil
    have "lex_run LexText (mid pre ?u [] es lxs) = Some (mid (pre @ ?u) [] [] [] (lxs @ ?new))"
      using es(2) assms(1) Nil
      by (subst lex_run_text [OF lexText_end]) (simp_all add: lex_run.simps emit_pending_def width_def escape_text_ne emit_mid,
          simp_all add: mid_def escape_text_ne)
    moreover have "lex_run LexText (mid (pre @ ?u) [] [] [] (lxs @ ?new)) = Some (mid (pre @ ?u) [] [] [] (lxs @ ?new))"
      by (subst lex_run_text [OF lexText_end]) (simp_all add: lex_run.simps emit_pending_def width_def mid_def)
    ultimately show ?thesis by (simp add: Nil)
  next
    case (Cons c rest')
    have w: "0 < width (mid pre ?u rest es lxs)" "\<not> 0 < width (mid (pre @ ?u) [] rest [] (lxs @ ?new))"
      using assms(1) by (auto simp: width_def mid_def escape_text_ne)
    show ?thesis
    proof (cases "c = CHR '' ''")
      case False
      then show ?thesis
        using assms(2) Cons w es(2)
        by (subst (1 2) lex_run.simps) (auto simp: lexText_stop emit_pending_def emit_mid)
    next
      case True
      have wide: "1 < width (mid pre (?u @ [c]) rest' es lxs)"
        using assms(1) by (simp add: width_def mid_def escape_text_ne)
      have "backup (mid pre (?u @ [c]) rest' es lxs) = mid pre ?u rest es lxs"
        by (simp add: backup_def mid_def Cons)
      then have "lex_step LexTerm (mid pre (?u @ [c]) rest' es lxs)
          = lex_step LexTerm (mid (pre @ ?u) [c] rest' [] (lxs @ ?new))"
        using wide es(2) by (simp add: emit_mid) (simp add: ignore_def mid_def width_def Cons has_more_def)
      then have "lex_run LexTerm (mid pre (?u @ [c]) rest' es lxs)
          = lex_run LexTerm (mid (pre @ ?u) [c] rest' [] (lxs @ ?new))"
        by (subst (1 2) lex_run.simps) simp
      moreover have "lexText (mid pre ?u rest es lxs) = (LexTerm, mid pre (?u @ [c]) rest' es lxs)"
        "lexText (mid (pre @ ?u) [] rest [] (lxs @ ?new)) = (LexTerm, mid (pre @ ?u) [c] rest' [] (lxs @ ?new))"
        by (simp_all add: Cons True lexText_stop)
      ultimately show ?thesis by (simp add: lex_run_text)
    qed
  qed
  finally show "lex_run LexText (mid pre [] (escape_text t @ rest) [] lxs)
      = lex_run LexText (mid (pre @ escape_text t) [] rest [] (lxs @ ?new))" .
qed

lemma scans_one:
  assumes "\<And>pre lxs. lex_run LexText (mid pre [] (txt @ rest) [] lxs)
      = lex_run LexText (mid (pre @ txt) [] rest [] (lxs @ [f pre]))"
    and "\<And>pre. word_of (f pre) = w"
  shows "scans txt rest [w]"
  unfolding scans_def by (intro allI, rule exI [of _ "[f pre]" for pre]) (simp add: assms)

lemma scans_presence: "scans (concat (map snd (presence_words pr))) rest (presence_words pr)"
proof (cases pr rule: presence_words.cases)
  case 1
  have "lexText (mid pre [] (''+'' @ rest) [] lxs)
      = (LexText, mid (pre @ ''+'') [] rest [] (lxs @ [found L_PRESENCE ''+'' pre ''+'']))" for pre lxs
    by (subst lexText_char) (simp_all add: mid_def nth_append width_def emit_lexeme_def sliceString_def slice_s_def Let_def)
  then show ?thesis
    by (simp add: 1, intro scans_one) (auto simp: lex_run_text word_of_def)
next
  case 2
  have "lexText (mid pre [] (''-'' @ rest) [] lxs)
      = (LexText, mid (pre @ ''-'') [] rest [] (lxs @ [found L_PRESENCE ''-'' pre ''-'']))" for pre lxs
    by (subst lexText_char) (simp_all add: mid_def nth_append width_def emit_lexeme_def sliceString_def slice_s_def Let_def)
  then show ?thesis
    by (simp add: 2, intro scans_one) (auto simp: lex_run_text word_of_def)
qed (simp_all add: scans_Nil)

lemma scans_field: "scans (escape_text t @ '':'') rest [(L_FIELD, t)]"
proof (rule scans_one [where f = "\<lambda>pre. found L_FIELD t pre (escape_text t)"])
  fix pre lxs
  let ?u = "escape_text t" and ?n = "found L_FIELD t pre (escape_text t)"
  obtain es where es: "lexText (mid pre [] (?u @ '':'' @ rest) [] lxs) = lexText (mid pre ?u ('':'' @ rest) es lxs)"
    "pending_is t (mid pre ?u ('':'' @ rest) es lxs)"
    using scan_text [OF pending_start, of pre t "'':'' @ rest" lxs] by auto
  have backup: "backup (mid pre (?u @ '':'') rest es lxs) = mid pre ?u ('':'' @ rest) es lxs"
    by (simp add: backup_def mid_def)
  have "lex_run LexText (mid pre [] ((?u @ '':'') @ rest) [] lxs)
      = lex_run LexField (mid pre (?u @ '':'') rest es lxs)"
    using es(1) by (simp add: lex_run_text lexText_stop)
  also have "\<dots> = lex_run LexText (ignore (emit_lexeme L_FIELD (mid pre ?u ('':'' @ rest) es lxs)))"
    by (subst lex_run.simps) (simp add: backup)
  also have "\<dots> = lex_run LexText (mid (pre @ ?u @ '':'') [] rest [] (lxs @ [?n]))"
    using emit_mid [OF es(2), of L_FIELD] by (simp add: ignore_def mid_def)
  finally show "lex_run LexText (mid pre [] ((?u @ '':'') @ rest) [] lxs)
      = lex_run LexText (mid (pre @ ?u @ '':'') [] rest [] (lxs @ [?n]))" .
qed (simp add: word_of_def)

lemma digits_mid:
  "list_all is_digit ds \<Longrightarrow> rest = [] \<or> \<not> is_digit (hd rest) \<Longrightarrow>
     acceptDigitRun (mid pre u (ds @ rest) es lxs) = mid pre (u @ ds) rest es lxs"
proof (induction ds arbitrary: u)
  case Nil
  then show ?case
    by (subst acceptDigitRun_char) (cases rest, auto simp: mid_def nth_append)
next
  case (Cons d ds)
  have "acceptDigitRun (mid pre u ((d # ds) @ rest) es lxs) = acceptDigitRun (mid pre (u @ [d]) (ds @ rest) es lxs)"
    using Cons.prems by (subst acceptDigitRun_char) (simp add: mid_def nth_append)
  with Cons.IH [of "u @ [d]"] Cons.prems show ?case by simp
qed

lemma pending_digits: "pending_is ds (mid pre ds rest [] lxs)"
  by (simp add: pending_is_def sliceString_def mid_def slice_s_def last_cut_def)

lemma scans_mod:
  assumes "is_mod ty" and ds: "list_all is_digit ds" and rest: "rest = [] \<or> \<not> is_digit (hd rest)"
  shows "scans (mod_text (ty, ds)) rest [(ty, ds)]"
proof (rule scans_one [where f = "\<lambda>pre. found ty ds (pre @ take 1 (mod_text (ty, ds))) ds"])
  fix pre lxs
  let ?c = "if ty = L_EDIT_DISTANCE then CHR ''~'' else CHR ''^''"
  let ?st = "if ty = L_EDIT_DISTANCE then LexEditDistance else LexBoost"
  let ?n = "found ty ds (pre @ take 1 (mod_text (ty, ds))) ds"
  have front: "mod_text (ty, ds) = ?c # ds" by (simp add: mod_text_def)
  have "lexText (mid pre [] (?c # ds @ rest) [] lxs) = (?st, mid pre [] (?c # ds @ rest) [] lxs)"
    by (subst lexText_stop) (simp_all add: emit_pending_def width_def mid_def)
  moreover have "ignore (mid pre [] (?c # ds @ rest) [] lxs) = mid (pre @ [?c]) [] (ds @ rest) [] lxs"
    by (simp add: ignore_def mid_def)
  moreover have "lex_run ?st lx = lex_run LexText (emit_lexeme ty (acceptDigitRun (ignore lx)))" for lx
    using assms(1) by (subst lex_run.simps) (cases ty, simp_all)
  ultimately have "lex_run LexText (mid pre [] (?c # ds @ rest) [] lxs)
      = lex_run LexText (emit_lexeme ty (mid (pre @ [?c]) ds rest [] lxs))"
    using digits_mid [OF ds rest, of "pre @ [?c]" "[]"] by (simp add: lex_run_text)
  then show "lex_run LexText (mid pre [] (mod_text (ty, ds) @ rest) [] lxs)
      = lex_run LexText (mid (pre @ mod_text (ty, ds)) [] rest [] (lxs @ [?n]))"
    by (simp add: front emit_mid [OF pending_digits])
qed (simp add: word_of_def)

lemma scans_space:
  assumes "rest \<noteq> []"
  shows "scans '' '' rest []"
proof -
  have "lex_run LexText (mid pre [] ('' '' @ rest) [] lxs) = lex_run LexText (mid (pre @ '' '') [] rest [] lxs)" for pre lxs
  proof -
    have "lex_run LexText (mid pre [] ('' '' @ rest) [] lxs) = lex_run LexTerm (mid pre '' '' rest [] lxs)"
      by (subst lex_run_text [of _ LexTerm "mid pre '' '' rest [] lxs"]) (simp_all add: lexText_stop)
    also have "\<dots> = lex_run LexText (mid (pre @ '' '') [] rest [] lxs)"
      using assms by (subst lex_run.simps) (simp add: width_def ignore_def has_more_def mid_def Let_def)
    finally show ?thesis .
  qed
  then show ?thesis by (auto simp: scans_def)
qed

text \<open>Whole clauses and queries.\<close>

definition writable :: "written \<Rightarrow> bool" where
  "writable w \<longleftrightarrow>
     w_term w \<noteq> [] \<and> list_all (\<lambda>m. is_mod (fst m) \<and> snd m \<noteq> [] \<and> list_all is_digit (snd m)) (w_mods w)"

definition stops :: "string \<Rightarrow> bool" where
  "stops rest \<longleftrightarrow> (rest = [] \<or> hd rest \<in> set ''~^ '') \<and> (\<forall>r. rest = CHR '' '' # r \<longrightarrow> r \<noteq> [])"

lemma stops_no_digit: "stops rest \<Longrightarrow> rest = [] \<or> \<not> is_digit (hd rest)"
  by (auto simp: stops_def is_digit_def)

lemma stops_more: "stops r \<Longrightarrow> hd r = CHR '' '' \<Longrightarrow> r \<noteq> [] \<Longrightarrow> tl r \<noteq> []"
  by (cases r) (auto simp: stops_def)

lemma stops_hd: "stops r \<Longrightarrow> r = [] \<or> hd r \<in> set ''~^ ''"
  by (simp add: stops_def)

lemma stops_mods: "stops rest \<Longrightarrow> stops (concat (map mod_text ms) @ rest)"
  by (cases ms) (auto simp: stops_def mod_text_def)

lemma scans_mods:
  "list_all (\<lambda>m. is_mod (fst m) \<and> snd m \<noteq> [] \<and> list_all is_digit (snd m)) ms \<Longrightarrow> stops rest \<Longrightarrow>
     scans (concat (map mod_text ms)) rest ms"
proof (induction ms)
  case Nil
  then show ?case by (simp add: scans_Nil)
next
  case (Cons m ms)
  obtain ty ds where m: "m = (ty, ds)" by (cases m)
  have "scans (mod_text m) (concat (map mod_text ms) @ rest) [m]"
    using Cons.prems stops_no_digit [OF stops_mods [OF Cons.prems(2)], of ms]
    by (auto simp: m intro!: scans_mod)
  from scans_append [OF this Cons.IH] Cons.prems show ?case by simp
qed

lemma scans_clause:
  assumes "writable w" and "stops rest"
  shows "scans (clause_text w) rest (clause_words w)"
proof -
  have "scans (escape_text (w_term w)) (concat (map mod_text (w_mods w)) @ rest) [(L_TERM, w_term w)]"
    using assms(1) stops_mods [OF assms(2), of "w_mods w"] stops_hd [OF stops_mods [OF assms(2), of "w_mods w"]]
    by (intro scans_term) (simp_all only: writable_def stops_more not_False_eq_True)
  from scans_append [OF this scans_mods [OF _ assms(2)]] assms(1)
  have "scans (escape_text (w_term w) @ concat (map mod_text (w_mods w))) rest ((L_TERM, w_term w) # w_mods w)"
    by (simp add: writable_def)
  moreover have "scans (case w_field w of None \<Rightarrow> [] | Some f \<Rightarrow> escape_text f @ '':'') r
      (case w_field w of None \<Rightarrow> [] | Some f \<Rightarrow> [(L_FIELD, f)])" for r
    by (auto simp: scans_Nil scans_field split: option.split)
  ultimately show ?thesis
    unfolding clause_text_def clause_words_def by (intro scans_append scans_presence)
qed

lemma clause_text_ne: "writable w \<Longrightarrow> clause_text w \<noteq> []"
  by (simp add: clause_text_def writable_def escape_text_ne)

lemma query_text_ne: "list_all writable ws \<Longrightarrow> ws \<noteq> [] \<Longrightarrow> query_text ws \<noteq> []"
  by (cases ws rule: remdups_adj.cases) (simp_all add: query_text_def clause_text_ne)

lemma scans_query:
  "list_all writable ws \<Longrightarrow> scans (query_text ws) [] (concat (map clause_words ws))"
proof (induction ws rule: induct_list012)
  case 1
  then show ?case by (simp add: query_text_def scans_Nil)
next
  case (2 w)
  then show ?case using scans_clause [of w "[]"] by (simp add: query_text_def stops_def)
next
  case (3 v w ws)
  have ne: "query_text (w # ws) \<noteq> []" using 3 by (intro query_text_ne) simp_all
  have "scans (clause_text v) (('' '' @ query_text (w # ws)) @ []) (clause_words v)"
    using 3 ne by (intro scans_clause) (auto simp: stops_def)
  moreover have "scans ('' '' @ query_text (w # ws)) [] ([] @ concat (map clause_words (w # ws)))"
    using 3 ne by (intro scans_append scans_space) simp_all
  ultimately have "scans (clause_text v @ '' '' @ query_text (w # ws)) []
      (clause_words v @ [] @ concat (map clause_words (w # ws)))"
    by (rule scans_append)
  then show ?case by (simp add: query_text_def)
qed

text \<open>C33. A query that is written out, with every special character escaped, is read back as the same
  query: clause by clause the presence, the field, the term in lower case and the numbers
  behind it. So any term and any field name can be searched for.
\<close>
theorem written_query_is_read:
  assumes "list_all writable ws" and "list_all (written_ok (q_allFields q)) ws"
  shows "query_parse (query_text ws) q = Some (Inr (foldl add_written q ws))"
proof -
  obtain new where new: "map word_of new = concat (map clause_words ws)"
    "lex_run LexText (mid [] [] (query_text ws) [] []) = lex_run LexText (mid (query_text ws) [] [] [] new)"
    using scans_query [OF assms(1)] unfolding scans_def by (metis append_Nil append_Nil2)
  have "lex_run LexText (mid (query_text ws) [] [] [] new) = Some (mid (query_text ws) [] [] [] new)"
    by (subst lex_run_text [OF lexText_end]) (simp_all add: lex_run.simps emit_pending_def width_def mid_def)
  then have "lex_run LexText (new_lexer (query_text ws)) = Some (mid (query_text ws) [] [] [] new)"
    using new(2) by (simp add: new_lexer_def mid_def)
  moreover have "parse_run ParseClause (at_rest [] new empty_clause q) = Inr (foldl add_written q ws)"
    unfolding parse_run_step parse_step.simps
    using parse_reads [of "[]" new empty_clause q "foldl add_written q ws"] new(1) assms(2)
    by (auto simp: reads_def)
  ultimately show ?thesis
    by (simp add: query_parse_def new_parser_def at_rest_def mid_def)
qed

theorem written_query_is_read_witness:
  "query_parse (query_text
      [\<lparr>w_presence = Some PROHIBITED, w_field = Some ''title'', w_term = ''a:b c'', w_mods = [(L_BOOST, ''10'')]\<rparr>])
     \<lparr>q_clauses = [], q_allFields = [''title'', ''body'']\<rparr>
   = Some (Inr (foldl add_written \<lparr>q_clauses = [], q_allFields = [''title'', ''body'']\<rparr>
      [\<lparr>w_presence = Some PROHIBITED, w_field = Some ''title'', w_term = ''a:b c'', w_mods = [(L_BOOST, ''10'')]\<rparr>]))"
  by (rule written_query_is_read)
    (simp_all add: writable_def written_ok_def mod_ok_def parse_digits_def is_digit_def)

end
