(* ===== verification/LunrText.thy ===== *)
theory LunrText
  imports LunrQuery Stemmer
begin

text \<open>
  What lunr does to texts before they are indexed or looked up, and its small data types
  (\<open>application.js\<close>, the functions \<open>lunr.FieldRef\<close>, \<open>lunr.Set\<close>, \<open>lunr.Token\<close>,
  \<open>lunr.tokenizer\<close>, \<open>lunr.Pipeline\<close>, \<open>lunr.stemmer\<close>, \<open>lunr.stopWordFilter\<close>,
  \<open>lunr.trimmer\<close>).

  \<^item> Objects that are never compared by identity and not changed after they have been shared are
    values, so \<open>lunr.utils.clone\<close> leaves no trace.
  \<^item> The two constant sets \<open>lunr.Set.complete\<close> and \<open>lunr.Set.empty\<close> are constructors of their
    own, as the code compares with them by identity. A set keeps the length it was made with,
    which counts repeated elements; no operation shows the order of its elements.
  \<^item> A pipeline is a list of functions that are told apart by identity: names, with the
    parameter \<open>act\<close> for what they do. A function may return nothing, the empty string, one
    token or several. \<open>lunr_act\<close> is what the functions do that lunr registers itself.
  \<^item> The regular expressions and tables of \<open>lunr.stemmer\<close> are, letter by letter, those of the
    stemmer in \<open>language_data.js\<close> (theory \<open>Stemmer\<close>), but for the one of step 1c.
\<close>

section \<open>References to fields\<close>

record fieldref =
  fr_docRef :: string
  fr_fieldName :: string
  fr_stringValue :: "string option"

abbreviation joiner :: char where "joiner \<equiv> CHR ''/''"

definition FieldRef :: "string \<Rightarrow> string \<Rightarrow> fieldref" where
  "FieldRef d f = \<lparr>fr_docRef = d, fr_fieldName = f, fr_stringValue = None\<rparr>"

text \<open>\<open>e.indexOf("/")\<close> is -1 when there is none: a string is thrown.\<close>

definition fromString_ref :: "string \<Rightarrow> string + fieldref" where
  "fromString_ref e =
     (case index_of [joiner] e of
        None \<Rightarrow> Inl ''malformed field ref string''
      | Some t \<Rightarrow> Inr \<lparr>fr_docRef = drop (t + 1) e, fr_fieldName = take t e, fr_stringValue = Some e\<rparr>)"

definition toString_ref :: "fieldref \<Rightarrow> string" where
  "toString_ref r =
     (case fr_stringValue r of None \<Rightarrow> fr_fieldName r @ [joiner] @ fr_docRef r | Some s \<Rightarrow> s)"

section \<open>Sets\<close>

datatype lset = Complete | Empty_set | LSet "string list" nat

definition new_set :: "string list \<Rightarrow> lset" where
  "new_set e = LSet (rev (remdups (rev e))) (length e)"

fun contains :: "lset \<Rightarrow> string \<Rightarrow> bool" where
  "contains Complete x = True"
| "contains Empty_set x = False"
| "contains (LSet els n) x = (x \<in> set els)"

fun intersect_set :: "lset \<Rightarrow> lset \<Rightarrow> lset" where
  "intersect_set Complete e = e"
| "intersect_set Empty_set e = Empty_set"
| "intersect_set (LSet els n) Complete = LSet els n"
| "intersect_set (LSet els n) Empty_set = Empty_set"
| "intersect_set (LSet els n) (LSet els' n') =
     (if n < n' then new_set (filter (\<lambda>a. a \<in> set els') els)
      else new_set (filter (\<lambda>a. a \<in> set els) els'))"

fun union_set :: "lset \<Rightarrow> lset \<Rightarrow> lset" where
  "union_set Complete e = e"
| "union_set Empty_set e = e"
| "union_set (LSet els n) Complete = Complete"
| "union_set (LSet els n) Empty_set = LSet els n"
| "union_set (LSet els n) (LSet els' n') = new_set (els @ els')"

section \<open>Tokens and the tokenizer\<close>

datatype meta = MFields "string list" | MPosition nat nat | MIndex nat

type_synonym metadata = "(string \<times> meta) list"

record token =
  tok_str :: string
  tok_metadata :: metadata

definition new_token :: "string \<Rightarrow> metadata \<Rightarrow> token" where
  "new_token e t = \<lparr>tok_str = e, tok_metadata = t\<rparr>"

definition update_token :: "(string \<Rightarrow> metadata \<Rightarrow> string) \<Rightarrow> token \<Rightarrow> token" where
  "update_token f k = k\<lparr>tok_str := f (tok_str k) (tok_metadata k)\<rparr>"

definition clone_token :: "(string \<Rightarrow> metadata \<Rightarrow> string) option \<Rightarrow> token \<Rightarrow> token" where
  "clone_token f k =
     (case f of None \<Rightarrow> new_token (tok_str k) (tok_metadata k)
      | Some g \<Rightarrow> new_token (g (tok_str k) (tok_metadata k)) (tok_metadata k))"

text \<open>
  What the tokenizer is given: null or undefined, an array (of strings, or null and undefined),
  or a value with its \<open>toString()\<close>.
\<close>

datatype tok_input = In_null | In_array "string option list" | In_value string

function tokenizer_loop :: "metadata \<Rightarrow> string \<Rightarrow> nat \<Rightarrow> nat \<Rightarrow> token list \<Rightarrow> token list" where
  "tokenizer_loop t n k a i =
     (if k \<le> length n then
        let s = k - a in
        if k < length n \<and> is_separator (n ! k) \<or> k = length n then
          tokenizer_loop t n (k + 1) (k + 1)
            (if 0 < s
             then i @ [new_token (slice_s n a k)
                         (AList.update ''index'' (MIndex (length i))
                           (AList.update ''position'' (MPosition a s) t))]
             else i)
        else tokenizer_loop t n (k + 1) a i
      else i)"
  by pat_completeness auto
termination by (relation "measure (\<lambda>(t, n, k, a, i). Suc (length n) - k)") auto

declare tokenizer_loop.simps [simp del]

fun tokenizer :: "tok_input \<Rightarrow> metadata \<Rightarrow> token list" where
  "tokenizer In_null t = []"
| "tokenizer (In_array xs) t =
     map (\<lambda>x. new_token (lower (case x of None \<Rightarrow> [] | Some s \<Rightarrow> s)) t) xs"
| "tokenizer (In_value s) t = tokenizer_loop t (lower (trim s)) 0 0 []"

section \<open>Pipelines\<close>

datatype tok_out = Out_undefined | Out_empty | Out_tokens "token list" | Out_token token

type_synonym 'f actions = "'f \<Rightarrow> token \<Rightarrow> nat \<Rightarrow> token list \<Rightarrow> tok_out"

fun out_tokens :: "tok_out \<Rightarrow> token list" where
  "out_tokens Out_undefined = []"
| "out_tokens Out_empty = []"
| "out_tokens (Out_tokens ks) = ks"
| "out_tokens (Out_token k) = [k]"

definition run_stage :: "'f actions \<Rightarrow> 'f \<Rightarrow> token list \<Rightarrow> token list" where
  "run_stage act f e = concat (map (\<lambda>n. out_tokens (act f (e ! n) n e)) [0..<length e])"

definition run_pipeline :: "'f actions \<Rightarrow> 'f list \<Rightarrow> token list \<Rightarrow> token list" where
  "run_pipeline act stack e = fold (run_stage act) stack e"

definition runString :: "'f actions \<Rightarrow> 'f list \<Rightarrow> string \<Rightarrow> metadata \<Rightarrow> string list" where
  "runString act stack e t = map tok_str (run_pipeline act stack [new_token e t])"

definition add_stages :: "'f list \<Rightarrow> 'f list \<Rightarrow> 'f list" where
  "add_stages fs stack = stack @ fs"

fun position_in :: "'f \<Rightarrow> 'f list \<Rightarrow> nat option" where
  "position_in f [] = None"
| "position_in f (g # gs) = (if g = f then Some 0 else map_option Suc (position_in f gs))"

definition after_stage :: "'f \<Rightarrow> 'f \<Rightarrow> 'f list \<Rightarrow> 'f list res" where
  "after_stage e t stack =
     (case position_in e stack of
        None \<Rightarrow> Inl GenericError
      | Some n \<Rightarrow> Inr (take (n + 1) stack @ [t] @ drop (n + 1) stack))"

definition before_stage :: "'f \<Rightarrow> 'f \<Rightarrow> 'f list \<Rightarrow> 'f list res" where
  "before_stage e t stack =
     (case position_in e stack of
        None \<Rightarrow> Inl GenericError
      | Some n \<Rightarrow> Inr (take n stack @ [t] @ drop n stack))"

definition remove_stage :: "'f \<Rightarrow> 'f list \<Rightarrow> 'f list" where
  "remove_stage e stack =
     (case position_in e stack of
        None \<Rightarrow> stack
      | Some n \<Rightarrow> take n stack @ drop (n + 1) stack)"

text \<open>
  \<open>lunr.Pipeline.load\<close>: the functions of the given labels, with the registered functions as a
  table; an unknown label throws an Error.
\<close>

fun load_pipeline :: "(string \<rightharpoonup> 'f) \<Rightarrow> string list \<Rightarrow> 'f list res" where
  "load_pipeline registered [] = Inr []"
| "load_pipeline registered (l # ls) =
     (case registered l of
        None \<Rightarrow> Inl GenericError
      | Some f \<Rightarrow> andThen (load_pipeline registered ls) (\<lambda>fs. Inr (f # fs)))"

section \<open>The functions lunr registers\<close>

definition generateStopWordFilter :: "string list \<Rightarrow> token \<Rightarrow> tok_out" where
  "generateStopWordFilter ws k = (if tok_str k \<in> set ws then Out_undefined else Out_token k)"

definition lunr_stopwords :: "string list" where
  "lunr_stopwords =
    [
     ''a'', ''able'', ''about'', ''across'', ''after'', ''all'', ''almost'', ''also'', ''am'',
     ''among'', ''an'', ''and'', ''any'', ''are'', ''as'', ''at'', ''be'', ''because'', ''been'',
     ''but'', ''by'', ''can'', ''cannot'', ''could'', ''dear'', ''did'', ''do'', ''does'',
     ''either'', ''else'', ''ever'', ''every'', ''for'', ''from'', ''get'', ''got'', ''had'',
     ''has'', ''have'', ''he'', ''her'', ''hers'', ''him'', ''his'', ''how'', ''however'', ''i'',
     ''if'', ''in'', ''into'', ''is'', ''it'', ''its'', ''just'', ''least'', ''let'', ''like'',
     ''likely'', ''may'', ''me'', ''might'', ''most'', ''must'', ''my'', ''neither'', ''no'',
     ''nor'', ''not'', ''of'', ''off'', ''often'', ''on'', ''only'', ''or'', ''other'', ''our'',
     ''own'', ''rather'', ''said'', ''say'', ''says'', ''she'', ''should'', ''since'', ''so'',
     ''some'', ''than'', ''that'', ''the'', ''their'', ''them'', ''then'', ''there'', ''these'',
     ''they'', ''this'', ''tis'', ''to'', ''too'', ''twas'', ''us'', ''wants'', ''was'', ''we'',
     ''were'', ''what'', ''when'', ''where'', ''which'', ''while'', ''who'', ''whom'', ''why'',
     ''will'', ''with'', ''would'', ''yet'', ''you'', ''your'']"

text \<open>\<open>e.replace(/^\W+/, "").replace(/\W+$/, "")\<close>.\<close>

definition trimmer :: "token \<Rightarrow> tok_out" where
  "trimmer k =
     Out_token (update_token (\<lambda>s _.
       rev (dropWhile (\<lambda>c. \<not> is_word_char c) (rev (dropWhile (\<lambda>c. \<not> is_word_char c) s)))) k)"

text \<open>Step 1c: the last letter before the \<open>y\<close> is no vowel (\<open>/^(.+?[^aeiou])y$/\<close>).\<close>

definition lunr_step1c :: "string \<Rightarrow> string" where
  "lunr_step1c w =
     (case exec_rx (cat (group_rx (cat (plus_lazy dot) (cls (\<lambda>ch. \<not> aeiou ch)))) (cat (lit ''y'') eos)) w of
        Some g \<Rightarrow> g ! 0 @ ''i''
      | None \<Rightarrow> w)"

definition lunr_stem :: "string \<Rightarrow> string" where
  "lunr_stem w =
     (if length w < 3 then w
      else
        let r = take 1 w;
            w1 = (if r = ''y'' then ''Y'' @ drop 1 w else w);
            w2 = step5_ll (step5_e (step4 (step3 (step2 (lunr_step1c (step1b (step1a w1)))))))
        in if r = ''y'' then ''y'' @ drop 1 w2 else w2)"

definition lunr_stemmer :: "token \<Rightarrow> tok_out" where
  "lunr_stemmer k = Out_token (update_token (\<lambda>s _. lunr_stem s) k)"

datatype lunr_fn = Trimmer | StopWordFilter | Stemmer_fn

fun lunr_act :: "lunr_fn actions" where
  "lunr_act Trimmer k n ks = trimmer k"
| "lunr_act StopWordFilter k n ks = generateStopWordFilter lunr_stopwords k"
| "lunr_act Stemmer_fn k n ks = lunr_stemmer k"

text \<open>The two pipelines of an index made by \<open>lunr(config)\<close>.\<close>

definition index_pipeline :: "lunr_fn list" where
  "index_pipeline = add_stages [Trimmer, StopWordFilter, Stemmer_fn] []"

definition search_pipeline :: "lunr_fn list" where
  "search_pipeline = add_stages [Stemmer_fn] []"

section \<open>References and sets\<close>

lemma index_of_joiner: "joiner \<notin> set f \<Longrightarrow> index_of [joiner] (f @ joiner # d) = Some (length f)"
  by (induction f) auto

lemma ref_roundtrip:
  assumes "joiner \<notin> set f"
  shows "fromString_ref (toString_ref (FieldRef d f))
    = Inr \<lparr>fr_docRef = d, fr_fieldName = f, fr_stringValue = Some (f @ joiner # d)\<rparr>"
  using index_of_joiner [OF assms, of d] by (simp add: fromString_ref_def toString_ref_def FieldRef_def)

lemma toString_ref_inj:
  assumes "joiner \<notin> set f" "joiner \<notin> set f'"
  shows "toString_ref (FieldRef d f) = toString_ref (FieldRef d' f') \<longleftrightarrow> d = d' \<and> f = f'"
proof
  assume "toString_ref (FieldRef d f) = toString_ref (FieldRef d' f')"
  from arg_cong [where f = fromString_ref, OF this] show "d = d' \<and> f = f'"
    by (simp add: ref_roundtrip assms)
qed simp

lemma contains_new_set [simp]: "contains (new_set e) x \<longleftrightarrow> x \<in> set e"
  by (simp add: new_set_def)

lemma contains_intersect [simp]: "contains (intersect_set a b) x \<longleftrightarrow> contains a x \<and> contains b x"
  by (cases a; cases b) auto

lemma contains_union:
  "contains (union_set a b) x \<longleftrightarrow> a \<noteq> Complete \<and> contains a x \<or> contains b x"
  by (cases a; cases b) auto

section \<open>Tokens of a text\<close>

definition located :: "string \<Rightarrow> nat \<Rightarrow> token \<Rightarrow> bool" where
  "located n j k \<longleftrightarrow> map_of (tok_metadata k) ''index'' = Some (MIndex j)
     \<and> (case map_of (tok_metadata k) ''position'' of
          Some (MPosition a s) \<Rightarrow> a + s \<le> length n \<and> take s (drop a n) = tok_str k
        | _ \<Rightarrow> False)"

abbreviation all_located :: "string \<Rightarrow> token list \<Rightarrow> bool" where
  "all_located n ks \<equiv> list_all (\<lambda>j. located n j (ks ! j)) [0..<length ks]"

lemma all_located_snoc: "all_located n ks \<Longrightarrow> located n (length ks) k \<Longrightarrow> all_located n (ks @ [k])"
  by (auto simp: list_all_iff nth_append)

lemma tokenizer_loop_words:
  "a \<le> k \<Longrightarrow> k \<le> length n \<Longrightarrow> pieces is_separator (drop k n) = r # rs \<Longrightarrow> all_located n i \<Longrightarrow>
    map tok_str (tokenizer_loop t n k a i) = map tok_str i @ filter (\<lambda>w. w \<noteq> []) ((slice_s n a k @ r) # rs)
    \<and> all_located n (tokenizer_loop t n k a i)"
proof (induction "length n - k" arbitrary: k a i r rs)
  case 0
  then have k: "k = length n" "r = []" "rs = []" by auto
  let ?tok = "new_token (slice_s n a k)
    (AList.update ''index'' (MIndex (length i)) (AList.update ''position'' (MPosition a (k - a)) t))"
  let ?i = "if 0 < k - a then i @ [?tok] else i"
  have stop: "tokenizer_loop t n (k + 1) (k + 1) j = j" for j
    using k by (subst tokenizer_loop.simps) simp
  have "tokenizer_loop t n k a i = ?i"
    by (subst tokenizer_loop.simps) (use k stop in \<open>simp add: Let_def\<close>)
  moreover have "located n (length i) ?tok"
    using 0 by (auto simp: located_def new_token_def slice_s_def map_of_Cons_code update_conv)
  then have "all_located n ?i" using 0 all_located_snoc by auto
  moreover have "slice_s n a k = [] \<longleftrightarrow> \<not> 0 < k - a" using k by (auto simp: slice_s_def)
  ultimately show ?case using k by (auto simp: new_token_def)
next
  case (Suc m)
  then have k: "k < length n" and split: "drop k n = n ! k # drop (Suc k) n"
    by (simp_all add: Cons_nth_drop_Suc)
  obtain r' rs' where rest: "pieces is_separator (drop (Suc k) n) = r' # rs'"
    by (cases "pieces is_separator (drop (Suc k) n)") auto
  show ?case
  proof (cases "is_separator (n ! k)")
    case False
    with Suc.prems split rest have r: "r = n ! k # r'" "rs = rs'" by auto
    have "slice_s n a (Suc k) = slice_s n a k @ [n ! k]"
      using k Suc.prems(1) by (simp add: slice_s_def Suc_diff_le take_Suc_conv_app_nth)
    moreover have "tokenizer_loop t n k a i = tokenizer_loop t n (Suc k) a i"
      by (subst tokenizer_loop.simps) (use k False in \<open>simp add: Let_def\<close>)
    ultimately show ?thesis
      using Suc.hyps(1) [of "Suc k" a r' rs' i] Suc.hyps(2) Suc.prems k rest r by simp
  next
    case True
    with Suc.prems split rest have r: "r = []" "rs = r' # rs'" by auto
    let ?tok = "new_token (slice_s n a k)
      (AList.update ''index'' (MIndex (length i)) (AList.update ''position'' (MPosition a (k - a)) t))"
    let ?i = "if 0 < k - a then i @ [?tok] else i"
    have "located n (length i) ?tok"
      using Suc.prems(1) k by (auto simp: located_def new_token_def slice_s_def update_conv)
    then have "all_located n ?i" using Suc.prems all_located_snoc by auto
    moreover have "tokenizer_loop t n k a i = tokenizer_loop t n (Suc k) (Suc k) ?i"
      by (subst tokenizer_loop.simps) (use k True in \<open>simp add: Let_def\<close>)
    moreover have "slice_s n a k = [] \<longleftrightarrow> \<not> 0 < k - a" using k by (auto simp: slice_s_def)
    moreover have "slice_s n (Suc k) (Suc k) = []" by (simp add: slice_s_def)
    ultimately show ?thesis
      using Suc.hyps(1) [of "Suc k" "Suc k" r' rs' ?i] Suc.hyps(2) k rest r
      by (auto simp: new_token_def)
  qed
qed

text \<open>What the tokenizer finds, as strings.\<close>

fun input_words :: "tok_input \<Rightarrow> string list" where
  "input_words In_null = []"
| "input_words (In_array xs) = map (\<lambda>x. lower (case x of None \<Rightarrow> [] | Some s \<Rightarrow> s)) xs"
| "input_words (In_value s) = filter (\<lambda>w. w \<noteq> []) (pieces is_separator (lower (trim s)))"

lemma tokenizer_strings:
  "map tok_str (tokenizer v t) = input_words v"
  "v = In_value s \<Longrightarrow> all_located (lower (trim s)) (tokenizer v t)"
proof -
  have "map tok_str (tokenizer (In_value s) t) = input_words (In_value s)
      \<and> all_located (lower (trim s)) (tokenizer (In_value s) t)" for s
  proof -
    let ?n = "lower (trim s)"
    obtain r rs where "pieces is_separator (drop 0 ?n) = r # rs"
      by (cases "pieces is_separator (drop 0 ?n)") auto
    from tokenizer_loop_words [OF _ _ this, of 0 "[]" t] this show ?thesis
      by (simp add: slice_s_def)
  qed
  then show "map tok_str (tokenizer v t) = input_words v"
    "v = In_value s \<Longrightarrow> all_located (lower (trim s)) (tokenizer v t)"
    by (cases v; simp add: new_token_def)+
qed

text \<open>
  The tokens of a text are its words: the pieces between white space and hyphens, in lower case,
  in order, without the empty ones. Each carries its number and its place, and reading the text
  at this place gives the token.
\<close>
theorem tokens_are_words:
  "let n = lower (trim s); ks = tokenizer (In_value s) t in
     map tok_str ks = filter (\<lambda>w. w \<noteq> []) (pieces is_separator n)
   \<and> list_all (\<lambda>j. located n j (ks ! j)) [0..<length ks]"
  using tokenizer_strings [of "In_value s"] by (simp add: Let_def)

section \<open>Pipelines of one-to-one functions\<close>

lemma run_stage_each:
  assumes "\<And>k n ks. out_tokens (act f k n ks) = g k"
  shows "run_stage act f e = concat (map g e)"
proof -
  have "map (\<lambda>n. g (e ! n)) [0..<length e] = map g e" by (simp add: map_nth [symmetric] map_equality_iff)
  with assms show ?thesis by (simp add: run_stage_def)
qed

definition trimmed :: "string \<Rightarrow> string" where
  "trimmed s =
     rev (dropWhile (\<lambda>c. \<not> is_word_char c) (rev (dropWhile (\<lambda>c. \<not> is_word_char c) s)))"

lemma run_lunr_stages [simp]:
  "run_stage lunr_act Trimmer ks = map (update_token (\<lambda>s _. trimmed s)) ks"
  "run_stage lunr_act StopWordFilter ks = filter (\<lambda>k. tok_str k \<notin> set lunr_stopwords) ks"
  "run_stage lunr_act Stemmer_fn ks = map (update_token (\<lambda>s _. lunr_stem s)) ks"
proof -
  show "run_stage lunr_act Trimmer ks = map (update_token (\<lambda>s _. trimmed s)) ks"
    by (subst run_stage_each [where g = "\<lambda>k. [update_token (\<lambda>s _. trimmed s) k]"])
       (simp_all add: trimmer_def trimmed_def)
  show "run_stage lunr_act StopWordFilter ks = filter (\<lambda>k. tok_str k \<notin> set lunr_stopwords) ks"
  proof (subst run_stage_each [where g = "\<lambda>k. if tok_str k \<in> set lunr_stopwords then [] else [k]"])
    show "concat (map (\<lambda>k. if tok_str k \<in> set lunr_stopwords then [] else [k]) ks)
        = filter (\<lambda>k. tok_str k \<notin> set lunr_stopwords) ks" by (induction ks) auto
  qed (simp add: generateStopWordFilter_def)
  show "run_stage lunr_act Stemmer_fn ks = map (update_token (\<lambda>s _. lunr_stem s)) ks"
    by (subst run_stage_each [where g = "\<lambda>k. [update_token (\<lambda>s _. lunr_stem s) k]"])
       (simp_all add: lunr_stemmer_def)
qed

lemma run_pipeline_simps [simp]:
  "run_pipeline act [] e = e"
  "run_pipeline act (f # fs) e = run_pipeline act fs (run_stage act f e)"
  by (simp_all add: run_pipeline_def)

lemma run_search_pipeline: "runString lunr_act search_pipeline e t = [lunr_stem e]"
  by (simp add: runString_def search_pipeline_def add_stages_def new_token_def update_token_def)

text \<open>The words of a text as the index knows them.\<close>

definition index_words :: "string list \<Rightarrow> string list" where
  "index_words ws = map lunr_stem (filter (\<lambda>w. w \<notin> set lunr_stopwords) (map trimmed ws))"

lemma run_index_pipeline:
  "map tok_str (run_pipeline lunr_act index_pipeline ks) = index_words (map tok_str ks)"
  by (simp add: index_pipeline_def add_stages_def index_words_def update_token_def filter_map comp_def)

section \<open>The two stemmers of the site\<close>

lemma keeps_lunr_step1c: "keeps_stem w (lunr_step1c w)"
proof (cases "exec_rx (cat (group_rx (cat (plus_lazy dot) (cls (\<lambda>ch. \<not> aeiou ch)))) (cat (lit ''y'') eos)) w")
  case (Some g)
  then obtain s' where "(g, s') \<in> set (cat (group_rx (cat (plus_lazy dot) (cls (\<lambda>ch. \<not> aeiou ch)))) (cat (lit ''y'') eos) w)"
    by (auto simp: exec_rx_def split: list.splits)
  then obtain g1 s1 g2 where m: "(g1, s1) \<in> set (group_rx (cat (plus_lazy dot) (cls (\<lambda>ch. \<not> aeiou ch))) w)"
      "(g2, s') \<in> set (cat (lit ''y'') eos s1)" "g = g1 @ g2"
    by (auto simp: cat_def [of "group_rx _"])
  from m(2) have "g2 = []" "take 1 s1 = ''y''" "drop 1 s1 = []"
    by (auto simp: cat_def lit_def eos_def split: if_splits)
  then have s1: "s1 = ''y''" using append_take_drop_id [of 1 s1] by simp
  obtain h where h: "(h, s1) \<in> set (cat (plus_lazy dot) (cls (\<lambda>ch. \<not> aeiou ch)) w)"
      "g1 = take (length w - length s1) w # h"
    using m(1) by (auto simp: group_rx_def)
  obtain h1 s2 h2 where 1: "(h1, s2) \<in> set (plus_lazy dot w)" "(h2, s1) \<in> set (cls (\<lambda>ch. \<not> aeiou ch) s2)"
    using h(1) by (auto simp: cat_def)
  have "(take (length w - length s2) w # h1, s2) \<in> set (group_rx (plus_lazy dot) w)"
    using 1(1) by (auto simp: group_rx_def)
  from group_plus_lazy [OF this] obtain u where u: "u \<noteq> []" "w = u @ s2" by blast
  obtain c where c: "s2 = c # s1" using 1(2) by (auto simp: cls_def split: list.splits if_splits)
  have "g ! 0 = u @ [c]" using m(3) h(2) u c by simp
  with Some u c s1 keeps_suffix [of "u @ [c]" "''i''" "''y''"] show ?thesis by (simp add: lunr_step1c_def)
qed (simp add: lunr_step1c_def)

lemma keeps_lunr_steps:
  "keeps_stem w (step5_ll (step5_e (step4 (step3 (step2 (lunr_step1c (step1b (step1a w))))))))"
  using keeps_steps keeps_lunr_step1c keeps_trans by metis

lemma lunr_stem_keeps: "keeps_stem w (lunr_stem w)"
proof -
  let ?w1 = "if take 1 w = ''y'' then ''Y'' @ drop 1 w else w"
  let ?w2 = "step5_ll (step5_e (step4 (step3 (step2 (lunr_step1c (step1b (step1a ?w1)))))))"
  have k: "keeps_stem ?w1 ?w2" by (rule keeps_lunr_steps)
  show ?thesis
  proof (cases "length w < 3 \<or> take 1 w \<noteq> ''y''")
    case False
    then have y: "take 1 w = ''y''" "\<not> length w < 3" by auto
    with k have "length ?w2 \<le> length w" by (auto simp: keeps_stem_def)
    moreover have "lunr_stem w = ''y'' @ drop 1 ?w2" using y by (simp add: lunr_stem_def Let_def)
    ultimately show ?thesis using y by (simp add: keeps_stem_def)
  qed (use k in \<open>auto simp: lunr_stem_def Let_def\<close>)
qed

lemma lunr_stem_Nil [simp]: "lunr_stem w = [] \<longleftrightarrow> w = []"
  using lunr_stem_keeps [of w] by (cases w; cases "lunr_stem w") (auto simp: keeps_stem_def)

lemma ends_in_y:
  assumes "cat (group_rx r) (cat (lit ''y'') eos) w \<noteq> []"
    and "\<And>g s' s. (g, s') \<in> set (r s) \<Longrightarrow> \<exists>u. s = u @ s'"
  shows "\<exists>u. w = u @ ''y''"
proof -
  obtain g s1 g2 s2 where m: "(g, s1) \<in> set (r w)" "(g2, s2) \<in> set (cat (lit ''y'') eos s1)"
    using assms(1) by (fastforce simp: cat_def [of "group_rx r"] group_rx_def neq_Nil_conv)
  from m(2) have "take 1 s1 = ''y''" "drop 1 s1 = []"
    by (auto simp: cat_def lit_def eos_def split: if_splits)
  then have "s1 = ''y''" using append_take_drop_id [of 1 s1] by simp
  with assms(2) [OF m(1)] show ?thesis by blast
qed

lemma plus_lazy_suffix: "(g, s') \<in> set (plus_lazy p s) \<Longrightarrow> \<exists>u. s = u @ s'"
proof -
  assume "(g, s') \<in> set (plus_lazy p s)"
  then have "(take (length s - length s') s # g, s') \<in> set (group_rx (plus_lazy p) s)"
    by (auto simp: group_rx_def)
  from group_plus_lazy [OF this] show ?thesis by blast
qed

lemma step1c_others:
  assumes "\<nexists>u. w = u @ ''y''"
  shows "step1c w = w" "lunr_step1c w = w"
proof -
  have "(g, s') \<in> set (cat (plus_lazy dot) (cls p) s) \<Longrightarrow> \<exists>u. s = u @ s'" for g s' s p
  proof -
    assume "(g, s') \<in> set (cat (plus_lazy dot) (cls p) s)"
    then obtain g1 s1 g2 where m: "(g1, s1) \<in> set (plus_lazy dot s)" "(g2, s') \<in> set (cls p s1)"
      by (auto simp: cat_def)
    obtain u where "s = u @ s1" using plus_lazy_suffix [OF m(1)] by blast
    moreover obtain c where "s1 = c # s'" using m(2) by (auto simp: cls_def split: list.splits if_splits)
    ultimately have "s = (u @ [c]) @ s'" by simp
    then show ?thesis by blast
  qed
  then show "lunr_step1c w = w"
    using assms ends_in_y [of "cat (plus_lazy dot) (cls (\<lambda>ch. \<not> aeiou ch))" w]
    by (auto simp: lunr_step1c_def exec_rx_def split: list.split)
  show "step1c w = w"
    using assms ends_in_y [of "plus_lazy dot" w] plus_lazy_suffix
    by (auto simp: step1c_def exec_rx_def split: list.split)
qed

text \<open>
  The stemmer of lunr and that of \<open>language_data.js\<close> agree on a word unless it ends in \<open>y\<close> after
  the first two steps: \<open>cry\<close> and \<open>say\<close> have different stems in the two indexes.
\<close>
lemma stemmers_agree:
  assumes "\<nexists>u. step1b (step1a (if take 1 w = ''y'' then ''Y'' @ drop 1 w else w)) = u @ ''y''"
  shows "lunr_stem w = stemWord w"
  by (simp only: lunr_stem_def stemWord_def Let_def step1c_others [OF assms])

lemma stemmers_differ:
  "lunr_stem ''cry'' = ''cri''" "stemWord ''cry'' = ''cry''"
  "lunr_stem ''say'' = ''say''" "stemWord ''say'' = ''sai''"
  by code_simp+

text \<open>
  A word that consists of punctuation only is trimmed to the empty word, which no function of the
  pipeline drops.
\<close>
lemma empty_word_is_indexed:
  "index_words (map tok_str (tokenizer (In_value ''fish & chips'') [])) = [''fish'', [], ''chip'']"
  by code_simp

end
