(* ===== verification/LunrVector.thy ===== *)
theory LunrVector
  imports LunrQuery
begin

text \<open>
  Sparse vectors of lunr (\<open>lunr.Vector\<close> in \<open>application.js\<close>): the weights of the terms of a
  field or of a query by the number of the term. A vector is a flat array of alternating
  term numbers and weights, kept sorted by term number, with a cached magnitude.

  \<^item> The first part translates the code: the binary search \<open>positionForIndex\<close> with its loop
    variables, \<open>upsert\<close> and \<open>insert\<close>, the loop of \<open>dot\<close> with its two pointers.
    \<open>position_loop\<close> counts the fractional \<open>n\<close> of the code in halves. For an array of odd
    length the loop of the code need not end; it is a \<open>partial_function\<close>.
  \<^item> Numbers are any linear order; what arithmetic does is the parameter \<open>'v arith\<close>, so the
    theorems hold whatever the rounding. NaN is not ordered and not in the order.
  \<^item> The second part shows what vectors promise: \<open>upsert_is_update\<close> (searching ends and
    \<open>upsert\<close> is the update of a sorted association list) and \<open>dot_is_sum\<close> (the two pointers
    add up exactly the products of the common terms, in order).
\<close>

section \<open>The code\<close>

record 'v arith =
  a_zero :: 'v
  a_nan :: 'v
  a_add :: "'v \<Rightarrow> 'v \<Rightarrow> 'v"
  a_mul :: "'v \<Rightarrow> 'v \<Rightarrow> 'v"
  a_div :: "'v \<Rightarrow> 'v \<Rightarrow> 'v"
  a_sqrt :: "'v \<Rightarrow> 'v"

record 'v vector =
  vec_magnitude :: 'v
  vec_elements :: "'v list"

definition new_vector :: "'v arith \<Rightarrow> 'v list \<Rightarrow> 'v vector" where
  "new_vector A es = \<lparr>vec_magnitude = a_zero A, vec_elements = es\<rparr>"

text \<open>A number is truthy unless it is 0 or NaN.\<close>

definition truthy_num :: "'v arith \<Rightarrow> 'v \<Rightarrow> bool" where
  "truthy_num A x \<longleftrightarrow> x \<noteq> a_zero A \<and> x \<noteq> a_nan A"

text \<open>\<open>es[k]\<close> as an operand of arithmetic: \<open>undefined\<close> counts as NaN there. \<open>es[k] = y\<close>.\<close>

definition num_at :: "'v arith \<Rightarrow> 'v list \<Rightarrow> nat \<Rightarrow> 'v" where
  "num_at A es k = (if k < length es then es ! k else a_nan A)"

definition put_at :: "nat \<Rightarrow> 'v \<Rightarrow> 'v list \<Rightarrow> 'v list" where
  "put_at k y es = (if k < length es then es[k := y] else es @ [y])"

text \<open>\<open>n\<close> and \<open>r\<close> in halves: \<open>n = n2 / 2\<close>, \<open>r = r2 / 2\<close>.\<close>

partial_function (option) position_loop ::
    "'v::linorder list \<Rightarrow> 'v \<Rightarrow> nat \<Rightarrow> nat \<Rightarrow> nat \<Rightarrow> nat \<Rightarrow> nat option" where
  "position_loop es e t n2 r2 i =
     (if 2 < r2 \<and> es ! (2 * i) \<noteq> e then
        let t' = (if es ! (2 * i) < e then i else t);
            n2' = (if e < es ! (2 * i) then 2 * i else n2);
            r2' = n2' - 2 * t'
        in position_loop es e t' n2' r2' (t' + r2' div 4)
      else Some i)"

definition positionForIndex :: "'v::linorder list \<Rightarrow> 'v \<Rightarrow> nat option" where
  "positionForIndex es e =
     (if es = [] then Some 0
      else map_option
             (\<lambda>i. let x = es ! (2 * i) in
                 if x = e then 2 * i else if e < x then 2 * i else 2 * (i + 1))
             (position_loop es e 0 (length es) (length es) (length es div 4)))"

definition upsert ::
    "'v arith \<Rightarrow> 'v::linorder \<Rightarrow> 'v \<Rightarrow> ('v \<Rightarrow> 'v \<Rightarrow> 'e + 'v) \<Rightarrow> 'v vector \<Rightarrow> ('e + 'v vector) option" where
  "upsert A e t f v =
     (let es = vec_elements v in
      case positionForIndex es e of
        None \<Rightarrow> None
      | Some r \<Rightarrow> Some
          (if r < length es \<and> es ! r = e then
             (case f (num_at A es (r + 1)) t of
                Inl err \<Rightarrow> Inl err
              | Inr y \<Rightarrow> Inr (new_vector A (put_at (r + 1) y es)))
           else Inr (new_vector A (take r es @ [e, t] @ drop r es))))"

definition insert_vec :: "'v arith \<Rightarrow> 'v::linorder \<Rightarrow> 'v \<Rightarrow> 'v vector \<Rightarrow> (string + 'v vector) option" where
  "insert_vec A e t v = upsert A e t (\<lambda>_ _. Inl ''duplicate index'') v"

text \<open>\<open>for (n = 1; n < t; n += 2)\<close> over the weights.\<close>

function square_sum :: "'v arith \<Rightarrow> 'v list \<Rightarrow> nat \<Rightarrow> 'v \<Rightarrow> 'v" where
  "square_sum A es n e =
     (if n < length es then square_sum A es (n + 2) (a_add A e (a_mul A (es ! n) (es ! n))) else e)"
  by pat_completeness auto
termination by (relation "measure (\<lambda>(A, es, n, e). length es - n)") auto

definition magnitude :: "'v arith \<Rightarrow> 'v vector \<Rightarrow> 'v \<times> 'v vector" where
  "magnitude A v =
     (if truthy_num A (vec_magnitude v) then (vec_magnitude v, v)
      else let m = a_sqrt A (square_sum A (vec_elements v) 1 (a_zero A))
           in (m, v\<lparr>vec_magnitude := m\<rparr>))"

function dot_loop :: "'v arith \<Rightarrow> 'v::linorder list \<Rightarrow> 'v list \<Rightarrow> nat \<Rightarrow> nat \<Rightarrow> 'v \<Rightarrow> 'v" where
  "dot_loop A n r c l t =
     (if c < length n \<and> l < length r then
        if n ! c < r ! l then dot_loop A n r (c + 2) l t
        else if r ! l < n ! c then dot_loop A n r c (l + 2) t
        else dot_loop A n r (c + 2) (l + 2)
               (a_add A t (a_mul A (num_at A n (c + 1)) (num_at A r (l + 1))))
      else t)"
  by pat_completeness auto
termination
  by (relation "measure (\<lambda>(A, n, r, c, l, t). (length n - c) + (length r - l))") auto

declare square_sum.simps [simp del] dot_loop.simps [simp del]

definition dot_vec :: "'v arith \<Rightarrow> 'v::linorder vector \<Rightarrow> 'v vector \<Rightarrow> 'v" where
  "dot_vec A u v = dot_loop A (vec_elements u) (vec_elements v) 0 0 (a_zero A)"

definition similarity :: "'v arith \<Rightarrow> 'v::linorder vector \<Rightarrow> 'v vector \<Rightarrow> 'v \<times> 'v vector" where
  "similarity A u v =
     (let d = dot_vec A u v; (m, u') = magnitude A u; s = a_div A d m
      in (if truthy_num A s then s else a_zero A, u'))"

text \<open>\<open>toArray\<close>: \<open>new Array\<close> throws a RangeError (here \<open>None\<close>) for half a length.\<close>

fun weights_from :: "'v list \<Rightarrow> 'v list" where
  "weights_from (k # x # es) = x # weights_from es"
| "weights_from _ = []"

definition toArray_vec :: "'v vector \<Rightarrow> 'v list option" where
  "toArray_vec v =
     (if even (length (vec_elements v)) then Some (weights_from (vec_elements v)) else None)"

definition toJSON_vec :: "'v vector \<Rightarrow> 'v list" where
  "toJSON_vec v = vec_elements v"

section \<open>Vectors as sorted association lists\<close>

fun flat :: "('v \<times> 'v) list \<Rightarrow> 'v list" where
  "flat [] = []"
| "flat ((k, x) # ps) = k # x # flat ps"

definition vector_of :: "'v arith \<Rightarrow> ('v \<times> 'v) list \<Rightarrow> 'v vector" where
  "vector_of A ps = new_vector A (flat ps)"

fun upd :: "'v::linorder \<Rightarrow> 'b \<Rightarrow> ('v \<times> 'b) list \<Rightarrow> ('v \<times> 'b) list" where
  "upd k y [] = [(k, y)]"
| "upd k y ((a, b) # ps) =
     (if k < a then (k, y) # (a, b) # ps else if k = a then (k, y) # ps else (a, b) # upd k y ps)"

abbreviation ascending :: "('v::linorder \<times> 'b) list \<Rightarrow> bool" where
  "ascending ps \<equiv> sorted_wrt (<) (map fst ps)"

lemma map_of_upd [simp]: "map_of (upd k y ps) = (map_of ps)(k \<mapsto> y)"
  by (induction ps) (auto simp: fun_eq_iff)

lemma set_upd: "fst ` set (upd k y ps) = insert k (fst ` set ps)"
  by (induction k y ps rule: upd.induct) (simp_all add: insert_commute)

lemma ascending_upd: "ascending ps \<Longrightarrow> ascending (upd k y ps)"
proof (induction ps)
  case (Cons p ps)
  have "set (map fst (upd k y ps)) = insert k (fst ` set ps)" using set_upd [of k y ps] by simp
  with Cons show ?case by (cases p) (auto simp: image_iff)
qed simp

lemma length_flat [simp]: "length (flat ps) = 2 * length ps"
  by (induction ps rule: flat.induct) auto

lemma flat_eq_Nil [simp]: "flat ps = [] \<longleftrightarrow> ps = []"
  by (cases ps rule: flat.cases) auto

lemma flat_append: "flat (ps @ qs) = flat ps @ flat qs"
  by (induction ps rule: flat.induct) auto

lemma flat_nth [simp]:
  "i < length ps \<Longrightarrow> flat ps ! (2 * i) = fst (ps ! i)"
  "i < length ps \<Longrightarrow> flat ps ! Suc (2 * i) = snd (ps ! i)"
proof (induction ps arbitrary: i rule: flat.induct)
  case (2 k x ps)
  { case 1 with 2 show ?case by (cases i) auto }
  { case 2 with "2.IH" show ?case by (cases i) auto }
qed auto

lemma take_flat: "take (2 * i) (flat ps) = flat (take i ps)"
proof (induction ps arbitrary: i rule: flat.induct)
  case (2 k x ps) then show ?case by (cases i) auto
qed simp

lemma drop_flat: "drop (2 * i) (flat ps) = flat (drop i ps)"
proof (induction ps arbitrary: i rule: flat.induct)
  case (2 k x ps) then show ?case by (cases i) auto
qed simp

text \<open>The number of keys below \<open>e\<close>.\<close>

definition rank :: "('v::linorder \<times> 'b) list \<Rightarrow> 'v \<Rightarrow> nat" where
  "rank ps e = length (takeWhile (\<lambda>p. fst p < e) ps)"

lemma ascending_nth: "ascending ps \<Longrightarrow> i < j \<Longrightarrow> j < length ps \<Longrightarrow> fst (ps ! i) < fst (ps ! j)"
  using sorted_wrt_nth_less [of "(<)" "map fst ps" i j] by simp

lemma rank_le: "rank ps e \<le> length ps"
  by (simp add: rank_def length_takeWhile_le)

lemma rankI:
  assumes "ascending ps" "m \<le> length ps"
    and "m = 0 \<or> fst (ps ! (m - 1)) < e" and "m = length ps \<or> e \<le> fst (ps ! m)"
  shows "rank ps e = m"
  unfolding rank_def
proof (rule takeWhile_eq_take_P_nth [THEN arg_cong [where f = length], THEN trans])
  fix i assume i: "i < m" "i < length ps"
  have "fst (ps ! i) \<le> fst (ps ! (m - 1))"
    using ascending_nth [OF assms(1), of i "m - 1"] i assms(2) by (cases "i = m - 1") (auto simp: less_imp_le)
  then show "fst (ps ! i) < e" using assms(3) i by auto
next
  assume "m < length ps" then show "\<not> fst (ps ! m) < e" using assms(4) by auto
next
  show "length (take m ps) = m" using assms(2) by simp
qed

lemma rank_below: "i < rank ps e \<Longrightarrow> fst (ps ! i) < e"
  using nth_mem [of i "takeWhile (\<lambda>p. fst p < e) ps"]
  by (auto simp: rank_def takeWhile_nth dest: set_takeWhileD)

lemma rank_from: "rank ps e < length ps \<Longrightarrow> e \<le> fst (ps ! rank ps e)"
  using nth_length_takeWhile [of "\<lambda>p. fst p < e" ps] by (simp add: rank_def)

lemma upd_split:
  assumes "ascending ps"
  shows "upd k y ps = take (rank ps k) ps @ (k, y) #
     (if rank ps k < length ps \<and> fst (ps ! rank ps k) = k then drop (Suc (rank ps k)) ps
      else drop (rank ps k) ps)"
  using assms by (induction ps) (auto simp: rank_def not_less_iff_gr_or_eq)

lemma map_of_rank:
  assumes "ascending ps"
  shows "map_of ps k =
     (if rank ps k < length ps \<and> fst (ps ! rank ps k) = k then Some (snd (ps ! rank ps k)) else None)"
  using assms
proof (induction ps)
  case (Cons p ps)
  have "map_of ps k = None" if "k \<le> fst p"
    using Cons.prems that by (auto simp: map_of_eq_None_iff image_iff)
  with Cons show ?case by (cases p) (auto simp: rank_def not_less)
qed (simp add: rank_def)

section \<open>The binary search\<close>

text \<open>
  Between two rounds the keys before \<open>t\<close> are smaller than \<open>e\<close>, those from \<open>n\<close> on larger, and
  the loop looks at the middle of the two.
\<close>

definition between :: "('v::linorder \<times> 'v) list \<Rightarrow> 'v \<Rightarrow> nat \<Rightarrow> nat \<Rightarrow> bool" where
  "between ps e t n \<longleftrightarrow> t < n \<and> n \<le> length ps \<and> (t = 0 \<or> fst (ps ! t) < e)
     \<and> (n = length ps \<or> e < fst (ps ! n))"

definition found_at :: "('v::linorder \<times> 'v) list \<Rightarrow> 'v \<Rightarrow> nat \<Rightarrow> bool" where
  "found_at ps e i \<longleftrightarrow> i < length ps
     \<and> rank ps e = (if fst (ps ! i) < e then Suc i else i)"

lemma found_here: "ascending ps \<Longrightarrow> i < length ps \<Longrightarrow> fst (ps ! i) = e \<Longrightarrow> found_at ps e i"
  unfolding found_at_def by (auto intro!: rankI dest: ascending_nth [of ps "i - 1" i])

lemma found_end:
  assumes "ascending ps" "between ps e t (Suc t)" shows "found_at ps e t"
proof (cases "fst (ps ! t) < e")
  case True
  with assms have "rank ps e = Suc t" by (intro rankI) (auto simp: between_def)
  with True assms show ?thesis by (simp add: found_at_def between_def)
next
  case False
  with assms have "t = 0" by (auto simp: between_def)
  with False assms show ?thesis
    unfolding found_at_def between_def by (auto intro!: rankI)
qed

lemma position_loop_finds:
  assumes "ascending ps"
  shows "between ps e t n \<Longrightarrow>
    \<exists>i. position_loop (flat ps) e t (2 * n) (2 * (n - t)) (t + (n - t) div 2) = Some i
      \<and> found_at ps e i"
proof (induction "n - t" arbitrary: t n rule: less_induct)
  case less
  let ?i = "t + (n - t) div 2" and ?k = "fst (ps ! (t + (n - t) div 2))"
  have i: "?i < n" "?i < length ps" using less.prems by (auto simp: between_def)
  then have key: "flat ps ! (2 * ?i) = ?k" by (metis flat_nth(1))
  show ?case
  proof (cases "Suc t < n \<and> ?k \<noteq> e")
    case False
    then have stop: "position_loop (flat ps) e t (2 * n) (2 * (n - t)) ?i = Some ?i"
      by (subst position_loop.simps) (use key in auto)
    have "found_at ps e ?i"
    proof (cases "?k = e")
      case True with found_here [OF assms i(2)] show ?thesis by simp
    next
      case False
      with \<open>\<not> (Suc t < n \<and> ?k \<noteq> e)\<close> less.prems have "n = Suc t" by (auto simp: between_def)
      with found_end [OF assms] less.prems show ?thesis by simp
    qed
    with stop show ?thesis by blast
  next
    case True
    define t' n' where new: "t' = (if ?k < e then ?i else t)" "n' = (if e < ?k then ?i else n)"
    have "t < ?i" using True by auto
    with True i less.prems have ok: "between ps e t' n'" "n' - t' < n - t"
      unfolding new between_def by auto
    have "position_loop (flat ps) e t (2 * n) (2 * (n - t)) ?i
        = position_loop (flat ps) e t' (2 * n') (2 * (n' - t')) (t' + (n' - t') div 2)"
    proof -
      have "2 < 2 * (n - t) \<and> flat ps ! (2 * ?i) \<noteq> e" using True key by auto
      moreover have "(if e < ?k then 2 * ?i else 2 * n) = 2 * n'" by (simp add: new)
      moreover have "2 * n' - 2 * t' = 2 * (n' - t')" "2 * (n' - t') div 4 = (n' - t') div 2" by auto
      ultimately show ?thesis
        by (subst position_loop.simps) (simp only: Let_def key new(1) [symmetric] simp_thms if_True)
    qed
    with less.hyps [OF ok(2,1)] show ?thesis by simp
  qed
qed

lemma position_is_rank:
  assumes "ascending ps"
  shows "positionForIndex (flat ps) e = Some (2 * rank ps e)"
proof (cases "ps = []")
  case False
  then have "between ps e 0 (length ps)" by (simp add: between_def)
  from position_loop_finds [OF assms this] obtain i where
    i: "position_loop (flat ps) e 0 (2 * length ps) (2 * length ps) (length ps div 2) = Some i"
       "found_at ps e i" by auto
  have "length (flat ps) div 4 = length ps div 2" by simp
  with i False show ?thesis
    by (auto simp: positionForIndex_def found_at_def Let_def split: if_splits)
qed (simp add: positionForIndex_def rank_def)

lemma upsert_vector:
  assumes "ascending ps"
  shows "upsert A e t f (vector_of A ps) =
    Some (case map_of ps e of
            None \<Rightarrow> Inr (vector_of A (upd e t ps))
          | Some x \<Rightarrow> (case f x t of Inl err \<Rightarrow> Inl err | Inr y \<Rightarrow> Inr (vector_of A (upd e y ps))))"
proof -
  let ?r = "rank ps e"
  have pos: "positionForIndex (vec_elements (vector_of A ps)) e = Some (2 * ?r)"
    using position_is_rank [OF assms] by (simp add: vector_of_def new_vector_def)
  have flat_take: "take (2 * ?r) (flat ps) = flat (take ?r ps)"
    and flat_drop: "drop (2 * ?r) (flat ps) = flat (drop ?r ps)"
    by (rule take_flat, rule drop_flat)
  show ?thesis
  proof (cases "?r < length ps \<and> fst (ps ! ?r) = e")
    case False
    then have "map_of ps e = None" "upd e t ps = take ?r ps @ (e, t) # drop ?r ps"
      using map_of_rank [OF assms] upd_split [OF assms] by auto
    moreover have "\<not> (2 * ?r < length (flat ps) \<and> flat ps ! (2 * ?r) = e)" using False by auto
    ultimately show ?thesis
      using pos flat_take flat_drop
      by (auto simp: upsert_def vector_of_def new_vector_def flat_append Let_def)
  next
    case True
    have put: "put_at (2 * ?r + 1) y (flat ps) = flat (upd e y ps)" for y
    proof -
      have "ps = take ?r ps @ (e, snd (ps ! ?r)) # drop (Suc ?r) ps"
        using True id_take_nth_drop [of ?r ps] by (metis prod.collapse)
      then have "flat ps = flat (take ?r ps) @ e # snd (ps ! ?r) # flat (drop (Suc ?r) ps)"
        by (metis flat.simps(2) flat_append)
      moreover have "length (flat (take ?r ps)) = 2 * ?r" using True by simp
      ultimately have "(flat ps)[2 * ?r + 1 := y] = flat (take ?r ps) @ e # y # flat (drop (Suc ?r) ps)"
        by (simp add: list_update_append)
      with True show ?thesis
        using upd_split [OF assms, of e y] by (simp add: put_at_def flat_append)
    qed
    have "map_of ps e = Some (snd (ps ! ?r))" using True map_of_rank [OF assms] by simp
    moreover have "num_at A (flat ps) (2 * ?r + 1) = snd (ps ! ?r)" using True by (simp add: num_at_def)
    ultimately show ?thesis
      using pos True put by (auto simp: upsert_def vector_of_def new_vector_def Let_def split: sum.splits)
  qed
qed

section \<open>The product of two vectors\<close>

text \<open>Reference: go through the first vector and add the products with the weights of the second.\<close>

definition common_product ::
    "'v arith \<Rightarrow> ('v \<times> 'v) list \<Rightarrow> ('v \<times> 'v) list \<Rightarrow> 'v \<Rightarrow> 'v" where
  "common_product A ps qs t =
     fold (\<lambda>(k, x) t. case map_of qs k of None \<Rightarrow> t | Some y \<Rightarrow> a_add A t (a_mul A x y)) ps t"

lemma common_product_simps [simp]:
  "common_product A [] qs t = t"
  "common_product A ((k, x) # ps) qs t =
     common_product A ps qs (case map_of qs k of None \<Rightarrow> t | Some y \<Rightarrow> a_add A t (a_mul A x y))"
  by (simp_all add: common_product_def)

lemma common_product_skip:
  assumes "\<forall>p \<in> set ps. fst p \<noteq> l"
  shows "common_product A ps ((l, y) # qs) t = common_product A ps qs t"
  using assms by (induction ps arbitrary: t) (auto split: option.split)

lemma common_product_Nil [simp]: "common_product A ps [] t = t"
  by (induction ps arbitrary: t) auto

lemma dot_loop_is_sum:
  assumes "ascending ps" "ascending qs"
  shows "c \<le> length ps \<Longrightarrow> l \<le> length qs \<Longrightarrow>
    dot_loop A (flat ps) (flat qs) (2 * c) (2 * l) t = common_product A (drop c ps) (drop l qs) t"
proof (induction "(length ps - c) + (length qs - l)" arbitrary: c l t rule: less_induct)
  case less
  show ?case
  proof (cases "c < length ps \<and> l < length qs")
    case False
    then have "drop c ps = [] \<or> drop l qs = []" by auto
    then show ?thesis using False by (subst dot_loop.simps) auto
  next
    case True
    obtain k x m y where p: "ps ! c = (k, x)" and q: "qs ! l = (m, y)" by fastforce
    have ps: "drop c ps = (k, x) # drop (Suc c) ps" and qs: "drop l qs = (m, y) # drop (Suc l) qs"
      using True p q by (simp_all add: Cons_nth_drop_Suc [symmetric])
    have asc: "\<forall>p \<in> set (drop (Suc c) ps). k < fst p" "\<forall>p \<in> set (drop (Suc l) qs). m < fst p"
      using assms sorted_wrt_drop [of "(<)" "map fst ps" c] sorted_wrt_drop [of "(<)" "map fst qs" l] ps qs
      by (auto simp: drop_map)
    have at: "flat ps ! (2 * c) = k" "flat qs ! (2 * l) = m"
      "num_at A (flat ps) (2 * c + 1) = x" "num_at A (flat qs) (2 * l + 1) = y"
      using True p q by (simp_all add: num_at_def)
    note step = dot_loop.simps [of A "flat ps" "flat qs" "2 * c" "2 * l" t]
    have rec: "dot_loop A (flat ps) (flat qs) (2 * c') (2 * l') t'
        = common_product A (drop c' ps) (drop l' qs) t'"
      if "c' = Suc c \<and> l' \<in> {l, Suc l} \<or> c' = c \<and> l' = Suc l" for c' l' t'
      using True that by (intro less.hyps) auto
    have two: "2 * c + 2 = 2 * Suc c" "2 * l + 2 = 2 * Suc l" by simp_all
    have in_range: "2 * c < length (flat ps) \<and> 2 * l < length (flat qs)" using True by simp
    consider "k < m" | "m < k" | "k = m" by fastforce
    then show ?thesis
    proof cases
      case 1
      have "map_of (drop l qs) k = None" using 1 asc(2) qs by (auto simp: map_of_eq_None_iff)
      then show ?thesis
        using 1 rec [of "Suc c" l t] by (simp only: step in_range if_True at two ps) simp
    next
      case 2
      have "\<forall>p \<in> set (drop c ps). fst p \<noteq> m" using 2 asc(1) ps by auto
      from common_product_skip [OF this, of A y "drop (Suc l) qs" t] show ?thesis
        using 2 rec [of c "Suc l" t] by (simp only: step in_range if_True at two qs) auto
    next
      case 3
      have "\<forall>p \<in> set (drop (Suc c) ps). fst p \<noteq> m" using 3 asc(1) by auto
      note skip = common_product_skip [OF this, of A y "drop (Suc l) qs"]
      have "dot_loop A (flat ps) (flat qs) (2 * c) (2 * l) t
          = common_product A (drop (Suc c) ps) (drop (Suc l) qs) (a_add A t (a_mul A x y))"
        using 3 rec [of "Suc c" "Suc l" "a_add A t (a_mul A x y)"]
        by (simp only: step in_range if_True at two) simp
      also have "\<dots> = common_product A (drop c ps) (drop l qs) t"
        using 3 by (simp add: ps qs skip)
      finally show ?thesis .
    qed
  qed
qed

lemma dot_vectors:
  assumes "ascending ps" "ascending qs"
  shows "dot_vec A (vector_of A ps) (vector_of A qs) = common_product A ps qs (a_zero A)"
  using dot_loop_is_sum [OF assms, of 0 0 A "a_zero A"]
  by (simp add: dot_vec_def vector_of_def new_vector_def)

section \<open>Arithmetic of whole numbers\<close>

text \<open>Whole numbers with a NaN that no computation of the examples reaches.\<close>

definition int_arith :: "int arith" where
  "int_arith =
     \<lparr>a_zero = 0, a_nan = - (2 ^ 53), a_add = (+), a_mul = (*), a_div = (div), a_sqrt = id\<rparr>"

section \<open>What vectors promise\<close>

text \<open>C36. Writing a weight into a vector: the binary search ends and finds the place of the term; a term
  the vector has gets the value of the function (or its error), another one is put where it
  belongs. The vector stays sorted and reads as the old one updated at this term.
\<close>
theorem upsert_is_update:
  assumes "ascending ps"
  shows "upsert A e t f (vector_of A ps) =
      Some (case map_of ps e of
              None \<Rightarrow> Inr (vector_of A (upd e t ps))
            | Some x \<Rightarrow> (case f x t of Inl err \<Rightarrow> Inl err | Inr y \<Rightarrow> Inr (vector_of A (upd e y ps))))
    \<and> ascending (upd e y ps) \<and> map_of (upd e y ps) = (map_of ps)(e \<mapsto> y)"
  using upsert_vector [OF assms] ascending_upd [OF assms] by simp

theorem upsert_is_update_witness:
  "upsert int_arith 5 1 (\<lambda>x t. Inr (x + t) :: string + int) (vector_of int_arith [(3, 7), (5, 2), (9, 4)])
     = Some (Inr (vector_of int_arith [(3, 7), (5, 3), (9, 4)]))"
  using upsert_is_update [of "[(3, 7), (5, 2), (9, 4)]" int_arith 5 1 "\<lambda>x t. Inr (x + t)", THEN conjunct1]
  by simp

text \<open>
  The product of two vectors, computed with two pointers, is the sum of the products of the
  weights of the terms that are in both, in ascending order of the terms.
\<close>
theorem dot_is_sum:
  assumes "ascending ps" and "ascending qs"
  shows "dot_vec A (vector_of A ps) (vector_of A qs) =
    fold (\<lambda>(k, x) t. case map_of qs k of None \<Rightarrow> t | Some y \<Rightarrow> a_add A t (a_mul A x y)) ps (a_zero A)"
  using dot_vectors [OF assms] by (simp add: common_product_def)

theorem dot_is_sum_witness:
  "dot_vec int_arith (vector_of int_arith [(1, 2), (4, 3), (6, 5)]) (vector_of int_arith [(4, 10), (5, 1), (6, 100)])
     = 530"
  using dot_is_sum [of "[(1, 2), (4, 3), (6, 5)]" "[(4, 10), (5, 1), (6, 100)]" int_arith]
  by (simp add: int_arith_def)

end
