(* ===== verification/LunrTokenSet.thy ===== *)
theory LunrTokenSet
  imports LunrQuery
begin

text \<open>
  \<open>lunr.TokenSet\<close> of \<open>javascripts/application.js\<close>: automata whose nodes are JavaScript objects
  that point to each other. The terms of the index form one of them, so does the pattern of a
  clause; their intersection yields the terms that match.

  \<^item> The objects live in a heap (\<open>ts_heap\<close>); a node's address is the number the constructor gives
    it (\<open>id\<close>, from \<open>lunr.TokenSet._nextId\<close>), so the counter of the source is the allocator.
    A node has the flag \<open>final\<close>, its edges in insertion order, and the cached string \<open>_str\<close>.
    Addresses without a node read as a node without edges; no operation reads one.
  \<^item> \<open>TokenSet.Builder\<close> builds the automaton of a sorted list of words: the nodes of the last
    word are \<open>unchecked\<close>; when the next word leaves them, each is replaced by a node with
    the same \<open>toString()\<close> if there is one among \<open>minimizedNodes\<close>.
  \<^item> \<open>fromString\<close> makes the automaton of a pattern in which \<open>*\<close> is any text (an edge from a node to
    itself), \<open>fromFuzzyString\<close> that of the words within some edits of a word.
  \<^item> \<open>intersect\<close> and \<open>toArray\<close> walk automata with a stack, here a list whose head is its top. They
    need not end on every heap.
\<close>

section \<open>Nodes\<close>

record tnode =
  ts_final :: bool
  ts_edges :: "(char \<times> nat) list"
  ts_str :: "string option"

record ts_heap =
  nodes :: "nat \<Rightarrow> tnode"
  next_id :: nat

definition empty_node :: tnode where
  "empty_node = \<lparr>ts_final = False, ts_edges = [], ts_str = None\<rparr>"

definition empty_heap :: ts_heap where
  "empty_heap = \<lparr>nodes = (\<lambda>_. empty_node), next_id = 1\<rparr>"

definition new_node :: "ts_heap \<Rightarrow> nat \<times> ts_heap" where
  "new_node h = (next_id h, h\<lparr>nodes := (nodes h)(next_id h := empty_node), next_id := next_id h + 1\<rparr>)"

definition upd_node :: "nat \<Rightarrow> (tnode \<Rightarrow> tnode) \<Rightarrow> ts_heap \<Rightarrow> ts_heap" where
  "upd_node i f h = h\<lparr>nodes := (nodes h)(i := f (nodes h i))\<rparr>"

definition set_final :: "nat \<Rightarrow> bool \<Rightarrow> ts_heap \<Rightarrow> ts_heap" where
  "set_final i b = upd_node i (ts_final_update (\<lambda>_. b))"

definition set_edge :: "nat \<Rightarrow> char \<Rightarrow> nat \<Rightarrow> ts_heap \<Rightarrow> ts_heap" where
  "set_edge i c j = upd_node i (ts_edges_update (AList.update c j))"

definition edge :: "ts_heap \<Rightarrow> nat \<Rightarrow> char \<Rightarrow> nat option" where
  "edge h i c = map_of (ts_edges (nodes h i)) c"

text \<open>\<open>Object.keys(node.edges)\<close>: digits are array indices and come first, in ascending order.\<close>

definition edge_keys :: "ts_heap \<Rightarrow> nat \<Rightarrow> char list" where
  "edge_keys h i =
     (let ks = map fst (ts_edges (nodes h i)) in sort (filter is_digit ks) @ filter (\<lambda>c. \<not> is_digit c) ks)"

text \<open>\<open>toString\<close>: the flag, then each edge with the number of the node it leads to.\<close>

definition node_string :: "ts_heap \<Rightarrow> nat \<Rightarrow> string" where
  "node_string h i =
     (if ts_final (nodes h i) then ''1'' else ''0'')
     @ concat (map (\<lambda>c. c # nat_str (the (edge h i c))) (sort (map fst (ts_edges (nodes h i)))))"

definition toString_ts :: "ts_heap \<Rightarrow> nat \<Rightarrow> string" where
  "toString_ts h i = (case ts_str (nodes h i) of Some s \<Rightarrow> s | None \<Rightarrow> node_string h i)"

section \<open>Building\<close>

record ts_builder =
  previousWord :: string
  bd_root :: nat
  uncheckedNodes :: "(nat \<times> char \<times> nat) list"
  minimizedNodes :: "(string \<times> nat) list"

definition new_builder :: "ts_heap \<Rightarrow> ts_builder \<times> ts_heap" where
  "new_builder h =
     (let (r, h) = new_node h
      in (\<lparr>previousWord = [], bd_root = r, uncheckedNodes = [], minimizedNodes = []\<rparr>, h))"

definition minimize_last :: "ts_builder \<times> ts_heap \<Rightarrow> ts_builder \<times> ts_heap" where
  "minimize_last = (\<lambda>(b, h).
     let (parent, c, child) = last (uncheckedNodes b);
         childKey = toString_ts h child;
         b' = b\<lparr>uncheckedNodes := butlast (uncheckedNodes b)\<rparr>
     in case map_of (minimizedNodes b) childKey of
          Some m \<Rightarrow> (b', set_edge parent c m h)
        | None \<Rightarrow>
            (b'\<lparr>minimizedNodes := AList.update childKey child (minimizedNodes b)\<rparr>,
             upd_node child (ts_str_update (\<lambda>_. Some childKey)) h))"

function minimize :: "nat \<Rightarrow> ts_builder \<times> ts_heap \<Rightarrow> ts_builder \<times> ts_heap" where
  "minimize downTo bh =
     (if length (uncheckedNodes (fst bh)) \<le> downTo then bh else minimize downTo (minimize_last bh))"
  by pat_completeness auto
termination
  by (relation "measure (\<lambda>(_, bh). length (uncheckedNodes (fst bh)))")
     (auto simp: minimize_last_def Let_def split: prod.splits option.splits)

declare minimize.simps [simp del]

fun common_prefix :: "string \<Rightarrow> string \<Rightarrow> nat" where
  "common_prefix (c # w) (d # v) = (if c = d then Suc (common_prefix w v) else 0)"
| "common_prefix _ _ = 0"

fun insert_chain :: "nat \<Rightarrow> string \<Rightarrow> ts_builder \<times> ts_heap \<Rightarrow> nat \<times> ts_builder \<times> ts_heap" where
  "insert_chain node [] (b, h) = (node, b, h)"
| "insert_chain node (c # cs) (b, h) =
     (let (nextNode, h) = new_node h;
          h = set_edge node c nextNode h;
          b = b\<lparr>uncheckedNodes := uncheckedNodes b @ [(node, c, nextNode)]\<rparr>
      in insert_chain nextNode cs (b, h))"

definition insert_word :: "string \<Rightarrow> ts_builder \<times> ts_heap \<Rightarrow> (ts_builder \<times> ts_heap) res" where
  "insert_word word bh =
     (if word < previousWord (fst bh) then Inl GenericError
      else
        let commonPrefix = common_prefix word (previousWord (fst bh));
            (b, h) = minimize commonPrefix bh;
            node = (if uncheckedNodes b = [] then bd_root b else snd (snd (last (uncheckedNodes b))));
            (node, b, h) = insert_chain node (drop commonPrefix word) (b, h)
        in Inr (b\<lparr>previousWord := word\<rparr>, set_final node True h))"

fun insert_words :: "string list \<Rightarrow> ts_builder \<times> ts_heap \<Rightarrow> (ts_builder \<times> ts_heap) res" where
  "insert_words [] bh = Inr bh"
| "insert_words (w # ws) bh = andThen (insert_word w bh) (insert_words ws)"

definition fromArray :: "string list \<Rightarrow> ts_heap \<Rightarrow> (nat \<times> ts_heap) res" where
  "fromArray ws h =
     andThen (insert_words ws (new_builder h)) (\<lambda>bh.
       let (b, h) = minimize 0 bh in Inr (bd_root b, h))"

section \<open>Patterns\<close>

fun fromString_loop :: "nat \<Rightarrow> string \<Rightarrow> ts_heap \<Rightarrow> ts_heap" where
  "fromString_loop node [] h = h"
| "fromString_loop node (c # cs) h =
     (let final = (cs = [])
      in if c = CHR ''*'' then fromString_loop node cs (set_final node final (set_edge node c node h))
         else let (nxt, h) = new_node h
              in fromString_loop nxt cs (set_edge node c nxt (set_final nxt final h)))"

definition fromString :: "string \<Rightarrow> ts_heap \<Rightarrow> nat \<times> ts_heap" where
  "fromString str h = (let (root, h) = new_node h in (root, fromString_loop root str h))"

text \<open>\<open>c in node.edges ? node.edges[c] : (node.edges[c] = new lunr.TokenSet)\<close>\<close>

definition edge_or_new :: "nat \<Rightarrow> char \<Rightarrow> ts_heap \<Rightarrow> nat \<times> ts_heap" where
  "edge_or_new i c h =
     (case edge h i c of
        Some j \<Rightarrow> (j, h)
      | None \<Rightarrow> let (j, h) = new_node h in (j, set_edge i c j h))"

definition final_if :: "bool \<Rightarrow> nat \<Rightarrow> ts_heap \<Rightarrow> ts_heap" where
  "final_if b i h = (if b then set_final i True h else h)"

type_synonym fuzzy_frame = "nat \<times> nat \<times> string"

fun no_edit :: "fuzzy_frame \<Rightarrow> fuzzy_frame list \<times> ts_heap \<Rightarrow> fuzzy_frame list \<times> ts_heap" where
  "no_edit (node, edits, []) sh = sh"
| "no_edit (node, edits, c # cs) (st, h) =
     (let (noEditNode, h) = edge_or_new node c h
      in ((noEditNode, edits, cs) # st, final_if (cs = []) noEditNode h))"

fun insertion :: "fuzzy_frame \<Rightarrow> fuzzy_frame list \<times> ts_heap \<Rightarrow> fuzzy_frame list \<times> ts_heap" where
  "insertion (node, edits, str) (st, h) =
     (let (insertionNode, h) = edge_or_new node (CHR ''*'') h
      in ((insertionNode, edits - 1, str) # st, final_if (str = []) insertionNode h))"

fun deletion :: "fuzzy_frame \<Rightarrow> fuzzy_frame list \<times> ts_heap \<Rightarrow> fuzzy_frame list \<times> ts_heap" where
  "deletion (node, edits, str) (st, h) =
     (if 1 < length str then (node, edits - 1, tl str) # st else st, final_if (length str = 1) node h)"

fun substitution :: "fuzzy_frame \<Rightarrow> fuzzy_frame list \<times> ts_heap \<Rightarrow> fuzzy_frame list \<times> ts_heap" where
  "substitution (node, edits, []) sh = sh"
| "substitution (node, edits, c # cs) (st, h) =
     (let (substitutionNode, h) = edge_or_new node (CHR ''*'') h
      in ((substitutionNode, edits - 1, cs) # st, final_if (cs = []) substitutionNode h))"

fun transposition :: "fuzzy_frame \<Rightarrow> fuzzy_frame list \<times> ts_heap \<Rightarrow> fuzzy_frame list \<times> ts_heap" where
  "transposition (node, edits, charA # charB # cs) (st, h) =
     (let (transposeNode, h) = edge_or_new node charB h
      in ((transposeNode, edits - 1, charA # cs) # st, h))"
| "transposition _ sh = sh"

definition fuzzy_visit :: "fuzzy_frame \<Rightarrow> fuzzy_frame list \<times> ts_heap \<Rightarrow> fuzzy_frame list \<times> ts_heap" where
  "fuzzy_visit fr sh =
     (let sh = no_edit fr sh
      in if fst (snd fr) = 0 then sh
         else transposition fr (substitution fr (deletion fr (insertion fr sh))))"

partial_function (option) fuzzy_loop :: "fuzzy_frame list \<Rightarrow> ts_heap \<Rightarrow> ts_heap option" where
  "fuzzy_loop st h =
     (case st of [] \<Rightarrow> Some h | fr # st' \<Rightarrow> (let (st'', h') = fuzzy_visit fr (st', h) in fuzzy_loop st'' h'))"

definition fromFuzzyString :: "string \<Rightarrow> nat \<Rightarrow> ts_heap \<Rightarrow> (nat \<times> ts_heap) option" where
  "fromFuzzyString str editDistance h =
     (let (root, h) = new_node h in map_option (Pair root) (fuzzy_loop [(root, editDistance, str)] h))"

definition fromClause :: "clause \<Rightarrow> ts_heap \<Rightarrow> (nat \<times> ts_heap) option" where
  "fromClause c h =
     (case cl_editDistance c of
        Some n \<Rightarrow> fromFuzzyString (cl_term c) n h
      | None \<Rightarrow> Some (fromString (cl_term c) h))"

section \<open>Walking\<close>

partial_function (option) toArray_loop ::
    "ts_heap \<Rightarrow> (string \<times> nat) list \<Rightarrow> string list \<Rightarrow> string list option" where
  "toArray_loop h st words =
     (case st of
        [] \<Rightarrow> Some words
      | (prefix, node) # st' \<Rightarrow>
          toArray_loop h (rev (map (\<lambda>c. (prefix @ [c], the (edge h node c))) (edge_keys h node)) @ st')
            (words @ (if ts_final (nodes h node) then [prefix] else [])))"

definition toArray_ts :: "ts_heap \<Rightarrow> nat \<Rightarrow> string list option" where
  "toArray_ts h i = toArray_loop h [([], i)] []"

type_synonym intersect_frame = "nat \<times> nat \<times> nat"

definition intersect_pair ::
    "intersect_frame \<Rightarrow> char \<times> char \<Rightarrow> intersect_frame list \<times> ts_heap \<Rightarrow> intersect_frame list \<times> ts_heap" where
  "intersect_pair = (\<lambda>(q, out, n) (qEdge, nEdge) (st, h).
     if nEdge = qEdge \<or> qEdge = CHR ''*'' then
       let node = the (edge h n nEdge);
           qNode = the (edge h q qEdge);
           final = (ts_final (nodes h node) \<and> ts_final (nodes h qNode));
           (nxt, h) =
             (case edge h out nEdge of
                Some m \<Rightarrow> (m, set_final m (ts_final (nodes h m) \<or> final) h)
              | None \<Rightarrow>
                  let (m, h) = new_node h in (m, set_edge out nEdge m (set_final m final h)))
       in ((qNode, nxt, node) # st, h)
     else (st, h))"

definition intersect_visit ::
    "intersect_frame \<Rightarrow> intersect_frame list \<times> ts_heap \<Rightarrow> intersect_frame list \<times> ts_heap" where
  "intersect_visit = (\<lambda>(q, out, n) (st, h).
     fold (intersect_pair (q, out, n)) (List.product (edge_keys h q) (edge_keys h n)) (st, h))"

partial_function (option) intersect_walk :: "intersect_frame list \<Rightarrow> ts_heap \<Rightarrow> ts_heap option" where
  "intersect_walk st h =
     (case st of
        [] \<Rightarrow> Some h
      | fr # st' \<Rightarrow> (let (st'', h') = intersect_visit fr (st', h) in intersect_walk st'' h'))"

definition intersect_ts :: "nat \<Rightarrow> nat \<Rightarrow> ts_heap \<Rightarrow> (nat \<times> ts_heap) option" where
  "intersect_ts this b h =
     (let (output, h) = new_node h in map_option (Pair output) (intersect_walk [(b, output, this)] h))"

text \<open>The lookup in \<open>lunr.Index.query\<close>: the terms of the index that match a clause.\<close>

definition expandedTerms :: "nat \<Rightarrow> clause \<Rightarrow> ts_heap \<Rightarrow> (string list \<times> ts_heap) option" where
  "expandedTerms tokenSet c h =
     (case fromClause c h of
        None \<Rightarrow> None
      | Some (termTokenSet, h) \<Rightarrow>
          (case intersect_ts tokenSet termTokenSet h of
             None \<Rightarrow> None
           | Some (out, h) \<Rightarrow> map_option (\<lambda>ws. (ws, h)) (toArray_ts h out)))"

end
