(* ===== verification/LunrIndex.thy ===== *)
theory LunrIndex
  imports LunrText LunrVector LunrTokenSet
begin

text \<open>
  The index of lunr and its queries (\<open>application.js\<close>: \<open>lunr.MatchData\<close>, \<open>lunr.Index\<close>,
  \<open>lunr.Query.prototype.term\<close>).

  \<^item> An index has, for every term, a posting: the number of the term and, per field, the
    documents with the term and what is known about its occurrences there. It further has a
    vector per field of a document, the token set of its terms (an automaton in the heap of
    \<open>LunrTokenSet\<close>), its fields, and the pipeline that queries go through.
  \<^item> Objects with keys are association lists in the order of their keys. A posting keeps the
    number of the term in the same object as the fields: a field named \<open>_index\<close>, which would
    overwrite it, is outside the model.
  \<^item> A computation of type \<open>'a run\<close> may fail with a \<open>lunr_error\<close>, or (\<open>None\<close>) not return: a
    query looks up terms by loops that are partial functions.
  \<^item> \<open>index_query\<close> gets the query as its function has left it. The loops over clauses, tokens,
    terms and fields are \<open>query_clause\<close>, \<open>query_tokens\<close>, \<open>query_term\<close> and \<open>query_field\<close>, with the
    variables of the code in \<open>qstate\<close>. The objects for results are updated in place in the list
    of results, where their references are different.
  \<^item> The metadata of a posting are shared with the results in the code. No two matches of a
    query write to the same place, so they are values here.
\<close>

section \<open>Computations that may fail or not return\<close>

datatype lunr_error =
    LTypeError
  | LError
  | LText string
  | LParse parse_error

type_synonym 'a run = "(lunr_error + 'a) option"

abbreviation ret :: "'a \<Rightarrow> 'a run" where "ret x \<equiv> Some (Inr x)"
abbreviation fail :: "lunr_error \<Rightarrow> 'a run" where "fail e \<equiv> Some (Inl e)"

definition then_run :: "'a run \<Rightarrow> ('a \<Rightarrow> 'b run) \<Rightarrow> 'b run" where
  "then_run r f =
     (case r of None \<Rightarrow> None | Some (Inl e) \<Rightarrow> fail e | Some (Inr x) \<Rightarrow> f x)"

lemma then_run_simps [simp]:
  "then_run None f = None"
  "then_run (fail e) f = fail e"
  "then_run (ret x) f = f x"
  by (simp_all add: then_run_def)

fun fold_run :: "('a \<Rightarrow> 's \<Rightarrow> 's run) \<Rightarrow> 'a list \<Rightarrow> 's \<Rightarrow> 's run" where
  "fold_run f [] s = ret s"
| "fold_run f (x # xs) s = then_run (f x s) (fold_run f xs)"

text \<open>A member of something that may be undefined.\<close>

definition need :: "'a option \<Rightarrow> 'a run" where
  "need x = (case x of None \<Rightarrow> fail LTypeError | Some y \<Rightarrow> ret y)"

lemma need_simps [simp]: "need None = fail LTypeError" "need (Some y) = ret y"
  by (simp_all add: need_def)

section \<open>Match data\<close>

type_synonym term_meta = "(string \<times> meta option list) list"
type_synonym matchdata = "(string \<times> (string \<times> term_meta) list) list"

definition new_matchdata :: "(string \<times> string \<times> term_meta) option \<Rightarrow> matchdata" where
  "new_matchdata a = (case a of None \<Rightarrow> [] | Some (e, t, n) \<Rightarrow> [(e, [(t, n)])])"

text \<open>\<open>if (null == o[k]) o[k] = {}\<close>, then change \<open>o[k]\<close>.\<close>

definition change_member :: "string \<Rightarrow> ((string \<times> 'a) list \<Rightarrow> (string \<times> 'a) list) \<Rightarrow>
    (string \<times> (string \<times> 'a) list) list \<Rightarrow> (string \<times> (string \<times> 'a) list) list" where
  "change_member k f t = AList.update k (f (case map_of t k of None \<Rightarrow> [] | Some m \<Rightarrow> m)) t"

definition concat_member :: "string \<times> 'a list \<Rightarrow> (string \<times> 'a list) list \<Rightarrow> (string \<times> 'a list) list" where
  "concat_member lx t =
     (case lx of (l, xs) \<Rightarrow>
        AList.update l (case map_of t l of None \<Rightarrow> xs | Some ys \<Rightarrow> ys @ xs) t)"

definition combine_matchdata :: "matchdata \<Rightarrow> matchdata \<Rightarrow> matchdata" where
  "combine_matchdata e this =
     fold (\<lambda>(r, fs). change_member r
            (fold (\<lambda>(a, m). change_member a (fold concat_member m)) fs)) e this"

definition add_matchdata :: "string \<Rightarrow> string \<Rightarrow> term_meta \<Rightarrow> matchdata \<Rightarrow> matchdata" where
  "add_matchdata e t n this =
     (case map_of this e of
        None \<Rightarrow> AList.update e [(t, n)] this
      | Some fs \<Rightarrow>
          AList.update e
            (case map_of fs t of
               Some m \<Rightarrow> AList.update t (fold concat_member n m) fs
             | None \<Rightarrow> AList.update t n fs) this)"

section \<open>Clauses of several terms\<close>

text \<open>\<open>query.term(e, options)\<close>: one clause, or one per element of an array.\<close>

definition query_term_clause :: "string \<Rightarrow> clause \<Rightarrow> lunr_query \<Rightarrow> lunr_query" where
  "query_term_clause e t q = clause_add (t\<lparr>cl_term := e\<rparr>) q"

definition query_terms :: "string list \<Rightarrow> clause \<Rightarrow> lunr_query \<Rightarrow> lunr_query" where
  "query_terms es t q = fold (\<lambda>e. query_term_clause e t) es q"

section \<open>The index\<close>

record posting =
  p_index :: nat
  p_fields :: "(string \<times> (string \<times> term_meta) list) list"

record ('v, 'f) lunr_index =
  ix_invertedIndex :: "(string \<times> posting) list"
  ix_fieldVectors :: "(string \<times> 'v vector) list"
  ix_tokenSet :: nat
  ix_fields :: "string list"
  ix_pipeline :: "'f list"

record 'v lunr_result =
  lr_ref :: string
  lr_score :: 'v
  lr_matchData :: matchdata

text \<open>\<open>n\<close>, \<open>r\<close>, \<open>i\<close>, \<open>o\<close>, \<open>a\<close> and \<open>u\<close> of the code.\<close>

record 'v qstate =
  qs_matching :: "(string \<times> matchdata) list"
  qs_vectors :: "(string \<times> 'v vector) list"
  qs_cache :: "string list"
  qs_required :: "(string \<times> lset) list"
  qs_prohibited :: "(string \<times> lset) list"
  qs_clause :: lset

text \<open>Whole numbers as numbers, and the further functions of the builder.\<close>

record 'v numbers = "'v arith" +
  a_num :: "int \<Rightarrow> 'v"
  a_sub :: "'v \<Rightarrow> 'v \<Rightarrow> 'v"
  a_abs :: "'v \<Rightarrow> 'v"
  a_log :: "'v \<Rightarrow> 'v"
  a_round :: "'v \<Rightarrow> 'v"

definition boost_of :: "'v numbers \<Rightarrow> clause \<Rightarrow> 'v" where
  "boost_of A c = (case cl_boost c of None \<Rightarrow> a_nan A | Some b \<Rightarrow> a_num A b)"

abbreviation arith_of :: "'v numbers \<Rightarrow> 'v arith" where
  "arith_of A \<equiv> arith.truncate A"

section \<open>Queries\<close>

definition add_matches ::
    "string \<Rightarrow> string \<Rightarrow> (string \<times> term_meta) list \<Rightarrow> (string \<times> matchdata) list \<Rightarrow> (string \<times> matchdata) list" where
  "add_matches v Q docs n =
     fold (\<lambda>(T, R) n.
        let L = toString_ref (FieldRef T Q)
        in case map_of n L of
             None \<Rightarrow> AList.update L (new_matchdata (Some (v, Q, R))) n
           | Some S \<Rightarrow> AList.update L (add_matchdata v Q R S) n) docs n"

definition query_field ::
    "'v::linorder numbers \<Rightarrow> clause \<Rightarrow> string \<Rightarrow> posting \<Rightarrow> string \<Rightarrow> 'v qstate \<Rightarrow> 'v qstate run" where
  "query_field A c v g Q st =
     then_run (need (map_of (p_fields g) Q)) (\<lambda>docs.
       let x = v @ [joiner] @ Q;
           b = new_set (map fst docs);
           st = (if cl_presence c = Some REQUIRED
                 then st\<lparr>qs_clause := union_set (qs_clause st) b,
                         qs_required := (if map_of (qs_required st) Q = None
                                         then AList.update Q Complete (qs_required st)
                                         else qs_required st)\<rparr>
                 else st)
       in if cl_presence c \<noteq> Some PROHIBITED then
            then_run (need (map_of (qs_vectors st) Q)) (\<lambda>vec.
            then_run (upsert (arith_of A) (a_num A (int (p_index g))) (boost_of A c)
                        (\<lambda>e t. Inr (a_add A e t)) vec) (\<lambda>vec.
              let st = st\<lparr>qs_vectors := AList.update Q vec (qs_vectors st)\<rparr>
              in ret (if x \<in> set (qs_cache st) then st
                      else st\<lparr>qs_matching := add_matches v Q docs (qs_matching st),
                              qs_cache := x # qs_cache st\<rparr>)))
          else
            ret (st\<lparr>qs_prohibited :=
               AList.update Q
                 (union_set (case map_of (qs_prohibited st) Q of None \<Rightarrow> Empty_set | Some s \<Rightarrow> s) b)
                 (qs_prohibited st)\<rparr>))"

definition query_term ::
    "'v::linorder numbers \<Rightarrow> ('v, 'f) lunr_index \<Rightarrow> clause \<Rightarrow> string \<Rightarrow> 'v qstate \<Rightarrow> 'v qstate run" where
  "query_term A ix c v st =
     then_run (need (map_of (ix_invertedIndex ix) v)) (\<lambda>g.
     then_run (need (cl_fields c)) (\<lambda>Qs.
       fold_run (query_field A c v g) Qs st))"

fun query_tokens ::
    "'v::linorder numbers \<Rightarrow> ('v, 'f) lunr_index \<Rightarrow> clause \<Rightarrow> string list \<Rightarrow> 'v qstate \<times> ts_heap \<Rightarrow>
     ('v qstate \<times> ts_heap) run" where
  "query_tokens A ix c [] (st, h) = ret (st, h)"
| "query_tokens A ix c (d # ds) (st, h) =
     (let c = c\<lparr>cl_term := d\<rparr> in
      case expandedTerms (ix_tokenSet ix) c h of
        None \<Rightarrow> None
      | Some (p, h) \<Rightarrow>
          if p = [] \<and> cl_presence c = Some REQUIRED then
            then_run (need (cl_fields c)) (\<lambda>Qs.
              ret (st\<lparr>qs_required := fold (\<lambda>Q. AList.update Q Empty_set) Qs (qs_required st)\<rparr>, h))
          else
            then_run (fold_run (query_term A ix c) p st) (\<lambda>st. query_tokens A ix c ds (st, h)))"

definition clause_tokens :: "'f actions \<Rightarrow> 'f list \<Rightarrow> clause \<Rightarrow> string list" where
  "clause_tokens act pipeline c =
     (if cl_usePipeline c = Some True
      then runString act pipeline (cl_term c)
             [(''fields'', MFields (case cl_fields c of None \<Rightarrow> [] | Some fs \<Rightarrow> fs))]
      else [cl_term c])"

text \<open>\<open>o[Q] = o[Q].intersect(u)\<close>.\<close>

definition require_field :: "string \<Rightarrow> 'v qstate \<Rightarrow> 'v qstate run" where
  "require_field Q st =
     then_run (need (map_of (qs_required st) Q)) (\<lambda>s.
       ret (st\<lparr>qs_required := AList.update Q (intersect_set s (qs_clause st)) (qs_required st)\<rparr>))"

definition query_clause ::
    "'v::linorder numbers \<Rightarrow> 'f actions \<Rightarrow> ('v, 'f) lunr_index \<Rightarrow> clause \<Rightarrow> 'v qstate \<times> ts_heap \<Rightarrow>
     ('v qstate \<times> ts_heap) run" where
  "query_clause A act ix c sh =
     then_run
       (query_tokens A ix c (clause_tokens act (ix_pipeline ix) c) ((fst sh)\<lparr>qs_clause := Complete\<rparr>, snd sh))
       (\<lambda>(st, h).
         if cl_presence c = Some REQUIRED then
           then_run (need (cl_fields c)) (\<lambda>Qs.
           then_run (fold_run require_field Qs st) (\<lambda>st. ret (st, h)))
         else ret (st, h))"

text \<open>The documents that every required clause allows and those that a prohibited one forbids.\<close>

definition all_required :: "string list \<Rightarrow> (string \<times> lset) list \<Rightarrow> lset" where
  "all_required Qs req =
     fold (\<lambda>Q O'. case map_of req Q of None \<Rightarrow> O' | Some s \<Rightarrow> intersect_set O' s) Qs Complete"

definition all_prohibited :: "string list \<Rightarrow> (string \<times> lset) list \<Rightarrow> lset" where
  "all_prohibited Qs pro =
     fold (\<lambda>Q C. case map_of pro Q of None \<Rightarrow> C | Some s \<Rightarrow> union_set C s) Qs Empty_set"

definition parse_ref :: "string \<Rightarrow> fieldref run" where
  "parse_ref s = (case fromString_ref s of Inl t \<Rightarrow> fail (LText t) | Inr r \<Rightarrow> ret r)"

text \<open>A negated query starts from all fields of all documents.\<close>

definition match_all :: "string list \<Rightarrow> (string \<times> matchdata) list \<Rightarrow> (string \<times> matchdata) list run" where
  "match_all P n =
     fold_run (\<lambda>L n. then_run (parse_ref L) (\<lambda>_. ret (AList.update L (new_matchdata None) n))) P n"

definition score_field ::
    "'v::linorder numbers \<Rightarrow> ('v, 'f) lunr_index \<Rightarrow> lset \<Rightarrow> lset \<Rightarrow> (string \<times> matchdata) list \<Rightarrow> string \<Rightarrow>
     'v lunr_result list \<times> (string \<times> 'v vector) list \<Rightarrow>
     ('v lunr_result list \<times> (string \<times> 'v vector) list) run" where
  "score_field A ix O' C n L rv =
     then_run (parse_ref L) (\<lambda>M.
       let N = fr_docRef M; (results, r) = rv in
       if contains O' N \<and> \<not> contains C N then
         then_run (need (map_of r (fr_fieldName M))) (\<lambda>q.
         then_run (need (map_of (ix_fieldVectors ix) (toString_ref M))) (\<lambda>F.
         then_run (need (map_of n (toString_ref M))) (\<lambda>m.
           let (H, q) = similarity (arith_of A) q F;
               r = AList.update (fr_fieldName M) q r
           in ret
             (if N \<in> lr_ref ` set results
              then map (\<lambda>j. if lr_ref j = N
                     then j\<lparr>lr_score := a_add A (lr_score j) H,
                            lr_matchData := combine_matchdata m (lr_matchData j)\<rparr>
                     else j) results
              else results @ [\<lparr>lr_ref = N, lr_score = H, lr_matchData = m\<rparr>], r))))
       else ret (results, r))"

definition new_qstate :: "'v numbers \<Rightarrow> string list \<Rightarrow> 'v qstate" where
  "new_qstate A Qs =
     \<lparr>qs_matching = [],
      qs_vectors = fold (\<lambda>Q. AList.update Q (new_vector (arith_of A) [])) Qs [],
      qs_cache = [], qs_required = [], qs_prohibited = [], qs_clause = Complete\<rparr>"

definition index_query ::
    "'v::linorder numbers \<Rightarrow> 'f actions \<Rightarrow> ('v, 'f) lunr_index \<Rightarrow> lunr_query \<Rightarrow> ts_heap \<Rightarrow>
     ('v lunr_result list \<times> ts_heap) run" where
  "index_query A act ix t h =
     then_run (fold_run (query_clause A act ix) (q_clauses t) (new_qstate A (ix_fields ix), h)) (\<lambda>(st, h).
       let O' = all_required (ix_fields ix) (qs_required st);
           C = all_prohibited (ix_fields ix) (qs_prohibited st);
           P = (if isNegated t then map fst (ix_fieldVectors ix) else map fst (qs_matching st))
       in then_run (if isNegated t then match_all P (qs_matching st) else ret (qs_matching st)) (\<lambda>n.
          then_run (fold_run (score_field A ix O' C n) P ([], qs_vectors st)) (\<lambda>(results, r).
            ret (sort_by (\<lambda>e t. lr_score t \<le> lr_score e) results, h))))"

definition index_search ::
    "'v::linorder numbers \<Rightarrow> 'f actions \<Rightarrow> ('v, 'f) lunr_index \<Rightarrow> string \<Rightarrow> ts_heap \<Rightarrow>
     ('v lunr_result list \<times> ts_heap) run" where
  "index_search A act ix s h =
     (case query_parse s \<lparr>q_clauses = [], q_allFields = ix_fields ix\<rparr> of
        None \<Rightarrow> None
      | Some (Inl e) \<Rightarrow> fail (LParse e)
      | Some (Inr q) \<Rightarrow> index_query A act ix q h)"

end
