(* ===== verification/LunrTokenSetBuild.thy ===== *)
theory LunrTokenSetBuild
  imports LunrTokenSet
begin

text \<open>
  Building a token set: the automaton \<open>fromArray\<close> makes of a sorted list of words accepts exactly
  these words, as long as no word has a digit in it. \<open>building\<close> is the invariant of the builder:
  the nodes of the last word form a path (\<open>chain\<close>) that nothing else points to, every other edge
  leads to a minimized node, and minimized nodes are kept under their own string.
\<close>

section \<open>Languages and strings of nodes\<close>

fun accepts :: "ts_heap \<Rightarrow> nat \<Rightarrow> string \<Rightarrow> bool" where
  "accepts h i [] = ts_final (nodes h i)"
| "accepts h i (c # w) = (case edge h i c of None \<Rightarrow> False | Some j \<Rightarrow> accepts h j w)"

inductive grounded :: "ts_heap \<Rightarrow> nat \<Rightarrow> bool" for h where
  grounded: "(\<And>c j. edge h i c = Some j \<Longrightarrow> grounded h j) \<Longrightarrow> grounded h i"

definition same_at :: "nat set \<Rightarrow> ts_heap \<Rightarrow> ts_heap \<Rightarrow> bool" where
  "same_at R h h' \<longleftrightarrow> (\<forall>i \<in> R. nodes h' i = nodes h i)"

definition closed_in :: "ts_heap \<Rightarrow> nat set \<Rightarrow> bool" where
  "closed_in h R \<longleftrightarrow> (\<forall>i \<in> R. \<forall>c j. edge h i c = Some j \<longrightarrow> j \<in> R)"

lemma closed_inD: "closed_in h R \<Longrightarrow> i \<in> R \<Longrightarrow> edge h i c = Some j \<Longrightarrow> j \<in> R"
  by (auto simp: closed_in_def)

lemma same_at_edge: "same_at R h h' \<Longrightarrow> i \<in> R \<Longrightarrow> edge h' i c = edge h i c"
  by (simp add: same_at_def edge_def)

lemma accepts_frame:
  "closed_in h R \<Longrightarrow> same_at R h h' \<Longrightarrow> i \<in> R \<Longrightarrow> accepts h' i w = accepts h i w"
proof (induction w arbitrary: i)
  case Nil
  then show ?case by (simp add: same_at_def)
next
  case (Cons c w)
  then show ?case by (auto simp: same_at_edge split: option.split dest: closed_inD)
qed

lemma grounded_frame:
  "grounded h i \<Longrightarrow> closed_in h R \<Longrightarrow> same_at R h h' \<Longrightarrow> i \<in> R \<Longrightarrow> grounded h' i"
proof (induction rule: grounded.induct)
  case (grounded i)
  show ?case
  proof (rule grounded.grounded)
    fix c j assume "edge h' i c = Some j"
    with grounded.prems have "edge h i c = Some j" by (simp add: same_at_edge)
    with grounded.IH [OF this] grounded.prems show "grounded h' j" by (blast dest: closed_inD)
  qed
qed

lemma closed_frame: "closed_in h R \<Longrightarrow> same_at R h h' \<Longrightarrow> closed_in h' R"
  by (auto simp: closed_in_def same_at_edge)

lemma node_string_frame: "nodes h' i = nodes h i \<Longrightarrow> node_string h' i = node_string h i"
  by (simp add: node_string_def edge_def)

lemma nodes_upd [simp]: "nodes (upd_node i f h) = (nodes h)(i := f (nodes h i))"
  by (simp add: upd_node_def)

lemma next_upd [simp]: "next_id (upd_node i f h) = next_id h"
  by (simp add: upd_node_def)

lemma edge_set_edge: "edge (set_edge i c j h) i' c' = (if i' = i \<and> c' = c then Some j else edge h i' c')"
  by (simp add: edge_def set_edge_def)

lemma edge_final [simp]: "edge (set_final i b h) = edge h"
  by (rule ext)+ (simp add: edge_def set_final_def)

lemma edge_str [simp]: "edge (upd_node i (ts_str_update f) h) = edge h"
  by (rule ext)+ (simp add: edge_def)

lemma final_set_edge [simp]: "ts_final (nodes (set_edge i c j h) k) = ts_final (nodes h k)"
  by (simp add: set_edge_def)

lemma final_set_final: "ts_final (nodes (set_final i b h) k) = (if k = i then b else ts_final (nodes h k))"
  by (simp add: set_final_def)

lemma final_str [simp]: "ts_final (nodes (upd_node i (ts_str_update f) h) k) = ts_final (nodes h k)"
  by simp

lemma next_sets [simp]: "next_id (set_edge i c j h) = next_id h" "next_id (set_final i b h) = next_id h"
  by (simp_all add: set_edge_def set_final_def)

lemma accepts_same_edges:
  assumes "\<And>i c. edge h' i c = edge h i c" and "\<And>i. ts_final (nodes h' i) = ts_final (nodes h i)"
  shows "accepts h' i w = accepts h i w"
  by (induction w arbitrary: i) (simp_all add: assms split: option.split)

text \<open>Redirecting an edge to a node with the same language changes no language.\<close>

lemma accepts_redirect:
  assumes "edge h p c = Some m" and same: "\<And>w. accepts h m' w = accepts h m w"
  shows "accepts (set_edge p c m' h) i w = accepts h i w"
proof (induction w arbitrary: i)
  case Nil
  then show ?case by simp
next
  case (Cons d w)
  then show ?case
    using assms(1) same [of w] by (auto simp: edge_set_edge split: option.split)
qed

text \<open>The string of a node determines its edges if their characters are no digits.\<close>

definition edge_code :: "(char \<times> nat) list \<Rightarrow> string" where
  "edge_code es = concat (map (\<lambda>(c, n). c # nat_str n) es)"

lemma digits_split:
  assumes "nat_str m @ r = nat_str n @ s"
    and "r = [] \<or> \<not> is_digit (hd r)" and "s = [] \<or> \<not> is_digit (hd s)"
  shows "m = n \<and> r = s"
proof -
  have *: "takeWhile is_digit (nat_str k @ t) = nat_str k" if "t = [] \<or> \<not> is_digit (hd t)" for k t
    using nat_str_digits [of k] that
    by (cases t) (auto simp: list_all_iff takeWhile_append)
  have "nat_str m = nat_str n"
    using *[OF assms(2), of m] *[OF assms(3), of n] assms(1) by simp
  with assms(1) show ?thesis by simp
qed

lemma edge_code_inject:
  "edge_code es = edge_code fs \<Longrightarrow> list_all (\<lambda>(c, n). \<not> is_digit c) es \<Longrightarrow>
     list_all (\<lambda>(c, n). \<not> is_digit c) fs \<Longrightarrow> es = fs"
proof (induction es arbitrary: fs)
  case Nil
  then show ?case by (cases fs) (auto simp: edge_code_def)
next
  case (Cons e es)
  obtain c m where e: "e = (c, m)" by (cases e)
  with Cons.prems(1) obtain d n fs' where f: "fs = (d, n) # fs'"
    by (cases fs) (auto simp: edge_code_def)
  have start: "edge_code gs = [] \<or> \<not> is_digit (hd (edge_code gs))"
    if "list_all (\<lambda>(c, n). \<not> is_digit c) gs" for gs
    using that by (cases gs) (auto simp: edge_code_def)
  have "c = d" "nat_str m @ edge_code es = nat_str n @ edge_code fs'"
    using Cons.prems(1) by (simp_all add: e f edge_code_def)
  moreover from this(2) have "m = n \<and> edge_code es = edge_code fs'"
    using Cons.prems by (intro digits_split start) (simp_all add: e f)
  ultimately show ?case using Cons.IH [of fs'] Cons.prems by (simp add: e f)
qed

definition plain_edges :: "ts_heap \<Rightarrow> nat \<Rightarrow> bool" where
  "plain_edges h i \<longleftrightarrow> (\<forall>c j. edge h i c = Some j \<longrightarrow> \<not> is_digit c)"

lemma node_string_inject:
  assumes "node_string h i = node_string h j" and "plain_edges h i" and "plain_edges h j"
  shows "ts_final (nodes h i) = ts_final (nodes h j) \<and> edge h i = edge h j"
proof -
  define es where "es = (\<lambda>k. map (\<lambda>c. (c, the (edge h k c))) (sort (map fst (ts_edges (nodes h k)))))"
  have str: "node_string h k = (if ts_final (nodes h k) then ''1'' else ''0'') @ edge_code (es k)" for k
    by (simp add: node_string_def edge_code_def es_def comp_def)
  have plain: "list_all (\<lambda>(c, n). \<not> is_digit c) (es k)" if "plain_edges h k" for k
    using that by (fastforce simp: es_def list_all_iff plain_edges_def edge_def dest: weak_map_of_SomeI)
  have keys: "edge h k c = None \<longleftrightarrow> c \<notin> fst ` set (es k)" for k c
    by (simp add: es_def edge_def map_of_eq_None_iff image_image)
  have vals: "(c, n) \<in> set (es k) \<Longrightarrow> edge h k c = Some n" for k c n
    by (auto simp: es_def edge_def dest: map_of_eq_None_iff [THEN iffD1])
      (metis map_of_eq_None_iff option.collapse image_eqI fst_conv not_None_eq)
  have "ts_final (nodes h i) = ts_final (nodes h j)" "edge_code (es i) = edge_code (es j)"
    using assms(1) by (auto simp: str split: if_splits)
  moreover from this(2) have eq: "es i = es j"
    using plain assms(2,3) by (intro edge_code_inject)
  moreover have "edge h i c = edge h j c" for c
  proof (cases "edge h i c")
    case None
    then show ?thesis using keys [of i c] keys [of j c] eq by simp
  next
    case (Some n)
    then have "c \<in> fst ` set (es i)" using keys [of i c] by auto
    then obtain n' where "(c, n') \<in> set (es i)" by auto
    then show ?thesis using vals [of c n' i] vals [of c n' j] eq by simp
  qed
  ultimately show ?thesis by auto
qed

section \<open>The builder's invariant\<close>

type_synonym open_path = "(nat \<times> char \<times> nat) list"

fun chain :: "nat \<Rightarrow> open_path \<Rightarrow> bool" where
  "chain r [] = True"
| "chain r ((p, c, m) # us) = (p = r \<and> chain m us)"

definition spine :: "nat \<Rightarrow> open_path \<Rightarrow> nat list" where
  "spine r us = r # map (snd \<circ> snd) us"

definition end_of :: "nat \<Rightarrow> open_path \<Rightarrow> nat" where
  "end_of r us = last (spine r us)"

definition word_of_path :: "open_path \<Rightarrow> string" where
  "word_of_path us = map (fst \<circ> snd) us"

lemma spine_simps [simp]:
  "spine r [] = [r]"
  "spine r ((p, c, m) # us) = r # spine m us"
  "spine r (us @ [(p, c, m)]) = spine r us @ [m]"
  by (simp_all add: spine_def)

lemma end_of_simps [simp]:
  "end_of r [] = r"
  "end_of r ((p, c, m) # us) = end_of m us"
  "end_of r (us @ [(p, c, m)]) = m"
  by (simp_all add: end_of_def spine_def)

lemma end_of_code: "end_of r us = (if us = [] then r else snd (snd (last us)))"
  by (simp add: end_of_def spine_def last_map)

lemma chain_snoc [simp]: "chain r (us @ [(p, c, m)]) \<longleftrightarrow> chain r us \<and> p = end_of r us"
  by (induction us arbitrary: r) auto

lemma end_in_spine [simp]: "end_of r us \<in> set (spine r us)"
  unfolding end_of_def by (rule last_in_set) (simp add: spine_def)

definition path_ok :: "ts_heap \<Rightarrow> nat set \<Rightarrow> open_path \<Rightarrow> bool" where
  "path_ok h R us \<longleftrightarrow>
     (\<forall>p c m. (p, c, m) \<in> set us \<longrightarrow> edge h p c = Some m \<and>
        (\<forall>c' j. edge h p c' = Some j \<longrightarrow> c' = c \<or> j \<in> R \<and> c' < c))"

definition keyed :: "ts_heap \<Rightarrow> (string \<Rightarrow> nat option) \<Rightarrow> bool" where
  "keyed h mm \<longleftrightarrow> (\<forall>s m. mm s = Some m \<longrightarrow> node_string h m = s)"

abbreviation minimized :: "ts_builder \<Rightarrow> nat set" where
  "minimized b \<equiv> ran (map_of (minimizedNodes b))"

abbreviation open_nodes :: "ts_builder \<Rightarrow> nat list" where
  "open_nodes b \<equiv> spine (bd_root b) (uncheckedNodes b)"

abbreviation tip :: "ts_builder \<Rightarrow> nat" where
  "tip b \<equiv> end_of (bd_root b) (uncheckedNodes b)"

definition building :: "ts_builder \<Rightarrow> ts_heap \<Rightarrow> bool" where
  "building b h \<longleftrightarrow>
     chain (bd_root b) (uncheckedNodes b)
     \<and> distinct (open_nodes b)
     \<and> set (open_nodes b) \<inter> minimized b = {}
     \<and> (\<forall>i \<in> set (open_nodes b) \<union> minimized b. i < next_id h \<and> plain_edges h i)
     \<and> (\<forall>i \<in> set (open_nodes b). ts_str (nodes h i) = None)
     \<and> closed_in h (minimized b)
     \<and> (\<forall>i \<in> minimized b. grounded h i)
     \<and> path_ok h (minimized b) (uncheckedNodes b)
     \<and> (\<forall>c j. edge h (tip b) c = Some j \<longrightarrow> j \<in> minimized b)
     \<and> keyed h (map_of (minimizedNodes b))"

definition tip_below :: "char \<Rightarrow> ts_builder \<Rightarrow> ts_heap \<Rightarrow> bool" where
  "tip_below d b h \<longleftrightarrow> (\<forall>c j. edge h (tip b) c = Some j \<longrightarrow> c \<le> d)"

definition same_language :: "ts_builder \<Rightarrow> ts_heap \<Rightarrow> ts_builder \<Rightarrow> ts_heap \<Rightarrow> bool" where
  "same_language b h b' h' \<longleftrightarrow>
     bd_root b' = bd_root b \<and> previousWord b' = previousWord b
     \<and> (\<forall>w. accepts h' (bd_root b) w = accepts h (bd_root b) w)"

lemma path_okD:
  "path_ok h R us \<Longrightarrow> (p, c, m) \<in> set us \<Longrightarrow>
     edge h p c = Some m \<and> (\<forall>c' j. edge h p c' = Some j \<longrightarrow> c' = c \<or> j \<in> R \<and> c' < c)"
  by (simp add: path_ok_def)

lemma path_ok_tl: "path_ok h R (u # us) \<Longrightarrow> path_ok h R us"
  by (simp add: path_ok_def)

lemma path_ok_mono: "path_ok h R us \<Longrightarrow> R \<subseteq> R' \<Longrightarrow> path_ok h R' us"
  unfolding path_ok_def by blast

lemma path_ok_frame:
  assumes "path_ok h R us" and "\<And>p c m. (p, c, m) \<in> set us \<Longrightarrow> edge h' p = edge h p"
  shows "path_ok h' R us"
  using assms(1) unfolding path_ok_def by (auto simp: assms(2))

lemma keyed_frame: "keyed h mm \<Longrightarrow> same_at (ran mm) h h' \<Longrightarrow> keyed h' mm"
  unfolding keyed_def same_at_def by (metis node_string_frame ranI)

lemma chain_parents: "chain r us \<Longrightarrow> (p, c, m) \<in> set us \<Longrightarrow> p \<in> set (spine r us)"
  by (induction us arbitrary: r) auto

lemma chain_parents_not_end:
  "chain r us \<Longrightarrow> distinct (spine r us) \<Longrightarrow> (p, c, m) \<in> set us \<Longrightarrow> p \<noteq> end_of r us"
proof (induction us arbitrary: r)
  case (Cons u us)
  obtain q d n where u: "u = (q, d, n)" by (cases u)
  have "end_of n us \<in> set (spine n us)" by simp
  with Cons u show ?case by auto
qed simp

lemma minimize_last_building:
  assumes inv: "building b h" and us: "uncheckedNodes b = us @ [(p, c, m)]"
    and step: "minimize_last (b, h) = (b', h')"
  shows "building b' h' \<and> uncheckedNodes b' = us \<and> same_language b h b' h' \<and> tip_below c b' h'"
proof -
  let ?R = "minimized b" and ?r = "bd_root b"
  have p: "p = end_of ?r us" and ch: "chain ?r us" using inv us by (simp_all add: building_def)
  have mS: "m \<in> set (open_nodes b)" "m \<notin> ?R" "m \<notin> set (spine ?r us)" and pS1: "p \<in> set (open_nodes b)"
    using inv us p by (auto simp: building_def)
  then have pS: "p \<in> set (open_nodes b)" "p \<notin> ?R"
    using inv by (auto simp: building_def disjoint_iff)
  have me: "edge h p c = Some m" and others: "\<And>c' j. edge h p c' = Some j \<Longrightarrow> c' = c \<or> j \<in> ?R \<and> c' < c"
    using inv us by (auto simp: building_def path_ok_def)
  have m_edges: "\<And>c' j. edge h m c' = Some j \<Longrightarrow> j \<in> ?R"
    using inv us by (auto simp: building_def)
  have key: "toString_ts h m = node_string h m"
    using inv mS by (auto simp: building_def toString_ts_def)
  have path: "path_ok h ?R us" using inv us by (auto simp: building_def path_ok_def)
  have not_p: "q \<noteq> p" if "(q, d, n) \<in> set us" for q d n
    using chain_parents_not_end [OF ch _ that] inv us p by (auto simp: building_def)
  show ?thesis
  proof (cases "map_of (minimizedNodes b) (node_string h m)")
    case (Some m')
    have eqs: "b' = b\<lparr>uncheckedNodes := us\<rparr>" "h' = set_edge p c m' h"
      using step us Some by (simp_all add: minimize_last_def key)
    have m': "m' \<in> ?R" "node_string h m' = node_string h m"
      using Some inv by (auto simp: ranI building_def keyed_def)
    have "ts_final (nodes h m') = ts_final (nodes h m) \<and> edge h m' = edge h m"
      using m' inv mS by (intro node_string_inject) (auto simp: building_def)
    then have lang: "accepts h m' w = accepts h m w" for w by (cases w) simp_all
    have same: "same_at ?R h h'" using pS by (auto simp: same_at_def eqs set_edge_def)
    have edges: "edge h' i = (if i = p then (edge h p)(c \<mapsto> m') else edge h i)" for i
      by (rule ext) (simp add: eqs edge_set_edge)
    have "plain_edges h' i" if "i \<in> set (open_nodes b) \<union> ?R" for i
      using inv that pS me by (auto simp: building_def plain_edges_def edges split: if_splits)
    moreover have "path_ok h' ?R us"
      using path by (rule path_ok_frame) (simp add: edges not_p)
    moreover have "edge h' p c' = Some j \<Longrightarrow> j \<in> ?R \<and> c' \<le> c" for c' j
      using others [of c' j] m' by (auto simp: edges split: if_splits)
    moreover have "ts_str (nodes h' i) = ts_str (nodes h i)" for i by (simp add: eqs set_edge_def)
    ultimately show ?thesis
      using inv us same p accepts_redirect [OF me lang]
      by (auto simp: building_def same_language_def tip_below_def eqs
            intro: closed_frame grounded_frame keyed_frame)
  next
    case None
    let ?b = "b\<lparr>uncheckedNodes := us, minimizedNodes := AList.update (node_string h m) m (minimizedNodes b)\<rparr>"
    have eqs: "b' = ?b" "h' = upd_node m (ts_str_update (\<lambda>_. Some (node_string h m))) h"
      using step us None by (simp_all add: minimize_last_def key Let_def)
    have R': "minimized b' = insert m ?R" using None by (simp add: eqs)
    have same: "same_at ?R h h'" using mS by (auto simp: same_at_def eqs)
    have edges: "edge h' = edge h" by (simp add: eqs)
    have "closed_in h' (insert m ?R)"
      using inv m_edges by (auto simp: closed_in_def edges building_def)
    moreover have gr: "grounded h' i" if "i \<in> ?R" for i
      using inv that same by (auto simp: building_def intro: grounded_frame)
    moreover have "grounded h' m"
    proof (rule grounded.grounded)
      fix c' j assume "edge h' m c' = Some j"
      then show "grounded h' j" by (intro gr m_edges [of c']) (simp only: edges)
    qed
    moreover have "path_ok h' (insert m ?R) us"
      by (rule path_ok_mono [OF path_ok_frame [OF path]]) (auto simp: edges)
    moreover have "edge h' p c' = Some j \<Longrightarrow> j \<in> insert m ?R \<and> c' \<le> c" for c' j
      using others [of c' j] me by (auto simp: edges)
    moreover have "keyed h' (map_of (minimizedNodes b'))"
    proof -
      have "node_string h' i = node_string h i" for i by (simp add: node_string_def edges) (simp add: eqs)
      then show ?thesis using inv None by (auto simp: keyed_def building_def eqs)
    qed
    moreover have "accepts h' i w = accepts h i w" for i w
      by (rule accepts_same_edges) (simp_all add: eqs)
    moreover have "i \<in> set (spine ?r us) \<Longrightarrow> ts_str (nodes h' i) = None" for i
      using inv us mS by (auto simp: building_def eqs)
    moreover have "plain_edges h' k = plain_edges h k" for k by (simp add: plain_edges_def edges)
    moreover have "next_id h' = next_id h" by (simp add: eqs)
    ultimately show ?thesis
      using inv us mS p ch R'
      by (auto simp: building_def same_language_def tip_below_def eqs(1))
  qed
qed

lemma same_language_refl [simp]: "same_language b h b h"
  by (simp add: same_language_def)

lemma same_language_trans:
  "same_language b h b1 h1 \<Longrightarrow> same_language b1 h1 b2 h2 \<Longrightarrow> same_language b h b2 h2"
  by (simp add: same_language_def)

lemma minimize_building:
  "building b h \<Longrightarrow> minimize n (b, h) = (b', h') \<Longrightarrow>
     building b' h' \<and> uncheckedNodes b' = take n (uncheckedNodes b) \<and> same_language b h b' h'
     \<and> (if n < length (uncheckedNodes b) then tip_below (word_of_path (uncheckedNodes b) ! n) b' h'
        else b' = b \<and> h' = h)"
proof (induction "length (uncheckedNodes b)" arbitrary: b h rule: less_induct)
  case less
  show ?case
  proof (cases "length (uncheckedNodes b) \<le> n")
    case True
    with less.prems show ?thesis by (simp add: minimize.simps)
  next
    case False
    then obtain us p c m where us: "uncheckedNodes b = us @ [(p, c, m)]"
      by (metis list.size(3) prod_cases3 rev_exhaust zero_le)
    obtain b1 h1 where step: "minimize_last (b, h) = (b1, h1)" by (cases "minimize_last (b, h)")
    note last1 = minimize_last_building [OF less.prems(1) us step]
    have rest: "minimize n (b1, h1) = (b', h')"
      using less.prems(2) False by (simp add: minimize.simps [of n "(b, h)"] step)
    have n: "n \<le> length us" using False us by simp
    note IH = less.hyps [of b1 h1, OF _ _ rest]
    have "building b' h' \<and> uncheckedNodes b' = take n us \<and> same_language b1 h1 b' h'
        \<and> (if n < length us then tip_below (word_of_path us ! n) b' h' else b' = b1 \<and> h' = h1)"
      using IH last1 us by (metis append_is_Nil_conv length_append_singleton lessI)
    with last1 n us show ?thesis
      by (auto simp: word_of_path_def nth_append intro: same_language_trans split: if_splits)
  qed
qed

lemma building_closed: "building b h \<Longrightarrow> closed_in h (set (open_nodes b) \<union> minimized b)"
proof -
  assume inv: "building b h"
  have spine: "j \<in> set (spine r us) \<union> R" if "chain r us" "path_ok h R us" "i \<in> set (spine r us)"
      "\<forall>c j. edge h (end_of r us) c = Some j \<longrightarrow> j \<in> R" "edge h i c = Some j" for r us R i c j
    using that
  proof (induction us arbitrary: r)
    case Nil
    then show ?case by simp
  next
    case (Cons u us)
    obtain p d m where u: "u = (p, d, m)" by (cases u)
    have ok: "path_ok h R us" "edge h p d = Some m" "\<And>c' j. edge h p c' = Some j \<Longrightarrow> c' = d \<or> j \<in> R"
      using Cons.prems(2) path_okD [of h R "u # us" p d m] by (auto simp: u path_ok_tl)
    have m: "m \<in> set (spine m us)" by (simp add: spine_def)
    show ?case
    proof (cases "i = r")
      case True
      then show ?thesis using Cons.prems ok(3) [of c j] ok(2) m by (auto simp: u)
    next
      case False
      then show ?thesis using Cons.IH [of m] Cons.prems ok(1) by (auto simp: u)
    qed
  qed
  show ?thesis
    unfolding closed_in_def
  proof (intro ballI allI impI)
    fix i c j assume i: "i \<in> set (open_nodes b) \<union> minimized b" and e: "edge h i c = Some j"
    show "j \<in> set (open_nodes b) \<union> minimized b"
    proof (cases "i \<in> minimized b")
      case True
      with inv e show ?thesis by (auto simp: building_def dest: closed_inD)
    next
      case False
      with i inv e show ?thesis by (intro spine) (auto simp: building_def)
    qed
  qed
qed

lemma building_below: "building b h \<Longrightarrow> i \<in> set (open_nodes b) \<union> minimized b \<Longrightarrow> i < next_id h"
  by (simp add: building_def)

text \<open>A new edge to a new node changes no language yet.\<close>

lemma accepts_new_edge:
  assumes "closed_in h Q" and "\<And>i. i \<in> Q \<Longrightarrow> i < next_id h" and "edge h t c = None"
    and h': "h' = set_edge t c (next_id h) (snd (new_node h))" and "i \<in> Q"
  shows "accepts h' i w = accepts h i w"
  using assms(5)
proof (induction w arbitrary: i)
  case Nil
  then show ?case using assms(2) [of i] by (simp add: h' new_node_def)
next
  case (Cons d w)
  have dead: "t \<noteq> next_id h \<Longrightarrow> \<not> accepts h' (next_id h) w"
    by (cases w) (simp_all add: h' edge_set_edge, simp_all add: new_node_def edge_def empty_node_def)
  have "edge h' i d = (if i = t \<and> d = c then Some (next_id h) else edge h i d)"
    using assms(2) [OF Cons.prems] by (simp add: h' edge_set_edge) (simp add: new_node_def edge_def)
  then show ?case
    using Cons assms(2) [OF Cons.prems] dead assms(3) closed_inD [OF assms(1) Cons.prems, of d]
    by (auto split: option.split)
qed

lemma extend_building:
  assumes inv: "building b h" and c: "\<not> is_digit c" "\<And>c' j. edge h (tip b) c' = Some j \<Longrightarrow> c' < c"
    and b': "b' = b\<lparr>uncheckedNodes := uncheckedNodes b @ [(tip b, c, next_id h)]\<rparr>"
    and h': "h' = set_edge (tip b) c (next_id h) (snd (new_node h))"
  shows "building b' h' \<and> same_language b h b' h' \<and> tip b' = next_id h \<and> edge h' (tip b') = Map.empty"
proof -
  let ?R = "minimized b" and ?t = "tip b" and ?n = "next_id h" and ?S = "set (open_nodes b)"
  have below: "i < ?n" if "i \<in> ?S \<union> ?R" for i using building_below [OF inv that] .
  then have t: "?t < ?n" "?t \<in> ?S" by auto
  then have tR: "?t \<notin> ?R" using inv by (auto simp: building_def disjoint_iff)
  have edges: "edge h' i d = (if i = ?t \<and> d = c then Some ?n else edge h i d)" if "i < ?n" for i d
    using that by (simp add: h' edge_set_edge) (simp add: new_node_def edge_def)
  have fresh: "edge h' ?n = Map.empty"
    using t by (intro ext) (simp add: h' edge_set_edge, simp add: new_node_def edge_def empty_node_def)
  have same: "same_at ?R h h'"
    using below tR by (auto simp: same_at_def h' set_edge_def new_node_def)
  have strs: "ts_str (nodes h' i) = None" if "i \<in> insert ?n ?S" for i
    using inv that by (auto simp: building_def h' set_edge_def new_node_def empty_node_def)
  have plain: "plain_edges h' i" if "i \<in> insert ?n (?S \<union> ?R)" for i
  proof (cases "i = ?n")
    case False
    with that inv below [of i] c(1) show ?thesis
      by (auto simp: building_def plain_edges_def edges split: if_splits)
  qed (simp add: plain_edges_def fresh)
  have path: "path_ok h' ?R (uncheckedNodes b @ [(?t, c, ?n)])"
    unfolding path_ok_def
  proof (intro allI impI)
    fix p d m assume pdm: "(p, d, m) \<in> set (uncheckedNodes b @ [(?t, c, ?n)])"
    show "edge h' p d = Some m \<and> (\<forall>c' j. edge h' p c' = Some j \<longrightarrow> c' = d \<or> j \<in> ?R \<and> c' < d)"
    proof (cases "(p, d, m) \<in> set (uncheckedNodes b)")
      case True
      then have "p \<in> ?S" "p \<noteq> ?t"
        using inv chain_parents chain_parents_not_end by (auto simp: building_def)
      with True inv below [of p] show ?thesis by (auto simp: building_def path_ok_def edges)
    next
      case False
      with pdm have "p = ?t" "d = c" "m = ?n" by auto
      moreover have "edge h' ?t c' = Some j \<Longrightarrow> c' = c \<or> j \<in> ?R \<and> c' < c" for c' j
        using c(2) [of c' j] inv t by (auto simp: edges building_def split: if_splits)
      ultimately show ?thesis using t by (auto simp: edges)
    qed
  qed
  have none: "edge h ?t c = None" using c(2) [of c] by (cases "edge h ?t c") auto
  have "accepts h' (bd_root b) w = accepts h (bd_root b) w" for w
    by (rule accepts_new_edge [OF building_closed [OF inv] below none h']) (simp_all add: spine_def)
  moreover have "building b' h'"
    using inv same strs plain path fresh t below
    by (auto simp: building_def b' less_Suc_eq h' new_node_def
          intro: closed_frame grounded_frame keyed_frame)
  ultimately show ?thesis
    by (simp add: same_language_def b' fresh)
qed

section \<open>Inserting words\<close>

abbreviation plain_word :: "string \<Rightarrow> bool" where
  "plain_word \<equiv> list_all (\<lambda>c. \<not> is_digit c)"

lemma insert_chain_building:
  assumes "building b h" and "plain_word cs"
    and "\<And>c' j. edge h (tip b) c' = Some j \<Longrightarrow> cs \<noteq> [] \<Longrightarrow> c' < hd cs"
    and "insert_chain (tip b) cs (b, h) = (node, b', h')"
  shows "building b' h' \<and> same_language b h b' h' \<and> node = tip b'
     \<and> word_of_path (uncheckedNodes b') = word_of_path (uncheckedNodes b) @ cs
     \<and> (if cs = [] then h' = h \<and> b' = b else edge h' (tip b') = Map.empty)"
  using assms
proof (induction cs arbitrary: b h)
  case Nil
  then show ?case by auto
next
  case (Cons c cs)
  let ?h = "set_edge (tip b) c (next_id h) (snd (new_node h))"
  let ?b = "b\<lparr>uncheckedNodes := uncheckedNodes b @ [(tip b, c, next_id h)]\<rparr>"
  have ext: "building ?b ?h \<and> same_language b h ?b ?h \<and> tip ?b = next_id h \<and> edge ?h (tip ?b) = Map.empty"
    using Cons.prems(2,3) by (intro extend_building [OF Cons.prems(1)]) auto
  have rest: "insert_chain (tip ?b) cs (?b, ?h) = (node, b', h')"
    using Cons.prems(4) ext by (simp add: new_node_def Let_def)
  have "building b' h' \<and> same_language ?b ?h b' h' \<and> node = tip b'
     \<and> word_of_path (uncheckedNodes b') = word_of_path (uncheckedNodes ?b) @ cs
     \<and> (if cs = [] then h' = ?h \<and> b' = ?b else edge h' (tip b') = Map.empty)"
    using ext Cons.prems(2) by (intro Cons.IH rest) auto
  with ext show ?case
    by (auto simp: word_of_path_def intro: same_language_trans split: if_splits)
qed

lemma accepts_tip:
  "chain r us \<Longrightarrow> distinct (spine r us) \<Longrightarrow> set (spine r us) \<inter> R = {} \<Longrightarrow> path_ok h R us \<Longrightarrow> closed_in h R \<Longrightarrow>
   \<forall>c j. edge h (end_of r us) c = Some j \<longrightarrow> j \<in> R \<Longrightarrow>
     accepts (set_final (end_of r us) True h) r w \<longleftrightarrow> accepts h r w \<or> w = word_of_path us"
proof (induction us arbitrary: r w)
  case Nil
  then have "same_at R h (set_final r True h)" by (auto simp: same_at_def set_final_def)
  then show ?case
    using Nil accepts_frame [OF Nil(5)]
    by (cases w) (auto simp: final_set_final word_of_path_def split: option.split)
next
  case (Cons u us)
  obtain p c m where u: "u = (p, c, m)" by (cases u)
  let ?e = "end_of m us" and ?h = "set_final (end_of m us) True h"
  have e: "?e \<in> set (spine m us)" by simp
  have r: "p = r" "?e \<noteq> r" using Cons.prems e by (auto simp: u)
  have "?e \<notin> R" using Cons.prems(3) e by (auto simp: u disjoint_iff)
  then have same: "same_at R h ?h" by (auto simp: same_at_def set_final_def)
  have IH: "accepts ?h m v \<longleftrightarrow> accepts h m v \<or> v = word_of_path us" for v
    using Cons.prems by (intro Cons.IH) (auto simp: u path_ok_tl)
  have ok: "edge h r c = Some m" "\<And>d j. edge h r d = Some j \<Longrightarrow> d = c \<or> j \<in> R"
    using path_okD [OF Cons.prems(4), of p c m] r by (auto simp: u)
  show ?case
  proof (cases w)
    case Nil
    with r show ?thesis by (simp add: u final_set_final word_of_path_def)
  next
    case (Cons d v)
    then show ?thesis
      using IH [of v] ok(1) ok(2) [of d] accepts_frame [OF Cons.prems(5) same] r
      by (cases "d = c") (auto simp: u word_of_path_def split: option.split)
  qed
qed

lemma final_building:
  assumes "building b h"
  shows "building b (set_final (tip b) True h)
     \<and> (\<forall>w. accepts (set_final (tip b) True h) (bd_root b) w
            \<longleftrightarrow> accepts h (bd_root b) w \<or> w = word_of_path (uncheckedNodes b))"
proof -
  let ?h = "set_final (tip b) True h"
  have "tip b \<notin> minimized b" using assms by (auto simp: building_def disjoint_iff)
  then have same: "same_at (minimized b) h ?h" by (auto simp: same_at_def set_final_def)
  have "plain_edges ?h i = plain_edges h i" "ts_str (nodes ?h i) = ts_str (nodes h i)" for i
    by (simp add: plain_edges_def) (simp add: set_final_def)
  moreover have "path_ok ?h (minimized b) (uncheckedNodes b)"
    by (rule path_ok_frame [of h]) (use assms in \<open>simp_all add: building_def\<close>)
  ultimately have "building b ?h"
    using assms closed_frame [OF _ same] grounded_frame [OF _ _ same] keyed_frame [OF _ same]
    by (simp add: building_def)
  moreover have "accepts ?h (bd_root b) w \<longleftrightarrow> accepts h (bd_root b) w \<or> w = word_of_path (uncheckedNodes b)" for w
    by (rule accepts_tip [where R = "minimized b"]) (use assms in \<open>simp_all add: building_def\<close>)
  ultimately show ?thesis by blast
qed

lemma common_prefix_take: "take (common_prefix w v) w = take (common_prefix w v) v"
  by (induction w v rule: common_prefix.induct) auto

lemma common_prefix_le: "common_prefix w v \<le> length w \<and> common_prefix w v \<le> length v"
  by (induction w v rule: common_prefix.induct) auto

lemma empty_less: "[] < v \<longleftrightarrow> v \<noteq> []" for v :: string
  by (cases v) auto

lemma common_prefix_order:
  "\<not> w < v \<Longrightarrow> common_prefix w v < length v \<Longrightarrow>
     common_prefix w v < length w \<and> v ! common_prefix w v < w ! common_prefix w v"
  for w v :: string
  by (induction w v rule: common_prefix.induct) (auto simp: empty_less split: if_splits)

definition ready :: "string set \<Rightarrow> ts_builder \<Rightarrow> ts_heap \<Rightarrow> bool" where
  "ready W b h \<longleftrightarrow>
     building b h \<and> word_of_path (uncheckedNodes b) = previousWord b \<and> edge h (tip b) = Map.empty
     \<and> (\<forall>w. accepts h (bd_root b) w \<longleftrightarrow> w \<in> W)"

lemma insert_word_ready:
  assumes ready: "ready W b h" and order: "\<not> word < previousWord b" and plain: "plain_word word"
  shows "\<exists>b' h'. insert_word word (b, h) = Inr (b', h') \<and> ready (insert word W) b' h'
     \<and> previousWord b' = word \<and> bd_root b' = bd_root b"
proof -
  let ?n = "common_prefix word (previousWord b)"
  obtain b1 h1 where m: "minimize ?n (b, h) = (b1, h1)" by (cases "minimize ?n (b, h)")
  obtain node b2 h2 where c: "insert_chain (tip b1) (drop ?n word) (b1, h1) = (node, b2, h2)"
    by (metis prod_cases3)
  have inv: "building b h" and path: "word_of_path (uncheckedNodes b) = previousWord b"
    and tip0: "edge h (tip b) = Map.empty"
    using ready by (auto simp: ready_def)
  have len: "length (uncheckedNodes b) = length (previousWord b)"
    using path by (metis length_map word_of_path_def)
  note 1 = minimize_building [OF inv m]
  have b1: "building b1 h1" "uncheckedNodes b1 = take ?n (uncheckedNodes b)" "same_language b h b1 h1"
    using 1 by auto
  have less: "c' < hd (drop ?n word)"
    if "edge h1 (tip b1) c' = Some j" and "drop ?n word \<noteq> []" for c' j
  proof (cases "?n < length (previousWord b)")
    case True
    then have "tip_below (previousWord b ! ?n) b1 h1" using 1 len path by (auto split: if_splits)
    with that(1) have "c' \<le> previousWord b ! ?n" by (auto simp: tip_below_def)
    also have "\<dots> < word ! ?n" using common_prefix_order [OF order True] by simp
    finally show ?thesis using that(2) by (simp add: hd_drop_conv_nth)
  next
    case False
    then show ?thesis using 1 len tip0 that(1) by (auto split: if_splits)
  qed
  have rest_plain: "plain_word (drop ?n word)" using plain by (metis append_take_drop_id list_all_append)
  have 2: "building b2 h2 \<and> same_language b1 h1 b2 h2 \<and> node = tip b2
     \<and> word_of_path (uncheckedNodes b2) = word_of_path (uncheckedNodes b1) @ drop ?n word
     \<and> (if drop ?n word = [] then h2 = h1 \<and> b2 = b1 else edge h2 (tip b2) = Map.empty)"
    using less by (intro insert_chain_building [OF b1(1) rest_plain _ c]) auto
  have path2: "word_of_path (uncheckedNodes b2) = word"
    using 2 b1(2) path common_prefix_take [of word "previousWord b"]
    by (simp add: word_of_path_def take_map [symmetric]) (metis append_take_drop_id)
  have tip2: "edge h2 (tip b2) = Map.empty"
  proof (cases "drop ?n word = []")
    case True
    then have "\<not> ?n < length (previousWord b)"
      using common_prefix_order [OF order] by auto
    then show ?thesis using 1 2 True tip0 len by (auto split: if_splits)
  next
    case False
    then show ?thesis using 2 by auto
  qed
  have node: "node = tip b2" and b2: "building b2 h2" "same_language b h b2 h2"
    using 2 b1(3) by (auto intro: same_language_trans)
  note 3 = final_building [OF b2(1)]
  have "insert_word word (b, h) = Inr (b2\<lparr>previousWord := word\<rparr>, set_final (tip b2) True h2)"
    using order m c node by (simp add: insert_word_def end_of_code [symmetric] Let_def)
  moreover have "ready (insert word W) (b2\<lparr>previousWord := word\<rparr>) (set_final (tip b2) True h2)"
    using 3 path2 tip2 b2(2) ready by (auto simp: ready_def building_def same_language_def)
  ultimately show ?thesis using b2(2) by (auto simp: same_language_def)
qed

section \<open>The automaton of a list of words\<close>

lemma insert_words_ready:
  "ready W b h \<Longrightarrow> sorted (previousWord b # ws) \<Longrightarrow> list_all plain_word ws \<Longrightarrow>
     \<exists>b' h'. insert_words ws (b, h) = Inr (b', h') \<and> ready (W \<union> set ws) b' h'"
proof (induction ws arbitrary: W b h)
  case Nil
  then show ?case by auto
next
  case (Cons w ws)
  from Cons.prems obtain b1 h1
    where 1: "insert_word w (b, h) = Inr (b1, h1)" "ready (insert w W) b1 h1" "previousWord b1 = w"
    using insert_word_ready [of W b h w] by (auto simp: not_less)
  with Cons.IH [of "insert w W" b1 h1] Cons.prems show ?case by auto
qed

lemma insert_word_unsorted: "w < previousWord (fst bh) \<Longrightarrow> insert_word w bh = Inl GenericError"
  by (simp add: insert_word_def)

lemma insert_words_unsorted:
  "insert_words ws bh = Inr bh' \<Longrightarrow> sorted (previousWord (fst bh) # ws)"
proof (induction ws arbitrary: bh)
  case Nil
  then show ?case by simp
next
  case (Cons w ws)
  then obtain bh1 where 1: "insert_word w bh = Inr bh1" "insert_words ws bh1 = Inr bh'"
    by (auto simp: andThen_eq_Inr)
  then have "\<not> w < previousWord (fst bh)" "previousWord (fst bh1) = w"
    by (auto simp: insert_word_def Let_def split: if_splits prod.splits)
  with Cons.IH [OF 1(2)] show ?case by auto
qed

lemma new_builder_ready: "ready {} (fst (new_builder h)) (snd (new_builder h))"
proof -
  let ?h = "snd (new_node h)" and ?r = "next_id h"
  have b: "new_builder h =
      (\<lparr>previousWord = [], bd_root = ?r, uncheckedNodes = [], minimizedNodes = []\<rparr>, ?h)"
    by (simp add: new_builder_def new_node_def)
  have n: "nodes ?h ?r = empty_node" "next_id ?h = Suc ?r" by (simp_all add: new_node_def)
  then have e: "edge ?h ?r = Map.empty" by (intro ext) (simp add: edge_def empty_node_def)
  have "accepts ?h ?r w = False" for w
    by (cases w) (simp_all add: e n empty_node_def)
  then show ?thesis
    by (simp add: ready_def building_def b e n word_of_path_def path_ok_def closed_in_def
          keyed_def plain_edges_def empty_node_def)
qed

text \<open>What later walks need of the automaton: it is closed, its nodes exist, and it has no cycle.\<close>

definition index_set :: "ts_heap \<Rightarrow> nat \<Rightarrow> string set \<Rightarrow> bool" where
  "index_set h i W \<longleftrightarrow>
     (\<forall>w. accepts h i w \<longleftrightarrow> w \<in> W) \<and> grounded h i
     \<and> (\<exists>Q. i \<in> Q \<and> closed_in h Q \<and> (\<forall>j \<in> Q. j < next_id h))"

lemma fromArray_index:
  assumes "sorted ws" and "list_all plain_word ws"
  shows "\<exists>r h'. fromArray ws h = Inr (r, h') \<and> index_set h' r (set ws)"
proof -
  obtain b0 h0 where 0: "new_builder h = (b0, h0)" by (cases "new_builder h")
  then have "ready {} b0 h0" "sorted (previousWord b0 # ws)"
    using new_builder_ready [of h] assms(1) by (auto simp: new_builder_def new_node_def)
  then obtain b1 h1 where 1: "insert_words ws (b0, h0) = Inr (b1, h1)" "ready (set ws) b1 h1"
    using insert_words_ready assms(2) by (metis Un_empty_left)
  obtain b2 h2 where 2: "minimize 0 (b1, h1) = (b2, h2)" by (cases "minimize 0 (b1, h1)")
  have inv: "building b2 h2" "uncheckedNodes b2 = []" "same_language b1 h1 b2 h2"
    using minimize_building [OF _ 2] 1(2) by (auto simp: ready_def)
  have "grounded h2 (bd_root b2)"
    by (rule grounded.grounded) (use inv in \<open>auto simp: building_def\<close>)
  moreover have "accepts h2 (bd_root b2) w \<longleftrightarrow> w \<in> set ws" for w
    using inv(3) 1(2) by (auto simp: same_language_def ready_def)
  moreover have "closed_in h2 (insert (bd_root b2) (minimized b2))"
    "\<forall>j \<in> insert (bd_root b2) (minimized b2). j < next_id h2"
    using building_closed [OF inv(1)] building_below [OF inv(1)] inv(2) by simp_all
  ultimately have "index_set h2 (bd_root b2) (set ws)"
    unfolding index_set_def by blast
  then show ?thesis
    by (auto simp: fromArray_def 0 1 2)
qed

text \<open>C34. The token set that is built from words accepts exactly these words, provided they come in
  order (otherwise building it throws) and have no digits in them.
\<close>
theorem token_set_of_words:
  assumes "list_all plain_word ws"
  shows "case fromArray ws h of
      Inr (r, h') \<Rightarrow> sorted ws \<and> (\<forall>w. accepts h' r w \<longleftrightarrow> w \<in> set ws)
    | Inl e \<Rightarrow> e = GenericError \<and> \<not> sorted ws"
proof (cases "sorted ws")
  case True
  with assms show ?thesis using fromArray_index [of ws h] by (auto simp: index_set_def)
next
  case False
  obtain e where e: "fromArray ws h = Inl e"
  proof (cases "insert_words ws (new_builder h)")
    case (Inl e)
    then show ?thesis using that by (simp add: fromArray_def)
  next
    case (Inr bh)
    then have "sorted ws" using insert_words_unsorted [OF Inr] by simp
    with False show ?thesis by simp
  qed
  have "insert_words ws bh = Inl e \<Longrightarrow> e = GenericError" for bh
    by (induction ws arbitrary: bh) (auto simp: insert_word_def andThen_def Let_def split: if_splits prod.splits sum.splits)
  then have "e = GenericError"
    using e by (auto simp: fromArray_def andThen_def Let_def split: sum.splits prod.splits)
  with e False show ?thesis by simp
qed

theorem token_set_of_words_witness:
  "case fromArray [''tap'', ''taps'', ''top'', ''tops''] empty_heap of
      Inr (r, h') \<Rightarrow> sorted [''tap'', ''taps'', ''top'', ''tops'']
        \<and> (\<forall>w. accepts h' r w \<longleftrightarrow> w \<in> set [''tap'', ''taps'', ''top'', ''tops''])
    | Inl e \<Rightarrow> e = GenericError \<and> \<not> sorted [''tap'', ''taps'', ''top'', ''tops'']"
  by (rule token_set_of_words) (simp add: is_digit_def)

section \<open>Words with digits\<close>

text \<open>For the evaluation of a concrete case: heaps as tables.\<close>

definition look :: "(nat \<times> tnode) list \<Rightarrow> nat \<Rightarrow> tnode" where
  "look xs i = (case map_of xs i of None \<Rightarrow> empty_node | Some x \<Rightarrow> x)"

definition table_heap :: "(nat \<times> tnode) list \<Rightarrow> nat \<Rightarrow> ts_heap" where
  "table_heap xs n = \<lparr>nodes = look xs, next_id = n\<rparr>"

lemma look_simps:
  "look [] i = empty_node"
  "look ((j, x) # xs) i = (if i = j then x else look xs i)"
  by (simp_all add: look_def)

lemma table_heap_simps:
  "nodes (table_heap xs n) i = look xs i"
  "upd_node i f (table_heap xs n) = table_heap (AList.update i (f (look xs i)) xs) n"
  "new_node (table_heap xs n) = (n, table_heap (AList.update n empty_node xs) (n + 1))"
  "empty_heap = table_heap [] 1"
  by (auto simp: table_heap_def look_def upd_node_def new_node_def empty_heap_def fun_eq_iff)

lemma minimize_turns:
  "length (uncheckedNodes b) \<le> n \<Longrightarrow> minimize n (b, h) = (b, h)"
  "\<not> length (uncheckedNodes b) \<le> n \<Longrightarrow> minimize n (b, h) = minimize n (minimize_last (b, h))"
  by (subst minimize.simps, simp)+

lemma nat_str_turns:
  "n < 10 \<Longrightarrow> nat_str n = [digit_char n]"
  "\<not> n < 10 \<Longrightarrow> nat_str n = nat_str (n div 10) @ [digit_char (n mod 10)]"
  by (subst nat_str.simps, simp)+

lemma insert_words_turn:
  "insert_word w s = Inr s' \<Longrightarrow> insert_words ws s' = r \<Longrightarrow> insert_words (w # ws) s = r"
  by simp

lemma fromArray_turns:
  "insert_words ws (new_builder h) = Inr s \<Longrightarrow> minimize 0 s = (b, h') \<Longrightarrow> bd_root b = r \<Longrightarrow>
     fromArray ws h = Inr (r, h')"
  by (simp add: fromArray_def)

lemmas evaluation =
  Let_def look_simps table_heap_simps minimize_turns nat_str_turns new_builder_def insert_word_def
  minimize_last_def toString_ts_def node_string_def edge_def set_edge_def set_final_def empty_node_def
  digit_char_table

text \<open>
  With digits the strings of two different nodes can be the same, because the number of a node
  and the next character are not separated. Then the builder takes one for the other: of
  these eight terms the token set has lost \<open>a302\<close> and gained \<open>a30\<close>, which is no term of the index.
\<close>
theorem digits_confuse_token_sets:
  "\<exists>r h. fromArray [''0'', ''10b'', ''1100'', ''1a30'', ''1a311'', ''3b331'', ''a302'', ''a31''] empty_heap = Inr (r, h)
     \<and> \<not> accepts h r ''a302'' \<and> accepts h r ''a30''"
  by (intro exI conjI, rule fromArray_turns,
      simp only: new_builder_def table_heap_simps Let_def split_conv,
      (rule insert_words_turn, simp add: evaluation del: One_nat_def)+,
      rule insert_words.simps(1), (simp add: evaluation del: One_nat_def)+)

end
