(* ===== verification/LunrTokenSetWalk.thy ===== *)
theory LunrTokenSetWalk
  imports LunrTokenSetBuild "HOL-Library.Sublist" "HOL-Library.Multiset"
begin

text \<open>
  Walking token sets: what \<open>intersect\<close>, \<open>fromString\<close>, \<open>fromFuzzyString\<close> and \<open>toArray\<close> compute.
  \<open>is_trie\<close> describes the automata \<open>intersect\<close> and \<open>fromFuzzyString\<close> build: a tree whose nodes are
  the paths \<open>P\<close> from its root, of which \<open>F\<close> are final; \<open>addr\<close> gives the node of a path.
\<close>

section \<open>Trees in the heap\<close>

definition is_trie :: "ts_heap \<Rightarrow> (string \<Rightarrow> nat) \<Rightarrow> string set \<Rightarrow> string set \<Rightarrow> bool" where
  "is_trie h addr P F \<longleftrightarrow>
     [] \<in> P \<and> finite P \<and> inj_on addr P \<and> F \<subseteq> P \<and> (\<forall>p c. p @ [c] \<in> P \<longrightarrow> p \<in> P)
     \<and> (\<forall>p \<in> P. addr p < next_id h
          \<and> (\<forall>c. edge h (addr p) c = (if p @ [c] \<in> P then Some (addr (p @ [c])) else None))
          \<and> ts_final (nodes h (addr p)) = (p \<in> F)
          \<and> distinct (map fst (ts_edges (nodes h (addr p)))))"

lemma is_trieI:
  assumes "[] \<in> P" "finite P" "inj_on addr P" "F \<subseteq> P" "\<And>p c. p @ [c] \<in> P \<Longrightarrow> p \<in> P"
    and "\<And>p. p \<in> P \<Longrightarrow> addr p < next_id h"
    and "\<And>p c. p \<in> P \<Longrightarrow> edge h (addr p) c = (if p @ [c] \<in> P then Some (addr (p @ [c])) else None)"
    and "\<And>p. p \<in> P \<Longrightarrow> ts_final (nodes h (addr p)) = (p \<in> F)"
    and "\<And>p. p \<in> P \<Longrightarrow> distinct (map fst (ts_edges (nodes h (addr p))))"
  shows "is_trie h addr P F"
  unfolding is_trie_def by (intro conjI allI impI ballI) (fact assms(1-4) | erule assms(5-9))+

lemma next_new [simp]: "next_id (snd (new_node h)) = Suc (next_id h)"
  by (simp add: new_node_def)

lemma trie_new:
  "is_trie (snd (new_node h)) (\<lambda>_. next_id h) {[]} {}"
  by (simp add: is_trie_def new_node_def edge_def empty_node_def)

lemma trie_edge:
  "is_trie h addr P F \<Longrightarrow> p \<in> P \<Longrightarrow>
     edge h (addr p) c = (if p @ [c] \<in> P then Some (addr (p @ [c])) else None)"
  by (simp add: is_trie_def)

lemma trie_below: "is_trie h addr P F \<Longrightarrow> p \<in> P \<Longrightarrow> addr p < next_id h"
  by (simp add: is_trie_def)

lemma trie_final_iff: "is_trie h addr P F \<Longrightarrow> p \<in> P \<Longrightarrow> ts_final (nodes h (addr p)) \<longleftrightarrow> p \<in> F"
  by (simp add: is_trie_def)

lemma trie_same_addr: "is_trie h addr P F \<Longrightarrow> p \<in> P \<Longrightarrow> q \<in> P \<Longrightarrow> addr p = addr q \<longleftrightarrow> p = q"
  by (auto simp: is_trie_def dest: inj_onD)

lemma trie_prefix: "is_trie h addr P F \<Longrightarrow> p @ w \<in> P \<Longrightarrow> p \<in> P"
proof (induction w rule: rev_induct)
  case (snoc c w)
  have "\<And>p c. p @ [c] \<in> P \<Longrightarrow> p \<in> P" using snoc.prems(1) by (auto simp: is_trie_def)
  from this [of "p @ w" c] snoc show ?case by simp
qed simp

lemma trie_final:
  assumes trie: "is_trie h addr P F" and p: "p \<in> P"
  shows "is_trie (set_final (addr p) b h) addr P (if b then insert p F else F - {p})"
proof -
  have "ts_final (nodes (set_final (addr p) b h) (addr q)) = (q \<in> (if b then insert p F else F - {p}))"
    if "q \<in> P" for q
    using trie_final_iff [OF trie that] trie_same_addr [OF trie that p] by (auto simp: final_set_final)
  moreover have "ts_edges (nodes (set_final i b h) j) = ts_edges (nodes h j)" for i j
    by (simp add: set_final_def)
  ultimately show ?thesis
    using trie p unfolding is_trie_def by auto
qed

lemma trie_extend:
  assumes trie: "is_trie h addr P F" and p: "p \<in> P" and new: "p @ [c] \<notin> P"
  shows "is_trie (set_edge (addr p) c (next_id h) (snd (new_node h))) (addr(p @ [c] := next_id h))
    (insert (p @ [c]) P) F"
proof -
  let ?n = "next_id h" and ?q = "p @ [c]" and ?P = "insert (p @ [c]) P"
  let ?h = "set_edge (addr p) c (next_id h) (snd (new_node h))" and ?a = "addr(p @ [c] := next_id h)"
  have below: "r \<in> P \<Longrightarrow> addr r < ?n" for r using trie_below [OF trie] by simp
  have closed: "r @ [d] \<in> P \<Longrightarrow> r \<in> P" for r d using trie_prefix [OF trie] by simp
  have old: "edge ?h (addr r) d = (if r = p \<and> d = c then Some ?n else edge h (addr r) d)" if "r \<in> P" for r d
    using that below [OF that] trie_same_addr [OF trie that p]
    by (simp add: edge_set_edge) (simp add: new_node_def edge_def)
  have fresh: "edge ?h ?n d = None" for d
    using below [OF p] by (simp add: edge_set_edge) (simp add: new_node_def edge_def empty_node_def)
  have F: "?q \<notin> F" and sub: "F \<subseteq> P" using trie new by (auto simp: is_trie_def)
  have inj: "inj_on ?a ?P"
  proof -
    have "inj_on addr P" using trie by (simp add: is_trie_def)
    moreover have "?n \<notin> addr ` P" using below by (metis imageE less_irrefl)
    moreover note new
    ultimately show ?thesis by (auto simp: fun_upd_image inj_on_fun_updI)
  qed
  have edges: "r \<in> ?P \<Longrightarrow> edge ?h (?a r) d = (if r @ [d] \<in> ?P then Some (?a (r @ [d])) else None)" for r d
    using new old [of r d] fresh trie_edge [OF trie, of r d] closed [of ?q d] by auto
  have finals: "r \<in> ?P \<Longrightarrow> ts_final (nodes ?h (?a r)) = (r \<in> F)" for r
    using trie_final_iff [OF trie, of r] below [of r] F new by (auto simp: new_node_def empty_node_def)
  have dist: "r \<in> ?P \<Longrightarrow> distinct (map fst (ts_edges (nodes ?h (?a r))))" for r
    using trie below [of r] p new
    by (auto simp: is_trie_def set_edge_def new_node_def empty_node_def intro!: distinct_update)
  have bound: "r \<in> ?P \<Longrightarrow> ?a r < next_id ?h" for r
    using below [of r] by (auto simp: new_node_def less_Suc_eq)
  have pc: "r @ [d] \<in> ?P \<Longrightarrow> r \<in> ?P" for r d using closed [of r d] p by auto
  have "[] \<in> ?P" "finite ?P" using trie by (simp_all add: is_trie_def)
  moreover have "F \<subseteq> ?P" using sub by blast
  ultimately show ?thesis
    by (rule is_trieI [OF _ _ inj _ pc bound edges finals dist])
qed

lemma extend_frame:
  "i \<noteq> a \<Longrightarrow> i < next_id h \<Longrightarrow> nodes (set_edge a c j (snd (new_node h))) i = nodes h i"
  by (simp add: set_edge_def new_node_def)

lemma final_frame: "i \<noteq> a \<Longrightarrow> nodes (set_final a b h) i = nodes h i"
  by (simp add: set_final_def)

lemma trie_accepts: "is_trie h addr P F \<Longrightarrow> p \<in> P \<Longrightarrow> accepts h (addr p) w \<longleftrightarrow> p @ w \<in> F"
proof (induction w arbitrary: p)
  case Nil
  then show ?case by (simp add: trie_final_iff)
next
  case (Cons c w)
  show ?case
  proof (cases "p @ [c] \<in> P")
    case True
    with Cons.IH [of "p @ [c]"] Cons.prems show ?thesis by (simp add: trie_edge)
  next
    case False
    moreover have "p @ c # w \<notin> F"
      using trie_prefix [OF Cons.prems(1), of "p @ [c]" w] Cons.prems(1) False by (auto simp: is_trie_def)
    ultimately show ?thesis using Cons.prems by (simp add: trie_edge)
  qed
qed

section \<open>Listing a tree\<close>

lemma set_edge_keys: "c \<in> set (edge_keys h i) \<longleftrightarrow> edge h i c \<noteq> None"
  by (auto simp: edge_keys_def edge_def map_of_eq_None_iff Let_def)

lemma distinct_edge_keys: "distinct (map fst (ts_edges (nodes h i))) \<Longrightarrow> distinct (edge_keys h i)"
  by (auto simp: edge_keys_def Let_def)

definition antichain :: "string list \<Rightarrow> bool" where
  "antichain ps \<longleftrightarrow> distinct ps \<and> (\<forall>p \<in> set ps. \<forall>q \<in> set ps. prefix p q \<longrightarrow> p = q)"

definition above :: "string list \<Rightarrow> string set" where
  "above ps = {q. \<exists>p \<in> set ps. prefix p q}"

lemma prefix_snoc_cases: "prefix p q \<longleftrightarrow> q = p \<or> (\<exists>c. prefix (p @ [c]) q)"
  by (metis append_Nil2 append_prefixD prefix_def same_prefix_nil neq_Nil_conv append_Cons append_Nil append_assoc)

lemma antichain_children:
  assumes anti: "antichain (p # ps)" and cs: "distinct cs"
  shows "antichain (map (\<lambda>c. p @ [c]) cs @ ps)"
proof -
  have no: "\<not> prefix p q \<and> \<not> prefix q p" if "q \<in> set ps" for q
    using anti that by (auto simp: antichain_def)
  have "\<not> prefix (p @ [c]) q" "\<not> prefix q (p @ [c])" if "q \<in> set ps" for c q
    using no [OF that] append_prefixD [of p "[c]" q] by (auto simp: prefix_snoc)
  moreover have "p @ [c] \<notin> set ps" for c using calculation(1) by blast
  ultimately show ?thesis
    using anti cs by (auto simp: antichain_def distinct_map inj_on_def)
qed

lemma toArray_trie:
  assumes trie: "is_trie h addr P F"
  shows "set ps \<subseteq> P \<Longrightarrow> antichain ps \<Longrightarrow>
    \<exists>found. toArray_loop h (map (\<lambda>p. (p, addr p)) ps) words = Some (words @ found)
      \<and> distinct found \<and> set found = F \<inter> above ps"
proof (induction "card (P \<inter> above ps)" arbitrary: ps words rule: less_induct)
  case less
  show ?case
  proof (cases ps)
    case Nil
    then show ?thesis by (subst toArray_loop.simps) (simp add: above_def)
  next
    case (Cons p rest)
    let ?cs = "rev (edge_keys h (addr p))" and ?out = "if p \<in> F then [p] else []"
    let ?ps = "map (\<lambda>c. p @ [c]) ?cs @ rest"
    have p: "p \<in> P" using less.prems Cons by simp
    have cs: "c \<in> set ?cs \<longleftrightarrow> p @ [c] \<in> P" for c
      using trie_edge [OF trie p] by (simp add: set_edge_keys)
    have dcs: "distinct ?cs"
      using trie p by (simp add: distinct_edge_keys is_trie_def)
    have anti: "antichain ?ps" using less.prems Cons dcs by (intro antichain_children) simp_all
    have p_out: "p \<notin> above ?ps"
      using less.prems(2) Cons by (auto simp: above_def antichain_def)
    have eq: "P \<inter> above ps = insert p (P \<inter> above ?ps)"
    proof
      show "P \<inter> above ps \<subseteq> insert p (P \<inter> above ?ps)"
      proof
        fix q assume q: "q \<in> P \<inter> above ps"
        then obtain r where r: "r \<in> set ps" "prefix r q" by (auto simp: above_def)
        show "q \<in> insert p (P \<inter> above ?ps)"
        proof (cases "r = p")
          case True
          then obtain w where w: "q = p @ w" using r by (auto simp: prefix_def)
          show ?thesis
          proof (cases w)
            case Nil
            then show ?thesis by (simp add: w)
          next
            case (Cons c v)
            then have "p @ [c] \<in> P" using trie_prefix [OF trie, of "p @ [c]" v] q w by simp
            then have "p @ [c] \<in> set ?ps" using cs [of c] by simp
            moreover have "prefix (p @ [c]) q" by (simp add: w Cons)
            ultimately show ?thesis using q by (auto simp: above_def)
          qed
        next
          case False
          then show ?thesis using r q Cons by (auto simp: above_def)
        qed
      qed
      show "insert p (P \<inter> above ?ps) \<subseteq> P \<inter> above ps"
        using p Cons by (auto simp: above_def dest: append_prefixD)
    qed
    have fin: "finite (P \<inter> above ?ps)" using trie by (simp add: is_trie_def)
    have smaller: "card (P \<inter> above ?ps) < card (P \<inter> above ps)"
      unfolding eq using fin p_out by simp
    have sub: "set ?ps \<subseteq> P" using cs less.prems Cons by auto
    obtain found where found: "toArray_loop h (map (\<lambda>p. (p, addr p)) ?ps) (words @ ?out) = Some ((words @ ?out) @ found)"
      "distinct found" "set found = F \<inter> above ?ps"
      using less.hyps [OF smaller sub anti, of "words @ ?out"] by blast
    have "rev (map (\<lambda>c. (p @ [c], the (edge h (addr p) c))) (edge_keys h (addr p))) = map (\<lambda>q. (q, addr q)) (map (\<lambda>c. p @ [c]) ?cs)"
      using cs trie_edge [OF trie p] by (simp add: rev_map)
    then have "toArray_loop h (map (\<lambda>p. (p, addr p)) ps) words
        = toArray_loop h (map (\<lambda>p. (p, addr p)) ?ps) (words @ ?out)"
      using trie_final_iff [OF trie p] by (subst toArray_loop.simps) (simp add: Cons)
    moreover have "set (?out @ found) = F \<inter> above ps" "distinct (?out @ found)"
      using found eq p_out trie by (auto simp: is_trie_def)
    ultimately show ?thesis using found(1) by (intro exI [of _ "?out @ found"]) simp
  qed
qed

lemma toArray_lists:
  assumes "is_trie h addr P F"
  shows "\<exists>found. toArray_ts h (addr []) = Some found \<and> distinct found \<and> set found = F"
proof -
  have "[] \<in> P" using assms by (simp add: is_trie_def)
  then show ?thesis
    using toArray_trie [OF assms, of "[[]]" "[]"] by (auto simp: toArray_ts_def antichain_def above_def)
qed

section \<open>Intersection\<close>

text \<open>A pattern reads a text along edges with its characters or with \<open>*\<close>.\<close>

fun pattern_accepts :: "ts_heap \<Rightarrow> nat \<Rightarrow> string \<Rightarrow> bool" where
  "pattern_accepts h q [] = ts_final (nodes h q)"
| "pattern_accepts h q (c # w) =
     ((case edge h q c of None \<Rightarrow> False | Some q' \<Rightarrow> pattern_accepts h q' w)
      \<or> (case edge h q (CHR ''*'') of None \<Rightarrow> False | Some q' \<Rightarrow> pattern_accepts h q' w))"

text \<open>A frame of the stack with the path of its output node in place of the node.\<close>

type_synonym ghost = "nat \<times> string \<times> nat"

fun frame_at :: "(string \<Rightarrow> nat) \<Rightarrow> ghost \<Rightarrow> intersect_frame" where
  "frame_at addr (q, p, n) = (q, addr p, n)"

fun next_ghosts :: "ts_heap \<Rightarrow> ghost \<Rightarrow> char \<times> char \<Rightarrow> ghost list" where
  "next_ghosts h (q, p, n) (l, f) =
     (if f = l \<or> l = CHR ''*'' then [(the (edge h q l), p @ [f], the (edge h n f))] else [])"

fun next_finals :: "ts_heap \<Rightarrow> ghost \<Rightarrow> char \<times> char \<Rightarrow> string set" where
  "next_finals h (q, p, n) (l, f) =
     (if (f = l \<or> l = CHR ''*'') \<and> ts_final (nodes h (the (edge h n f))) \<and> ts_final (nodes h (the (edge h q l)))
      then {p @ [f]} else {})"

definition walking ::
    "ts_heap \<Rightarrow> nat set \<Rightarrow> (string \<Rightarrow> nat) \<Rightarrow> string set \<Rightarrow> string set \<Rightarrow> ghost list
      \<Rightarrow> intersect_frame list \<Rightarrow> ts_heap \<Rightarrow> bool" where
  "walking h0 Q addr P F gs st h \<longleftrightarrow>
     is_trie h addr P F \<and> same_at Q h0 h \<and> (\<forall>i \<in> Q. i < next_id h) \<and> addr ` P \<inter> Q = {}
     \<and> st = map (frame_at addr) gs
     \<and> (\<forall>(q, p, n) \<in> set gs. q \<in> Q \<and> p \<in> P \<and> n \<in> Q)"

lemma walking_pair:
  assumes inv: "walking h0 Q addr P F gs st h" and Q: "closed_in h0 Q" "q \<in> Q" "n \<in> Q" and p: "p \<in> P"
    and keys: "edge h0 q l \<noteq> None" "edge h0 n f \<noteq> None"
    and step: "intersect_pair (q, addr p, n) (l, f) (st, h) = (st', h')"
  shows "\<exists>addr' P'. walking h0 Q addr' P' (F \<union> next_finals h0 (q, p, n) (l, f))
      (next_ghosts h0 (q, p, n) (l, f) @ gs) st' h'
    \<and> P \<subseteq> P' \<and> (\<forall>r \<in> P. addr' r = addr r)"
proof (cases "f = l \<or> l = CHR ''*''")
  case False
  then have "st' = st" "h' = h" using step by (auto simp: intersect_pair_def split: if_splits)
  with False inv show ?thesis by (intro exI [of _ addr] exI [of _ P]) auto
next
  case True
  have trie: "is_trie h addr P F" and same: "same_at Q h0 h" and below: "\<forall>i \<in> Q. i < next_id h"
    and disj: "addr ` P \<inter> Q = {}" and st: "st = map (frame_at addr) gs"
    and gs: "\<forall>(q, p, n) \<in> set gs. q \<in> Q \<and> p \<in> P \<and> n \<in> Q"
    using inv by (auto simp: walking_def)
  obtain d e where d: "edge h0 n f = Some d" "d \<in> Q" and e: "edge h0 q l = Some e" "e \<in> Q"
    using keys Q by (auto dest: closed_inD)
  have here: "edge h n f = Some d" "edge h q l = Some e"
    using d e same Q by (simp_all add: same_at_edge)
  have finals: "ts_final (nodes h d) = ts_final (nodes h0 d)" "ts_final (nodes h e) = ts_final (nodes h0 e)"
    using d e same by (simp_all add: same_at_def)
  let ?q = "p @ [f]" and ?fin = "ts_final (nodes h0 d) \<and> ts_final (nodes h0 e)"
  have goal_sets: "next_finals h0 (q, p, n) (l, f) = (if ?fin then {?q} else {})"
    "next_ghosts h0 (q, p, n) (l, f) = [(e, ?q, d)]"
    using True d e by auto
  show ?thesis
  proof (cases "?q \<in> P")
    case old: True
    let ?h = "set_final (addr ?q) (ts_final (nodes h (addr ?q)) \<or> ?fin) h"
    have eqs: "st' = (e, addr ?q, d) # st" "h' = ?h"
      using step True here trie_edge [OF trie p, of f] old finals by (simp_all add: intersect_pair_def Let_def)
    have F': "(if ts_final (nodes h (addr ?q)) \<or> ?fin then insert ?q F else F - {?q}) = F \<union> (if ?fin then {?q} else {})"
      using trie_final_iff [OF trie old] by auto
    have "is_trie ?h addr P (F \<union> (if ?fin then {?q} else {}))"
      using trie_final [OF trie old, of "ts_final (nodes h (addr ?q)) \<or> ?fin"] by (simp only: F')
    moreover have "same_at Q h0 ?h"
    proof -
      have "addr ?q \<notin> Q" using disj old by blast
      with same show ?thesis by (auto simp: same_at_def set_final_def)
    qed
    ultimately show ?thesis
      unfolding goal_sets
      using below disj st gs old d e by (intro exI [of _ addr] exI [of _ P]) (auto simp: walking_def eqs)
  next
    case new: False
    let ?a = "addr(?q := next_id h)" and ?P = "insert ?q P"
    let ?h1 = "set_edge (addr p) f (next_id h) (snd (new_node h))"
    let ?h = "set_edge (addr p) f (next_id h) (set_final (next_id h) ?fin (snd (new_node h)))"
    have p_lt: "addr p < next_id h" by (rule trie_below [OF trie p])
    have eqs: "st' = (e, next_id h, d) # st" "h' = ?h"
      using step True here trie_edge [OF trie p, of f] new finals
      by (simp_all add: intersect_pair_def Let_def new_node_def)
    have comm: "?h = set_final (?a ?q) ?fin ?h1"
      using p_lt by (simp add: set_edge_def set_final_def upd_node_def new_node_def fun_upd_twist)
    have trie1: "is_trie ?h1 ?a ?P F" by (rule trie_extend [OF trie p new])
    have "?q \<notin> F" using trie new by (auto simp: is_trie_def)
    then have "(if ?fin then insert ?q F else F - {?q}) = F \<union> (if ?fin then {?q} else {})" by auto
    then have "is_trie ?h ?a ?P (F \<union> (if ?fin then {?q} else {}))"
      unfolding comm using trie_final [OF trie1, of ?q ?fin] by simp
    moreover have "same_at Q h0 ?h"
      using same below disj p p_lt
      by (auto simp: same_at_def set_edge_def set_final_def new_node_def)
    moreover have "?a ` ?P \<inter> Q = {}"
      using disj below by auto
    moreover have "map (frame_at ?a) gs = st"
      using st gs new by (auto simp: fun_upd_def)
    ultimately show ?thesis
      unfolding goal_sets
      using below gs d e new
      by (intro exI [of _ ?a] exI [of _ ?P]) (auto simp: walking_def eqs new_node_def less_Suc_eq)
  qed
qed

lemma walking_pairs:
  assumes Q: "closed_in h0 Q" "q \<in> Q" "n \<in> Q" and a: "o' = addr p"
  shows "walking h0 Q addr P F gs st h \<Longrightarrow> p \<in> P \<Longrightarrow>
    (\<forall>(l, f) \<in> set prs. edge h0 q l \<noteq> None \<and> edge h0 n f \<noteq> None) \<Longrightarrow>
    fold (intersect_pair (q, o', n)) prs (st, h) = (st', h') \<Longrightarrow> o' = addr p \<Longrightarrow>
    \<exists>addr' P'. walking h0 Q addr' P' (F \<union> \<Union> (next_finals h0 (q, p, n) ` set prs))
        (concat (map (next_ghosts h0 (q, p, n)) (rev prs)) @ gs) st' h'
      \<and> P \<subseteq> P' \<and> (\<forall>r \<in> P. addr' r = addr r)"
proof (induction prs arbitrary: addr P F gs st h)
  case Nil
  then show ?case by (intro exI [of _ addr] exI [of _ P]) auto
next
  case (Cons pr prs)
  obtain l f where pr: "pr = (l, f)" by (cases pr)
  obtain st1 h1 where 1: "intersect_pair (q, addr p, n) (l, f) (st, h) = (st1, h1)"
    by (cases "intersect_pair (q, addr p, n) (l, f) (st, h)")
  have keys: "edge h0 q l \<noteq> None" "edge h0 n f \<noteq> None" using Cons.prems(3) by (auto simp: pr)
  obtain a1 P1 where w1: "walking h0 Q a1 P1 (F \<union> next_finals h0 (q, p, n) (l, f))
      (next_ghosts h0 (q, p, n) (l, f) @ gs) st1 h1" "P \<subseteq> P1" "\<forall>r \<in> P. a1 r = addr r"
    using walking_pair [OF Cons.prems(1) Q Cons.prems(2) keys 1] by blast
  have "fold (intersect_pair (q, o', n)) prs (st1, h1) = (st', h')"
    using Cons.prems(4,5) 1 by (simp add: pr)
  with Cons.IH [OF w1(1)] w1(2,3) Cons.prems(2,3,5)
  obtain a2 P2 where "walking h0 Q a2 P2 ((F \<union> next_finals h0 (q, p, n) (l, f)) \<union> \<Union> (next_finals h0 (q, p, n) ` set prs))
      (concat (map (next_ghosts h0 (q, p, n)) (rev prs)) @ next_ghosts h0 (q, p, n) (l, f) @ gs) st' h'"
    "P1 \<subseteq> P2" "\<forall>r \<in> P1. a2 r = a1 r"
    by auto
  with w1 show ?case
    by (intro exI [of _ a2] exI [of _ P2]) (auto simp: pr Un_assoc)
qed

text \<open>The words the frames of a stack still stand for.\<close>

definition pending_words :: "ts_heap \<Rightarrow> ghost list \<Rightarrow> string set" where
  "pending_words h gs =
     (\<Union>(q, p, n) \<in> set gs. {p @ w | w. w \<noteq> [] \<and> accepts h n w \<and> pattern_accepts h q w})"

lemma pending_wordsI:
  "(q, p, n) \<in> set gs \<Longrightarrow> w \<noteq> [] \<Longrightarrow> accepts h n w \<Longrightarrow> pattern_accepts h q w \<Longrightarrow> p @ w \<in> pending_words h gs"
  unfolding pending_words_def by blast

lemma pending_wordsE:
  assumes "v \<in> pending_words h gs"
  obtains q p n w where "(q, p, n) \<in> set gs" "v = p @ w" "w \<noteq> []" "accepts h n w" "pattern_accepts h q w"
  using assms unfolding pending_words_def by blast

lemma pending_Cons: "pending_words h (g # gs) = pending_words h [g] \<union> pending_words h gs"
  by (simp add: pending_words_def)

lemma pending_append: "pending_words h (gs @ gs') = pending_words h gs \<union> pending_words h gs'"
  by (simp add: pending_words_def)

abbreviation key_pairs :: "ts_heap \<Rightarrow> nat \<Rightarrow> nat \<Rightarrow> (char \<times> char) list" where
  "key_pairs h q n \<equiv> List.product (edge_keys h q) (edge_keys h n)"

lemma set_key_pairs: "(l, f) \<in> set (key_pairs h q n) \<longleftrightarrow> edge h q l \<noteq> None \<and> edge h n f \<noteq> None"
  by (simp add: set_edge_keys)

lemma pattern_step:
  "pattern_accepts h q (f # w) \<longleftrightarrow>
     (\<exists>l q'. (f = l \<or> l = CHR ''*'') \<and> edge h q l = Some q' \<and> pattern_accepts h q' w)"
  by (auto split: option.splits)

lemma accepts_step: "accepts h n (f # w) \<longleftrightarrow> (\<exists>n'. edge h n f = Some n' \<and> accepts h n' w)"
  by (auto split: option.splits)

lemma next_ghostsE:
  assumes "g \<in> set (concat (map (next_ghosts h (q, p, n)) (rev (key_pairs h q n))))"
  obtains l f where "(l, f) \<in> set (key_pairs h q n)" "g \<in> set (next_ghosts h (q, p, n) (l, f))"
proof -
  obtain y where y: "y \<in> set (key_pairs h q n)" "g \<in> set (next_ghosts h (q, p, n) y)"
    using assms unfolding set_concat set_map set_rev by blast
  obtain l f where "y = (l, f)" by (cases y)
  with y that show thesis by blast
qed

lemma pending_visit:
  "pending_words h [(q, p, n)] =
     \<Union> (next_finals h (q, p, n) ` set (key_pairs h q n))
     \<union> pending_words h (concat (map (next_ghosts h (q, p, n)) (rev (key_pairs h q n))))" (is "?L = ?R1 \<union> ?R2")
proof (intro set_eqI iffI)
  fix v assume "v \<in> ?L"
  then obtain u where "v = p @ u" "u \<noteq> []" "accepts h n u" "pattern_accepts h q u"
    by (rule pending_wordsE) auto
  then obtain f w where v: "v = p @ f # w" and acc: "accepts h n (f # w)" "pattern_accepts h q (f # w)"
    by (cases u) auto
  obtain n' where n': "edge h n f = Some n'" "accepts h n' w" using acc(1) unfolding accepts_step by blast
  obtain l q' where l: "f = l \<or> l = CHR ''*''" "edge h q l = Some q'" "pattern_accepts h q' w"
    using acc(2) unfolding pattern_step by blast
  have pair: "(l, f) \<in> set (key_pairs h q n)" using n' l by (simp add: set_edge_keys)
  show "v \<in> ?R1 \<union> ?R2"
  proof (cases w)
    case Nil
    then have "v \<in> next_finals h (q, p, n) (l, f)" using n' l v by auto
    with pair show ?thesis by blast
  next
    case (Cons c u)
    have g: "(q', p @ [f], n') \<in> set (next_ghosts h (q, p, n) (l, f))" using n' l by auto
    have "(q', p @ [f], n') \<in> set (concat (map (next_ghosts h (q, p, n)) (rev (key_pairs h q n))))"
      unfolding set_concat set_map set_rev using pair g by blast
    then have "(p @ [f]) @ w \<in> ?R2" by (rule pending_wordsI) (use n' l Cons in simp_all)
    then show ?thesis by (simp add: v)
  qed
next
  fix v assume "v \<in> ?R1 \<union> ?R2"
  then show "v \<in> ?L"
  proof
    assume "v \<in> ?R1"
    then obtain l f where pair: "(l, f) \<in> set (key_pairs h q n)" and v: "v \<in> next_finals h (q, p, n) (l, f)"
      by (elim UN_E) (metis surj_pair)
    obtain n' q' where e: "edge h n f = Some n'" "edge h q l = Some q'"
      using pair unfolding set_key_pairs by blast
    have "f = l \<or> l = CHR ''*''" "ts_final (nodes h n')" "ts_final (nodes h q')" "v = p @ [f]"
      using v e by (auto split: if_splits)
    then have "accepts h n [f]" "pattern_accepts h q [f]" "v = p @ [f]"
      using e by (auto split: option.split)
    then show "v \<in> ?L" using pending_wordsI [of q p n "[(q, p, n)]" "[f]" h] by simp
  next
    assume "v \<in> ?R2"
    then obtain p' w q' n' where v: "v = p' @ w" "w \<noteq> []" "accepts h n' w" "pattern_accepts h q' w"
      and g: "(q', p', n') \<in> set (concat (map (next_ghosts h (q, p, n)) (rev (key_pairs h q n))))"
      by (rule pending_wordsE)
    obtain l f where pair: "(l, f) \<in> set (key_pairs h q n)" and mem: "(q', p', n') \<in> set (next_ghosts h (q, p, n) (l, f))"
      using g by (rule next_ghostsE)
    have e: "edge h n f = Some n'" "edge h q l = Some q'" "f = l \<or> l = CHR ''*''" "p' = p @ [f]"
      using mem pair unfolding set_key_pairs by (auto split: if_splits)
    have "accepts h n (f # w)" "pattern_accepts h q (f # w)"
      using e v(3,4) unfolding accepts_step pattern_step by blast+
    then show "v \<in> ?L"
      using v e pending_wordsI [of q p n "[(q, p, n)]" "f # w" h] by simp
  qed
qed

text \<open>The walk ends because the automaton of the index has no cycle.\<close>

definition child_of :: "ts_heap \<Rightarrow> (nat \<times> nat) set" where
  "child_of h = {(j, i). grounded h i \<and> (\<exists>c. edge h i c = Some j)}"

lemma wf_child_of: "wf (child_of h)"
proof (rule acc_wfI, intro allI)
  fix i
  have "i \<in> Wellfounded.acc (child_of h)" if "grounded h i"
    using that
  proof (induction rule: grounded.induct)
    case (grounded i)
    show ?case by (rule accI) (use grounded in \<open>auto simp: child_of_def\<close>)
  qed
  moreover have "i \<in> Wellfounded.acc (child_of h)" if "\<not> grounded h i"
    by (rule accI) (use that in \<open>auto simp: child_of_def\<close>)
  ultimately show "i \<in> Wellfounded.acc (child_of h)" by blast
qed

lemma groundedD: "grounded h i \<Longrightarrow> edge h i c = Some j \<Longrightarrow> grounded h j"
  by (auto elim: grounded.cases)

lemma next_ghosts_child:
  "(q', p', n') \<in> set (concat (map (next_ghosts h (q, p, n)) (rev (key_pairs h q n)))) \<Longrightarrow>
     \<exists>f. edge h n f = Some n'"
  by (auto simp: set_edge_keys split: if_splits)

lemma edge_keys_frame: "same_at Q h h' \<Longrightarrow> i \<in> Q \<Longrightarrow> edge_keys h' i = edge_keys h i"
  by (simp add: edge_keys_def same_at_def)

lemma intersect_walk_ends:
  assumes Q: "closed_in h0 Q"
  shows "walking h0 Q addr P F gs st h \<Longrightarrow> \<forall>(q, p, n) \<in> set gs. grounded h0 n \<Longrightarrow>
    \<exists>h' addr' P'. intersect_walk st h = Some h' \<and> is_trie h' addr' P' (F \<union> pending_words h0 gs)
      \<and> addr' [] = addr [] \<and> same_at Q h0 h' \<and> (\<forall>i \<in> Q. i < next_id h')"
proof (induction "mset (map (snd \<circ> snd) gs)" arbitrary: addr P F gs st h
    rule: wf_induct_rule [OF wf_mult [OF wf_child_of [of h0]]])
  case 1
  show ?case
  proof (cases gs)
    case Nil
    then have "st = []" "is_trie h addr P F" "same_at Q h0 h" "\<forall>i \<in> Q. i < next_id h"
      using "1.prems" by (auto simp: walking_def)
    then show ?thesis
      by (subst intersect_walk.simps) (auto simp: Nil pending_words_def)
  next
    case (Cons g rest)
    obtain q p n where g: "g = (q, p, n)" by (cases g)
    have st: "st = (q, addr p, n) # map (frame_at addr) rest" and in_Q: "q \<in> Q" "n \<in> Q" and p: "p \<in> P"
      and same: "same_at Q h0 h" and gr: "grounded h0 n"
      using "1.prems" Cons g by (auto simp: walking_def)
    have w: "walking h0 Q addr P F rest (map (frame_at addr) rest) h"
      using "1.prems"(1) Cons by (auto simp: walking_def)
    let ?prs = "key_pairs h0 q n"
    let ?gs = "concat (map (next_ghosts h0 (q, p, n)) (rev ?prs)) @ rest"
    obtain st1 h1 where visit: "fold (intersect_pair (q, addr p, n)) ?prs (map (frame_at addr) rest, h) = (st1, h1)"
      by (cases "fold (intersect_pair (q, addr p, n)) ?prs (map (frame_at addr) rest, h)")
    have loop: "intersect_walk st h = intersect_walk st1 h1"
      using visit edge_keys_frame [OF same] in_Q
      by (subst intersect_walk.simps) (simp add: st intersect_visit_def)
    obtain a1 P1 where w1: "walking h0 Q a1 P1 (F \<union> \<Union> (next_finals h0 (q, p, n) ` set ?prs)) ?gs st1 h1"
      and a1: "\<forall>r \<in> P. a1 r = addr r"
      using walking_pairs [OF Q in_Q refl w p _ visit refl] set_key_pairs [of _ _ h0 q n] by blast
    have new: "(n', n) \<in> child_of h0 \<and> grounded h0 n'"
      if "(q', p', n') \<in> set (concat (map (next_ghosts h0 (q, p, n)) (rev ?prs)))" for q' p' n'
      using next_ghosts_child [OF that] gr by (auto simp: child_of_def dest: groundedD)
    have smaller: "(mset (map (snd \<circ> snd) ?gs), mset (map (snd \<circ> snd) gs)) \<in> mult (child_of h0)"
    proof -
      let ?new = "concat (map (next_ghosts h0 (q, p, n)) (rev ?prs))"
      have "(mset (map (snd \<circ> snd) rest) + mset (map (snd \<circ> snd) ?new), mset (map (snd \<circ> snd) rest) + {#n#}) \<in> mult (child_of h0)"
        by (rule one_step_implies_mult) (use new in \<open>auto simp: in_multiset_in_set simp del: set_concat\<close>)
      then show ?thesis by (simp add: Cons g add.commute)
    qed
    have "\<forall>(q', p', n') \<in> set ?gs. grounded h0 n'"
      using new "1.prems"(2) Cons by (auto simp del: set_concat)
    then obtain h' a' P' where end': "intersect_walk st1 h1 = Some h'"
      "is_trie h' a' P' ((F \<union> \<Union> (next_finals h0 (q, p, n) ` set ?prs)) \<union> pending_words h0 ?gs)" "a' [] = a1 []"
      "same_at Q h0 h'" "\<forall>i \<in> Q. i < next_id h'"
      using "1.hyps" [OF smaller w1] by blast
    have "F \<union> pending_words h0 gs = (F \<union> \<Union> (next_finals h0 (q, p, n) ` set ?prs)) \<union> pending_words h0 ?gs"
      by (simp add: Cons g pending_Cons [of h0 "(q, p, n)" rest] pending_visit pending_append Un_assoc)
    moreover have "a' [] = addr []"
      using end'(3) a1 w by (simp add: walking_def is_trie_def)
    ultimately show ?thesis using end' loop by auto
  qed
qed

lemma intersect_words:
  assumes Q: "closed_in h Q" "\<forall>i \<in> Q. i < next_id h" "n \<in> Q" "q \<in> Q" and "grounded h n"
  shows "\<exists>out h' found. intersect_ts n q h = Some (out, h') \<and> toArray_ts h' out = Some found
    \<and> distinct found \<and> set found = {w. w \<noteq> [] \<and> accepts h n w \<and> pattern_accepts h q w}
    \<and> same_at Q h h' \<and> (\<forall>i \<in> Q. i < next_id h')"
proof -
  let ?a = "\<lambda>_ :: string. next_id h" and ?h = "snd (new_node h)"
  have "walking h Q ?a {[]} {} [(q, [], n)] [(q, next_id h, n)] ?h"
    using Q trie_new [of h] by (auto simp: walking_def same_at_def new_node_def less_Suc_eq)
  from intersect_walk_ends [OF Q(1) this] assms(5)
  obtain h' addr' P' where loop: "intersect_walk [(q, next_id h, n)] ?h = Some h'"
    "is_trie h' addr' P' ({} \<union> pending_words h [(q, [], n)])" "addr' [] = next_id h"
    "same_at Q h h'" "\<forall>i \<in> Q. i < next_id h'"
    by auto
  obtain found where "toArray_ts h' (next_id h) = Some found" "distinct found" "set found = pending_words h [(q, [], n)]"
    using toArray_lists [OF loop(2)] loop(3) by auto
  moreover have "pending_words h [(q, [], n)] = {w. w \<noteq> [] \<and> accepts h n w \<and> pattern_accepts h q w}"
    by (simp add: pending_words_def)
  moreover have "intersect_ts n q h = Some (next_id h, h')"
    using loop(1) by (simp add: intersect_ts_def new_node_def)
  ultimately show ?thesis using loop(4,5) by blast
qed

section \<open>Patterns with wildcards\<close>

fun glob :: "string \<Rightarrow> string \<Rightarrow> bool" where
  "glob [] w = (w = [])"
| "glob (c # p) w =
     (if c = CHR ''*'' then glob p w \<or> (case w of [] \<Rightarrow> False | d # v \<Rightarrow> glob (c # p) v)
      else (case w of [] \<Rightarrow> False | d # v \<Rightarrow> d = c \<and> glob p v))"

declare glob.simps(2) [simp del]

lemma glob_star_star: "glob (CHR ''*'' # CHR ''*'' # p) w = glob (CHR ''*'' # p) w"
  by (induction w) (simp_all add: glob.simps(2) [of "CHR ''*''" "CHR ''*'' # p"] glob.simps(2) [of "CHR ''*''" p])

lemma glob_star_all: "glob ''*'' w"
  by (induction w) (simp_all add: glob.simps(2))

text \<open>What the nodes from \<open>root\<close> on look like: their edges stay among them.\<close>

definition own_region :: "ts_heap \<Rightarrow> nat \<Rightarrow> nat \<Rightarrow> ts_heap \<Rightarrow> bool" where
  "own_region h node m h' \<longleftrightarrow>
     m \<le> next_id h' \<and> (\<forall>i. i \<noteq> node \<longrightarrow> i < m \<longrightarrow> nodes h' i = nodes h i)
     \<and> closed_in h' ({node} \<union> {m..<next_id h'})"

lemma closed_in_add:
  "closed_in h R \<Longrightarrow> (\<And>c j. edge h i c = Some j \<Longrightarrow> j \<in> {i} \<union> R) \<Longrightarrow> closed_in h ({i} \<union> R)"
  by (auto simp: closed_in_def)

lemma fromString_loop_glob:
  assumes "node < next_id h" and "ts_final (nodes h node) = (s = [])"
    and "\<And>c. edge h node c = (if star \<and> c = CHR ''*'' then Some node else None)"
  shows "own_region h node (next_id h) (fromString_loop node s h)
    \<and> (\<forall>w. pattern_accepts (fromString_loop node s h) node w
          \<longleftrightarrow> glob (if star then CHR ''*'' # s else s) w)"
  using assms
proof (induction s arbitrary: node h star)
  case Nil
  have "pattern_accepts h node w \<longleftrightarrow> star \<or> w = []" for w
    by (induction w) (simp_all add: Nil)
  moreover have "closed_in h {node}" using Nil by (auto simp: closed_in_def split: if_splits)
  ultimately show ?case by (simp add: glob_star_all own_region_def)
next
  case (Cons c cs)
  show ?case
  proof (cases "c = CHR ''*''")
    case True
    let ?h = "set_final node (cs = []) (set_edge node (CHR ''*'') node h)"
    have e: "edge ?h node d = (if True \<and> d = CHR ''*'' then Some node else None)" for d
      using Cons.prems(3) by (simp add: edge_set_edge)
    have r: "own_region ?h node (next_id ?h) (fromString_loop node cs ?h) \<and> (\<forall>w.
        pattern_accepts (fromString_loop node cs ?h) node w \<longleftrightarrow> glob (if True then CHR ''*'' # cs else cs) w)"
      using Cons.prems(1) e by (intro Cons.IH) (simp_all add: final_set_final)
    have "nodes ?h i = nodes h i" if "i \<noteq> node" for i
      using that by (simp add: set_final_def set_edge_def)
    with r True show ?thesis
      by (auto simp: own_region_def glob_star_star)
  next
    case False
    let ?n = "next_id h"
    let ?h = "set_edge node c ?n (set_final ?n (cs = []) (snd (new_node h)))"
    let ?h' = "fromString_loop ?n cs ?h"
    have loop: "fromString_loop node (c # cs) h = ?h'"
      using False by (simp add: Let_def new_node_def)
    have n: "node < ?n" by (rule Cons.prems(1))
    have e: "edge ?h ?n d = (if False \<and> d = CHR ''*'' then Some ?n else None)" for d
      using n by (simp add: edge_set_edge) (simp add: new_node_def edge_def empty_node_def)
    have next': "next_id ?h = Suc ?n" by simp
    have r: "own_region ?h ?n (next_id ?h) ?h' \<and> (\<forall>w.
        pattern_accepts ?h' ?n w \<longleftrightarrow> glob (if False then CHR ''*'' # cs else cs) w)"
      using e n by (intro Cons.IH) (simp_all add: final_set_final next')
    have same: "nodes ?h' i = nodes ?h i" if "i < ?n" for i
      using r that by (auto simp: own_region_def next')
    have old: "nodes ?h i = nodes h i" if "i \<noteq> node" "i < ?n" for i
      using that by (simp add: set_final_def set_edge_def new_node_def)
    have e_node: "edge ?h' node d = (if d = c then Some ?n else if star \<and> d = CHR ''*'' then Some node else None)" for d
      using Cons.prems(3) [of d] n same [OF n]
      by (simp add: edge_def set_edge_def set_final_def new_node_def)
    have final: "\<not> ts_final (nodes ?h' node)"
      using same [OF n] n Cons.prems(2) by (simp add: set_final_def set_edge_def new_node_def)
    have "pattern_accepts ?h' node w \<longleftrightarrow> glob (if star then CHR ''*'' # c # cs else c # cs) w" for w
    proof (induction w)
      case Nil
      with final False show ?case by (simp add: glob.simps(2))
    next
      case (Cons d v)
      have g: "glob (c # cs) (d # v) \<longleftrightarrow> d = c \<and> glob cs v" using False by (simp add: glob.simps(2))
      show ?case
        using r Cons False g
        by (cases star) (auto simp: e_node glob.simps(2) [of "CHR ''*''"])
    qed
    moreover have "own_region h node ?n ?h'"
      unfolding own_region_def
    proof (intro conjI allI impI)
      have le: "Suc ?n \<le> next_id ?h'" and cl: "closed_in ?h' ({?n} \<union> {Suc ?n..<next_id ?h'})"
        using r unfolding own_region_def next' by blast+
      then show "?n \<le> next_id ?h'" by simp
      show "nodes ?h' i = nodes h i" if "i \<noteq> node" "i < ?n" for i
        using same [of i] old [of i] that by simp
      have "{?n} \<union> {Suc ?n..<next_id ?h'} = {?n..<next_id ?h'}" using le by auto
      with cl have "closed_in ?h' {?n..<next_id ?h'}" by simp
      then show "closed_in ?h' ({node} \<union> {?n..<next_id ?h'})"
      proof (rule closed_in_add)
        fix d j assume "edge ?h' node d = Some j"
        then have "j = ?n \<or> j = node" unfolding e_node by (simp split: if_splits)
        with le show "j \<in> {node} \<union> {?n..<next_id ?h'}" by auto
      qed
    qed
    ultimately show ?thesis unfolding loop by blast
  qed
qed

section \<open>Patterns of edits\<close>

text \<open>\<open>edits k s u\<close>: the pattern \<open>u\<close> arises from \<open>s\<close> by at most \<open>k\<close> edits.\<close>

inductive edits :: "nat \<Rightarrow> string \<Rightarrow> string \<Rightarrow> bool" where
  stop: "edits k [] []"
| keep: "edits k s u \<Longrightarrow> edits k (c # s) (c # u)"
| ins: "edits k s u \<Longrightarrow> edits (Suc k) s (CHR ''*'' # u)"
| del: "edits k s u \<Longrightarrow> edits (Suc k) (c # s) u"
| sub: "edits k s u \<Longrightarrow> edits (Suc k) (c # s) (CHR ''*'' # u)"
| swap: "edits k (a # s) u \<Longrightarrow> edits (Suc k) (a # b # s) (b # u)"

inductive_cases edits_NilE: "edits k [] u"

lemma edits_more: "edits k s u \<Longrightarrow> edits (Suc k) s u"
  by (induction rule: edits.induct) (auto intro: edits.intros)

lemma edits_cases:
  "edits k s u \<longleftrightarrow>
     (s = [] \<and> u = [])
     \<or> (\<exists>c s' u'. s = c # s' \<and> u = c # u' \<and> edits k s' u')
     \<or> (\<exists>k'. k = Suc k' \<and>
          ((\<exists>u'. u = CHR ''*'' # u' \<and> edits k' s u')
           \<or> (\<exists>c s'. s = c # s' \<and> edits k' s' u)
           \<or> (\<exists>c s' u'. s = c # s' \<and> u = CHR ''*'' # u' \<and> edits k' s' u')
           \<or> (\<exists>a b s' u'. s = a # b # s' \<and> u = b # u' \<and> edits k' (a # s') u')))"
  by (subst edits.simps) (cases k; cases s; cases u; auto)

lemma edits_0: "edits 0 s u \<longleftrightarrow> u = s"
proof (induction s arbitrary: u)
  case Nil
  show ?case by (subst edits_cases) simp
next
  case (Cons c s)
  then show ?case by (subst edits_cases) auto
qed

lemma edits_Nil_step: "edits k [] u \<Longrightarrow> u \<noteq> [] \<Longrightarrow> \<exists>u'. u = CHR ''*'' # u' \<and> edits k [] u'"
  by (erule edits_NilE) (auto intro: edits_more)

type_synonym fuzzy_ghost = "string \<times> nat \<times> string"

definition edit_words :: "fuzzy_ghost list \<Rightarrow> string set" where
  "edit_words gs = (\<Union>(p, k, s) \<in> set gs. append p ` {u. edits k s u})"

lemma edit_words_simps [simp]:
  "edit_words [] = {}"
  "edit_words ((p, k, s) # gs) = append p ` {u. edits k s u} \<union> edit_words gs"
  by (simp_all add: edit_words_def)

fun fuzzy_at :: "(string \<Rightarrow> nat) \<Rightarrow> fuzzy_ghost \<Rightarrow> fuzzy_frame" where
  "fuzzy_at addr (p, k, s) = (addr p, k, s)"

text \<open>The tree under construction; nodes below \<open>m\<close> are older and stay as they are.\<close>

definition growing ::
    "ts_heap \<Rightarrow> nat \<Rightarrow> (string \<Rightarrow> nat) \<Rightarrow> string set \<Rightarrow> string set \<Rightarrow> fuzzy_ghost list
      \<Rightarrow> fuzzy_frame list \<Rightarrow> ts_heap \<Rightarrow> bool" where
  "growing h0 m addr P F gs st h \<longleftrightarrow>
     is_trie h addr P F \<and> (\<forall>i < m. nodes h i = nodes h0 i) \<and> m \<le> next_id h \<and> addr [] = m
     \<and> (\<forall>p \<in> P. m \<le> addr p) \<and> st = map (fuzzy_at addr) gs
     \<and> (\<forall>(p, k, s) \<in> set gs. p \<in> P \<and> (s = [] \<longrightarrow> p \<in> F))"

lemma growing_child:
  assumes g: "growing h0 m addr P F gs st h" and p: "p \<in> P"
    and e: "edge_or_new (addr p) c h = (j, h1)" and f: "b \<or> s \<noteq> []"
  shows "\<exists>addr' P'. growing h0 m addr' P' (F \<union> (if b then {p @ [c]} else {})) ((p @ [c], k, s) # gs)
      ((j, k, s) # st) (final_if b j h1)
    \<and> P \<subseteq> P' \<and> (\<forall>r \<in> P. addr' r = addr r)"
proof -
  let ?q = "p @ [c]"
  have trie: "is_trie h addr P F" using g by (simp add: growing_def)
  obtain a1 P1 where 1: "is_trie h1 a1 P1 F" "?q \<in> P1" "a1 ?q = j" "P \<subseteq> P1" "\<forall>r \<in> P. a1 r = addr r"
    "\<forall>i < m. nodes h1 i = nodes h0 i" "m \<le> next_id h1" "\<forall>r \<in> P1. m \<le> a1 r"
  proof (cases "?q \<in> P")
    case True
    then have "j = addr ?q" "h1 = h"
      using e trie_edge [OF trie p, of c] by (simp_all add: edge_or_new_def)
    with g trie True show thesis by (intro that [of addr P]) (auto simp: growing_def)
  next
    case False
    let ?h1 = "set_edge (addr p) c (next_id h) (snd (new_node h))"
    have j: "j = next_id h" "h1 = ?h1"
      using e trie_edge [OF trie p, of c] False by (auto simp: edge_or_new_def new_node_def)
    have "is_trie ?h1 (addr(?q := next_id h)) (insert ?q P) F" by (rule trie_extend [OF trie p False])
    moreover have "nodes ?h1 i = nodes h0 i" if "i < m" for i
    proof -
      have "m \<le> addr p" "m \<le> next_id h" "nodes h i = nodes h0 i" using g p that by (auto simp: growing_def)
      with that show ?thesis by (simp add: extend_frame)
    qed
    ultimately show thesis
      using g False j by (intro that [of "addr(?q := next_id h)" "insert ?q P"]) (auto simp: growing_def)
  qed
  let ?F = "F \<union> (if b then {?q} else {})" and ?h2 = "final_if b j h1"
  have "is_trie ?h2 a1 P1 ?F"
    using trie_final [OF 1(1,2), of True] 1(1,3) by (simp add: final_if_def)
  moreover have "nodes ?h2 i = nodes h0 i" if "i < m" for i
    using 1(2,3,6,8) that by (auto simp: final_if_def set_final_def)
  moreover have "next_id ?h2 = next_id h1" by (simp add: final_if_def)
  moreover have "a1 [] = m" using 1(5) g trie by (auto simp: growing_def is_trie_def)
  moreover have "st = map (fuzzy_at a1) gs"
    using g 1(5) by (auto simp: growing_def)
  moreover have "\<forall>(r, k, s) \<in> set gs. r \<in> P1 \<and> (s = [] \<longrightarrow> r \<in> ?F)"
    using g 1(4) by (auto simp: growing_def)
  ultimately have "growing h0 m a1 P1 ?F ((?q, k, s) # gs) ((j, k, s) # st) ?h2"
    using 1(2,3,7,8) f by (auto simp: growing_def)
  with 1(4,5) show ?thesis by blast
qed

lemma growing_stay:
  assumes "growing h0 m addr P F gs st h" and "p \<in> P"
  shows "s \<noteq> [] \<Longrightarrow> growing h0 m addr P F ((p, k, s) # gs) ((addr p, k, s) # st) h"
    and "growing h0 m addr P (F \<union> {p}) gs st (set_final (addr p) True h)"
proof -
  show "s \<noteq> [] \<Longrightarrow> growing h0 m addr P F ((p, k, s) # gs) ((addr p, k, s) # st) h"
    using assms by (auto simp: growing_def)
  have "is_trie (set_final (addr p) True h) addr P (insert p F)"
    using trie_final [of h addr P F p True] assms by (simp add: growing_def)
  then show "growing h0 m addr P (F \<union> {p}) gs st (set_final (addr p) True h)"
    using assms by (auto simp: growing_def set_final_def)
qed

definition grows ::
    "ts_heap \<Rightarrow> nat \<Rightarrow> string \<Rightarrow> nat \<Rightarrow> string set \<Rightarrow> fuzzy_ghost list \<Rightarrow> fuzzy_frame list \<Rightarrow> ts_heap \<Rightarrow> bool" where
  "grows h0 m p a F gs st h \<longleftrightarrow> (\<exists>addr P. growing h0 m addr P F gs st h \<and> p \<in> P \<and> addr p = a)"

lemma grows_child:
  assumes "grows h0 m p a F gs st h" and "edge_or_new a c h = (j, h1)" and "b \<or> s \<noteq> []"
  shows "grows h0 m p a (F \<union> (if b then {p @ [c]} else {})) ((p @ [c], k, s) # gs) ((j, k, s) # st) (final_if b j h1)"
proof -
  obtain addr P where *: "growing h0 m addr P F gs st h" "p \<in> P" "addr p = a"
    using assms(1) unfolding grows_def by blast
  from growing_child [OF *(1,2), of c j h1 b s k] assms(2,3) *(3)
  obtain addr' P' where "growing h0 m addr' P' (F \<union> (if b then {p @ [c]} else {})) ((p @ [c], k, s) # gs)
      ((j, k, s) # st) (final_if b j h1)" "P \<subseteq> P'" "\<forall>r \<in> P. addr' r = addr r"
    by blast
  with * show ?thesis unfolding grows_def by blast
qed

lemma grows_stay:
  assumes "grows h0 m p a F gs st h"
  shows "s \<noteq> [] \<Longrightarrow> grows h0 m p a F ((p, k, s) # gs) ((a, k, s) # st) h"
    and "grows h0 m p a (F \<union> {p}) gs st (set_final a True h)"
  using assms growing_stay [of h0 m _ _ F gs st h p] unfolding grows_def by blast+

lemma grows_no_edit:
  assumes "grows h0 m p a F gs st h" and "no_edit (a, k, s) (st, h) = (st', h')"
  shows "grows h0 m p a (F \<union> (if length s = 1 then {p @ s} else {}))
    ((case s of [] \<Rightarrow> [] | c # cs \<Rightarrow> [(p @ [c], k, cs)]) @ gs) st' h'"
proof (cases s)
  case Nil
  with assms show ?thesis by simp
next
  case (Cons c cs)
  obtain j h1 where e: "edge_or_new a c h = (j, h1)" by (cases "edge_or_new a c h")
  show ?thesis
    using grows_child [OF assms(1) e, of "cs = []" cs k] assms(2) by (simp add: Cons e split: if_splits)
qed

lemma grows_insertion:
  assumes "grows h0 m p a F gs st h" and "insertion (a, Suc k, s) (st, h) = (st', h')"
  shows "grows h0 m p a (F \<union> (if s = [] then {p @ ''*''} else {})) ((p @ ''*'', k, s) # gs) st' h'"
proof -
  obtain j h1 where e: "edge_or_new a (CHR ''*'') h = (j, h1)" by (cases "edge_or_new a (CHR ''*'') h")
  show ?thesis
    using grows_child [OF assms(1) e, of "s = []" s k] assms(2) by (simp add: e)
qed

lemma grows_deletion:
  assumes "grows h0 m p a F gs st h" and "deletion (a, Suc k, s) (st, h) = (st', h')"
  shows "grows h0 m p a (F \<union> (if length s = 1 then {p} else {}))
    ((if 1 < length s then [(p, k, tl s)] else []) @ gs) st' h'"
proof -
  have "1 < length s \<Longrightarrow> tl s \<noteq> []" by (cases s rule: remdups_adj.cases) auto
  then show ?thesis
    using assms grows_stay(1) [OF assms(1), of "tl s" k] grows_stay(2) [OF assms(1)]
    by (auto simp: final_if_def)
qed

lemma grows_substitution:
  assumes "grows h0 m p a F gs st h" and "substitution (a, Suc k, s) (st, h) = (st', h')"
  shows "grows h0 m p a (F \<union> (if length s = 1 then {p @ ''*''} else {}))
    ((case s of [] \<Rightarrow> [] | c # cs \<Rightarrow> [(p @ ''*'', k, cs)]) @ gs) st' h'"
proof (cases s)
  case Nil
  with assms show ?thesis by simp
next
  case (Cons c cs)
  obtain j h1 where e: "edge_or_new a (CHR ''*'') h = (j, h1)" by (cases "edge_or_new a (CHR ''*'') h")
  show ?thesis
    using grows_child [OF assms(1) e, of "cs = []" cs k] assms(2) by (simp add: Cons e split: if_splits)
qed

lemma grows_transposition:
  assumes "grows h0 m p a F gs st h" and "transposition (a, Suc k, s) (st, h) = (st', h')"
  shows "grows h0 m p a F
    ((case s of x # y # cs \<Rightarrow> [(p @ [y], k, x # cs)] | _ \<Rightarrow> []) @ gs) st' h'"
proof (cases s rule: remdups_adj.cases)
  case (3 x y cs)
  obtain j h1 where e: "edge_or_new a y h = (j, h1)" by (cases "edge_or_new a y h")
  show ?thesis
    using grows_child [OF assms(1) e, of False "x # cs" k] assms(2) by (simp add: 3 e final_if_def)
qed (use assms in auto)

text \<open>One turn of the loop keeps the set of words found and still to be found.\<close>

definition smaller_than :: "fuzzy_ghost \<Rightarrow> fuzzy_ghost \<Rightarrow> bool" where
  "smaller_than g' g = (case (g', g) of ((_, k', s'), (_, k, s)) \<Rightarrow> k' + length s' < k + length s)"

lemma fuzzy_visit_grows:
  assumes g: "grows h0 m p a F gs st h" and p: "s = [] \<longrightarrow> p \<in> F"
    and visit: "fuzzy_visit (a, k, s) (st, h) = (st', h')"
  shows "\<exists>F' new. grows h0 m p a F' (new @ gs) st' h' \<and> F' \<union> edit_words new = F \<union> edit_words [(p, k, s)]
    \<and> (\<forall>g \<in> set new. smaller_than g (p, k, s))"
proof -
  obtain st1 h1 where 1: "no_edit (a, k, s) (st, h) = (st1, h1)" by (cases "no_edit (a, k, s) (st, h)")
  note g1 = grows_no_edit [OF g 1]
  show ?thesis
  proof (cases k)
    case 0
    with visit 1 have eqs: "st' = st1" "h' = h1" by (simp_all add: fuzzy_visit_def)
    show ?thesis
    proof (cases s)
      case Nil
      with g1 eqs p show ?thesis by (intro exI [of _ F] exI [of _ "[]"]) (auto simp: 0 edits_0)
    next
      case (Cons c cs)
      with g1 eqs show ?thesis
        by (intro exI [of _ "F \<union> (if length s = 1 then {p @ s} else {})"] exI [of _ "[(p @ [c], k, cs)]"])
          (auto simp: 0 edits_0 smaller_than_def)
    qed
  next
    case (Suc k')
    obtain st2 h2 where 2: "insertion (a, Suc k', s) (st1, h1) = (st2, h2)" by (cases "insertion (a, Suc k', s) (st1, h1)")
    obtain st3 h3 where 3: "deletion (a, Suc k', s) (st2, h2) = (st3, h3)" by (cases "deletion (a, Suc k', s) (st2, h2)")
    obtain st4 h4 where 4: "substitution (a, Suc k', s) (st3, h3) = (st4, h4)" by (cases "substitution (a, Suc k', s) (st3, h3)")
    have 5: "transposition (a, Suc k', s) (st4, h4) = (st', h')"
      using visit 1 2 3 4 by (simp add: fuzzy_visit_def Suc)
    note g5 = grows_transposition [OF grows_substitution [OF grows_deletion [OF grows_insertion [OF g1 2] 3] 4] 5]
    show ?thesis
    proof (cases s rule: remdups_adj.cases)
      case s: 1
      have "edits k [] u \<longleftrightarrow> u = [] \<or> (\<exists>u'. u = CHR ''*'' # u' \<and> edits k' [] u')" for u
        by (subst edits_cases) (simp add: Suc)
      then have "{u. edits k [] u} = insert [] (Cons (CHR ''*'') ` {u. edits k' [] u})"
        by auto
      with p g5 s show ?thesis
        by (intro exI [of _ "F \<union> {p @ ''*''}"] exI [of _ "[(p @ ''*'', k', [])]"])
          (auto simp: smaller_than_def Suc intro: edits.stop)
    next
      case s: (2 c)
      let ?F = "F \<union> {p @ [c]} \<union> {p} \<union> {p @ ''*''}"
      let ?new = "[(p @ ''*'', k', []), (p @ ''*'', k', [c]), (p @ [c], k, [])]"
      have del: "\<exists>u'. u = CHR ''*'' # u' \<and> edits k' [] u'" if "edits k' [] u" "u \<noteq> []" for u
        using edits_Nil_step [OF that] .
      let ?E = "\<lambda>k s. {u. edits k s u}"
      have E: "?E k [c] = insert [] (Cons c ` ?E k [] \<union> Cons (CHR ''*'') ` ?E k' [c] \<union> Cons (CHR ''*'') ` ?E k' [])"
        using del by (intro set_eqI, subst mem_Collect_eq, subst edits_cases) (auto simp: Suc intro: edits.stop)
      have "p @ [c] \<in> (\<lambda>u. p @ c # u) ` ?E k []" "p @ ''*'' \<in> (\<lambda>u. p @ CHR ''*'' # u) ` ?E k' []"
        by (auto intro!: image_eqI [of _ _ "[]"] edits.stop)
      then have "?F \<union> edit_words ?new = F \<union> edit_words [(p, k, s)]"
        unfolding s edit_words_simps E by (simp add: image_Un image_image) blast
      with g5 s show ?thesis
        by (intro exI [of _ ?F] exI [of _ ?new]) (auto simp: smaller_than_def Suc Un_assoc)
    next
      case s: (3 x y cs)
      let ?new = "[(p @ [y], k', x # cs), (p @ ''*'', k', y # cs), (p, k', y # cs), (p @ ''*'', k', x # y # cs), (p @ [x], k, y # cs)]"
      let ?E = "\<lambda>k s. {u. edits k s u}"
      have "?E k (x # y # cs) = Cons x ` ?E k (y # cs) \<union> Cons (CHR ''*'') ` ?E k' (x # y # cs) \<union> ?E k' (y # cs)
          \<union> Cons (CHR ''*'') ` ?E k' (y # cs) \<union> Cons y ` ?E k' (x # cs)"
        by (rule set_eqI, subst mem_Collect_eq, subst edits_cases) (auto simp: Suc)
      then have "edit_words ?new = edit_words [(p, k, s)]"
        by (simp add: s image_Un image_image Un_ac)
      with g5 s show ?thesis
        by (intro exI [of _ F] exI [of _ ?new]) (auto simp: smaller_than_def Suc)
    qed
  qed
qed

definition ghost_size :: "fuzzy_ghost \<Rightarrow> nat" where
  "ghost_size g = (case g of (_, k, s) \<Rightarrow> k + length s)"

lemma edit_words_append [simp]: "edit_words (gs @ gs') = edit_words gs \<union> edit_words gs'"
  by (simp add: edit_words_def)

lemma fuzzy_loop_grows:
  "growing h0 m addr P F gs st h \<Longrightarrow>
    \<exists>h' addr' P'. fuzzy_loop st h = Some h' \<and> growing h0 m addr' P' (F \<union> edit_words gs) [] [] h'"
proof (induction "mset (map ghost_size gs)" arbitrary: addr P F gs st h
    rule: wf_induct_rule [OF wf_mult [OF wf_less_than]])
  case 1
  show ?case
  proof (cases gs)
    case Nil
    with 1 show ?thesis by (subst fuzzy_loop.simps) (auto simp: growing_def)
  next
    case (Cons g rest)
    obtain p k s where g: "g = (p, k, s)" by (cases g)
    have st: "st = (addr p, k, s) # map (fuzzy_at addr) rest" and p: "p \<in> P" "s = [] \<longrightarrow> p \<in> F"
      using "1.prems" Cons g by (auto simp: growing_def)
    have "growing h0 m addr P F rest (map (fuzzy_at addr) rest) h"
      using "1.prems" Cons by (auto simp: growing_def)
    with p(1) have start: "grows h0 m p (addr p) F rest (map (fuzzy_at addr) rest) h"
      unfolding grows_def by blast
    obtain st1 h1 where visit: "fuzzy_visit (addr p, k, s) (map (fuzzy_at addr) rest, h) = (st1, h1)"
      by (cases "fuzzy_visit (addr p, k, s) (map (fuzzy_at addr) rest, h)")
    obtain F1 new where new: "grows h0 m p (addr p) F1 (new @ rest) st1 h1"
      "F1 \<union> edit_words new = F \<union> edit_words [(p, k, s)]" "\<forall>g \<in> set new. smaller_than g (p, k, s)"
      using fuzzy_visit_grows [OF start p(2) visit] by blast
    have "(mset (map ghost_size rest) + mset (map ghost_size new), mset (map ghost_size rest) + {#ghost_size (p, k, s)#}) \<in> mult less_than"
      by (rule one_step_implies_mult) (use new(3) in \<open>auto simp: smaller_than_def ghost_size_def\<close>)
    then have smaller: "(mset (map ghost_size (new @ rest)), mset (map ghost_size gs)) \<in> mult less_than"
      by (simp add: Cons g add.commute)
    obtain a1 P1 where "growing h0 m a1 P1 F1 (new @ rest) st1 h1"
      using new(1) unfolding grows_def by blast
    from "1.hyps" [OF smaller this] obtain h' a' P' where
      "fuzzy_loop st1 h1 = Some h'" "growing h0 m a' P' (F1 \<union> edit_words (new @ rest)) [] [] h'" by blast
    moreover have "F1 \<union> edit_words (new @ rest) = F \<union> edit_words gs"
      using new(2) by (simp add: Cons g Un_assoc [symmetric])
    moreover have "fuzzy_loop st h = fuzzy_loop st1 h1"
      using visit by (subst fuzzy_loop.simps) (simp add: st)
    ultimately show ?thesis by auto
  qed
qed

definition wild :: "char \<Rightarrow> char \<Rightarrow> bool" where
  "wild a c \<longleftrightarrow> c = a \<or> a = CHR ''*''"

lemma trie_pattern:
  "is_trie h addr P F \<Longrightarrow> p \<in> P \<Longrightarrow>
     pattern_accepts h (addr p) w \<longleftrightarrow> (\<exists>u. p @ u \<in> F \<and> list_all2 wild u w)"
proof (induction w arbitrary: p)
  case Nil
  then show ?case by (simp add: trie_final_iff)
next
  case (Cons c w)
  have "pattern_accepts h (addr p) (c # w) \<longleftrightarrow>
      (\<exists>l. wild l c \<and> p @ [l] \<in> P \<and> pattern_accepts h (addr (p @ [l])) w)"
    using trie_edge [OF Cons.prems] unfolding pattern_step wild_def by (metis option.inject option.distinct(1))
  also have "\<dots> \<longleftrightarrow> (\<exists>l. wild l c \<and> p @ [l] \<in> P \<and> (\<exists>u. (p @ [l]) @ u \<in> F \<and> list_all2 wild u w))"
    using Cons.IH [OF Cons.prems(1)] by blast
  also have "\<dots> \<longleftrightarrow> (\<exists>l u. wild l c \<and> p @ l # u \<in> F \<and> list_all2 wild u w)"
  proof -
    have "p @ l # u \<in> F \<Longrightarrow> p @ [l] \<in> P" for l u
      using trie_prefix [OF Cons.prems(1), of "p @ [l]" u] Cons.prems(1) by (auto simp: is_trie_def)
    then show ?thesis by auto
  qed
  also have "\<dots> \<longleftrightarrow> (\<exists>u. p @ u \<in> F \<and> list_all2 wild u (c # w))"
    by (auto simp: list_all2_Cons2)
  finally show ?case .
qed

text \<open>\<open>within k t w\<close>: the word \<open>w\<close> is at most \<open>k\<close> edits from the term \<open>t\<close>.\<close>

inductive within :: "nat \<Rightarrow> string \<Rightarrow> string \<Rightarrow> bool" where
  ended: "within k [] []"
| same: "within k s w \<Longrightarrow> wild c d \<Longrightarrow> within k (c # s) (d # w)"
| inserted: "within k s w \<Longrightarrow> within (Suc k) s (d # w)"
| deleted: "within k s w \<Longrightarrow> within (Suc k) (c # s) w"
| substituted: "within k s w \<Longrightarrow> within (Suc k) (c # s) (d # w)"
| transposed: "within k (a # s) w \<Longrightarrow> wild b d \<Longrightarrow> within (Suc k) (a # b # s) (d # w)"

lemma wild_star [simp]: "wild (CHR ''*'') d"
  by (simp add: wild_def)

lemma edits_within: "edits k s u \<Longrightarrow> list_all2 wild u w \<Longrightarrow> within k s w"
  by (induction arbitrary: w rule: edits.induct) (auto simp: list_all2_Cons1 intro: within.intros)

lemma within_edits: "within k s w \<Longrightarrow> \<exists>u. edits k s u \<and> list_all2 wild u w"
proof (induction rule: within.induct)
  case (ended k)
  then show ?case by (auto intro: edits.stop)
next
  case (same k s w c d)
  then show ?case by (metis edits.keep list_all2_Cons)
next
  case (inserted k s w d)
  then show ?case by (metis edits.ins list_all2_Cons wild_star)
next
  case (deleted k s w c)
  then show ?case by (metis edits.del)
next
  case (substituted k s w c d)
  then show ?case by (metis edits.sub list_all2_Cons wild_star)
next
  case (transposed k a s w b d)
  then show ?case by (metis edits.swap list_all2_Cons)
qed

section \<open>Looking up the terms of a clause\<close>

definition pattern_ready :: "ts_heap \<Rightarrow> nat \<Rightarrow> ts_heap \<Rightarrow> (string \<Rightarrow> bool) \<Rightarrow> bool" where
  "pattern_ready h q h1 L \<longleftrightarrow>
     next_id h \<le> next_id h1 \<and> same_at {..<next_id h} h h1
     \<and> (\<exists>R. q \<in> R \<and> closed_in h1 R \<and> (\<forall>j \<in> R. j < next_id h1))
     \<and> (\<forall>w. w = [] \<or> pattern_accepts h1 q w = L w)"

lemma fromString_ready:
  assumes "fromString p h = (q, h1)"
  shows "pattern_ready h q h1 (glob p)"
proof -
  let ?n = "next_id h" and ?h = "snd (new_node h)"
  have eqs: "q = ?n" "h1 = fromString_loop ?n p ?h"
    using assms by (auto simp: fromString_def new_node_def)
  have e: "edge ?h ?n c = None" for c by (simp add: new_node_def edge_def empty_node_def)
  have same: "same_at {..<?n} h ?h" by (simp add: same_at_def new_node_def)
  show ?thesis
  proof (cases p)
    case Nil
    have "pattern_accepts ?h ?n w = False" if "w \<noteq> []" for w
      using that by (cases w) (simp_all add: e)
    moreover have "closed_in ?h {?n}" by (simp add: closed_in_def e)
    ultimately show ?thesis
      using Nil same eqs by (auto simp: pattern_ready_def)
  next
    case (Cons c cs)
    have "own_region ?h ?n (next_id ?h) h1 \<and> (\<forall>w. pattern_accepts h1 ?n w \<longleftrightarrow> glob (if False then CHR ''*'' # p else p) w)"
      unfolding eqs(2) using e Cons by (intro fromString_loop_glob) (simp_all, simp add: new_node_def empty_node_def)
    then have r: "own_region ?h ?n (Suc ?n) h1" "\<And>w. pattern_accepts h1 ?n w \<longleftrightarrow> glob p w" by auto
    have "same_at {..<?n} h h1"
      using r(1) by (auto simp: own_region_def same_at_def new_node_def)
    with r eqs(1) show ?thesis
      by (auto simp: pattern_ready_def own_region_def intro!: exI [of _ "insert ?n {Suc ?n..<next_id h1}"])
  qed
qed

lemma fromFuzzyString_ready:
  assumes "t \<noteq> []"
  shows "\<exists>q h1. fromFuzzyString t k h = Some (q, h1) \<and> pattern_ready h q h1 (within k t)"
proof -
  let ?n = "next_id h" and ?h = "snd (new_node h)"
  have "growing h ?n (\<lambda>_. ?n) {[]} {} [([], k, t)] [(?n, k, t)] ?h"
    using assms trie_new [of h] by (auto simp: growing_def new_node_def)
  from fuzzy_loop_grows [OF this] obtain h1 addr P where
    loop: "fuzzy_loop [(?n, k, t)] ?h = Some h1" and g: "growing h ?n addr P {u. edits k t u} [] [] h1"
    by auto
  have trie: "is_trie h1 addr P {u. edits k t u}" "[] \<in> P" "addr [] = ?n"
    using g by (auto simp: growing_def is_trie_def)
  have "pattern_accepts h1 ?n w \<longleftrightarrow> within k t w" for w
    using trie_pattern [OF trie(1,2)] trie(3) edits_within within_edits by auto
  moreover have "closed_in h1 (addr ` P)"
    using trie_edge [OF trie(1)] by (auto simp: closed_in_def split: if_splits)
  moreover have "\<forall>j \<in> addr ` P. j < next_id h1" using trie_below [OF trie(1)] by auto
  moreover have "?n \<in> addr ` P" using trie(2,3) by (metis imageI)
  ultimately have "pattern_ready h ?n h1 (within k t)"
    using g unfolding pattern_ready_def growing_def same_at_def by (auto simp: new_node_def)
  moreover have "fromFuzzyString t k h = Some (?n, h1)"
    using loop by (simp add: fromFuzzyString_def new_node_def)
  ultimately show ?thesis by blast
qed

definition clause_matches :: "clause \<Rightarrow> string \<Rightarrow> bool" where
  "clause_matches c w =
     (case cl_editDistance c of None \<Rightarrow> glob (cl_term c) w | Some n \<Rightarrow> within n (cl_term c) w)"

lemma fromClause_ready:
  assumes "cl_term c \<noteq> []"
  shows "\<exists>q h1. fromClause c h = Some (q, h1) \<and> pattern_ready h q h1 (clause_matches c)"
proof (cases "cl_editDistance c")
  case None
  obtain q h1 where "fromString (cl_term c) h = (q, h1)" by (cases "fromString (cl_term c) h")
  with fromString_ready [OF this] None show ?thesis
    by (simp add: fromClause_def clause_matches_def [abs_def])
next
  case (Some n)
  with fromFuzzyString_ready [OF assms] show ?thesis
    by (simp add: fromClause_def clause_matches_def [abs_def])
qed

lemma lookup_terms:
  assumes index: "index_set h n W" and ne: "cl_term c \<noteq> []"
  shows "\<exists>found h2. expandedTerms n c h = Some (found, h2) \<and> distinct found
    \<and> set found = {w \<in> W. w \<noteq> [] \<and> clause_matches c w} \<and> index_set h2 n W"
proof -
  obtain q h1 where from': "fromClause c h = Some (q, h1)" and ready: "pattern_ready h q h1 (clause_matches c)"
    using fromClause_ready [OF ne] by blast
  obtain Q where Q: "n \<in> Q" "closed_in h Q" "\<forall>j \<in> Q. j < next_id h"
    using index by (auto simp: index_set_def)
  obtain R where R: "q \<in> R" "closed_in h1 R" "\<forall>j \<in> R. j < next_id h1"
    using ready by (auto simp: pattern_ready_def)
  have same: "same_at Q h h1" and le: "next_id h \<le> next_id h1"
    using ready Q(3) by (auto simp: pattern_ready_def same_at_def)
  have "closed_in h1 (Q \<union> R)"
    using closed_frame [OF Q(2) same] R(2) by (auto simp: closed_in_def)
  moreover have "\<forall>i \<in> Q \<union> R. i < next_id h1" using Q(3) R(3) le by fastforce
  moreover have "grounded h1 n"
    using index Q same by (auto simp: index_set_def intro: grounded_frame)
  ultimately obtain out h2 found where "intersect_ts n q h1 = Some (out, h2)" "toArray_ts h2 out = Some found"
    "distinct found" "set found = {w. w \<noteq> [] \<and> accepts h1 n w \<and> pattern_accepts h1 q w}"
    and kept: "same_at (Q \<union> R) h1 h2" "\<forall>i \<in> Q \<union> R. i < next_id h2"
    using intersect_words [of h1 "Q \<union> R" n q] Q(1) R(1) by blast
  moreover have "accepts h1 n w \<longleftrightarrow> w \<in> W" for w
    using accepts_frame [OF Q(2) same Q(1)] index by (simp add: index_set_def)
  moreover have "w \<noteq> [] \<Longrightarrow> pattern_accepts h1 q w = clause_matches c w" for w
    using ready by (auto simp: pattern_ready_def)
  ultimately have "expandedTerms n c h = Some (found, h2)"
    "set found = {w \<in> W. w \<noteq> [] \<and> clause_matches c w}" "distinct found"
    using from' by (auto simp: expandedTerms_def)
  moreover have "index_set h2 n W"
  proof -
    have same2: "same_at Q h h2" using same kept(1) by (simp add: same_at_def)
    have "accepts h2 n w \<longleftrightarrow> w \<in> W" for w
      using accepts_frame [OF Q(2) same2 Q(1)] index by (simp add: index_set_def)
    moreover have "grounded h2 n" using index grounded_frame [OF _ Q(2) same2 Q(1)] by (simp add: index_set_def)
    ultimately show ?thesis
      unfolding index_set_def using Q(1) closed_frame [OF Q(2) same2] kept(2) by blast
  qed
  ultimately show ?thesis by blast
qed

text \<open>
  C35. Looking up a clause with a non-empty term in the token set of sorted words without digits
  returns, each once, exactly the non-empty words that match it: with wildcards the words the
  pattern covers, with an edit distance the words within that many edits (a character inserted,
  left out, replaced, or two exchanged). Building the set, making the pattern, intersecting and
  listing all end. The empty word is never found.
\<close>

theorem lookup_finds_matching_terms:
  assumes "sorted ws" and "list_all plain_word ws" and "cl_term c \<noteq> []"
  shows "\<exists>tokenSet h1 found h2.
      fromArray ws h = Inr (tokenSet, h1) \<and> expandedTerms tokenSet c h1 = Some (found, h2)
    \<and> distinct found \<and> set found = {w \<in> set ws. w \<noteq> [] \<and> clause_matches c w}"
proof -
  obtain r h1 where "fromArray ws h = Inr (r, h1)" "index_set h1 r (set ws)"
    using fromArray_index [OF assms(1,2)] by blast
  with lookup_terms [OF this(2) assms(3)] show ?thesis by blast
qed

theorem lookup_finds_matching_terms_witness:
  "\<exists>tokenSet h1 found h2.
      fromArray [''port'', ''post'', ''sport''] empty_heap = Inr (tokenSet, h1)
    \<and> expandedTerms tokenSet (empty_clause\<lparr>cl_term := ''po*t''\<rparr>) h1 = Some (found, h2)
    \<and> distinct found
    \<and> set found = {w \<in> set [''port'', ''post'', ''sport'']. w \<noteq> [] \<and> clause_matches (empty_clause\<lparr>cl_term := ''po*t''\<rparr>) w}"
  by (rule lookup_finds_matching_terms) (simp_all add: is_digit_def)

end
