(* ===== verification/LunrIndexProps.thy ===== *)
theory LunrIndexProps
  imports LunrIndex LunrTokenSetWalk
begin

text \<open>
  Which documents a query of lunr finds. \<open>well_indexed\<close> says what an index has to satisfy;
  \<open>LunrBuilder\<close> shows that the builder makes such indexes. \<open>moved\<close> describes what the loops over
  terms and fields do to the variables of a query, \<open>settled\<close> what a whole clause does, both as
  relations between the state before and after that compose. The result is \<open>query_documents\<close>:
  a query returns, and its documents are those the Boolean meaning of its clauses selects.
\<close>

section \<open>Well-formed indexes\<close>

abbreviation ref :: "string \<Rightarrow> string \<Rightarrow> string" where
  "ref d Q \<equiv> toString_ref (FieldRef d Q)"

definition occurrences :: "('v, 'f) lunr_index \<Rightarrow> string \<Rightarrow> string \<Rightarrow> string set" where
  "occurrences ix w Q =
     (case map_of (ix_invertedIndex ix) w of
        None \<Rightarrow> {}
      | Some g \<Rightarrow> (case map_of (p_fields g) Q of None \<Rightarrow> {} | Some ds \<Rightarrow> fst ` set ds))"

abbreviation terms_of :: "('v, 'f) lunr_index \<Rightarrow> string set" where
  "terms_of ix \<equiv> fst ` set (ix_invertedIndex ix)"

definition well_indexed :: "('v, 'f) lunr_index \<Rightarrow> ts_heap \<Rightarrow> string set \<Rightarrow> bool" where
  "well_indexed ix h docs \<longleftrightarrow>
     index_set h (ix_tokenSet ix) (terms_of ix)
     \<and> (\<forall>Q \<in> set (ix_fields ix). joiner \<notin> set Q)
     \<and> (\<forall>g \<in> snd ` set (ix_invertedIndex ix). set (ix_fields ix) \<subseteq> fst ` set (p_fields g))
     \<and> (\<forall>w. \<forall>Q \<in> set (ix_fields ix). occurrences ix w Q \<subseteq> docs)
     \<and> ix_fields ix \<noteq> []
     \<and> fst ` set (ix_fieldVectors ix) = (\<lambda>(d, Q). ref d Q) ` (docs \<times> set (ix_fields ix))"

lemma ref_inj: "joiner \<notin> set Q \<Longrightarrow> joiner \<notin> set Q' \<Longrightarrow> ref d Q = ref d' Q' \<longleftrightarrow> d = d' \<and> Q = Q'"
  by (rule toString_ref_inj)

lemma parse_ref_ref:
  "joiner \<notin> set Q \<Longrightarrow> parse_ref (ref d Q) = ret \<lparr>fr_docRef = d, fr_fieldName = Q, fr_stringValue = Some (ref d Q)\<rparr>"
  using ref_roundtrip [of Q d] by (simp add: parse_ref_def toString_ref_def FieldRef_def)

lemma cache_key_inj:
  assumes "joiner \<notin> set Q" "joiner \<notin> set Q'" "v @ joiner # Q = v' @ joiner # Q'"
  shows "v = v' \<and> Q = Q'"
proof -
  have "rev (v @ joiner # Q) = rev (v' @ joiner # Q')" using assms(3) by (rule arg_cong)
  then have eq: "rev Q @ joiner # rev v = rev Q' @ joiner # rev v'" by simp
  have "index_of [joiner] (rev Q @ joiner # rev v) = Some (length Q)"
    "index_of [joiner] (rev Q' @ joiner # rev v') = Some (length Q')"
    using index_of_joiner [of "rev Q" "rev v"] index_of_joiner [of "rev Q'" "rev v'"] assms by simp_all
  with eq have "length (rev Q) = length (rev Q')" by simp
  with eq show ?thesis by simp
qed

section \<open>The state of a query\<close>

text \<open>A set that a union starts with counts as empty even when it is \<open>lunr.Set.complete\<close>.\<close>

definition cset :: "lset \<Rightarrow> string set" where
  "cset s = (if s = Complete then {} else {d. contains s d})"

lemma new_set_proper [simp]: "new_set e \<noteq> Complete"
  by (simp add: new_set_def)

lemma cset_simps [simp]:
  "cset Complete = {}" "cset Empty_set = {}" "cset (new_set e) = set e"
  by (auto simp: cset_def)

lemma union_proper [simp]: "b \<noteq> Complete \<Longrightarrow> union_set a b \<noteq> Complete"
  by (cases a; cases b) auto

lemma cset_union [simp]: "b \<noteq> Complete \<Longrightarrow> cset (union_set a b) = cset a \<union> cset b"
  by (auto simp: cset_def contains_union)

definition keys_of :: "'v qstate \<Rightarrow> string set" where
  "keys_of st = fst ` set (qs_matching st)"

text \<open>The documents allowed by the required clauses, forbidden by the prohibited ones.\<close>

definition allow :: "'v qstate \<Rightarrow> string \<Rightarrow> bool" where
  "allow st d \<longleftrightarrow> (\<forall>Q s. map_of (qs_required st) Q = Some s \<longrightarrow> contains s d)"

definition forbid :: "'v qstate \<Rightarrow> string \<Rightarrow> bool" where
  "forbid st d \<longleftrightarrow> (\<exists>Q s. map_of (qs_prohibited st) Q = Some s \<and> contains s d)"

definition required_keys :: "'v qstate \<Rightarrow> string set" where
  "required_keys st = fst ` set (qs_required st)"

definition vectors_ok :: "'v::linorder numbers \<Rightarrow> string list \<Rightarrow> 'v qstate \<Rightarrow> bool" where
  "vectors_ok A Qs st \<longleftrightarrow>
     (\<forall>Q \<in> set Qs. \<exists>ps. ascending ps \<and> map_of (qs_vectors st) Q = Some (vector_of (arith_of A) ps))"

definition cache_ok :: "('v, 'f) lunr_index \<Rightarrow> 'v qstate \<Rightarrow> bool" where
  "cache_ok ix st \<longleftrightarrow>
     (\<forall>v. \<forall>Q \<in> set (ix_fields ix). v @ joiner # Q \<in> set (qs_cache st) \<longrightarrow>
        (\<lambda>d. ref d Q) ` occurrences ix v Q \<subseteq> keys_of st)"

definition query_inv :: "'v::linorder numbers \<Rightarrow> ('v, 'f) lunr_index \<Rightarrow> string set \<Rightarrow> 'v qstate \<Rightarrow> bool" where
  "query_inv A ix docs st \<longleftrightarrow>
     vectors_ok A (ix_fields ix) st \<and> cache_ok ix st
     \<and> required_keys st \<subseteq> set (ix_fields ix)
     \<and> fst ` set (qs_prohibited st) \<subseteq> set (ix_fields ix)
     \<and> Complete \<notin> ran (map_of (qs_prohibited st))
     \<and> keys_of st \<subseteq> (\<lambda>(d, Q). ref d Q) ` (docs \<times> set (ix_fields ix))"

text \<open>
  \<open>moved\<close>: fields of documents \<open>P\<close> have been visited for the clause. A visit of a required
  clause makes the field known to \<open>qs_required\<close>, without a restriction yet.
\<close>

definition moved ::
    "'v::linorder numbers \<Rightarrow> ('v, 'f) lunr_index \<Rightarrow> string set \<Rightarrow> clause \<Rightarrow> (string \<times> string) set \<Rightarrow>
     'v qstate \<Rightarrow> 'v qstate \<Rightarrow> bool" where
  "moved A ix docs c P st st' \<longleftrightarrow>
     query_inv A ix docs st'
     \<and> keys_of st' = keys_of st \<union> (if cl_presence c = Some PROHIBITED then {} else (\<lambda>(d, Q). ref d Q) ` P)
     \<and> cset (qs_clause st') = cset (qs_clause st) \<union> (if cl_presence c = Some REQUIRED then fst ` P else {})
     \<and> (qs_clause st \<noteq> Complete \<longrightarrow> qs_clause st' \<noteq> Complete)
     \<and> (\<forall>d. allow st' d = allow st d)
     \<and> required_keys st \<subseteq> required_keys st'
     \<and> (\<forall>d. forbid st' d \<longleftrightarrow> forbid st d \<or> cl_presence c = Some PROHIBITED \<and> d \<in> fst ` P)"

lemma moved_trans:
  "moved A ix docs c P st st1 \<Longrightarrow> moved A ix docs c P' st1 st2 \<Longrightarrow> moved A ix docs c (P \<union> P') st st2"
  unfolding moved_def by (simp add: image_Un Un_assoc subset_trans) auto

lemma moved_refl: "query_inv A ix docs st \<Longrightarrow> moved A ix docs c {} st st"
  by (simp add: moved_def)

lemma moved_inv: "moved A ix docs c P st st' \<Longrightarrow> query_inv A ix docs st'"
  by (simp add: moved_def)

lemma fst_update: "fst ` set (AList.update k v t) = insert k (fst ` set t)"
  using dom_update [of k v t] by simp

lemma map_of_None_keys: "map_of t k = None \<longleftrightarrow> k \<notin> fst ` set t"
  by (rule map_of_eq_None_iff)

lemma keys_add_matches:
  "fst ` set (add_matches v Q docs n) = fst ` set n \<union> (\<lambda>d. ref d Q) ` fst ` set docs"
proof (induction docs arbitrary: n)
  case (Cons a docs)
  obtain T R where "a = (T, R)" by (cases a)
  have "add_matches v Q (a # docs) n = add_matches v Q docs
     (case map_of n (ref T Q) of None \<Rightarrow> AList.update (ref T Q) (new_matchdata (Some (v, Q, R))) n
      | Some S \<Rightarrow> AList.update (ref T Q) (add_matchdata v Q R S) n)"
    by (simp add: add_matches_def \<open>a = (T, R)\<close> Let_def)
  then show ?case by (simp add: Cons.IH \<open>a = (T, R)\<close> fst_update split: option.split)
qed (simp add: add_matches_def)

section \<open>Visiting a field of a term\<close>

lemma vectors_ok_update:
  "vectors_ok A Qs st \<Longrightarrow> ascending ps \<Longrightarrow>
   vectors_ok A Qs (st\<lparr>qs_vectors := AList.update Q (vector_of (arith_of A) ps) (qs_vectors st)\<rparr>)"
  by (auto simp: vectors_ok_def update_conv)

lemma query_vector_upsert:
  assumes "vectors_ok A Qs st" "Q \<in> set Qs"
  obtains vec ps where "map_of (qs_vectors st) Q = Some vec" "ascending ps"
    "upsert (arith_of A) e t (\<lambda>e t. Inr (a_add A e t)) vec = ret (vector_of (arith_of A) ps)"
proof -
  obtain ps where ps: "ascending ps" "map_of (qs_vectors st) Q = Some (vector_of (arith_of A) ps)"
    using assms by (auto simp: vectors_ok_def)
  show thesis
  proof (cases "map_of ps e")
    case None
    show thesis
      by (rule that [OF ps(2) ascending_upd [OF ps(1), of e t]]) (simp add: upsert_vector [OF ps(1)] None)
  next
    case (Some x)
    show thesis
      by (rule that [OF ps(2) ascending_upd [OF ps(1), of e "a_add A x t"]])
         (simp add: upsert_vector [OF ps(1)] Some)
  qed
qed

text \<open>Remembering the matches of a field once.\<close>

definition remember :: "string \<Rightarrow> string \<Rightarrow> (string \<times> term_meta) list \<Rightarrow> 'v qstate \<Rightarrow> 'v qstate" where
  "remember v Q ds st =
     (if v @ [joiner] @ Q \<in> set (qs_cache st) then st
      else st\<lparr>qs_matching := add_matches v Q ds (qs_matching st),
              qs_cache := (v @ [joiner] @ Q) # qs_cache st\<rparr>)"

lemma remember_same [simp]:
  "qs_vectors (remember v Q ds st) = qs_vectors st"
  "qs_required (remember v Q ds st) = qs_required st"
  "qs_prohibited (remember v Q ds st) = qs_prohibited st"
  "qs_clause (remember v Q ds st) = qs_clause st"
  by (simp_all add: remember_def)

lemma remember_keys:
  assumes ix: "well_indexed ix h docs" and Q: "Q \<in> set (ix_fields ix)" and "cache_ok ix st"
    and occ: "occurrences ix v Q = fst ` set ds"
  shows "keys_of (remember v Q ds st) = keys_of st \<union> (\<lambda>d. ref d Q) ` occurrences ix v Q
    \<and> cache_ok ix (remember v Q ds st)"
proof (cases "v @ [joiner] @ Q \<in> set (qs_cache st)")
  case True
  then have "(\<lambda>d. ref d Q) ` occurrences ix v Q \<subseteq> keys_of st"
    using assms(3) Q by (simp add: cache_ok_def)
  with True assms(3) show ?thesis by (simp add: remember_def Un_absorb2)
next
  case False
  have keys: "keys_of (remember v Q ds st) = keys_of st \<union> (\<lambda>d. ref d Q) ` occurrences ix v Q"
    using False by (simp add: remember_def keys_of_def keys_add_matches occ)
  have "v' @ joiner # Q' \<in> set (qs_cache st) \<or> v' = v \<and> Q' = Q"
    if "Q' \<in> set (ix_fields ix)" "v' @ joiner # Q' \<in> set (qs_cache (remember v Q ds st))" for v' Q'
    using that False cache_key_inj [of Q' Q v' v] ix Q by (auto simp: remember_def well_indexed_def)
  then have "cache_ok ix (remember v Q ds st)"
    using assms(3) unfolding cache_ok_def keys by blast
  with keys show ?thesis by blast
qed

text \<open>The visit with the clause's set already updated.\<close>

definition note_required :: "clause \<Rightarrow> (string \<times> term_meta) list \<Rightarrow> string \<Rightarrow> 'v qstate \<Rightarrow> 'v qstate" where
  "note_required c ds Q st =
     (if cl_presence c = Some REQUIRED
      then st\<lparr>qs_clause := union_set (qs_clause st) (new_set (map fst ds)),
              qs_required := (if map_of (qs_required st) Q = None
                              then AList.update Q Complete (qs_required st)
                              else qs_required st)\<rparr>
      else st)"

lemma note_required_same [simp]:
  "qs_vectors (note_required c ds Q st) = qs_vectors st"
  "qs_matching (note_required c ds Q st) = qs_matching st"
  "qs_cache (note_required c ds Q st) = qs_cache st"
  "qs_prohibited (note_required c ds Q st) = qs_prohibited st"
  by (simp_all add: note_required_def)

lemma note_required_moved:
  assumes "query_inv A ix docs st" "Q \<in> set (ix_fields ix)"
  shows "query_inv A ix docs (note_required c ds Q st)"
    "allow (note_required c ds Q st) d = allow st d"
    "required_keys (note_required c ds Q st) =
       required_keys st \<union> (if cl_presence c = Some REQUIRED then {Q} else {})"
    "cset (qs_clause (note_required c ds Q st)) =
       cset (qs_clause st) \<union> (if cl_presence c = Some REQUIRED then fst ` set ds else {})"
    "cl_presence c = Some REQUIRED \<Longrightarrow> qs_clause (note_required c ds Q st) \<noteq> Complete"
    "cl_presence c \<noteq> Some REQUIRED \<Longrightarrow> qs_clause (note_required c ds Q st) = qs_clause st"
proof -
  show keys: "required_keys (note_required c ds Q st) =
       required_keys st \<union> (if cl_presence c = Some REQUIRED then {Q} else {})"
    by (auto simp: note_required_def required_keys_def fst_update map_of_None_keys)
  show "query_inv A ix docs (note_required c ds Q st)"
    using assms keys by (auto simp: query_inv_def vectors_ok_def cache_ok_def keys_of_def)
  show "allow (note_required c ds Q st) d = allow st d"
    unfolding allow_def by (auto simp: note_required_def update_conv split: if_splits) (metis option.distinct(1))
qed (auto simp: note_required_def)

lemma query_field_alt:
  assumes "map_of (p_fields g) Q = Some ds"
  shows "query_field A c v g Q st =
    (let st = note_required c ds Q st in
     if cl_presence c \<noteq> Some PROHIBITED then
       then_run (need (map_of (qs_vectors st) Q)) (\<lambda>vec.
       then_run (upsert (arith_of A) (a_num A (int (p_index g))) (boost_of A c)
                   (\<lambda>e t. Inr (a_add A e t)) vec) (\<lambda>vec.
         ret (remember v Q ds (st\<lparr>qs_vectors := AList.update Q vec (qs_vectors st)\<rparr>))))
     else ret (st\<lparr>qs_prohibited :=
        AList.update Q
          (union_set (case map_of (qs_prohibited st) Q of None \<Rightarrow> Empty_set | Some s \<Rightarrow> s) (new_set (map fst ds)))
          (qs_prohibited st)\<rparr>))"
  using assms by (simp add: query_field_def note_required_def remember_def Let_def cong: if_cong)

lemma query_field_moved:
  assumes ix: "well_indexed ix h docs" and inv: "query_inv A ix docs st"
    and g: "map_of (ix_invertedIndex ix) v = Some g" and Q: "Q \<in> set (ix_fields ix)"
  shows "\<exists>st'. query_field A c v g Q st = ret st'
    \<and> moved A ix docs c (occurrences ix v Q \<times> {Q}) st st'
    \<and> (cl_presence c = Some REQUIRED \<longrightarrow> Q \<in> required_keys st' \<and> qs_clause st' \<noteq> Complete)"
proof -
  have "set (ix_fields ix) \<subseteq> fst ` set (p_fields g)"
    using ix map_of_SomeD [OF g] by (force simp: well_indexed_def)
  then obtain ds where ds: "map_of (p_fields g) Q = Some ds"
    using Q map_of_None_keys [of "p_fields g" Q] by (cases "map_of (p_fields g) Q") auto
  then have occ: "occurrences ix v Q = fst ` set ds" using g by (simp add: occurrences_def)
  have sub: "occurrences ix v Q \<subseteq> docs" using ix Q by (simp add: well_indexed_def)
  let ?st = "note_required c ds Q st"
  note nr = note_required_moved [OF inv Q, where c = c and ds = ds]
  have here: "(\<lambda>(d, Q). ref d Q) ` (occurrences ix v Q \<times> {Q}) = (\<lambda>d. ref d Q) ` occurrences ix v Q"
    by auto
  have proj: "fst ` (occurrences ix v Q \<times> {Q}) = occurrences ix v Q" by force
  have same_keys: "keys_of ?st = keys_of st" "forbid ?st = forbid st"
    by (simp_all add: keys_of_def forbid_def fun_eq_iff)
  show ?thesis
  proof (cases "cl_presence c = Some PROHIBITED")
    case False
    have "vectors_ok A (ix_fields ix) ?st" using nr(1) by (simp add: query_inv_def)
    from query_vector_upsert [OF this Q] obtain vec ps where vec: "map_of (qs_vectors ?st) Q = Some vec"
      "ascending ps" "upsert (arith_of A) (a_num A (int (p_index g))) (boost_of A c)
         (\<lambda>e t. Inr (a_add A e t)) vec = ret (vector_of (arith_of A) ps)" by blast
    let ?s1 = "?st\<lparr>qs_vectors := AList.update Q (vector_of (arith_of A) ps) (qs_vectors ?st)\<rparr>"
    have v1: "vectors_ok A (ix_fields ix) ?s1"
      by (rule vectors_ok_update) (use nr(1) vec in \<open>simp_all add: query_inv_def\<close>)
    have c1: "cache_ok ix ?s1" using nr(1) by (simp add: query_inv_def cache_ok_def keys_of_def)
    have k1: "keys_of ?s1 = keys_of st" using same_keys by (simp add: keys_of_def)
    let ?s2 = "remember v Q ds ?s1"
    note rem = remember_keys [OF ix Q c1 occ]
    have "query_field A c v g Q st = ret ?s2"
      using False vec by (simp add: query_field_alt [OF ds] Let_def)
    moreover have "query_inv A ix docs ?s2"
      using nr(1) v1 rem k1 sub Q
      by (auto simp: query_inv_def vectors_ok_def required_keys_def same_keys)
    moreover have "allow ?s2 = allow ?st" "forbid ?s2 = forbid ?st" "required_keys ?s2 = required_keys ?st"
      by (simp_all add: allow_def forbid_def required_keys_def fun_eq_iff)
    ultimately show ?thesis
      using False rem k1 nr(2-6) same_keys by (auto simp: moved_def here proj occ)
  next
    case True
    let ?s = "case map_of (qs_prohibited ?st) Q of None \<Rightarrow> Empty_set | Some s \<Rightarrow> s"
    let ?s2 = "?st\<lparr>qs_prohibited := AList.update Q (union_set ?s (new_set (map fst ds))) (qs_prohibited ?st)\<rparr>"
    have proper: "?s \<noteq> Complete" using nr(1) by (auto simp: query_inv_def ran_def split: option.split)
    have "forbid ?s2 d \<longleftrightarrow> forbid st d \<or> d \<in> fst ` set ds" for d
    proof -
      have "forbid ?s2 d \<longleftrightarrow> contains (union_set ?s (new_set (map fst ds))) d
          \<or> (\<exists>Q' s. Q' \<noteq> Q \<and> map_of (qs_prohibited st) Q' = Some s \<and> contains s d)"
        by (auto simp: forbid_def update_conv split: if_splits)
      also have "contains (union_set ?s (new_set (map fst ds))) d \<longleftrightarrow> contains ?s d \<or> d \<in> fst ` set ds"
        using proper by (simp add: contains_union)
      also have "contains ?s d \<longleftrightarrow> (\<exists>s. map_of (qs_prohibited st) Q = Some s \<and> contains s d)"
        by (simp split: option.split)
      finally show ?thesis unfolding forbid_def by metis
    qed
    moreover have "query_inv A ix docs ?s2"
      using nr(1) Q proper
      by (auto simp: query_inv_def vectors_ok_def cache_ok_def keys_of_def required_keys_def fst_update
          ran_def update_conv split: if_splits)
    moreover have "allow ?s2 = allow ?st" "required_keys ?s2 = required_keys ?st" "keys_of ?s2 = keys_of st"
      using same_keys by (simp_all add: allow_def required_keys_def keys_of_def fun_eq_iff)
    moreover have "query_field A c v g Q st = ret ?s2"
      using True by (simp add: query_field_alt [OF ds] Let_def)
    ultimately show ?thesis
      using True nr(2-6) by (auto simp: moved_def proj occ)
  qed
qed

section \<open>Visiting the terms of a clause\<close>

lemma fold_run_moved:
  assumes "\<And>x st. x \<in> set xs \<Longrightarrow> query_inv A ix docs st \<Longrightarrow>
      \<exists>st'. f x st = ret st' \<and> moved A ix docs c (P x) st st'
        \<and> (cl_presence c = Some REQUIRED \<longrightarrow> K x \<subseteq> required_keys st' \<and> qs_clause st' \<noteq> Complete)"
  shows "query_inv A ix docs st \<Longrightarrow>
      \<exists>st'. fold_run f xs st = ret st' \<and> moved A ix docs c (\<Union> (P ` set xs)) st st'
        \<and> (cl_presence c = Some REQUIRED \<longrightarrow>
             \<Union> (K ` set xs) \<subseteq> required_keys st' \<and> (xs \<noteq> [] \<longrightarrow> qs_clause st' \<noteq> Complete))"
  using assms
proof (induction xs arbitrary: st)
  case Nil
  then show ?case by (simp add: moved_refl)
next
  case (Cons x xs)
  obtain st1 where 1: "f x st = ret st1" "moved A ix docs c (P x) st st1"
    "cl_presence c = Some REQUIRED \<longrightarrow> K x \<subseteq> required_keys st1 \<and> qs_clause st1 \<noteq> Complete"
    using Cons.prems by force
  obtain st2 where 2: "fold_run f xs st1 = ret st2" "moved A ix docs c (\<Union> (P ` set xs)) st1 st2"
    "cl_presence c = Some REQUIRED \<longrightarrow> \<Union> (K ` set xs) \<subseteq> required_keys st2"
    using Cons.IH [OF moved_inv [OF 1(2)]] Cons.prems(2) by force
  have "required_keys st1 \<subseteq> required_keys st2" "qs_clause st1 \<noteq> Complete \<longrightarrow> qs_clause st2 \<noteq> Complete"
    using 2(2) by (simp_all add: moved_def)
  moreover have "moved A ix docs c (\<Union> (P ` set (x # xs))) st st2"
    using moved_trans [OF 1(2) 2(2)] by simp
  ultimately show ?case using 1 2 by auto
qed

lemma query_term_moved:
  assumes ix: "well_indexed ix h docs" and inv: "query_inv A ix docs st" and v: "v \<in> terms_of ix"
    and fs: "cl_fields c = Some fs" "fs \<noteq> []" "set fs \<subseteq> set (ix_fields ix)"
  shows "\<exists>st'. query_term A ix c v st = ret st'
    \<and> moved A ix docs c (\<Union>Q \<in> set fs. occurrences ix v Q \<times> {Q}) st st'
    \<and> (cl_presence c = Some REQUIRED \<longrightarrow> set fs \<subseteq> required_keys st' \<and> qs_clause st' \<noteq> Complete)"
proof -
  obtain g where g: "map_of (ix_invertedIndex ix) v = Some g"
    using v map_of_None_keys [of "ix_invertedIndex ix" v] by (cases "map_of (ix_invertedIndex ix) v") auto
  have step: "\<exists>st'. query_field A c v g Q s = ret st' \<and> moved A ix docs c (occurrences ix v Q \<times> {Q}) s st'
      \<and> (cl_presence c = Some REQUIRED \<longrightarrow> {Q} \<subseteq> required_keys st' \<and> qs_clause st' \<noteq> Complete)"
    if "Q \<in> set fs" "query_inv A ix docs s" for Q s
    using query_field_moved [OF ix that(2) g, of Q c] that(1) fs(3) by auto
  from fold_run_moved [of fs A ix docs "query_field A c v g" c "\<lambda>Q. occurrences ix v Q \<times> {Q}" "\<lambda>Q. {Q}", OF step inv]
  obtain st' where "fold_run (query_field A c v g) fs st = ret st'"
    "moved A ix docs c (\<Union>Q \<in> set fs. occurrences ix v Q \<times> {Q}) st st'"
    "cl_presence c = Some REQUIRED \<longrightarrow> set fs \<subseteq> required_keys st' \<and> qs_clause st' \<noteq> Complete"
    using fs(2) by auto
  then show ?thesis using g fs(1) by (auto simp: query_term_def)
qed

text \<open>The fields of documents that a clause hits with one of its tokens.\<close>

definition token_pairs :: "('v, 'f) lunr_index \<Rightarrow> clause \<Rightarrow> string list \<Rightarrow> string \<Rightarrow> (string \<times> string) set" where
  "token_pairs ix c fs tok =
     (\<Union>w \<in> {w \<in> terms_of ix. w \<noteq> [] \<and> clause_matches (c\<lparr>cl_term := tok\<rparr>) w}.
       \<Union>Q \<in> set fs. occurrences ix w Q \<times> {Q})"

definition expanded :: "('v, 'f) lunr_index \<Rightarrow> clause \<Rightarrow> string \<Rightarrow> bool" where
  "expanded ix c tok \<longleftrightarrow> (\<exists>w \<in> terms_of ix. w \<noteq> [] \<and> clause_matches (c\<lparr>cl_term := tok\<rparr>) w)"

lemma token_pairs_term [simp]: "token_pairs ix (c\<lparr>cl_term := t\<rparr>) fs = token_pairs ix c fs"
  "expanded ix (c\<lparr>cl_term := t\<rparr>) = expanded ix c"
  "moved A ix docs (c\<lparr>cl_term := t\<rparr>) P st st' = moved A ix docs c P st st'"
  by (simp_all add: token_pairs_def [abs_def] expanded_def [abs_def] moved_def)

lemma well_indexed_heap:
  "well_indexed ix h docs \<Longrightarrow> index_set h' (ix_tokenSet ix) (terms_of ix) \<Longrightarrow> well_indexed ix h' docs"
  by (simp add: well_indexed_def)

lemma keys_fold_update: "fst ` set (fold (\<lambda>Q. AList.update Q v) fs t) = set fs \<union> fst ` set t"
  by (induction fs arbitrary: t) (auto simp: fst_update)

lemma map_of_fold_update:
  "map_of (fold (\<lambda>Q. AList.update Q v) fs t) Q' = (if Q' \<in> set fs then Some v else map_of t Q')"
  by (induction fs arbitrary: t) (auto simp: update_conv)

lemma query_tokens_moved:
  assumes fs: "fs \<noteq> []" "set fs \<subseteq> set (ix_fields ix)"
  shows "well_indexed ix h docs \<Longrightarrow> query_inv A ix docs st \<Longrightarrow> cl_fields c = Some fs \<Longrightarrow> [] \<notin> set toks \<Longrightarrow>
    \<exists>st' h'. query_tokens A ix c toks (st, h) = ret (st', h') \<and> well_indexed ix h' docs
      \<and> query_inv A ix docs st'
      \<and> (cl_presence c = Some REQUIRED \<longrightarrow> toks = [] \<or> set fs \<subseteq> required_keys st')
      \<and> (if cl_presence c = Some REQUIRED \<and> \<not> list_all (expanded ix c) toks
         then (\<forall>d. \<not> allow st' d \<and> forbid st' d = forbid st d)
         else moved A ix docs c (\<Union> (token_pairs ix c fs ` set toks)) st st'
           \<and> (cl_presence c = Some REQUIRED \<longrightarrow> toks = [] \<or> qs_clause st' \<noteq> Complete))"
proof (induction toks arbitrary: st h c)
  case Nil
  then show ?case by (auto simp: moved_refl)
next
  case (Cons tok toks)
  let ?c = "c\<lparr>cl_term := tok\<rparr>"
  have idx: "index_set h (ix_tokenSet ix) (terms_of ix)" using Cons.prems(1) by (simp add: well_indexed_def)
  obtain found h1 where found: "expandedTerms (ix_tokenSet ix) ?c h = Some (found, h1)"
    "set found = {w \<in> terms_of ix. w \<noteq> [] \<and> clause_matches ?c w}"
    "index_set h1 (ix_tokenSet ix) (terms_of ix)"
    using lookup_terms [OF idx, of ?c] Cons.prems(4) by auto
  have ix1: "well_indexed ix h1 docs" using well_indexed_heap [OF Cons.prems(1) found(3)] .
  have empty: "found = [] \<longleftrightarrow> \<not> expanded ix c tok"
    using arg_cong [where f = "\<lambda>s. s = {}", OF found(2)] by (auto simp: expanded_def)
  show ?case
  proof (cases "found = [] \<and> cl_presence c = Some REQUIRED")
    case True
    let ?st = "st\<lparr>qs_required := fold (\<lambda>Q. AList.update Q Empty_set) fs (qs_required st)\<rparr>"
    have keys: "required_keys ?st = set fs \<union> required_keys st"
      by (simp add: required_keys_def keys_fold_update)
    have "query_inv A ix docs ?st"
      using Cons.prems(2) keys fs(2) by (auto simp: query_inv_def vectors_ok_def cache_ok_def keys_of_def)
    moreover have "\<not> allow ?st d" for d
      using fs(1) by (cases fs) (auto simp: allow_def map_of_fold_update simp del: fold.simps)
    moreover have "forbid ?st = forbid st" by (simp add: forbid_def fun_eq_iff)
    ultimately show ?thesis
      using True empty found(1) Cons.prems(3) ix1 keys by (auto simp: Let_def)
  next
    case False
    have step: "\<exists>st'. query_term A ix ?c v s = ret st'
        \<and> moved A ix docs c (\<Union>Q \<in> set fs. occurrences ix v Q \<times> {Q}) s st'
        \<and> (cl_presence c = Some REQUIRED \<longrightarrow> set fs \<subseteq> required_keys st' \<and> qs_clause st' \<noteq> Complete)"
      if "v \<in> set found" "query_inv A ix docs s" for v s
      using query_term_moved [OF ix1 that(2), of v ?c fs] that(1) found(2) Cons.prems(3) fs by simp
    from fold_run_moved [of found A ix docs "query_term A ix ?c" c
        "\<lambda>v. \<Union>Q \<in> set fs. occurrences ix v Q \<times> {Q}" "\<lambda>v. set fs", OF step Cons.prems(2)]
    obtain st1 where 1: "fold_run (query_term A ix ?c) found st = ret st1"
      "moved A ix docs c (token_pairs ix c fs tok) st st1"
      "cl_presence c = Some REQUIRED \<longrightarrow> set fs \<subseteq> required_keys st1 \<and> qs_clause st1 \<noteq> Complete"
      using False by (auto simp: token_pairs_def found(2) [symmetric])
    have "cl_fields ?c = Some fs" "[] \<notin> set toks" using Cons.prems(3,4) by simp_all
    from Cons.IH [OF ix1 moved_inv [OF 1(2)] this]
    obtain st2 h2 where 2: "query_tokens A ix ?c toks (st1, h1) = ret (st2, h2)" "well_indexed ix h2 docs"
      "query_inv A ix docs st2"
      "cl_presence c = Some REQUIRED \<longrightarrow> toks = [] \<or> set fs \<subseteq> required_keys st2"
      "if cl_presence c = Some REQUIRED \<and> \<not> list_all (expanded ix c) toks
       then \<forall>d. \<not> allow st2 d \<and> forbid st2 d = forbid st1 d
       else moved A ix docs c (\<Union> (token_pairs ix c fs ` set toks)) st1 st2
         \<and> (cl_presence c = Some REQUIRED \<longrightarrow> toks = [] \<or> qs_clause st2 \<noteq> Complete)"
      by (auto cong: if_cong)
    have run: "query_tokens A ix c (tok # toks) (st, h) = ret (st2, h2)"
      using False found(1) 1(1) 2(1) by (auto simp: Let_def)
    have ex: "cl_presence c = Some REQUIRED \<Longrightarrow> expanded ix c tok" using False empty by auto
    show ?thesis
    proof (cases "cl_presence c = Some REQUIRED \<and> \<not> list_all (expanded ix c) toks")
      case True
      moreover have "forbid st1 d = forbid st d" for d using 1(2) True by (simp add: moved_def)
      moreover have "toks \<noteq> []" using True by auto
      ultimately show ?thesis using run 2 by (intro exI [of _ st2] exI [of _ h2]) auto
    next
      case False
      then have m2: "moved A ix docs c (\<Union> (token_pairs ix c fs ` set toks)) st1 st2"
        "cl_presence c = Some REQUIRED \<longrightarrow> toks = [] \<or> qs_clause st2 \<noteq> Complete"
        using 2(5) by auto
      have keep: "required_keys st1 \<subseteq> required_keys st2" "qs_clause st1 \<noteq> Complete \<longrightarrow> qs_clause st2 \<noteq> Complete"
        using m2(1) by (simp_all add: moved_def)
      have "moved A ix docs c (\<Union> (token_pairs ix c fs ` set (tok # toks))) st st2"
        using moved_trans [OF 1(2) m2(1)] by simp
      moreover have "\<not> (cl_presence c = Some REQUIRED \<and> \<not> list_all (expanded ix c) (tok # toks))"
        using False ex by auto
      ultimately show ?thesis
        using run 2(2,3) 1(3) keep by (intro exI [of _ st2] exI [of _ h2]) auto
    qed
  qed
qed

section \<open>Clauses\<close>

lemma require_fields:
  assumes "set fs \<subseteq> required_keys st"
  shows "\<exists>st'. fold_run require_field fs st = ret st'
    \<and> (\<forall>d. allow st' d \<longleftrightarrow> allow st d \<and> (fs = [] \<or> contains (qs_clause st) d))
    \<and> required_keys st' = required_keys st
    \<and> qs_matching st' = qs_matching st \<and> qs_vectors st' = qs_vectors st
    \<and> qs_cache st' = qs_cache st \<and> qs_prohibited st' = qs_prohibited st"
  using assms
proof (induction fs arbitrary: st)
  case (Cons Q fs)
  obtain s where s: "map_of (qs_required st) Q = Some s"
    using Cons.prems map_of_None_keys [of "qs_required st" Q]
    by (cases "map_of (qs_required st) Q") (auto simp: required_keys_def)
  let ?st = "st\<lparr>qs_required := AList.update Q (intersect_set s (qs_clause st)) (qs_required st)\<rparr>"
  have step: "require_field Q st = ret ?st" using s by (simp add: require_field_def)
  have keys: "required_keys ?st = required_keys st"
    using Cons.prems by (auto simp: required_keys_def fst_update)
  have "allow ?st d \<longleftrightarrow> allow st d \<and> contains (qs_clause st) d" for d
  proof -
    have "allow ?st d \<longleftrightarrow> contains (intersect_set s (qs_clause st)) d
        \<and> (\<forall>Q' s. Q' \<noteq> Q \<longrightarrow> map_of (qs_required st) Q' = Some s \<longrightarrow> contains s d)"
      by (auto simp: allow_def update_conv)
    also have "\<dots> \<longleftrightarrow> allow st d \<and> contains (qs_clause st) d"
      using s by (auto simp: allow_def) (metis option.inject)
    finally show ?thesis .
  qed
  with Cons.IH [of ?st] Cons.prems keys show ?case
    by (auto simp: step)
qed simp

definition clause_fields :: "clause \<Rightarrow> string list" where
  "clause_fields c = (case cl_fields c of None \<Rightarrow> [] | Some fs \<Rightarrow> fs)"

definition clause_pairs ::
    "'f actions \<Rightarrow> ('v, 'f) lunr_index \<Rightarrow> clause \<Rightarrow> (string \<times> string) set" where
  "clause_pairs act ix c =
     \<Union> (token_pairs ix c (clause_fields c) ` set (clause_tokens act (ix_pipeline ix) c))"

text \<open>A required clause allows a document it hits, when all its tokens are in the index.\<close>

definition allows :: "'f actions \<Rightarrow> ('v, 'f) lunr_index \<Rightarrow> clause \<Rightarrow> string \<Rightarrow> bool" where
  "allows act ix c d \<longleftrightarrow>
     list_all (expanded ix c) (clause_tokens act (ix_pipeline ix) c) \<and> d \<in> fst ` clause_pairs act ix c"

definition clause_ok :: "'f actions \<Rightarrow> ('v, 'f) lunr_index \<Rightarrow> clause \<Rightarrow> bool" where
  "clause_ok act ix c \<longleftrightarrow>
     clause_fields c \<noteq> [] \<and> set (clause_fields c) \<subseteq> set (ix_fields ix)
     \<and> clause_tokens act (ix_pipeline ix) c \<noteq> [] \<and> [] \<notin> set (clause_tokens act (ix_pipeline ix) c)"

definition found_keys :: "'f actions \<Rightarrow> ('v, 'f) lunr_index \<Rightarrow> clause list \<Rightarrow> string set" where
  "found_keys act ix cs =
     \<Union> (set (map (\<lambda>c. if cl_presence c = Some PROHIBITED then {}
                      else (\<lambda>(d, Q). ref d Q) ` clause_pairs act ix c) cs))"

lemma found_keys_simps [simp]:
  "found_keys act ix [] = {}"
  "found_keys act ix (c # cs) =
     (if cl_presence c = Some PROHIBITED then {} else (\<lambda>(d, Q). ref d Q) ` clause_pairs act ix c)
     \<union> found_keys act ix cs"
  by (simp_all add: found_keys_def)

definition settled ::
    "'v::linorder numbers \<Rightarrow> 'f actions \<Rightarrow> ('v, 'f) lunr_index \<Rightarrow> string set \<Rightarrow> clause list \<Rightarrow>
     'v qstate \<Rightarrow> 'v qstate \<Rightarrow> bool" where
  "settled A act ix docs cs st st' \<longleftrightarrow>
     query_inv A ix docs st'
     \<and> (\<forall>d. allow st' d \<longleftrightarrow>
          allow st d \<and> (\<forall>c \<in> set cs. cl_presence c = Some REQUIRED \<longrightarrow> allows act ix c d))
     \<and> (\<forall>d. forbid st' d \<longleftrightarrow>
          forbid st d \<or> (\<exists>c \<in> set cs. cl_presence c = Some PROHIBITED \<and> d \<in> fst ` clause_pairs act ix c))
     \<and> ((\<forall>d. \<not> allow st' d) \<or> keys_of st' = keys_of st \<union> found_keys act ix cs)"

lemma settled_Cons:
  assumes a: "settled A act ix docs [c] st st1" and b: "settled A act ix docs cs st1 st2"
  shows "settled A act ix docs (c # cs) st st2"
  unfolding settled_def
proof (intro conjI)
  show "query_inv A ix docs st2" using b by (simp add: settled_def)
  show "\<forall>d. allow st2 d \<longleftrightarrow>
      allow st d \<and> (\<forall>x \<in> set (c # cs). cl_presence x = Some REQUIRED \<longrightarrow> allows act ix x d)"
    using a b by (simp add: settled_def)
  show "\<forall>d. forbid st2 d \<longleftrightarrow>
      forbid st d \<or> (\<exists>x \<in> set (c # cs). cl_presence x = Some PROHIBITED \<and> d \<in> fst ` clause_pairs act ix x)"
    using a b by (simp add: settled_def disj_assoc)
  show "(\<forall>d. \<not> allow st2 d) \<or> keys_of st2 = keys_of st \<union> found_keys act ix (c # cs)"
  proof (cases "\<forall>d. \<not> allow st1 d")
    case True
    then show ?thesis using b by (simp add: settled_def)
  next
    case False
    then have "keys_of st1 = keys_of st \<union> found_keys act ix [c]"
      using a unfolding settled_def by blast
    with b show ?thesis by (auto simp: settled_def)
  qed
qed

lemma query_clause_settles:
  assumes ix: "well_indexed ix h docs" and inv: "query_inv A ix docs st" and c: "clause_ok act ix c"
  shows "\<exists>st' h'. query_clause A act ix c (st, h) = ret (st', h') \<and> well_indexed ix h' docs
    \<and> settled A act ix docs [c] st st'"
proof -
  define toks fs where "toks = clause_tokens act (ix_pipeline ix) c" and "fs = clause_fields c"
  have fs: "cl_fields c = Some fs" "fs \<noteq> []" "set fs \<subseteq> set (ix_fields ix)" and toks: "toks \<noteq> []" "[] \<notin> set toks"
    using c by (auto simp: clause_ok_def toks_def fs_def clause_fields_def split: option.splits)
  let ?st = "st\<lparr>qs_clause := Complete\<rparr>"
  have same: "allow ?st = allow st" "forbid ?st = forbid st" "keys_of ?st = keys_of st"
    by (simp_all add: allow_def forbid_def keys_of_def fun_eq_iff)
  have inv0: "query_inv A ix docs ?st"
    using inv by (simp add: query_inv_def vectors_ok_def cache_ok_def keys_of_def required_keys_def)
  obtain st1 h1 where run: "query_tokens A ix c toks (?st, h) = ret (st1, h1)" "well_indexed ix h1 docs"
    "query_inv A ix docs st1" "cl_presence c = Some REQUIRED \<longrightarrow> set fs \<subseteq> required_keys st1"
    and res: "if cl_presence c = Some REQUIRED \<and> \<not> list_all (expanded ix c) toks
         then \<forall>d. \<not> allow st1 d \<and> forbid st1 d = forbid ?st d
         else moved A ix docs c (clause_pairs act ix c) ?st st1
           \<and> (cl_presence c = Some REQUIRED \<longrightarrow> qs_clause st1 \<noteq> Complete)"
    using query_tokens_moved [OF fs(2,3) ix inv0 fs(1) toks(2)] toks(1)
    by (auto simp: clause_pairs_def toks_def [symmetric] fs_def [symmetric] cong: if_cong)
  show ?thesis
  proof (cases "cl_presence c = Some REQUIRED")
    case False
    then have m: "moved A ix docs c (clause_pairs act ix c) ?st st1" using res by simp
    have "query_clause A act ix c (st, h) = ret (st1, h1)"
      using False run(1) by (simp add: query_clause_def toks_def)
    moreover have "settled A act ix docs [c] st st1"
      using m False same by (auto simp: settled_def moved_def)
    ultimately show ?thesis using run(2) by blast
  next
    case True
    obtain st2 where req: "fold_run require_field fs st1 = ret st2"
      "\<And>d. allow st2 d \<longleftrightarrow> allow st1 d \<and> contains (qs_clause st1) d"
      "required_keys st2 = required_keys st1"
      and eqs: "qs_matching st2 = qs_matching st1" "qs_vectors st2 = qs_vectors st1"
      "qs_cache st2 = qs_cache st1" "qs_prohibited st2 = qs_prohibited st1"
      using require_fields [of fs st1] run(4) True fs(2) by auto
    have inv2: "query_inv A ix docs st2"
      using run(3) req(3) by (simp add: query_inv_def vectors_ok_def cache_ok_def keys_of_def eqs)
    have q: "query_clause A act ix c (st, h) = ret (st2, h1)"
      using True run(1) req(1) fs(1) by (simp add: query_clause_def toks_def)
    have same2: "forbid st2 = forbid st1" "keys_of st2 = keys_of st1"
      by (simp_all add: forbid_def keys_of_def fun_eq_iff eqs)
    have "settled A act ix docs [c] st st2"
    proof (cases "list_all (expanded ix c) toks")
      case False
      then have "\<not> allow st1 d" "forbid st1 d = forbid st d" for d
        using res True same by auto
      with False True req(2) inv2 same2 show ?thesis
        by (auto simp: settled_def allows_def toks_def)
    next
      case all: True
      then have m: "moved A ix docs c (clause_pairs act ix c) ?st st1" "qs_clause st1 \<noteq> Complete"
        using res True by auto
      have "cset (qs_clause st1) = fst ` clause_pairs act ix c"
        using m(1) True by (simp add: moved_def)
      then have "contains (qs_clause st1) d \<longleftrightarrow> d \<in> fst ` clause_pairs act ix c" for d
        using m(2) by (auto simp: cset_def)
      with m(1) True req(2) inv2 same same2 all show ?thesis
        by (auto simp: settled_def moved_def allows_def toks_def)
    qed
    with q run(2) show ?thesis by blast
  qed
qed

lemma query_clauses_settle:
  assumes "list_all (clause_ok act ix) cs"
  shows "well_indexed ix h docs \<Longrightarrow> query_inv A ix docs st \<Longrightarrow>
    \<exists>st' h'. fold_run (query_clause A act ix) cs (st, h) = ret (st', h') \<and> well_indexed ix h' docs
      \<and> settled A act ix docs cs st st'"
  using assms
proof (induction cs arbitrary: st h)
  case Nil
  then show ?case by (simp add: settled_def)
next
  case (Cons c cs)
  obtain st1 h1 where 1: "query_clause A act ix c (st, h) = ret (st1, h1)" "well_indexed ix h1 docs"
    "settled A act ix docs [c] st st1"
    using query_clause_settles [OF Cons.prems(1,2), of act c] Cons.prems(3) by auto
  have "query_inv A ix docs st1" using 1(3) by (simp add: settled_def)
  from Cons.IH [OF 1(2) this] Cons.prems(3)
  obtain st2 h2 where 2: "fold_run (query_clause A act ix) cs (st1, h1) = ret (st2, h2)"
    "well_indexed ix h2 docs" "settled A act ix docs cs st1 st2" by auto
  with 1 settled_Cons [OF 1(3) 2(3)] show ?case by auto
qed

section \<open>Scoring\<close>

lemma contains_all_required:
  "contains (all_required Qs req) d \<longleftrightarrow> (\<forall>Q \<in> set Qs. \<forall>s. map_of req Q = Some s \<longrightarrow> contains s d)"
proof -
  have "contains (fold (\<lambda>Q O'. case map_of req Q of None \<Rightarrow> O' | Some s \<Rightarrow> intersect_set O' s) Qs O') d
      \<longleftrightarrow> contains O' d \<and> (\<forall>Q \<in> set Qs. \<forall>s. map_of req Q = Some s \<longrightarrow> contains s d)" for O'
    by (induction Qs arbitrary: O') (auto split: option.split)
  then show ?thesis by (simp add: all_required_def)
qed

lemma contains_all_prohibited:
  assumes "Complete \<notin> ran (map_of pro)"
  shows "contains (all_prohibited Qs pro) d \<longleftrightarrow> (\<exists>Q \<in> set Qs. \<exists>s. map_of pro Q = Some s \<and> contains s d)"
proof -
  have "C \<noteq> Complete \<Longrightarrow>
      contains (fold (\<lambda>Q C. case map_of pro Q of None \<Rightarrow> C | Some s \<Rightarrow> union_set C s) Qs C) d
      \<longleftrightarrow> contains C d \<or> (\<exists>Q \<in> set Qs. \<exists>s. map_of pro Q = Some s \<and> contains s d)" for C
  proof (induction Qs arbitrary: C)
    case (Cons Q Qs)
    show ?case
    proof (cases "map_of pro Q")
      case (Some s)
      then have "s \<noteq> Complete" using assms by (auto simp: ran_def)
      with Some Cons show ?thesis by (simp add: contains_union)
    qed (use Cons in simp)
  qed simp
  then show ?thesis by (simp add: all_prohibited_def)
qed

definition score_ready :: "('v::linorder, 'f) lunr_index \<Rightarrow> (string \<times> 'v vector) list \<Rightarrow> bool" where
  "score_ready ix r \<longleftrightarrow> set (ix_fields ix) \<subseteq> fst ` set r"

lemma key_lookup: "k \<in> fst ` set t \<Longrightarrow> \<exists>v. map_of t k = Some v"
  using map_of_None_keys [of t k] by (cases "map_of t k") auto

lemma score_field_ref:
  assumes Q: "Q \<in> set (ix_fields ix)" "joiner \<notin> set Q" and r: "score_ready ix r"
    and F: "ref d Q \<in> fst ` set (ix_fieldVectors ix)" and n: "ref d Q \<in> fst ` set n"
  shows "\<exists>res' r'. score_field A ix O' C n (ref d Q) (res, r) = ret (res', r') \<and> score_ready ix r'
    \<and> (distinct (map lr_ref res) \<longrightarrow> distinct (map lr_ref res'))
    \<and> lr_ref ` set res' = lr_ref ` set res \<union> (if contains O' d \<and> \<not> contains C d then {d} else {})"
proof (cases "contains O' d \<and> \<not> contains C d")
  case False
  then have "score_field A ix O' C n (ref d Q) (res, r) = ret (res, r)"
    unfolding score_field_def parse_ref_ref [OF Q(2)] Let_def by (simp only: then_run_simps fieldref.select_convs prod.case if_False)
  with False r show ?thesis by auto
next
  case True
  let ?M = "\<lparr>fr_docRef = d, fr_fieldName = Q, fr_stringValue = Some (ref d Q)\<rparr>"
  obtain q where q: "map_of r Q = Some q" using key_lookup [of Q r] Q(1) r by (auto simp: score_ready_def)
  obtain F' where F': "map_of (ix_fieldVectors ix) (ref d Q) = Some F'" using key_lookup [OF F] by blast
  obtain m where m: "map_of n (ref d Q) = Some m" using key_lookup [OF n] by blast
  obtain H q' where H: "similarity (arith_of A) q F' = (H, q')" by fastforce
  have key: "toString_ref ?M = ref d Q" by (simp add: toString_ref_def)
  let ?upd = "\<lambda>j. if lr_ref j = d then j\<lparr>lr_score := a_add A (lr_score j) H,
                     lr_matchData := combine_matchdata m (lr_matchData j)\<rparr> else j"
  let ?res = "if d \<in> lr_ref ` set res then map ?upd res
              else res @ [\<lparr>lr_ref = d, lr_score = H, lr_matchData = m\<rparr>]"
  have "score_field A ix O' C n (ref d Q) (res, r) = ret (?res, AList.update Q q' r)"
    using True q F' m H by (simp add: score_field_def parse_ref_ref [OF Q(2)] Let_def key)
  moreover have same: "map lr_ref (map ?upd res) = map lr_ref res" by simp
  have "distinct (map lr_ref res) \<longrightarrow> distinct (map lr_ref ?res)"
    by (cases "d \<in> lr_ref ` set res") (simp_all only: same if_True if_False, auto)
  moreover have "lr_ref ` set ?res = lr_ref ` set res \<union> {d}"
  proof (cases "d \<in> lr_ref ` set res")
    case True
    then have "lr_ref ` set ?res = set (map lr_ref (map ?upd res))" by (simp only: if_True set_map)
    also have "\<dots> = lr_ref ` set res" by (simp only: same set_map)
    finally show ?thesis using True by auto
  qed simp
  moreover have "score_ready ix (AList.update Q q' r)" using r by (auto simp: score_ready_def fst_update)
  ultimately show ?thesis using True by auto
qed

lemma score_fields:
  assumes P: "set P \<subseteq> (\<lambda>(d, Q). ref d Q) ` (docs \<times> set (ix_fields ix))"
    and ix: "well_indexed ix h docs" and n: "set P \<subseteq> fst ` set n"
  shows "score_ready ix r \<Longrightarrow> distinct (map lr_ref res) \<Longrightarrow>
    \<exists>res' r'. fold_run (score_field A ix O' C n) P (res, r) = ret (res', r') \<and> distinct (map lr_ref res')
      \<and> lr_ref ` set res' = lr_ref ` set res \<union>
          {d. contains O' d \<and> \<not> contains C d \<and> (\<exists>Q \<in> set (ix_fields ix). ref d Q \<in> set P)}"
  using P n
proof (induction P arbitrary: res r)
  case (Cons L P)
  obtain d Q where L: "L = ref d Q" "d \<in> docs" "Q \<in> set (ix_fields ix)" using Cons.prems(3) by auto
  have names: "\<forall>Q \<in> set (ix_fields ix). joiner \<notin> set Q" using ix by (simp add: well_indexed_def)
  have "L \<in> fst ` set (ix_fieldVectors ix)" using L ix by (auto simp: well_indexed_def)
  moreover have "joiner \<notin> set Q" using names L by simp
  ultimately obtain res1 r1 where 1: "score_field A ix O' C n L (res, r) = ret (res1, r1)" "score_ready ix r1"
    "distinct (map lr_ref res1)"
    "lr_ref ` set res1 = lr_ref ` set res \<union> (if contains O' d \<and> \<not> contains C d then {d} else {})"
    using score_field_ref [OF L(3) _ Cons.prems(1), of d n A O' C res] Cons.prems(2,4) L by auto
  obtain res2 r2 where 2: "fold_run (score_field A ix O' C n) P (res1, r1) = ret (res2, r2)"
    "distinct (map lr_ref res2)"
    "lr_ref ` set res2 = lr_ref ` set res1 \<union>
       {d. contains O' d \<and> \<not> contains C d \<and> (\<exists>Q \<in> set (ix_fields ix). ref d Q \<in> set P)}"
    using Cons.IH [OF 1(2,3)] Cons.prems(3,4) by auto
  have "(\<exists>Q' \<in> set (ix_fields ix). ref d' Q' \<in> set (L # P))
      \<longleftrightarrow> d' = d \<or> (\<exists>Q' \<in> set (ix_fields ix). ref d' Q' \<in> set P)" for d'
    using L names ref_inj by auto
  then have "lr_ref ` set res2 = lr_ref ` set res \<union>
       {d. contains O' d \<and> \<not> contains C d \<and> (\<exists>Q \<in> set (ix_fields ix). ref d Q \<in> set (L # P))}"
    using 1(4) 2(3) by auto
  with 1 2 show ?case by auto
qed simp

lemma match_all_keys:
  assumes "set P \<subseteq> (\<lambda>(d, Q). ref d Q) ` (docs \<times> set (ix_fields ix))" "\<forall>Q \<in> set (ix_fields ix). joiner \<notin> set Q"
  shows "\<exists>n'. match_all P n = ret n' \<and> fst ` set n' = set P \<union> fst ` set n"
  using assms(1)
proof (induction P arbitrary: n)
  case (Cons L P)
  obtain d Q where L: "L = ref d Q" "Q \<in> set (ix_fields ix)" using Cons.prems by auto
  then have "parse_ref L = ret \<lparr>fr_docRef = d, fr_fieldName = Q, fr_stringValue = Some (ref d Q)\<rparr>"
    using assms(2) parse_ref_ref by simp
  with Cons.IH [of "AList.update L (new_matchdata None) n"] Cons.prems show ?case
    by (auto simp: match_all_def fst_update)
qed (simp add: match_all_def)

section \<open>The documents of a query\<close>

text \<open>
  The meaning of a query: a document is selected by a clause that is not prohibited (every
  document, if there is none), it is allowed by all required clauses and hit by no prohibited one.
\<close>

definition selects :: "'f actions \<Rightarrow> ('v, 'f) lunr_index \<Rightarrow> lunr_query \<Rightarrow> string \<Rightarrow> bool" where
  "selects act ix t d \<longleftrightarrow>
     (isNegated t \<or>
        (\<exists>c \<in> set (q_clauses t). cl_presence c \<noteq> Some PROHIBITED \<and> d \<in> fst ` clause_pairs act ix c))
     \<and> (\<forall>c \<in> set (q_clauses t). cl_presence c = Some REQUIRED \<longrightarrow> allows act ix c d)
     \<and> \<not> (\<exists>c \<in> set (q_clauses t). cl_presence c = Some PROHIBITED \<and> d \<in> fst ` clause_pairs act ix c)"

lemma new_vectors:
  "map_of (fold (\<lambda>Q. AList.update Q (new_vector (arith_of A) [])) Qs []) Q =
     (if Q \<in> set Qs then Some (vector_of (arith_of A) []) else None)"
  by (simp add: map_of_fold_update vector_of_def)

lemma new_qstate_inv: "query_inv A ix docs (new_qstate A (ix_fields ix))"
  by (auto simp: query_inv_def vectors_ok_def cache_ok_def required_keys_def keys_of_def new_qstate_def
      new_vectors intro!: exI [of _ "[]"])

lemma clause_pairs_sub:
  assumes ix: "well_indexed ix h docs" and c: "clause_ok act ix c"
  shows "clause_pairs act ix c \<subseteq> docs \<times> set (ix_fields ix)"
proof -
  have "occurrences ix w Q \<subseteq> docs" if "Q \<in> set (clause_fields c)" for w Q
  proof -
    have "Q \<in> set (ix_fields ix)" using c that by (auto simp: clause_ok_def)
    then show ?thesis using ix by (simp add: well_indexed_def)
  qed
  then show ?thesis using c by (auto simp: clause_pairs_def token_pairs_def clause_ok_def)
qed

lemma negated_prohibits: "isNegated t \<Longrightarrow> c \<in> set (q_clauses t) \<Longrightarrow> cl_presence c = Some PROHIBITED"
  by (auto simp: isNegated_def list_all_iff)

lemma mem_found_keys:
  assumes "well_indexed ix h docs" "list_all (clause_ok act ix) cs" "Q \<in> set (ix_fields ix)"
  shows "ref d Q \<in> found_keys act ix cs \<longleftrightarrow>
    (\<exists>c \<in> set cs. cl_presence c \<noteq> Some PROHIBITED \<and> (d, Q) \<in> clause_pairs act ix c)"
proof -
  have inj: "ref d Q \<in> (\<lambda>(d, Q). ref d Q) ` clause_pairs act ix c \<longleftrightarrow> (d, Q) \<in> clause_pairs act ix c"
    if "c \<in> set cs" for c
  proof -
    have "clause_pairs act ix c \<subseteq> docs \<times> set (ix_fields ix)"
      using clause_pairs_sub [OF assms(1)] assms(2) that by (auto simp: list_all_iff)
    moreover have "\<forall>Q \<in> set (ix_fields ix). joiner \<notin> set Q" using assms(1) by (simp add: well_indexed_def)
    ultimately show ?thesis using assms(3) by (force simp: ref_inj)
  qed
  show ?thesis
  proof (cases "\<exists>c \<in> set cs. cl_presence c \<noteq> Some PROHIBITED \<and> (d, Q) \<in> clause_pairs act ix c")
    case True
    then show ?thesis by (force simp: found_keys_def)
  next
    case False
    with inj show ?thesis by (auto simp: found_keys_def split: if_splits)
  qed
qed

lemma query_documents:
  assumes ix: "well_indexed ix h docs" and cs: "list_all (clause_ok act ix) (q_clauses t)"
  shows "\<exists>results h'. index_query A act ix t h = ret (results, h') \<and> well_indexed ix h' docs
    \<and> distinct (map lr_ref results) \<and> sorted_wrt (\<lambda>a b. lr_score b \<le> lr_score a) results
    \<and> lr_ref ` set results = {d \<in> docs. selects act ix t d}"
proof -
  obtain st h1 where run: "fold_run (query_clause A act ix) (q_clauses t) (new_qstate A (ix_fields ix), h) = ret (st, h1)"
    "well_indexed ix h1 docs" and set: "settled A act ix docs (q_clauses t) (new_qstate A (ix_fields ix)) st"
    using query_clauses_settle [OF cs ix new_qstate_inv] by blast
  have inv: "query_inv A ix docs st" using set by (simp add: settled_def)
  have start: "allow (new_qstate A (ix_fields ix)) d" "\<not> forbid (new_qstate A (ix_fields ix)) d"
    "keys_of (new_qstate A (ix_fields ix)) = {}" for d
    by (simp_all add: allow_def forbid_def keys_of_def new_qstate_def)
  have names: "\<forall>Q \<in> set (ix_fields ix). joiner \<notin> set Q" using ix by (simp add: well_indexed_def)
  let ?O = "all_required (ix_fields ix) (qs_required st)" and ?C = "all_prohibited (ix_fields ix) (qs_prohibited st)"
  have key: "map_of m Q = Some s \<Longrightarrow> Q \<in> fst ` set m" for m :: "(string \<times> lset) list" and Q s
    by (drule map_of_SomeD) force
  have in_fields: "map_of (qs_required st) Q = Some s \<Longrightarrow> Q \<in> set (ix_fields ix)"
    "map_of (qs_prohibited st) Q = Some s \<Longrightarrow> Q \<in> set (ix_fields ix)" for Q s
    using inv key [of "qs_required st" Q s] key [of "qs_prohibited st" Q s]
    unfolding query_inv_def required_keys_def by blast+
  have O: "contains ?O d \<longleftrightarrow> allow st d" for d
    using in_fields(1) by (auto simp: contains_all_required allow_def)
  have proper: "Complete \<notin> ran (map_of (qs_prohibited st))" using inv by (simp add: query_inv_def)
  have C: "contains ?C d \<longleftrightarrow> forbid st d" for d
    using in_fields(2) by (auto simp: contains_all_prohibited [OF proper] forbid_def)
  let ?P = "if isNegated t then map fst (ix_fieldVectors ix) else map fst (qs_matching st)"
  have P: "set ?P \<subseteq> (\<lambda>(d, Q). ref d Q) ` (docs \<times> set (ix_fields ix))"
    using ix inv by (auto simp: well_indexed_def query_inv_def keys_of_def)
  obtain n where n: "(if isNegated t then match_all ?P (qs_matching st) else ret (qs_matching st)) = ret n"
    "set ?P \<subseteq> fst ` set n"
    using match_all_keys [OF P names, of "qs_matching st"] by (cases "isNegated t") auto
  have "score_ready ix (qs_vectors st)"
  proof -
    have "map_of (qs_vectors st) Q \<noteq> None" if "Q \<in> set (ix_fields ix)" for Q
      using inv that by (auto simp: query_inv_def vectors_ok_def)
    then show ?thesis using map_of_None_keys [of "qs_vectors st"] unfolding score_ready_def by blast
  qed
  from score_fields [OF P ix n(2) this, of "[]" A ?O ?C]
  obtain res r where res: "fold_run (score_field A ix ?O ?C n) ?P ([], qs_vectors st) = ret (res, r)"
    "distinct (map lr_ref res)"
    "lr_ref ` set res = {d. contains ?O d \<and> \<not> contains ?C d \<and> (\<exists>Q \<in> set (ix_fields ix). ref d Q \<in> set ?P)}"
    by auto
  let ?le = "\<lambda>e t. lr_score t \<le> lr_score (e :: 'a lunr_result)"
  have "index_query A act ix t h = ret (sort_by ?le res, h1)"
    using run(1) n(1) res(1) by (simp add: index_query_def Let_def)
  moreover have "distinct (map lr_ref (sort_by ?le res))"
  proof -
    have "mset (map lr_ref (sort_by ?le res)) = mset (map lr_ref res)" by simp
    then show ?thesis using res(2) mset_eq_imp_distinct_iff by blast
  qed
  moreover have "sorted_wrt ?le (sort_by ?le res)"
    by (rule sorted_sort_by) (auto intro: transpI)
  moreover have "lr_ref ` set (sort_by ?le res) = {d \<in> docs. selects act ix t d}"
  proof -
    have keys: "(\<exists>Q \<in> set (ix_fields ix). ref d Q \<in> set ?P) \<longleftrightarrow>
        d \<in> docs \<and> (isNegated t \<or> (\<exists>Q \<in> set (ix_fields ix). ref d Q \<in> keys_of st))" for d
    proof (cases "isNegated t")
      case True
      have "ix_fields ix \<noteq> []" using ix by (simp add: well_indexed_def)
      then have "(\<exists>Q \<in> set (ix_fields ix). ref d Q \<in> (\<lambda>(d, Q). ref d Q) ` (docs \<times> set (ix_fields ix))) \<longleftrightarrow> d \<in> docs"
        using names ref_inj by (auto simp: image_iff) (meson list.set_sel(1))
      with True ix show ?thesis by (simp add: well_indexed_def)
    next
      case False
      have "ref d Q \<in> keys_of st \<Longrightarrow> Q \<in> set (ix_fields ix) \<Longrightarrow> d \<in> docs" for Q
        using inv names ref_inj by (auto simp: query_inv_def)
      with False show ?thesis by (auto simp: keys_of_def)
    qed
    have found: "(\<exists>Q \<in> set (ix_fields ix). ref d Q \<in> keys_of st) \<longleftrightarrow>
        (\<exists>c \<in> set (q_clauses t). cl_presence c \<noteq> Some PROHIBITED \<and> d \<in> fst ` clause_pairs act ix c)"
      if "allow st d" for d
    proof -
      have "keys_of st = found_keys act ix (q_clauses t)"
        using set that start(3) [of] unfolding settled_def by auto
      then have "(\<exists>Q \<in> set (ix_fields ix). ref d Q \<in> keys_of st) \<longleftrightarrow> (\<exists>Q \<in> set (ix_fields ix).
          \<exists>c \<in> set (q_clauses t). cl_presence c \<noteq> Some PROHIBITED \<and> (d, Q) \<in> clause_pairs act ix c)"
        using mem_found_keys [OF ix cs] by auto
      also have "\<dots> \<longleftrightarrow> (\<exists>c \<in> set (q_clauses t). cl_presence c \<noteq> Some PROHIBITED \<and> d \<in> fst ` clause_pairs act ix c)"
      proof -
        have "(\<exists>Q \<in> set (ix_fields ix). (d, Q) \<in> clause_pairs act ix c) \<longleftrightarrow> d \<in> fst ` clause_pairs act ix c"
          if "c \<in> set (q_clauses t)" for c
        proof -
          have "clause_pairs act ix c \<subseteq> docs \<times> set (ix_fields ix)"
            using clause_pairs_sub [OF ix] cs that by (simp add: list_all_iff)
          then show ?thesis by force
        qed
        then show ?thesis by blast
      qed
      finally show ?thesis .
    qed
    have "allow st d \<longleftrightarrow> (\<forall>c \<in> set (q_clauses t). cl_presence c = Some REQUIRED \<longrightarrow> allows act ix c d)"
      "forbid st d \<longleftrightarrow> (\<exists>c \<in> set (q_clauses t). cl_presence c = Some PROHIBITED \<and> d \<in> fst ` clause_pairs act ix c)" for d
      using set start by (simp_all add: settled_def)
    then have "contains ?O d \<and> \<not> contains ?C d \<and> (\<exists>Q \<in> set (ix_fields ix). ref d Q \<in> set ?P)
        \<longleftrightarrow> d \<in> docs \<and> selects act ix t d" for d
      unfolding O C keys selects_def using found [of d] by blast
    then show ?thesis by (simp only: set_sort_by res(3))
  qed
  ultimately show ?thesis using run(2) by blast
qed

text \<open>
  A required clause whose pipeline drops its word (a stop word, say) fails on a field no required
  clause has visited: \<open>undefined\<close> has no method \<open>intersect\<close>.
\<close>
lemma required_clause_without_token:
  assumes "cl_presence c = Some REQUIRED" and "cl_fields c = Some (Q # fs)"
    and "clause_tokens act (ix_pipeline ix) c = []" and "Q \<notin> required_keys st"
  shows "query_clause A act ix c (st, h) = fail LTypeError"
proof -
  have "map_of (qs_required st) Q = None" using assms(4) by (simp add: map_of_None_keys required_keys_def)
  then show ?thesis using assms by (simp add: query_clause_def require_field_def)
qed

end
