(* ===== verification/LunrBuilder.thy ===== *)
theory LunrBuilder
  imports LunrIndexProps
begin

text \<open>
  Making an index (\<open>lunr.Builder\<close> in \<open>application.js\<close>), and what a search in it finds.

  \<^item> A document is an object of texts; the value of a property as the tokenizer gets it is a
    \<open>tok_input\<close>. The value of the reference property is used as a key, so it counts as its
    string.
  \<^item> \<open>lunr_builder\<close> is the state of a builder. The object \<open>f\<close> with the frequencies of the terms of a
    field stays reachable in \<open>fieldTermFrequencies\<close>, so the loop over the tokens updates it
    there. The cache of inverse document frequencies in \<open>createFieldVectors\<close> holds values that
    do not change meanwhile and is left out. The tokenizer is that of lunr.
  \<^item> A field that is named like a member every object inherits is outside the model (the sums
    of \<open>calculateAverageFieldLengths\<close> are members of plain objects).
  \<^item> \<open>built_index_answers\<close>: with the pipelines of lunr and terms without digits, a query on the
    index of some documents returns exactly the documents its clauses select, each once and
    ordered by score, whatever the arithmetic of the scores.
\<close>

section \<open>The state of a builder\<close>

type_synonym document = "(string \<times> tok_input) list"

record 'v field_attrs =
  fa_boost :: "'v option"
  fa_extractor :: "(document \<Rightarrow> tok_input) option"

record ('v, 'f) lunr_builder =
  bd_ref :: string
  bd_fields :: "(string \<times> 'v field_attrs) list"
  bd_documents :: "(string \<times> 'v option) list"
  bd_invertedIndex :: "(string \<times> posting) list"
  bd_fieldTermFrequencies :: "(string \<times> (string \<times> nat) list) list"
  bd_fieldLengths :: "(string \<times> nat) list"
  bd_pipeline :: "'f list"
  bd_searchPipeline :: "'f list"
  bd_documentCount :: nat
  bd_b :: 'v
  bd_k1 :: 'v
  bd_termIndex :: nat
  bd_metadataWhitelist :: "string list"

text \<open>A fraction of two whole numbers: the literals .75, 1.2 and .5.\<close>

definition frac :: "'v numbers \<Rightarrow> int \<Rightarrow> int \<Rightarrow> 'v" where
  "frac A p q = a_div A (a_num A p) (a_num A q)"

definition new_lunr_builder :: "'v numbers \<Rightarrow> ('v, 'f) lunr_builder" where
  "new_lunr_builder A =
     \<lparr>bd_ref = ''id'', bd_fields = [], bd_documents = [], bd_invertedIndex = [],
      bd_fieldTermFrequencies = [], bd_fieldLengths = [], bd_pipeline = [], bd_searchPipeline = [],
      bd_documentCount = 0, bd_b = frac A 3 4, bd_k1 = frac A 6 5, bd_termIndex = 0,
      bd_metadataWhitelist = []\<rparr>"

definition set_ref :: "string \<Rightarrow> ('v, 'f) lunr_builder \<Rightarrow> ('v, 'f) lunr_builder" where
  "set_ref e b = b\<lparr>bd_ref := e\<rparr>"

text \<open>A slash in the name of a field is a RangeError.\<close>

definition add_field :: "string \<Rightarrow> 'v field_attrs \<Rightarrow> ('v, 'f) lunr_builder \<Rightarrow> ('v, 'f) lunr_builder run" where
  "add_field e t b =
     (if joiner \<in> set e then fail LError else ret (b\<lparr>bd_fields := AList.update e t (bd_fields b)\<rparr>))"

definition set_b :: "'v::linorder numbers \<Rightarrow> 'v \<Rightarrow> ('v, 'f) lunr_builder \<Rightarrow> ('v, 'f) lunr_builder" where
  "set_b A e b =
     b\<lparr>bd_b := (if e < a_zero A then a_zero A else if a_num A 1 < e then a_num A 1 else e)\<rparr>"

definition set_k1 :: "'v \<Rightarrow> ('v, 'f) lunr_builder \<Rightarrow> ('v, 'f) lunr_builder" where
  "set_k1 e b = b\<lparr>bd_k1 := e\<rparr>"

text \<open>What \<open>lunr(config)\<close> gives its function to configure.\<close>

definition lunr_start :: "'v numbers \<Rightarrow> ('v, lunr_fn) lunr_builder" where
  "lunr_start A = (new_lunr_builder A)\<lparr>bd_pipeline := index_pipeline, bd_searchPipeline := search_pipeline\<rparr>"

section \<open>Adding documents\<close>

text \<open>A value as a key of an object; a missing property is undefined.\<close>

fun as_key :: "tok_input \<Rightarrow> string" where
  "as_key In_null = ''undefined''"
| "as_key (In_value s) = s"
| "as_key (In_array xs) = join '','' (map (\<lambda>x. case x of None \<Rightarrow> [] | Some s \<Rightarrow> s) xs)"

definition member_of :: "document \<Rightarrow> string \<Rightarrow> tok_input" where
  "member_of e k = (case map_of e k of None \<Rightarrow> In_null | Some v \<Rightarrow> v)"

definition doc_ref :: "('v, 'f) lunr_builder \<Rightarrow> document \<Rightarrow> string" where
  "doc_ref b e = as_key (member_of e (bd_ref b))"

definition field_value :: "'v field_attrs \<Rightarrow> document \<Rightarrow> string \<Rightarrow> tok_input" where
  "field_value a e Q = (case fa_extractor a of None \<Rightarrow> member_of e Q | Some f \<Rightarrow> f e)"

definition count_token :: "string \<Rightarrow> (string \<times> nat) list \<Rightarrow> (string \<times> nat) list" where
  "count_token w f = AList.update w (Suc (case map_of f w of None \<Rightarrow> 0 | Some k \<Rightarrow> k)) f"

definition push_metadata :: "token \<Rightarrow> string \<Rightarrow> term_meta \<Rightarrow> term_meta" where
  "push_metadata k v m = concat_member (v, [map_of (tok_metadata k) v]) m"

definition add_occurrence :: "string list \<Rightarrow> string \<Rightarrow> string \<Rightarrow> token \<Rightarrow> posting \<Rightarrow> posting run" where
  "add_occurrence whitelist Q n k g =
     then_run (need (map_of (p_fields g) Q)) (\<lambda>ds.
       let m = (case map_of ds n of None \<Rightarrow> [] | Some m \<Rightarrow> m)
       in ret (g\<lparr>p_fields :=
                  AList.update Q (AList.update n (fold (push_metadata k) whitelist m) ds) (p_fields g)\<rparr>))"

definition index_token ::
    "string \<Rightarrow> string \<Rightarrow> token \<Rightarrow> ('v, 'f) lunr_builder \<Rightarrow> ('v, 'f) lunr_builder run" where
  "index_token Q n k b =
     (let w = tok_str k;
          u = toString_ref (FieldRef n Q);
          f = (case map_of (bd_fieldTermFrequencies b) u of None \<Rightarrow> [] | Some f \<Rightarrow> f);
          b = b\<lparr>bd_fieldTermFrequencies := AList.update u (count_token w f) (bd_fieldTermFrequencies b)\<rparr>;
          b = (if map_of (bd_invertedIndex b) w = None
               then b\<lparr>bd_invertedIndex := AList.update w
                        \<lparr>p_index = bd_termIndex b, p_fields = map (\<lambda>p. (fst p, [])) (bd_fields b)\<rparr>
                        (bd_invertedIndex b),
                      bd_termIndex := bd_termIndex b + 1\<rparr>
               else b)
      in then_run (need (map_of (bd_invertedIndex b) w)) (\<lambda>g.
         then_run (add_occurrence (bd_metadataWhitelist b) Q n k g) (\<lambda>g.
           ret (b\<lparr>bd_invertedIndex := AList.update w g (bd_invertedIndex b)\<rparr>))))"

definition field_tokens :: "'f actions \<Rightarrow> ('v, 'f) lunr_builder \<Rightarrow> document \<Rightarrow> string \<times> 'v field_attrs \<Rightarrow> token list" where
  "field_tokens act b e Qa =
     (case Qa of (Q, a) \<Rightarrow>
        run_pipeline act (bd_pipeline b) (tokenizer (field_value a e Q) [(''fields'', MFields [Q])]))"

definition index_field ::
    "'f actions \<Rightarrow> document \<Rightarrow> string \<Rightarrow> string \<times> 'v field_attrs \<Rightarrow> ('v, 'f) lunr_builder \<Rightarrow>
     ('v, 'f) lunr_builder run" where
  "index_field act e n Qa b =
     (let l = field_tokens act b e Qa;
          u = toString_ref (FieldRef n (fst Qa))
      in fold_run (index_token (fst Qa) n) l
           (b\<lparr>bd_fieldTermFrequencies := AList.update u [] (bd_fieldTermFrequencies b),
             bd_fieldLengths := AList.update u (length l) (bd_fieldLengths b)\<rparr>))"

text \<open>\<open>t\<close> is the boost of the document, if it has one.\<close>

definition add_doc ::
    "'f actions \<Rightarrow> document \<Rightarrow> 'v option \<Rightarrow> ('v, 'f) lunr_builder \<Rightarrow> ('v, 'f) lunr_builder run" where
  "add_doc act e t b =
     (let n = doc_ref b e
      in fold_run (index_field act e n) (bd_fields b)
           (b\<lparr>bd_documents := AList.update n t (bd_documents b),
             bd_documentCount := bd_documentCount b + 1\<rparr>))"

section \<open>Building\<close>

definition idf :: "'v numbers \<Rightarrow> posting \<Rightarrow> nat \<Rightarrow> 'v" where
  "idf A g t =
     (let n = sum_list (map (\<lambda>p. length (snd p)) (p_fields g));
          i = a_div A (a_add A (a_num A (int t - int n)) (frac A 1 2))
                      (a_add A (a_num A (int n)) (frac A 1 2))
      in a_log A (a_add A (a_num A 1) (a_abs A i)))"

text \<open>The number of documents with a field and the sum of its lengths.\<close>

definition sum_length ::
    "(string \<times> nat) list \<Rightarrow> string \<Rightarrow> (string \<times> nat \<times> nat) list \<Rightarrow> (string \<times> nat \<times> nat) list run" where
  "sum_length lengths L s =
     then_run (parse_ref L) (\<lambda>M.
     then_run (need (map_of lengths (toString_ref M))) (\<lambda>len.
       let a = fr_fieldName M;
           (r, n) = (case map_of s a of None \<Rightarrow> (0, 0) | Some rn \<Rightarrow> rn)
       in ret (AList.update a (r + 1, n + len) s)))"

definition calculateAverageFieldLengths ::
    "'v numbers \<Rightarrow> ('v, 'f) lunr_builder \<Rightarrow> (string \<times> 'v) list run" where
  "calculateAverageFieldLengths A b =
     then_run (fold_run (sum_length (bd_fieldLengths b)) (map fst (bd_fieldLengths b)) []) (\<lambda>s.
       ret (map (\<lambda>(Q, _). (Q, case map_of s Q of None \<Rightarrow> a_nan A
                            | Some (r, n) \<Rightarrow> a_div A (a_num A (int n)) (a_num A (int r)))) (bd_fields b)))"

definition or_one :: "'v numbers \<Rightarrow> 'v option \<Rightarrow> 'v" where
  "or_one A x = (case x of None \<Rightarrow> a_num A 1 | Some y \<Rightarrow> if truthy_num (arith_of A) y then y else a_num A 1)"

definition bm25 :: "'v numbers \<Rightarrow> ('v, 'f) lunr_builder \<Rightarrow> 'v \<Rightarrow> nat \<Rightarrow> nat \<Rightarrow> 'v \<Rightarrow> 'v \<Rightarrow> 'v \<Rightarrow> 'v" where
  "bm25 A b m w s avg d h =
     (let y = a_div A
            (a_mul A m (a_mul A (a_add A (bd_k1 b) (a_num A 1)) (a_num A (int w))))
            (a_add A
              (a_mul A (bd_k1 b)
                (a_add A (a_sub A (a_num A 1) (bd_b b)) (a_mul A (bd_b b) (a_div A (a_num A (int s)) avg))))
              (a_num A (int w)));
          y = a_mul A (a_mul A y d) h
      in a_div A (a_round A (a_mul A (a_num A 1000) y)) (a_num A 1000))"

definition run_insert :: "(string + 'v vector) option \<Rightarrow> 'v vector run" where
  "run_insert r = (case r of None \<Rightarrow> None | Some (Inl e) \<Rightarrow> fail (LText e) | Some (Inr c) \<Rightarrow> ret c)"

definition add_weight ::
    "'v::linorder numbers \<Rightarrow> ('v, 'f) lunr_builder \<Rightarrow> nat \<Rightarrow> 'v \<Rightarrow> 'v \<Rightarrow> 'v \<Rightarrow> string \<times> nat \<Rightarrow> 'v vector \<Rightarrow>
     'v vector run" where
  "add_weight A b s avg d h gw c =
     (case gw of (t, w) \<Rightarrow>
       then_run (need (map_of (bd_invertedIndex b) t)) (\<lambda>g.
         run_insert (insert_vec (arith_of A) (a_num A (int (p_index g)))
           (bm25 A b (idf A g (bd_documentCount b)) w s avg d h) c)))"

definition field_vector ::
    "'v::linorder numbers \<Rightarrow> ('v, 'f) lunr_builder \<Rightarrow> (string \<times> 'v) list \<Rightarrow> string \<times> (string \<times> nat) list \<Rightarrow>
     (string \<times> 'v vector) list \<Rightarrow> (string \<times> 'v vector) list run" where
  "field_vector A b avgs Lf e =
     (case Lf of (L, f) \<Rightarrow>
       then_run (parse_ref L) (\<lambda>M.
       then_run (need (map_of (bd_fieldLengths b) L)) (\<lambda>s.
       then_run (need (map_of (bd_fields b) (fr_fieldName M))) (\<lambda>a.
       then_run (need (map_of (bd_documents b) (fr_docRef M))) (\<lambda>t.
         let avg = (case map_of avgs (fr_fieldName M) of None \<Rightarrow> a_nan A | Some x \<Rightarrow> x)
         in then_run (fold_run (add_weight A b s avg (or_one A (fa_boost a)) (or_one A t)) f
                        (new_vector (arith_of A) [])) (\<lambda>c.
              ret (AList.update L c e)))))))"

definition createFieldVectors ::
    "'v::linorder numbers \<Rightarrow> ('v, 'f) lunr_builder \<Rightarrow> (string \<times> 'v) list \<Rightarrow> (string \<times> 'v vector) list run" where
  "createFieldVectors A b avgs = fold_run (field_vector A b avgs) (bd_fieldTermFrequencies b) []"

definition createTokenSet :: "('v, 'f) lunr_builder \<Rightarrow> ts_heap \<Rightarrow> (nat \<times> ts_heap) run" where
  "createTokenSet b h =
     (case fromArray (sort (map fst (bd_invertedIndex b))) h of
        Inl e \<Rightarrow> fail LError
      | Inr root \<Rightarrow> ret root)"

definition build_index ::
    "'v::linorder numbers \<Rightarrow> ('v, 'f) lunr_builder \<Rightarrow> ts_heap \<Rightarrow> (('v, 'f) lunr_index \<times> ts_heap) run" where
  "build_index A b h =
     then_run (calculateAverageFieldLengths A b) (\<lambda>avgs.
     then_run (createFieldVectors A b avgs) (\<lambda>vectors.
     then_run (createTokenSet b h) (\<lambda>(tokenSet, h).
       ret (\<lparr>ix_invertedIndex = bd_invertedIndex b, ix_fieldVectors = vectors, ix_tokenSet = tokenSet,
             ix_fields = map fst (bd_fields b), ix_pipeline = bd_searchPipeline b\<rparr>, h))))"

section \<open>What adding a token changes\<close>

definition inv_occ :: "(string \<times> posting) list \<Rightarrow> string \<Rightarrow> string \<Rightarrow> string set" where
  "inv_occ t w Q =
     (case map_of t w of
        None \<Rightarrow> {}
      | Some g \<Rightarrow> (case map_of (p_fields g) Q of None \<Rightarrow> {} | Some ds \<Rightarrow> fst ` set ds))"

lemma occurrences_inv: "occurrences ix w Q = inv_occ (ix_invertedIndex ix) w Q"
  by (simp add: occurrences_def inv_occ_def)

abbreviation field_names :: "('v, 'f) lunr_builder \<Rightarrow> string set" where
  "field_names b \<equiv> fst ` set (bd_fields b)"

abbreviation indexed_terms :: "('v, 'f) lunr_builder \<Rightarrow> string set" where
  "indexed_terms b \<equiv> fst ` set (bd_invertedIndex b)"

text \<open>Terms have postings with all fields and different numbers.\<close>

definition postings_ok :: "('v, 'f) lunr_builder \<Rightarrow> bool" where
  "postings_ok b \<longleftrightarrow>
     distinct (map fst (bd_invertedIndex b))
     \<and> (\<forall>w g. map_of (bd_invertedIndex b) w = Some g \<longrightarrow>
          field_names b \<subseteq> fst ` set (p_fields g) \<and> p_index g < bd_termIndex b)
     \<and> (\<forall>w g w' g'. map_of (bd_invertedIndex b) w = Some g \<longrightarrow> map_of (bd_invertedIndex b) w' = Some g' \<longrightarrow>
          p_index g = p_index g' \<longrightarrow> w = w')"

definition frequencies_ok :: "('v, 'f) lunr_builder \<Rightarrow> bool" where
  "frequencies_ok b \<longleftrightarrow>
     (\<forall>L f. (L, f) \<in> set (bd_fieldTermFrequencies b) \<longrightarrow> distinct (map fst f) \<and> fst ` set f \<subseteq> indexed_terms b)"

text \<open>What adding tokens leaves alone.\<close>

definition same_setup :: "('v, 'f) lunr_builder \<Rightarrow> ('v, 'f) lunr_builder \<Rightarrow> bool" where
  "same_setup b b' \<longleftrightarrow> bd_ref b' = bd_ref b \<and> bd_fields b' = bd_fields b
     \<and> bd_pipeline b' = bd_pipeline b \<and> bd_searchPipeline b' = bd_searchPipeline b"

lemma same_setup_trans: "same_setup b b1 \<Longrightarrow> same_setup b1 b2 \<Longrightarrow> same_setup b b2"
  by (simp add: same_setup_def)

lemma set_update: "(k, v) \<in> set (AList.update l x t) \<Longrightarrow> (k, v) \<in> set t \<or> k = l \<and> v = x"
  by (induction t) (auto split: if_splits)

lemma distinct_keys_update: "distinct (map fst t) \<Longrightarrow> distinct (map fst (AList.update k v t))"
  by (rule distinct_update)

definition with_posting :: "('v, 'f) lunr_builder \<Rightarrow> string \<Rightarrow> ('v, 'f) lunr_builder" where
  "with_posting b w =
     (if map_of (bd_invertedIndex b) w = None
      then b\<lparr>bd_invertedIndex := AList.update w
               \<lparr>p_index = bd_termIndex b, p_fields = map (\<lambda>p. (fst p, [])) (bd_fields b)\<rparr>
               (bd_invertedIndex b),
             bd_termIndex := bd_termIndex b + 1\<rparr>
      else b)"

lemma with_posting_same [simp]:
  "bd_ref (with_posting b w) = bd_ref b" "bd_fields (with_posting b w) = bd_fields b"
  "bd_pipeline (with_posting b w) = bd_pipeline b" "bd_searchPipeline (with_posting b w) = bd_searchPipeline b"
  "bd_documents (with_posting b w) = bd_documents b" "bd_fieldLengths (with_posting b w) = bd_fieldLengths b"
  "bd_fieldTermFrequencies (with_posting b w) = bd_fieldTermFrequencies b"
  "bd_metadataWhitelist (with_posting b w) = bd_metadataWhitelist b"
  by (simp_all add: with_posting_def)

lemma map_of_empty_fields: "map_of (map (\<lambda>p. (fst p, [])) fs) Q = (if Q \<in> fst ` set fs then Some [] else None)"
  by (induction fs) auto

lemma with_posting_ok:
  assumes "postings_ok b"
  shows "postings_ok (with_posting b w)"
    "indexed_terms (with_posting b w) = insert w (indexed_terms b)"
    "inv_occ (bd_invertedIndex (with_posting b w)) v Q = inv_occ (bd_invertedIndex b) v Q"
proof -
  show "indexed_terms (with_posting b w) = insert w (indexed_terms b)"
    using map_of_None_keys [of "bd_invertedIndex b" w] by (auto simp: with_posting_def fst_update)
  show "inv_occ (bd_invertedIndex (with_posting b w)) v Q = inv_occ (bd_invertedIndex b) v Q"
    by (auto simp: with_posting_def inv_occ_def update_conv map_of_empty_fields)
  show "postings_ok (with_posting b w)"
  proof (cases "map_of (bd_invertedIndex b) w")
    case (Some g)
    with assms show ?thesis by (simp add: with_posting_def)
  next
    case None
    have below: "map_of (bd_invertedIndex b) v = Some g \<Longrightarrow> p_index g < bd_termIndex b" for v g
      using assms by (simp add: postings_ok_def)
    let ?g = "\<lparr>p_index = bd_termIndex b, p_fields = map (\<lambda>p. (fst p, [])) (bd_fields b)\<rparr>"
    have look: "map_of (AList.update w ?g (bd_invertedIndex b)) v = Some g \<longleftrightarrow>
        v = w \<and> g = ?g \<or> v \<noteq> w \<and> map_of (bd_invertedIndex b) v = Some g" for v g
      by (auto simp: update_conv)
    show ?thesis
      unfolding postings_ok_def
    proof (intro conjI allI impI)
      show "distinct (map fst (bd_invertedIndex (with_posting b w)))"
        using assms None by (simp add: with_posting_def postings_ok_def distinct_keys_update)
    next
      fix v g assume "map_of (bd_invertedIndex (with_posting b w)) v = Some g"
      then have "v = w \<and> g = ?g \<or> map_of (bd_invertedIndex b) v = Some g"
        using None look by (auto simp: with_posting_def)
      then have "field_names b \<subseteq> fst ` set (p_fields g) \<and> p_index g < Suc (bd_termIndex b)"
      proof
        assume "v = w \<and> g = ?g" then show ?thesis by (simp add: image_image)
      next
        assume "map_of (bd_invertedIndex b) v = Some g"
        then have "field_names b \<subseteq> fst ` set (p_fields g) \<and> p_index g < bd_termIndex b"
          using assms unfolding postings_ok_def by blast
        then show ?thesis by simp
      qed
      then show "field_names (with_posting b w) \<subseteq> fst ` set (p_fields g)"
        "p_index g < bd_termIndex (with_posting b w)"
        using None by (simp_all add: with_posting_def)
    next
      fix v g v' g'
      assume a: "map_of (bd_invertedIndex (with_posting b w)) v = Some g"
        "map_of (bd_invertedIndex (with_posting b w)) v' = Some g'" "p_index g = p_index g'"
      have "v = w \<and> g = ?g \<or> v \<noteq> w \<and> map_of (bd_invertedIndex b) v = Some g"
        "v' = w \<and> g' = ?g \<or> v' \<noteq> w \<and> map_of (bd_invertedIndex b) v' = Some g'"
        using a(1,2) None look [of v g] look [of v' g'] by (simp_all add: with_posting_def)
      moreover have "map_of (bd_invertedIndex b) v = Some g \<Longrightarrow> map_of (bd_invertedIndex b) v' = Some g' \<Longrightarrow> v = v'"
        using assms a(3) unfolding postings_ok_def by blast
      ultimately show "v = v'"
        using below [of v g] below [of v' g'] a(3) by auto
    qed
  qed
qed

definition with_count :: "string \<Rightarrow> string \<Rightarrow> ('v, 'f) lunr_builder \<Rightarrow> ('v, 'f) lunr_builder" where
  "with_count u w b =
     b\<lparr>bd_fieldTermFrequencies := AList.update u
          (count_token w (case map_of (bd_fieldTermFrequencies b) u of None \<Rightarrow> [] | Some f \<Rightarrow> f))
          (bd_fieldTermFrequencies b)\<rparr>"

lemma with_count_same [simp]:
  "bd_ref (with_count u w b) = bd_ref b" "bd_fields (with_count u w b) = bd_fields b"
  "bd_pipeline (with_count u w b) = bd_pipeline b" "bd_searchPipeline (with_count u w b) = bd_searchPipeline b"
  "bd_documents (with_count u w b) = bd_documents b" "bd_fieldLengths (with_count u w b) = bd_fieldLengths b"
  "bd_invertedIndex (with_count u w b) = bd_invertedIndex b" "bd_termIndex (with_count u w b) = bd_termIndex b"
  "bd_metadataWhitelist (with_count u w b) = bd_metadataWhitelist b"
  "fst ` set (bd_fieldTermFrequencies (with_count u w b)) = insert u (fst ` set (bd_fieldTermFrequencies b))"
  by (simp_all add: with_count_def fst_update)

lemma index_token_alt:
  "index_token Q n k b =
     (let w = tok_str k; b = with_posting (with_count (ref n Q) w b) w
      in then_run (need (map_of (bd_invertedIndex b) w)) (\<lambda>g.
         then_run (add_occurrence (bd_metadataWhitelist b) Q n k g) (\<lambda>g.
           ret (b\<lparr>bd_invertedIndex := AList.update w g (bd_invertedIndex b)\<rparr>))))"
  by (simp add: index_token_def with_count_def [symmetric] with_posting_def [symmetric] Let_def)

lemma frequencies_count:
  assumes "frequencies_ok b" and L: "(L, f) \<in> set (bd_fieldTermFrequencies (with_count u w b))"
  shows "distinct (map fst f) \<and> fst ` set f \<subseteq> insert w (indexed_terms b)"
proof -
  let ?f = "case map_of (bd_fieldTermFrequencies b) u of None \<Rightarrow> [] | Some f \<Rightarrow> f"
  have old: "distinct (map fst f') \<and> fst ` set f' \<subseteq> indexed_terms b"
    if "(L', f') \<in> set (bd_fieldTermFrequencies b)" for L' f'
    using assms(1) that unfolding frequencies_ok_def by blast
  have "distinct (map fst ?f) \<and> fst ` set ?f \<subseteq> indexed_terms b"
  proof (cases "map_of (bd_fieldTermFrequencies b) u")
    case (Some f')
    with old [OF map_of_SomeD [OF Some]] show ?thesis by simp
  qed simp
  then have "distinct (map fst (count_token w ?f)) \<and> fst ` set (count_token w ?f) \<subseteq> insert w (indexed_terms b)"
    by (auto simp: count_token_def distinct_keys_update fst_update)
  with old set_update [of L f u "count_token w ?f" "bd_fieldTermFrequencies b"] L show ?thesis
    unfolding with_count_def by auto
qed

lemma index_token_step:
  assumes ok: "postings_ok b" "frequencies_ok b" and Q: "Q \<in> field_names b"
  shows "\<exists>b'. index_token Q n k b = ret b' \<and> postings_ok b' \<and> frequencies_ok b' \<and> same_setup b b'
    \<and> bd_documents b' = bd_documents b \<and> bd_fieldLengths b' = bd_fieldLengths b
    \<and> fst ` set (bd_fieldTermFrequencies b') = insert (ref n Q) (fst ` set (bd_fieldTermFrequencies b))
    \<and> indexed_terms b' = insert (tok_str k) (indexed_terms b)
    \<and> (\<forall>v P. inv_occ (bd_invertedIndex b') v P =
          inv_occ (bd_invertedIndex b) v P \<union> (if v = tok_str k \<and> P = Q then {n} else {}))"
proof -
  let ?w = "tok_str k"
  let ?counted = "with_count (ref n Q) ?w b"
  let ?b = "with_posting ?counted ?w"
  have ok0: "postings_ok ?counted" using ok(1) by (simp add: postings_ok_def)
  have terms0: "indexed_terms ?counted = indexed_terms b" by simp
  note wp = with_posting_ok [OF ok0, of ?w]
  obtain g where g: "map_of (bd_invertedIndex ?b) ?w = Some g"
    using key_lookup [of ?w "bd_invertedIndex ?b"] wp(2) by auto
  have fields: "field_names ?b = field_names b" by simp
  have "field_names ?b \<subseteq> fst ` set (p_fields g)" using wp(1) g unfolding postings_ok_def by blast
  then obtain ds where ds: "map_of (p_fields g) Q = Some ds"
    using key_lookup [of Q "p_fields g"] Q fields by auto
  let ?m = "fold (push_metadata k) (bd_metadataWhitelist ?b) (case map_of ds n of None \<Rightarrow> [] | Some m \<Rightarrow> m)"
  let ?g = "g\<lparr>p_fields := AList.update Q (AList.update n ?m ds) (p_fields g)\<rparr>"
  let ?b' = "?b\<lparr>bd_invertedIndex := AList.update ?w ?g (bd_invertedIndex ?b)\<rparr>"
  have run: "index_token Q n k b = ret ?b'"
    using g ds by (simp add: index_token_alt add_occurrence_def Let_def)
  have look: "map_of (AList.update ?w ?g (bd_invertedIndex ?b)) v = (if v = ?w then Some ?g else map_of (bd_invertedIndex ?b) v)" for v
    by (simp add: update_conv)
  have terms: "indexed_terms ?b' = insert ?w (indexed_terms b)"
    using wp(2) terms0 by (simp add: fst_update)
  have post: "postings_ok ?b'"
    unfolding postings_ok_def
  proof (intro conjI allI impI)
    show "distinct (map fst (bd_invertedIndex ?b'))"
      using wp(1) by (simp add: postings_ok_def distinct_keys_update)
  next
    fix v h assume "map_of (bd_invertedIndex ?b') v = Some h"
    then have "v = ?w \<and> h = ?g \<or> map_of (bd_invertedIndex ?b) v = Some h"
      by (simp add: look split: if_splits)
    moreover have "field_names ?b \<subseteq> fst ` set (p_fields g) \<and> p_index g < bd_termIndex ?b"
      using wp(1) g unfolding postings_ok_def by blast
    then have "field_names ?b \<subseteq> fst ` set (p_fields ?g) \<and> p_index ?g < bd_termIndex ?b"
      by (simp add: fst_update subset_insertI2)
    moreover have "map_of (bd_invertedIndex ?b) v = Some h \<Longrightarrow>
        field_names ?b \<subseteq> fst ` set (p_fields h) \<and> p_index h < bd_termIndex ?b"
      using wp(1) unfolding postings_ok_def by blast
    ultimately have "field_names ?b \<subseteq> fst ` set (p_fields h) \<and> p_index h < bd_termIndex ?b" by blast
    then show "field_names ?b' \<subseteq> fst ` set (p_fields h)" "p_index h < bd_termIndex ?b'" by simp_all
  next
    fix v h v' h'
    assume a: "map_of (bd_invertedIndex ?b') v = Some h" "map_of (bd_invertedIndex ?b') v' = Some h'"
      "p_index h = p_index h'"
    have "\<exists>h0. map_of (bd_invertedIndex ?b) v = Some h0 \<and> p_index h0 = p_index h"
      "\<exists>h0. map_of (bd_invertedIndex ?b) v' = Some h0 \<and> p_index h0 = p_index h'"
      using a g by (auto simp: look split: if_splits)
    with a(3) wp(1) show "v = v'" unfolding postings_ok_def by metis
  qed
  have freq: "frequencies_ok ?b'"
    unfolding frequencies_ok_def terms using frequencies_count [OF ok(2), of _ _ "ref n Q" ?w] by simp
  have occ: "inv_occ (bd_invertedIndex ?b') v P =
      inv_occ (bd_invertedIndex b) v P \<union> (if v = ?w \<and> P = Q then {n} else {})" for v P
  proof -
    have "inv_occ (bd_invertedIndex ?b') v P =
        inv_occ (bd_invertedIndex ?b) v P \<union> (if v = ?w \<and> P = Q then {n} else {})"
      using g ds by (auto simp: inv_occ_def look update_conv fst_update)
    moreover have "inv_occ (bd_invertedIndex ?b) v P = inv_occ (bd_invertedIndex b) v P"
      using wp(3) by simp
    ultimately show ?thesis by simp
  qed
  have "same_setup b ?b'" "bd_documents ?b' = bd_documents b" "bd_fieldLengths ?b' = bd_fieldLengths b"
    "fst ` set (bd_fieldTermFrequencies ?b') = insert (ref n Q) (fst ` set (bd_fieldTermFrequencies b))"
    by (simp_all add: same_setup_def)
  with run post freq terms occ show ?thesis by blast
qed

section \<open>What adding documents changes\<close>

text \<open>\<open>grown\<close>: the occurrences \<open>R\<close> (term, field, document) have been added.\<close>

definition grown ::
    "(string \<times> string \<times> string) set \<Rightarrow> string set \<Rightarrow> ('v, 'f) lunr_builder \<Rightarrow> ('v, 'f) lunr_builder \<Rightarrow> bool" where
  "grown R W b b' \<longleftrightarrow> postings_ok b' \<and> frequencies_ok b' \<and> same_setup b b'
     \<and> indexed_terms b' = indexed_terms b \<union> W
     \<and> (\<forall>v P. inv_occ (bd_invertedIndex b') v P = inv_occ (bd_invertedIndex b) v P \<union> {n. (v, P, n) \<in> R})"

lemma grown_trans: "grown R W b b1 \<Longrightarrow> grown R' W' b1 b2 \<Longrightarrow> grown (R \<union> R') (W \<union> W') b b2"
  unfolding grown_def by (auto intro: same_setup_trans)

lemma grown_setup: "grown R W b b' \<Longrightarrow> same_setup b b'"
  by (simp add: grown_def)

lemma index_tokens_grow:
  "postings_ok b \<Longrightarrow> frequencies_ok b \<Longrightarrow> Q \<in> field_names b \<Longrightarrow>
    \<exists>b'. fold_run (index_token Q n) l b = ret b'
      \<and> grown {(v, P, m). v \<in> tok_str ` set l \<and> P = Q \<and> m = n} (tok_str ` set l) b b'
      \<and> bd_documents b' = bd_documents b \<and> bd_fieldLengths b' = bd_fieldLengths b
      \<and> fst ` set (bd_fieldTermFrequencies b')
          = fst ` set (bd_fieldTermFrequencies b) \<union> (if l = [] then {} else {ref n Q})"
proof (induction l arbitrary: b)
  case Nil
  then show ?case by (simp add: grown_def same_setup_def)
next
  case (Cons k l)
  obtain b1 where 1: "index_token Q n k b = ret b1" "postings_ok b1" "frequencies_ok b1" "same_setup b b1"
    "bd_documents b1 = bd_documents b" "bd_fieldLengths b1 = bd_fieldLengths b"
    "fst ` set (bd_fieldTermFrequencies b1) = insert (ref n Q) (fst ` set (bd_fieldTermFrequencies b))"
    "indexed_terms b1 = insert (tok_str k) (indexed_terms b)"
    "\<forall>v P. inv_occ (bd_invertedIndex b1) v P =
          inv_occ (bd_invertedIndex b) v P \<union> (if v = tok_str k \<and> P = Q then {n} else {})"
    using index_token_step [OF Cons.prems, of n k] by (elim exE conjE) (rule that)
  have g1: "grown {(v, P, m). v = tok_str k \<and> P = Q \<and> m = n} {tok_str k} b b1"
  proof -
    have "(if v = tok_str k \<and> P = Q then {n} else {}) = {m. (v, P, m) \<in> {(v, P, m). v = tok_str k \<and> P = Q \<and> m = n}}"
      for v P by auto
    with 1 show ?thesis unfolding grown_def by simp
  qed
  have "Q \<in> field_names b1" using 1(4) Cons.prems(3) by (simp add: same_setup_def)
  from Cons.IH [OF 1(2,3) this] obtain b2 where 2: "fold_run (index_token Q n) l b1 = ret b2"
    "grown {(v, P, m). v \<in> tok_str ` set l \<and> P = Q \<and> m = n} (tok_str ` set l) b1 b2"
    "bd_documents b2 = bd_documents b1" "bd_fieldLengths b2 = bd_fieldLengths b1"
    "fst ` set (bd_fieldTermFrequencies b2)
       = fst ` set (bd_fieldTermFrequencies b1) \<union> (if l = [] then {} else {ref n Q})" by blast
  have "{(v, P, m). v = tok_str k \<and> P = Q \<and> m = n} \<union> {(v, P, m). v \<in> tok_str ` set l \<and> P = Q \<and> m = n}
      = {(v, P, m). v \<in> tok_str ` set (k # l) \<and> P = Q \<and> m = n}" by auto
  with grown_trans [OF g1 2(2)] have "grown {(v, P, m). v \<in> tok_str ` set (k # l) \<and> P = Q \<and> m = n}
      (tok_str ` set (k # l)) b b2" by simp
  with 1 2 show ?case by auto
qed

lemma same_setup_tokens: "same_setup b b' \<Longrightarrow> field_tokens act b' e Qa = field_tokens act b e Qa"
  by (simp add: field_tokens_def same_setup_def)

lemma index_field_grows:
  assumes "postings_ok b" "frequencies_ok b" and Q: "fst Qa \<in> field_names b"
  shows "\<exists>b'. index_field act e n Qa b = ret b'
      \<and> grown {(v, P, m). v \<in> tok_str ` set (field_tokens act b e Qa) \<and> P = fst Qa \<and> m = n}
          (tok_str ` set (field_tokens act b e Qa)) b b'
      \<and> bd_documents b' = bd_documents b
      \<and> fst ` set (bd_fieldLengths b') = insert (ref n (fst Qa)) (fst ` set (bd_fieldLengths b))
      \<and> fst ` set (bd_fieldTermFrequencies b') = insert (ref n (fst Qa)) (fst ` set (bd_fieldTermFrequencies b))"
proof -
  let ?l = "field_tokens act b e Qa" and ?u = "ref n (fst Qa)"
  let ?b = "b\<lparr>bd_fieldTermFrequencies := AList.update ?u [] (bd_fieldTermFrequencies b),
             bd_fieldLengths := AList.update ?u (length ?l) (bd_fieldLengths b)\<rparr>"
  have post: "postings_ok ?b" using assms(1) by (simp add: postings_ok_def)
  have freq: "frequencies_ok ?b"
    unfolding frequencies_ok_def
  proof (intro allI impI)
    fix L f assume "(L, f) \<in> set (bd_fieldTermFrequencies ?b)"
    then have "(L, f) \<in> set (bd_fieldTermFrequencies b) \<or> f = []"
      using set_update [of L f ?u "[]" "bd_fieldTermFrequencies b"] by auto
    then show "distinct (map fst f) \<and> fst ` set f \<subseteq> indexed_terms ?b"
    proof
      assume "(L, f) \<in> set (bd_fieldTermFrequencies b)"
      then show ?thesis using assms(2) by (simp add: frequencies_ok_def)
    qed simp
  qed
  obtain b' where b': "fold_run (index_token (fst Qa) n) ?l ?b = ret b'"
    "grown {(v, P, m). v \<in> tok_str ` set ?l \<and> P = fst Qa \<and> m = n} (tok_str ` set ?l) ?b b'"
    "bd_documents b' = bd_documents ?b" "bd_fieldLengths b' = bd_fieldLengths ?b"
    "fst ` set (bd_fieldTermFrequencies b')
       = fst ` set (bd_fieldTermFrequencies ?b) \<union> (if ?l = [] then {} else {?u})"
    using index_tokens_grow [OF post freq, of "fst Qa" n ?l] Q by auto
  have "grown {(v, P, m). v \<in> tok_str ` set ?l \<and> P = fst Qa \<and> m = n} (tok_str ` set ?l) b b'"
    using b'(2) by (simp add: grown_def same_setup_def)
  moreover have "index_field act e n Qa b = ret b'" using b'(1) by (simp add: index_field_def Let_def)
  ultimately show ?thesis using b'(3,4,5) by (auto simp: fst_update)
qed

text \<open>The terms of a document in a field.\<close>

definition doc_has :: "'f actions \<Rightarrow> ('v, 'f) lunr_builder \<Rightarrow> document \<Rightarrow> string \<Rightarrow> string \<Rightarrow> bool" where
  "doc_has act b e P v \<longleftrightarrow>
     (\<exists>Qa \<in> set (bd_fields b). fst Qa = P \<and> v \<in> tok_str ` set (field_tokens act b e Qa))"

lemma index_fields_grow:
  "postings_ok b \<Longrightarrow> frequencies_ok b \<Longrightarrow> fst ` set Qas \<subseteq> field_names b \<Longrightarrow>
    \<exists>b'. fold_run (index_field act e n) Qas b = ret b'
      \<and> grown {(v, P, m). m = n \<and> (\<exists>Qa \<in> set Qas. fst Qa = P \<and> v \<in> tok_str ` set (field_tokens act b e Qa))}
          (\<Union>Qa \<in> set Qas. tok_str ` set (field_tokens act b e Qa)) b b'
      \<and> bd_documents b' = bd_documents b
      \<and> fst ` set (bd_fieldLengths b') = fst ` set (bd_fieldLengths b) \<union> ref n ` fst ` set Qas
      \<and> fst ` set (bd_fieldTermFrequencies b') = fst ` set (bd_fieldTermFrequencies b) \<union> ref n ` fst ` set Qas"
proof (induction Qas arbitrary: b)
  case Nil
  then show ?case by (simp add: grown_def same_setup_def)
next
  case (Cons Qa Qas)
  obtain b1 where 1: "index_field act e n Qa b = ret b1"
    "grown {(v, P, m). v \<in> tok_str ` set (field_tokens act b e Qa) \<and> P = fst Qa \<and> m = n}
          (tok_str ` set (field_tokens act b e Qa)) b b1" "bd_documents b1 = bd_documents b"
    "fst ` set (bd_fieldLengths b1) = insert (ref n (fst Qa)) (fst ` set (bd_fieldLengths b))"
    "fst ` set (bd_fieldTermFrequencies b1) = insert (ref n (fst Qa)) (fst ` set (bd_fieldTermFrequencies b))"
    using index_field_grows [OF Cons.prems(1,2), of Qa act e n] Cons.prems(3) by auto
  have kept: "same_setup b b1" using 1(2) by (rule grown_setup)
  then have names: "fst ` set Qas \<subseteq> field_names b1" using Cons.prems(3) by (simp add: same_setup_def)
  have ok1: "postings_ok b1" "frequencies_ok b1" using 1(2) by (simp_all add: grown_def)
  obtain b2 where 2: "fold_run (index_field act e n) Qas b1 = ret b2"
    "grown {(v, P, m). m = n \<and> (\<exists>Qa \<in> set Qas. fst Qa = P \<and> v \<in> tok_str ` set (field_tokens act b e Qa))}
          (\<Union>Qa \<in> set Qas. tok_str ` set (field_tokens act b e Qa)) b1 b2" "bd_documents b2 = bd_documents b1"
    "fst ` set (bd_fieldLengths b2) = fst ` set (bd_fieldLengths b1) \<union> ref n ` fst ` set Qas"
    "fst ` set (bd_fieldTermFrequencies b2) = fst ` set (bd_fieldTermFrequencies b1) \<union> ref n ` fst ` set Qas"
    using Cons.IH [OF ok1 names] by (auto simp: same_setup_tokens [OF kept])
  have rel: "{(v, P, m). v \<in> tok_str ` set (field_tokens act b e Qa) \<and> P = fst Qa \<and> m = n} \<union>
      {(v, P, m). m = n \<and> (\<exists>Qa \<in> set Qas. fst Qa = P \<and> v \<in> tok_str ` set (field_tokens act b e Qa))}
    = {(v, P, m). m = n \<and> (\<exists>Qa \<in> set (Qa # Qas). fst Qa = P \<and> v \<in> tok_str ` set (field_tokens act b e Qa))}"
    by auto
  have "grown {(v, P, m). m = n \<and> (\<exists>Qa \<in> set (Qa # Qas). fst Qa = P \<and> v \<in> tok_str ` set (field_tokens act b e Qa))}
          (\<Union>Qa \<in> set (Qa # Qas). tok_str ` set (field_tokens act b e Qa)) b b2"
    using grown_trans [OF 1(2) 2(2)] unfolding rel by simp
  with 1 2 show ?case by auto
qed

text \<open>The state after some documents have been added to a fresh builder.\<close>

definition holds_docs ::
    "'f actions \<Rightarrow> ('v, 'f) lunr_builder \<Rightarrow> document list \<Rightarrow> ('v, 'f) lunr_builder \<Rightarrow> bool" where
  "holds_docs act b es b' \<longleftrightarrow> postings_ok b' \<and> frequencies_ok b' \<and> same_setup b b'
     \<and> indexed_terms b' = {v. \<exists>e \<in> set es. \<exists>P. doc_has act b e P v}
     \<and> (\<forall>v P. inv_occ (bd_invertedIndex b') v P = doc_ref b ` {e \<in> set es. doc_has act b e P v})
     \<and> fst ` set (bd_documents b') = doc_ref b ` set es
     \<and> fst ` set (bd_fieldLengths b') = (\<lambda>(d, Q). ref d Q) ` (doc_ref b ` set es \<times> field_names b)
     \<and> fst ` set (bd_fieldTermFrequencies b') = (\<lambda>(d, Q). ref d Q) ` (doc_ref b ` set es \<times> field_names b)"

lemma add_doc_holds:
  assumes "holds_docs act b es b'"
  shows "\<exists>b2. add_doc act e t b' = ret b2 \<and> holds_docs act b (es @ [e]) b2"
proof -
  let ?n = "doc_ref b e"
  have kept: "same_setup b b'" using assms by (simp add: holds_docs_def)
  then have same: "doc_ref b' e = ?n" "bd_fields b' = bd_fields b" by (simp_all add: doc_ref_def same_setup_def)
  let ?b = "b'\<lparr>bd_documents := AList.update ?n t (bd_documents b'), bd_documentCount := bd_documentCount b' + 1\<rparr>"
  have kept1: "same_setup b ?b" using kept by (simp add: same_setup_def)
  have ok: "postings_ok ?b" "frequencies_ok ?b"
  proof -
    have "postings_ok b'" "frequencies_ok b'" using assms by (simp_all add: holds_docs_def)
    then show "postings_ok ?b" "frequencies_ok ?b" by (simp_all add: postings_ok_def frequencies_ok_def)
  qed
  have names: "fst ` set (bd_fields b) \<subseteq> field_names ?b" by (simp add: same)
  let ?R = "{(v, P, m). m = ?n \<and> doc_has act b e P v}"
  note growth = index_fields_grow [OF ok names, of act e ?n, unfolded same_setup_tokens [OF kept1]]
  from growth obtain b2 where b2: "fold_run (index_field act e ?n) (bd_fields b) ?b = ret b2"
    "grown ?R (\<Union>Qa \<in> set (bd_fields b). tok_str ` set (field_tokens act b e Qa)) ?b b2"
    "bd_documents b2 = bd_documents ?b"
    "fst ` set (bd_fieldLengths b2) = fst ` set (bd_fieldLengths ?b) \<union> ref ?n ` field_names b"
    "fst ` set (bd_fieldTermFrequencies b2) = fst ` set (bd_fieldTermFrequencies ?b) \<union> ref ?n ` field_names b"
    unfolding doc_has_def [symmetric] by (elim exE conjE) (rule that)
  have run: "add_doc act e t b' = ret b2" using b2(1) by (simp add: add_doc_def same Let_def)
  have "(\<Union>Qa \<in> set (bd_fields b). tok_str ` set (field_tokens act b e Qa)) = {v. \<exists>P. doc_has act b e P v}"
    by (auto simp: doc_has_def)
  then have terms: "indexed_terms b2 = {v. \<exists>e \<in> set (es @ [e]). \<exists>P. doc_has act b e P v}"
    using b2(2) assms by (auto simp: grown_def holds_docs_def)
  have occ: "inv_occ (bd_invertedIndex b2) v P = doc_ref b ` {x \<in> set (es @ [e]). doc_has act b x P v}" for v P
  proof -
    have "inv_occ (bd_invertedIndex b2) v P = inv_occ (bd_invertedIndex b') v P \<union> {n. (v, P, n) \<in> ?R}"
      using b2(2) by (simp add: grown_def)
    also have "inv_occ (bd_invertedIndex b') v P = doc_ref b ` {e \<in> set es. doc_has act b e P v}"
      using assms by (simp add: holds_docs_def)
    finally show ?thesis by auto
  qed
  have refs: "(\<lambda>(d, Q). ref d Q) ` (doc_ref b ` set es \<times> field_names b) \<union> ref ?n ` field_names b
      = (\<lambda>(d, Q). ref d Q) ` (doc_ref b ` set (es @ [e]) \<times> field_names b)" by auto
  have "same_setup b b2" using same_setup_trans [OF kept1 grown_setup [OF b2(2)]] .
  moreover have "postings_ok b2" "frequencies_ok b2" using b2(2) by (simp_all add: grown_def)
  moreover have "fst ` set (bd_documents b2) = doc_ref b ` set (es @ [e])"
    using b2(3) assms by (auto simp: holds_docs_def fst_update)
  moreover have "fst ` set (bd_fieldLengths b2) = (\<lambda>(d, Q). ref d Q) ` (doc_ref b ` set (es @ [e]) \<times> field_names b)"
    "fst ` set (bd_fieldTermFrequencies b2) = (\<lambda>(d, Q). ref d Q) ` (doc_ref b ` set (es @ [e]) \<times> field_names b)"
    using b2(4,5) assms refs by (simp_all add: holds_docs_def)
  ultimately have "holds_docs act b (es @ [e]) b2"
    unfolding holds_docs_def using terms occ by blast
  with run show ?thesis by blast
qed

text \<open>Several documents, each with its boost.\<close>

definition add_docs ::
    "'f actions \<Rightarrow> (document \<times> 'v option) list \<Rightarrow> ('v, 'f) lunr_builder \<Rightarrow> ('v, 'f) lunr_builder run" where
  "add_docs act ds b = fold_run (\<lambda>(e, t). add_doc act e t) ds b"

definition fresh :: "('v, 'f) lunr_builder \<Rightarrow> bool" where
  "fresh b \<longleftrightarrow> bd_documents b = [] \<and> bd_invertedIndex b = [] \<and> bd_fieldTermFrequencies b = []
     \<and> bd_fieldLengths b = []"

lemma fresh_holds: "fresh b \<Longrightarrow> holds_docs act b [] b"
  by (simp add: fresh_def holds_docs_def postings_ok_def frequencies_ok_def same_setup_def inv_occ_def)

lemma add_docs_hold:
  "holds_docs act b es b1 \<Longrightarrow> \<exists>b2. add_docs act ds b1 = ret b2 \<and> holds_docs act b (es @ map fst ds) b2"
proof (induction ds arbitrary: es b1)
  case Nil
  then show ?case by (simp add: add_docs_def)
next
  case (Cons d ds)
  obtain b2 where 2: "add_doc act (fst d) (snd d) b1 = ret b2" "holds_docs act b (es @ [fst d]) b2"
    using add_doc_holds [OF Cons.prems, of "fst d" "snd d"] by blast
  from Cons.IH [OF 2(2)] obtain b3 where "add_docs act ds b2 = ret b3" "holds_docs act b (es @ map fst (d # ds)) b3"
    by auto
  with 2(1) show ?case by (auto simp: add_docs_def split_def)
qed

section \<open>Building succeeds\<close>

lemma sum_lengths_return:
  assumes "\<forall>L \<in> set Ls. \<exists>d Q. L = ref d Q \<and> joiner \<notin> set Q" "set Ls \<subseteq> fst ` set lengths"
  shows "\<exists>s'. fold_run (sum_length lengths) Ls s = ret s'"
  using assms
proof (induction Ls arbitrary: s)
  case (Cons L Ls)
  obtain d Q where L: "L = ref d Q" "joiner \<notin> set Q" using Cons.prems(1) by auto
  obtain len where len: "map_of lengths L = Some len" using key_lookup [of L lengths] Cons.prems(2) by auto
  have "toString_ref \<lparr>fr_docRef = d, fr_fieldName = Q, fr_stringValue = Some (ref d Q)\<rparr> = L"
    by (simp add: toString_ref_def L(1))
  then obtain s1 where "sum_length lengths L s = ret s1"
    using len L parse_ref_ref [OF L(2), of d] by (auto simp: sum_length_def split_def Let_def)
  with Cons show ?case by simp
qed simp

text \<open>The numbers of the terms are different numbers.\<close>

definition numbers_differ :: "'v numbers \<Rightarrow> ('v, 'f) lunr_builder \<Rightarrow> bool" where
  "numbers_differ A b \<longleftrightarrow> inj_on (\<lambda>i. a_num A (int i)) {..<bd_termIndex b}"

lemma insert_new:
  assumes "ascending ps" "e \<notin> fst ` set ps"
  shows "insert_vec A e t (vector_of A ps) = Some (Inr (vector_of A (upd e t ps)))"
proof -
  have "map_of ps e = None" using assms(2) map_of_None_keys [of ps e] by blast
  then show ?thesis by (simp add: insert_vec_def upsert_vector [OF assms(1)])
qed

lemma add_weights_return:
  assumes ok: "postings_ok b" and inj: "numbers_differ A b"
  shows "distinct (map fst f) \<Longrightarrow> fst ` set f \<subseteq> indexed_terms b \<Longrightarrow> ascending ps \<Longrightarrow>
    (\<And>t g. t \<in> fst ` set f \<Longrightarrow> map_of (bd_invertedIndex b) t = Some g \<Longrightarrow> a_num A (int (p_index g)) \<notin> fst ` set ps) \<Longrightarrow>
    \<exists>c. fold_run (add_weight A b s avg d h) f (vector_of (arith_of A) ps) = ret c"
proof (induction f arbitrary: ps)
  case (Cons tw f)
  obtain t w where tw: "tw = (t, w)" by (cases tw)
  obtain g where g: "map_of (bd_invertedIndex b) t = Some g"
    using key_lookup [of t "bd_invertedIndex b"] Cons.prems(2) tw by auto
  let ?e = "a_num A (int (p_index g))" and ?x = "bm25 A b (idf A g (bd_documentCount b)) w s avg d h"
  have new: "?e \<notin> fst ` set ps" using Cons.prems(4) [of t g] tw g by simp
  have step: "add_weight A b s avg d h tw (vector_of (arith_of A) ps)
      = ret (vector_of (arith_of A) (upd ?e ?x ps))"
    using insert_new [OF Cons.prems(3) new] g by (simp add: add_weight_def tw run_insert_def)
  have "a_num A (int (p_index g')) \<notin> fst ` set (upd ?e ?x ps)"
    if t': "t' \<in> fst ` set f" and g': "map_of (bd_invertedIndex b) t' = Some g'" for t' g'
  proof -
    have "t' \<noteq> t" using Cons.prems(1) tw t' by auto
    then have "p_index g' \<noteq> p_index g" using ok g g' unfolding postings_ok_def by blast
    moreover have "p_index g' < bd_termIndex b" "p_index g < bd_termIndex b"
      using ok g g' unfolding postings_ok_def by blast+
    ultimately have "a_num A (int (p_index g')) \<noteq> ?e"
      using inj inj_onD [of "\<lambda>i. a_num A (int i)" "{..<bd_termIndex b}" "p_index g'" "p_index g"]
      by (auto simp: numbers_differ_def)
    then show ?thesis using Cons.prems(4) [of t' g'] t' g' tw by (simp add: set_upd)
  qed
  with Cons.IH [OF _ _ ascending_upd [OF Cons.prems(3)], of ?e ?x] Cons.prems(1,2) step show ?case by simp
qed simp

lemma field_vectors_return:
  assumes holds: "holds_docs act b es b'" and names: "\<forall>Q \<in> field_names b. joiner \<notin> set Q"
    and inj: "numbers_differ A b'"
  shows "set Lfs \<subseteq> set (bd_fieldTermFrequencies b') \<Longrightarrow>
    \<exists>e'. fold_run (field_vector A b' avgs) Lfs e = ret e' \<and> fst ` set e' = fst ` set e \<union> fst ` set Lfs"
proof (induction Lfs arbitrary: e)
  case (Cons Lf Lfs)
  obtain L f where Lf: "Lf = (L, f)" by (cases Lf)
  have mem: "(L, f) \<in> set (bd_fieldTermFrequencies b')" using Cons.prems Lf by auto
  then have "L \<in> fst ` set (bd_fieldTermFrequencies b')" by force
  then obtain d Q where L: "L = ref d Q" "d \<in> doc_ref b ` set es" "Q \<in> field_names b"
    using holds by (auto simp: holds_docs_def)
  have fields: "bd_fields b' = bd_fields b" using holds by (simp add: holds_docs_def same_setup_def)
  obtain a where a: "map_of (bd_fields b') Q = Some a" using key_lookup [OF L(3)] unfolding fields by blast
  obtain t where t: "map_of (bd_documents b') d = Some t"
    using key_lookup [of d "bd_documents b'"] L(2) holds by (auto simp: holds_docs_def)
  have "fst ` set (bd_fieldLengths b') = (\<lambda>(d, Q). ref d Q) ` (doc_ref b ` set es \<times> field_names b)"
    using holds by (simp add: holds_docs_def)
  then have "L \<in> fst ` set (bd_fieldLengths b')" using L by auto
  from key_lookup [OF this] obtain s where s: "map_of (bd_fieldLengths b') L = Some s" by blast
  have "frequencies_ok b'" using holds by (simp add: holds_docs_def)
  then have f: "distinct (map fst f)" "fst ` set f \<subseteq> indexed_terms b'"
    using mem unfolding frequencies_ok_def by blast+
  have ok: "postings_ok b'" using holds by (simp add: holds_docs_def)
  let ?avg = "case map_of avgs Q of None \<Rightarrow> a_nan A | Some x \<Rightarrow> x"
  obtain c where c: "fold_run (add_weight A b' s ?avg (or_one A (fa_boost a)) (or_one A t)) f
      (new_vector (arith_of A) []) = ret c"
    using add_weights_return [OF ok inj f, of "[]" s ?avg "or_one A (fa_boost a)" "or_one A t"]
    by (auto simp: vector_of_def)
  have "joiner \<notin> set Q" using names L(3) by blast
  from parse_ref_ref [OF this, of d] have "field_vector A b' avgs Lf e = ret (AList.update L c e)"
    using a t s c L(1) by (simp add: field_vector_def Lf)
  with Cons.IH [of "AList.update L c e"] Cons.prems show ?case by (auto simp: Lf fst_update)
qed simp

lemma build_index_returns:
  assumes holds: "holds_docs act b es b'" and names: "\<forall>Q \<in> field_names b. joiner \<notin> set Q"
    and inj: "numbers_differ A b'" and plain: "list_all plain_word (map fst (bd_invertedIndex b'))"
    and fields: "bd_fields b \<noteq> []"
  shows "\<exists>ix h'. build_index A b' h = ret (ix, h') \<and> well_indexed ix h' (doc_ref b ` set es)
    \<and> ix_pipeline ix = bd_searchPipeline b \<and> ix_fields ix = map fst (bd_fields b)
    \<and> ix_invertedIndex ix = bd_invertedIndex b'"
proof -
  have same: "bd_fields b' = bd_fields b" "bd_searchPipeline b' = bd_searchPipeline b"
    using holds by (simp_all add: holds_docs_def same_setup_def)
  have "\<forall>L \<in> set (map fst (bd_fieldLengths b')). \<exists>d Q. L = ref d Q \<and> joiner \<notin> set Q"
    using holds names by (auto simp: holds_docs_def)
  then obtain avgs where avgs: "calculateAverageFieldLengths A b' = ret avgs"
    using sum_lengths_return [of "map fst (bd_fieldLengths b')" "bd_fieldLengths b'" "[]"]
    by (auto simp: calculateAverageFieldLengths_def)
  obtain vs where vs: "createFieldVectors A b' avgs = ret vs"
    "fst ` set vs = fst ` set (bd_fieldTermFrequencies b')"
    using field_vectors_return [OF holds names inj subset_refl, of avgs "[]"] by (auto simp: createFieldVectors_def)
  let ?ws = "sort (map fst (bd_invertedIndex b'))"
  have "list_all plain_word ?ws" using plain by (simp add: list_all_iff)
  then obtain root h' where root: "fromArray ?ws h = Inr (root, h')" "index_set h' root (set ?ws)"
    using fromArray_index [OF sorted_sort] by blast
  let ?ix = "\<lparr>ix_invertedIndex = bd_invertedIndex b', ix_fieldVectors = vs, ix_tokenSet = root,
             ix_fields = map fst (bd_fields b'), ix_pipeline = bd_searchPipeline b'\<rparr>"
  have run: "build_index A b' h = ret (?ix, h')"
    using avgs vs(1) root(1) by (simp add: build_index_def createTokenSet_def)
  have post: "field_names b \<subseteq> fst ` set (p_fields g)" if "g \<in> snd ` set (bd_invertedIndex b')" for g
  proof -
    from that obtain w where w: "(w, g) \<in> set (bd_invertedIndex b')" by auto
    have ok: "postings_ok b'" using holds by (simp add: holds_docs_def)
    then have "map_of (bd_invertedIndex b') w = Some g" using w by (simp add: postings_ok_def)
    with ok same(1) show ?thesis unfolding postings_ok_def by metis
  qed
  have "well_indexed ?ix h' (doc_ref b ` set es)"
    unfolding well_indexed_def occurrences_inv
  proof (intro conjI)
    show "index_set h' (ix_tokenSet ?ix) (terms_of ?ix)" using root(2) by simp
    show "\<forall>Q \<in> set (ix_fields ?ix). joiner \<notin> set Q" using names same by simp
    show "\<forall>g \<in> snd ` set (ix_invertedIndex ?ix). set (ix_fields ?ix) \<subseteq> fst ` set (p_fields g)"
      using post same by simp
    show "\<forall>w. \<forall>Q \<in> set (ix_fields ?ix). inv_occ (ix_invertedIndex ?ix) w Q \<subseteq> doc_ref b ` set es"
      using holds by (auto simp: holds_docs_def)
    show "ix_fields ?ix \<noteq> []" using fields same by simp
    show "fst ` set (ix_fieldVectors ?ix) = (\<lambda>(d, Q). ref d Q) ` (doc_ref b ` set es \<times> set (ix_fields ?ix))"
      using vs(2) holds same by (simp add: holds_docs_def)
  qed
  with run same show ?thesis by auto
qed

section \<open>Searching what has been indexed\<close>

text \<open>The words of a text after lunr's functions; the terms of a field of a document.\<close>

fun stage_words :: "lunr_fn \<Rightarrow> string list \<Rightarrow> string list" where
  "stage_words Trimmer ws = map trimmed ws"
| "stage_words StopWordFilter ws = filter (\<lambda>w. w \<notin> set lunr_stopwords) ws"
| "stage_words Stemmer_fn ws = map lunr_stem ws"

lemma run_pipeline_words:
  "map tok_str (run_pipeline lunr_act fs ks) = fold stage_words fs (map tok_str ks)"
proof (induction fs arbitrary: ks)
  case (Cons f fs)
  have "map tok_str (run_stage lunr_act f ks) = stage_words f (map tok_str ks)"
    by (cases f) (simp_all add: update_token_def filter_map comp_def)
  with Cons.IH show ?case by simp
qed simp

definition doc_terms :: "('v, lunr_fn) lunr_builder \<Rightarrow> document \<Rightarrow> string \<Rightarrow> string set" where
  "doc_terms b e Q =
     (case map_of (bd_fields b) Q of
        None \<Rightarrow> {}
      | Some a \<Rightarrow> set (fold stage_words (bd_pipeline b) (input_words (field_value a e Q))))"

text \<open>The one token of a clause; whether a document has a term that matches it.\<close>

definition clause_token :: "clause \<Rightarrow> string" where
  "clause_token c = (if cl_usePipeline c = Some True then lunr_stem (cl_term c) else cl_term c)"

definition doc_hit :: "('v, lunr_fn) lunr_builder \<Rightarrow> clause \<Rightarrow> document \<Rightarrow> bool" where
  "doc_hit b c e \<longleftrightarrow>
     (\<exists>Q \<in> set (clause_fields c). \<exists>w \<in> doc_terms b e Q.
        w \<noteq> [] \<and> clause_matches (c\<lparr>cl_term := clause_token c\<rparr>) w)"

definition doc_selected :: "('v, lunr_fn) lunr_builder \<Rightarrow> lunr_query \<Rightarrow> document \<Rightarrow> bool" where
  "doc_selected b t e \<longleftrightarrow>
     (isNegated t \<or> (\<exists>c \<in> set (q_clauses t). cl_presence c \<noteq> Some PROHIBITED \<and> doc_hit b c e))
     \<and> (\<forall>c \<in> set (q_clauses t). cl_presence c = Some REQUIRED \<longrightarrow> doc_hit b c e)
     \<and> \<not> (\<exists>c \<in> set (q_clauses t). cl_presence c = Some PROHIBITED \<and> doc_hit b c e)"

lemma doc_has_terms:
  assumes "distinct (map fst (bd_fields b))"
  shows "doc_has lunr_act b e Q w \<longleftrightarrow> w \<in> doc_terms b e Q"
proof -
  have toks: "tok_str ` set (field_tokens lunr_act b e (Q, a)) = set (fold stage_words (bd_pipeline b) (input_words (field_value a e Q)))"
    for a
  proof -
    have "tok_str ` set (field_tokens lunr_act b e (Q, a)) = set (map tok_str (field_tokens lunr_act b e (Q, a)))"
      by simp
    also have "map tok_str (field_tokens lunr_act b e (Q, a)) = fold stage_words (bd_pipeline b) (input_words (field_value a e Q))"
      by (simp add: field_tokens_def run_pipeline_words tokenizer_strings)
    finally show ?thesis .
  qed
  have "doc_has lunr_act b e Q w \<longleftrightarrow>
      (\<exists>a. (Q, a) \<in> set (bd_fields b) \<and> w \<in> tok_str ` set (field_tokens lunr_act b e (Q, a)))"
    by (force simp: doc_has_def)
  also have "\<dots> \<longleftrightarrow> (\<exists>a. map_of (bd_fields b) Q = Some a \<and> w \<in> set (fold stage_words (bd_pipeline b) (input_words (field_value a e Q))))"
    using assms by (simp add: toks)
  also have "\<dots> \<longleftrightarrow> w \<in> doc_terms b e Q" by (auto simp: doc_terms_def split: option.split)
  finally show ?thesis .
qed

lemma clause_tokens_lunr: "clause_tokens lunr_act search_pipeline c = [clause_token c]"
  by (simp add: clause_tokens_def clause_token_def run_search_pipeline)

lemma clause_token_Nil [simp]: "clause_token c = [] \<longleftrightarrow> cl_term c = []" "[] = clause_token c \<longleftrightarrow> cl_term c = []"
proof -
  show "clause_token c = [] \<longleftrightarrow> cl_term c = []" by (simp add: clause_token_def)
  then show "[] = clause_token c \<longleftrightarrow> cl_term c = []" by metis
qed

lemma clause_pairs_docs:
  assumes holds: "holds_docs lunr_act b es b'" and lunr: "distinct (map fst (bd_fields b))"
    and ix: "ix_invertedIndex ix = bd_invertedIndex b'" "ix_pipeline ix = search_pipeline"
  shows "fst ` clause_pairs lunr_act ix c = doc_ref b ` {e \<in> set es. doc_hit b c e}"
    "allows lunr_act ix c d \<longleftrightarrow> d \<in> fst ` clause_pairs lunr_act ix c"
proof -
  have occ: "occurrences ix w Q = doc_ref b ` {e \<in> set es. w \<in> doc_terms b e Q}" for w Q
    using holds by (simp add: holds_docs_def occurrences_inv ix doc_has_terms [OF lunr])
  have terms: "w \<in> terms_of ix \<longleftrightarrow> (\<exists>e \<in> set es. \<exists>Q. w \<in> doc_terms b e Q)" for w
    using holds by (simp add: holds_docs_def ix doc_has_terms [OF lunr])
  have pairs: "clause_pairs lunr_act ix c = token_pairs ix c (clause_fields c) (clause_token c)"
    by (simp add: clause_pairs_def ix clause_tokens_lunr)
  show hit: "fst ` clause_pairs lunr_act ix c = doc_ref b ` {e \<in> set es. doc_hit b c e}"
  proof (intro set_eqI iffI)
    fix d assume "d \<in> fst ` clause_pairs lunr_act ix c"
    then obtain w Q where w: "w \<noteq> []" "clause_matches (c\<lparr>cl_term := clause_token c\<rparr>) w"
      "Q \<in> set (clause_fields c)" "d \<in> occurrences ix w Q"
      unfolding pairs token_pairs_def by auto
    obtain e where "e \<in> set es" "d = doc_ref b e" "w \<in> doc_terms b e Q" using w(4) unfolding occ by blast
    with w show "d \<in> doc_ref b ` {e \<in> set es. doc_hit b c e}" unfolding doc_hit_def by blast
  next
    fix d assume "d \<in> doc_ref b ` {e \<in> set es. doc_hit b c e}"
    then obtain e Q w where e: "e \<in> set es" "d = doc_ref b e" "Q \<in> set (clause_fields c)" "w \<in> doc_terms b e Q"
      "w \<noteq> []" "clause_matches (c\<lparr>cl_term := clause_token c\<rparr>) w"
      unfolding doc_hit_def by blast
    then have "w \<in> terms_of ix" "d \<in> occurrences ix w Q" using terms occ by blast+
    with e have "(d, Q) \<in> clause_pairs lunr_act ix c" unfolding pairs token_pairs_def by blast
    then show "d \<in> fst ` clause_pairs lunr_act ix c" by force
  qed
  have "expanded ix c (clause_token c)" if "d \<in> fst ` clause_pairs lunr_act ix c"
    using that unfolding pairs token_pairs_def expanded_def by auto
  then show "allows lunr_act ix c d \<longleftrightarrow> d \<in> fst ` clause_pairs lunr_act ix c"
    by (auto simp: allows_def ix clause_tokens_lunr)
qed

text \<open>The builder can be used: configured as lunr does it, before any document.\<close>

definition configured :: "('v, lunr_fn) lunr_builder \<Rightarrow> bool" where
  "configured b \<longleftrightarrow> fresh b \<and> bd_searchPipeline b = search_pipeline \<and> bd_fields b \<noteq> [] \<and> distinct (map fst (bd_fields b))
     \<and> list_all (\<lambda>Q. joiner \<notin> set Q) (map fst (bd_fields b))"

definition answerable :: "('v, 'f) lunr_builder \<Rightarrow> clause \<Rightarrow> bool" where
  "answerable b c \<longleftrightarrow> clause_fields c \<noteq> [] \<and> set (clause_fields c) \<subseteq> field_names b \<and> cl_term c \<noteq> []"

text \<open>No term of the documents has a digit in it (see \<open>digits_confuse_token_sets\<close>).\<close>

definition digit_free :: "('v, lunr_fn) lunr_builder \<Rightarrow> document list \<Rightarrow> bool" where
  "digit_free b es \<longleftrightarrow>
     list_all (\<lambda>e. list_all (\<lambda>Q. \<forall>w \<in> doc_terms b e Q. plain_word w) (map fst (bd_fields b))) es"

lemma digit_freeD: "digit_free b es \<Longrightarrow> e \<in> set es \<Longrightarrow> w \<in> doc_terms b e Q \<Longrightarrow> plain_word w"
proof -
  assume a: "digit_free b es" "e \<in> set es" "w \<in> doc_terms b e Q"
  then obtain x where "map_of (bd_fields b) Q = Some x" by (auto simp: doc_terms_def split: option.splits)
  from map_of_SomeD [OF this] have "Q \<in> set (map fst (bd_fields b))" by force
  with a show ?thesis by (auto simp: digit_free_def list_all_iff [of _ es] list_all_iff [of _ "map fst (bd_fields b)"])
qed

text \<open>An index of the documents \<open>ds\<close> that \<open>b\<close> was configured for, with the heap of its token set.\<close>

definition indexes ::
    "('v, lunr_fn) lunr_builder \<Rightarrow> (document \<times> 'v option) list \<Rightarrow> ('v, lunr_fn) lunr_index \<Rightarrow> ts_heap \<Rightarrow> bool" where
  "indexes b ds ix h \<longleftrightarrow>
     (\<exists>b1. holds_docs lunr_act b (map fst ds) b1 \<and> ix_invertedIndex ix = bd_invertedIndex b1)
     \<and> well_indexed ix h (doc_ref b ` fst ` set ds)
     \<and> ix_pipeline ix = search_pipeline \<and> ix_fields ix = map fst (bd_fields b)"

lemma build_indexes:
  assumes conf: "configured b" and plain: "digit_free b (map fst ds)"
  shows "\<exists>b1. add_docs lunr_act ds b = ret b1 \<and> (numbers_differ A b1 \<longrightarrow>
    (\<exists>ix h1. build_index A b1 h = ret (ix, h1) \<and> indexes b ds ix h1))"
proof -
  have lunr: "distinct (map fst (bd_fields b))" and names: "\<forall>Q \<in> field_names b. joiner \<notin> set Q"
    and fields: "bd_fields b \<noteq> []" and "fresh b" and pipe: "bd_searchPipeline b = search_pipeline"
    using conf by (auto simp: configured_def list_all_iff)
  obtain b1 where b1: "add_docs lunr_act ds b = ret b1" "holds_docs lunr_act b (map fst ds) b1"
    using add_docs_hold [OF fresh_holds [OF \<open>fresh b\<close>], of lunr_act ds] by auto
  have "\<exists>ix h1. build_index A b1 h = ret (ix, h1) \<and> indexes b ds ix h1" if inj: "numbers_differ A b1"
  proof -
    have terms: "indexed_terms b1 = {v. \<exists>e \<in> set (map fst ds). \<exists>P. v \<in> doc_terms b e P}"
      using b1(2) by (simp only: holds_docs_def doc_has_terms [OF lunr])
    have "plain_word v" if "v \<in> indexed_terms b1" for v
    proof -
      from that obtain e P where "e \<in> set (map fst ds)" "v \<in> doc_terms b e P" unfolding terms by blast
      then show ?thesis by (rule digit_freeD [OF plain])
    qed
    then have "list_all plain_word (map fst (bd_invertedIndex b1))"
      by (auto simp: list_all_iff [of plain_word])
    from build_index_returns [where h = h, OF b1(2) names inj this fields]
    show ?thesis using b1(2) pipe unfolding indexes_def by auto
  qed
  then show ?thesis by (intro exI [of _ b1] conjI impI b1(1))
qed

lemma indexes_answers:
  assumes ix: "indexes b ds ix h" and lunr: "distinct (map fst (bd_fields b))"
    and refs: "distinct (map (doc_ref b \<circ> fst) ds)" and t: "list_all (answerable b) (q_clauses t)"
  shows "\<exists>results h'. index_query A lunr_act ix t h = ret (results, h') \<and> indexes b ds ix h'
    \<and> distinct (map lr_ref results) \<and> sorted_wrt (\<lambda>x y. lr_score y \<le> lr_score x) results
    \<and> lr_ref ` set results = doc_ref b ` {e \<in> fst ` set ds. doc_selected b t e}"
proof -
  let ?refs = "doc_ref b ` fst ` set ds"
  obtain b1 where b1: "holds_docs lunr_act b (map fst ds) b1" "ix_invertedIndex ix = bd_invertedIndex b1"
    and well: "well_indexed ix h ?refs" and pipe: "ix_pipeline ix = search_pipeline"
    and fields: "ix_fields ix = map fst (bd_fields b)"
    using ix by (auto simp: indexes_def)
  have "list_all (clause_ok lunr_act ix) (q_clauses t)"
    using t by (auto simp: list_all_iff answerable_def clause_ok_def pipe fields clause_tokens_lunr)
  from query_documents [where A = A, OF well this]
  obtain results h2 where res: "index_query A lunr_act ix t h = ret (results, h2)" "well_indexed ix h2 ?refs"
    "distinct (map lr_ref results)" "sorted_wrt (\<lambda>x y. lr_score y \<le> lr_score x) results"
    "lr_ref ` set results = {d \<in> ?refs. selects lunr_act ix t d}"
    by (elim exE conjE) (rule that)
  have hit: "doc_ref b e \<in> fst ` clause_pairs lunr_act ix c \<longleftrightarrow> doc_hit b c e" if "e \<in> fst ` set ds" for e c
  proof -
    have "inj_on (doc_ref b) (fst ` set ds)" using refs by (auto simp: distinct_map inj_on_def)
    then show ?thesis
      using that unfolding clause_pairs_docs(1) [OF b1(1) lunr b1(2) pipe] by (auto dest: inj_onD)
  qed
  have "selects lunr_act ix t (doc_ref b e) \<longleftrightarrow> doc_selected b t e" if "e \<in> fst ` set ds" for e
    by (simp add: selects_def doc_selected_def clause_pairs_docs(2) [OF b1(1) lunr b1(2) pipe] hit [OF that])
  then have "{d \<in> ?refs. selects lunr_act ix t d} = doc_ref b ` {e \<in> fst ` set ds. doc_selected b t e}"
    by auto
  then have docs: "lr_ref ` set results = doc_ref b ` {e \<in> fst ` set ds. doc_selected b t e}"
    by (simp only: res(5))
  have "indexes b ds ix h2" unfolding indexes_def using b1 res(2) pipe fields by blast
  then show ?thesis
    by (intro exI [of _ results] exI [of _ h2] conjI res(1,3,4) docs)
qed

lemma built_index:
  assumes conf: "configured b" and refs: "distinct (map (doc_ref b \<circ> fst) ds)"
    and plain: "digit_free b (map fst ds)"
    and t: "list_all (answerable b) (q_clauses t)"
  shows "\<exists>b1. add_docs lunr_act ds b = ret b1 \<and> (numbers_differ A b1 \<longrightarrow>
    (\<exists>ix h1 results h2. build_index A b1 h = ret (ix, h1)
      \<and> index_query A lunr_act ix t h1 = ret (results, h2)
      \<and> distinct (map lr_ref results) \<and> sorted_wrt (\<lambda>x y. lr_score y \<le> lr_score x) results
      \<and> lr_ref ` set results = doc_ref b ` {e \<in> fst ` set ds. doc_selected b t e}))"
proof -
  have lunr: "distinct (map fst (bd_fields b))" using conf by (simp add: configured_def)
  obtain b1 where b1: "add_docs lunr_act ds b = ret b1"
    "numbers_differ A b1 \<longrightarrow> (\<exists>ix h1. build_index A b1 h = ret (ix, h1) \<and> indexes b ds ix h1)"
    using build_indexes [OF conf plain, of A h] by blast
  have "\<exists>ix h1 results h2. build_index A b1 h = ret (ix, h1)
      \<and> index_query A lunr_act ix t h1 = ret (results, h2)
      \<and> distinct (map lr_ref results) \<and> sorted_wrt (\<lambda>x y. lr_score y \<le> lr_score x) results
      \<and> lr_ref ` set results = doc_ref b ` {e \<in> fst ` set ds. doc_selected b t e}" if "numbers_differ A b1"
  proof -
    from b1(2) that obtain ix h1 where ix: "build_index A b1 h = ret (ix, h1)" "indexes b ds ix h1" by blast
    from indexes_answers [where A = A, OF ix(2) lunr refs t]
    obtain results h2 where res: "index_query A lunr_act ix t h1 = ret (results, h2)"
      "distinct (map lr_ref results)" "sorted_wrt (\<lambda>x y. lr_score y \<le> lr_score x) results"
      "lr_ref ` set results = doc_ref b ` {e \<in> fst ` set ds. doc_selected b t e}"
      by (elim exE conjE) (rule that)
    show ?thesis by (intro exI [of _ ix] exI [of _ h1] exI [of _ results] exI [of _ h2] conjI ix(1) res)
  qed
  then show ?thesis by (intro exI [of _ b1] conjI impI b1(1))
qed

text \<open>
  C10. Searching an index that a configured fresh builder made with any of lunr's functions in its
  pipeline, from documents with different references and without digits in their terms, with
  clauses of non-empty terms on known fields (\<open>answerable\<close>): adding the documents, building and
  querying all succeed, and the results are, each once and by descending score, exactly the
  documents the query selects. A document is hit by a clause if one of the clause's fields has a
  term (a word as the pipeline leaves it) that matches the stem of the clause's word; it is
  selected if it is hit by a clause that is not prohibited (or all clauses are prohibited), by
  all required ones and by no prohibited one. Scores may be computed in any arithmetic that tells
  the numbers of the terms apart.
\<close>

theorem built_index_answers:
  assumes "configured b" and "distinct (map (doc_ref b \<circ> fst) ds)" and "digit_free b (map fst ds)"
    and "list_all (answerable b) (q_clauses t)"
  shows "\<exists>b1. add_docs lunr_act ds b = ret b1 \<and> (numbers_differ A b1 \<longrightarrow>
    (\<exists>ix h1 results h2. build_index A b1 h = ret (ix, h1)
      \<and> index_query A lunr_act ix t h1 = ret (results, h2)
      \<and> distinct (map lr_ref results) \<and> sorted_wrt (\<lambda>x y. lr_score y \<le> lr_score x) results
      \<and> lr_ref ` set results = doc_ref b ` {e \<in> fst ` set ds. doc_selected b t e}))"
  by (rule built_index [OF assms])

definition int_numbers :: "int numbers" where
  "int_numbers = arith.extend int_arith
     \<lparr>a_num = id, a_sub = (-), a_abs = abs, a_log = id, a_round = id\<rparr>"

definition site_builder :: "(int, lunr_fn) lunr_builder" where
  "site_builder = (lunr_start int_numbers)\<lparr>bd_fields :=
     [(''title'', \<lparr>fa_boost = None, fa_extractor = None\<rparr>), (''body'', \<lparr>fa_boost = Some 3, fa_extractor = None\<rparr>)]\<rparr>"

definition site_docs :: "(document \<times> int option) list" where
  "site_docs =
     [([(''id'', In_value ''a''), (''title'', In_value ''Ports''), (''body'', In_value ''to open a port'')], None),
      ([(''id'', In_value ''b''), (''title'', In_value ''Update''), (''body'', In_value ''send the files'')], Some 2),
      ([(''id'', In_value ''c''), (''title'', In_value ''Port update''), (''body'', In_null)], None)]"

definition site_query :: lunr_query where
  "site_query = \<lparr>q_clauses =
     [empty_clause\<lparr>cl_fields := Some [''title'', ''body''], cl_usePipeline := Some True,
        cl_presence := Some REQUIRED, cl_term := ''porting''\<rparr>,
      empty_clause\<lparr>cl_fields := Some [''title''], cl_usePipeline := Some True,
        cl_presence := Some PROHIBITED, cl_term := ''updated''\<rparr>],
     q_allFields = [''title'', ''body'']\<rparr>"

theorem built_index_answers_witness:
  "\<exists>b1 ix h1 results h2. add_docs lunr_act site_docs site_builder = ret b1
    \<and> build_index int_numbers b1 empty_heap = ret (ix, h1)
    \<and> index_query int_numbers lunr_act ix site_query h1 = ret (results, h2)
    \<and> distinct (map lr_ref results) \<and> lr_ref ` set results = {''a''}"
proof -
  have conf: "configured site_builder"
    by (simp add: configured_def site_builder_def lunr_start_def new_lunr_builder_def fresh_def)
  have docs: "distinct (map (doc_ref site_builder \<circ> fst) site_docs)" by code_simp
  have plain: "digit_free site_builder (map fst site_docs)" by code_simp
  have clauses: "list_all (answerable site_builder) (q_clauses site_query)" by code_simp
  have differ: "numbers_differ int_numbers b1" for b1 :: "(int, lunr_fn) lunr_builder"
    by (simp add: numbers_differ_def int_numbers_def int_arith_def arith.extend_def inj_on_def)
  have "doc_ref site_builder ` {e \<in> fst ` set site_docs. doc_selected site_builder site_query e} = {''a''}"
    by code_simp
  with built_index_answers [OF conf docs plain clauses, of int_numbers empty_heap] differ
  show ?thesis by auto
qed

end
