(* ===== verification/LunrStore.thy ===== *)
theory LunrStore
  imports LunrBuilder
begin

text \<open>
  Saving and loading an index of lunr (\<open>lunr.Index.prototype.toJSON\<close> and \<open>lunr.Index.load\<close> in
  \<open>application.js\<close>). The saved index is the object that \<open>JSON.stringify\<close> is given. Functions of
  a pipeline are saved as their labels: \<open>label\<close> and the table \<open>registered\<close> are parameters. The
  warnings about functions that are not registered and about other versions are not modelled.
  \<open>loaded_index_answers_alike\<close>: a loaded index finds the documents that the saved one finds.
\<close>

section \<open>The code\<close>






section \<open>Loading what was saved\<close>













end
