(* ===== verification/Promises.thy ===== *)
theory Promises
  imports Prelude "HOL-Library.Multiset"
begin

text \<open>
  The promises of the second theme's bundle (\<open>application.js\<close>, the polyfill of \<open>Promise\<close>, and
  \<open>finally\<close>).

  \<^item> Promises are objects in a heap: \<open>store\<close> has the list of them, a promise being its index.
    The states are the numbers of the code: 0 pending, 1 fulfilled, 2 rejected, 3 adopted
    (resolved with another promise, which is its value). \<open>_deferreds\<close> is \<open>None\<close> when it is null.
  \<^item> The pair of functions an executor is given shares the variable \<open>n\<close> (called or not): a
    resolver, with the promise it is for. The empty executor of \<open>then\<close> makes none.
  \<^item> Code outside (executors, callbacks, methods \<open>then\<close> of other objects) is a \<open>prog\<close>: it returns or
    throws, or calls a resolver, makes a promise or calls \<open>then\<close> and goes on. It runs on a stack of
    frames, as a thenable runs its own code while it is being adopted. A frame says what its
    outcome is for. Whether an object has a method \<open>then\<close> is the parameter \<open>then_prop\<close>.
  \<^item> \<open>_immediateFn\<close> puts a job at the end of a queue, from which one job is taken when nothing runs.
    \<open>_unhandledRejectionFn\<close> writes to the log \<open>st_reported\<close>.
  \<^item> A step is \<open>None\<close> where the code would not return (following adopted promises in a circle) or
    would throw on null, and for programs that make up promises they were not given.
  \<^item> \<open>Promise.all\<close> keeps a counter in variables that its callbacks share and is not modelled.
\<close>

section \<open>Values, code, promises\<close>

datatype 'a pval = Undefined | TypeErrorV | Val 'a | Prom nat

datatype 'a prog =
    Return "'a pval"
  | Throw "'a pval"
  | Resolve nat "'a pval" "'a prog"
  | Reject nat "'a pval" "'a prog"
  | New "nat \<Rightarrow> 'a prog" "nat \<Rightarrow> 'a prog"
  | Then nat "('a pval \<Rightarrow> 'a prog) option" "('a pval \<Rightarrow> 'a prog) option" "nat \<Rightarrow> 'a prog"

datatype 'a then_member = No_then | Then_throws "'a pval" | Then_function "nat \<Rightarrow> 'a prog"

record 'a deferred =
  d_onFulfilled :: "('a pval \<Rightarrow> 'a prog) option"
  d_onRejected :: "('a pval \<Rightarrow> 'a prog) option"
  d_promise :: nat

record 'a promise_object =
  p_state :: nat
  p_handled :: bool
  p_value :: "'a pval"
  p_deferreds :: "'a deferred list option"

datatype 'a job = React nat "'a deferred" | CheckUnhandled nat

record 'a store =
  st_promises :: "'a promise_object list"
  st_resolvers :: "(nat \<times> bool) list"
  st_jobs :: "'a job list"
  st_reported :: "'a pval list"

definition new_promise :: "'a promise_object" where
  "new_promise = \<lparr>p_state = 0, p_handled = False, p_value = Undefined, p_deferreds = Some []\<rparr>"

definition upd_promise :: "nat \<Rightarrow> ('a promise_object \<Rightarrow> 'a promise_object) \<Rightarrow> 'a store \<Rightarrow> 'a store" where
  "upd_promise n f st = st\<lparr>st_promises := (st_promises st)[n := f (st_promises st ! n)]\<rparr>"

definition immediate :: "'a job \<Rightarrow> 'a store \<Rightarrow> 'a store" where
  "immediate j st = st\<lparr>st_jobs := st_jobs st @ [j]\<rparr>"

section \<open>Settling\<close>

text \<open>\<open>for (; 3 === n._state;) n = n._value\<close>.\<close>

partial_function (option) chase :: "'a promise_object list \<Rightarrow> nat \<Rightarrow> nat option" where
  "chase ps n =
     (if n < length ps then
        if p_state (ps ! n) = 3 then (case p_value (ps ! n) of Prom m \<Rightarrow> chase ps m | _ \<Rightarrow> None)
        else Some n
      else None)"

text \<open>The functions \<open>i\<close> (a reaction waits or is queued), \<open>c\<close>, \<open>s\<close> and \<open>a\<close>.\<close>

definition handle :: "nat \<Rightarrow> 'a deferred \<Rightarrow> 'a store \<Rightarrow> 'a store option" where
  "handle n r st =
     (case chase (st_promises st) n of
        None \<Rightarrow> None
      | Some n \<Rightarrow>
          if p_state (st_promises st ! n) \<noteq> 0 then
            Some (immediate (React n r) (upd_promise n (\<lambda>p. p\<lparr>p_handled := True\<rparr>) st))
          else
            (case p_deferreds (st_promises st ! n) of
               None \<Rightarrow> None
             | Some ds \<Rightarrow> Some (upd_promise n (\<lambda>p. p\<lparr>p_deferreds := Some (ds @ [r])\<rparr>) st)))"

fun handle_all :: "nat \<Rightarrow> 'a deferred list \<Rightarrow> 'a store \<Rightarrow> 'a store option" where
  "handle_all e [] st = Some st"
| "handle_all e (d # ds) st = (case handle e d st of None \<Rightarrow> None | Some st \<Rightarrow> handle_all e ds st)"

definition finale :: "nat \<Rightarrow> 'a store \<Rightarrow> 'a store option" where
  "finale e st =
     (case p_deferreds (st_promises st ! e) of
        None \<Rightarrow> None
      | Some ds \<Rightarrow>
          let st = (if p_state (st_promises st ! e) = 2 \<and> ds = [] then immediate (CheckUnhandled e) st else st)
          in map_option (upd_promise e (\<lambda>p. p\<lparr>p_deferreds := None\<rparr>)) (handle_all e ds st))"

definition settle_promise :: "nat \<Rightarrow> nat \<Rightarrow> 'a pval \<Rightarrow> 'a store \<Rightarrow> 'a store option" where
  "settle_promise k t v st = finale t (upd_promise t (\<lambda>p. p\<lparr>p_state := k, p_value := v\<rparr>) st)"

definition reject_promise :: "nat \<Rightarrow> 'a pval \<Rightarrow> 'a store \<Rightarrow> 'a store option" where
  "reject_promise t v st = settle_promise 2 t v st"

datatype for_what = For_executor nat | For_reaction nat | For_script

type_synonym 'a frames = "('a prog \<times> for_what) list"

definition resolve_promise ::
    "('a \<Rightarrow> 'a then_member) \<Rightarrow> nat \<Rightarrow> 'a pval \<Rightarrow> 'a store \<Rightarrow> ('a frames \<times> 'a store) option" where
  "resolve_promise then_prop t e st =
     (case e of
        Prom p \<Rightarrow>
          if p = t then map_option (Pair []) (reject_promise t TypeErrorV st)
          else if p < length (st_promises st) then map_option (Pair []) (settle_promise 3 t e st)
          else None
      | Val x \<Rightarrow>
          (case then_prop x of
             No_then \<Rightarrow> map_option (Pair []) (settle_promise 1 t e st)
           | Then_throws err \<Rightarrow> map_option (Pair []) (reject_promise t err st)
           | Then_function f \<Rightarrow>
               let r = length (st_resolvers st)
               in Some ([(f r, For_executor r)], st\<lparr>st_resolvers := st_resolvers st @ [(t, False)]\<rparr>))
      | _ \<Rightarrow> map_option (Pair []) (settle_promise 1 t e st))"

text \<open>The functions given to an executor: \<open>n || (n = !0, a(t, e))\<close> and \<open>n || (n = !0, s(t, e))\<close>.\<close>

definition use_resolver :: "nat \<Rightarrow> 'a store \<Rightarrow> 'a store" where
  "use_resolver r st = st\<lparr>st_resolvers := (st_resolvers st)[r := (fst (st_resolvers st ! r), True)]\<rparr>"

definition call_resolve ::
    "('a \<Rightarrow> 'a then_member) \<Rightarrow> nat \<Rightarrow> 'a pval \<Rightarrow> 'a store \<Rightarrow> ('a frames \<times> 'a store) option" where
  "call_resolve then_prop r v st =
     (if r < length (st_resolvers st) then
        if snd (st_resolvers st ! r) then Some ([], st)
        else resolve_promise then_prop (fst (st_resolvers st ! r)) v (use_resolver r st)
      else None)"

definition call_reject :: "nat \<Rightarrow> 'a pval \<Rightarrow> 'a store \<Rightarrow> 'a store option" where
  "call_reject r v st =
     (if r < length (st_resolvers st) then
        if snd (st_resolvers st ! r) then Some st
        else reject_promise (fst (st_resolvers st ! r)) v (use_resolver r st)
      else None)"

section \<open>Running code and jobs\<close>

definition call_new :: "'a store \<Rightarrow> nat \<times> nat \<times> 'a store" where
  "call_new st =
     (let p = length (st_promises st); r = length (st_resolvers st)
      in (p, r, st\<lparr>st_promises := st_promises st @ [new_promise], st_resolvers := st_resolvers st @ [(p, False)]\<rparr>))"

definition call_then ::
    "nat \<Rightarrow> ('a pval \<Rightarrow> 'a prog) option \<Rightarrow> ('a pval \<Rightarrow> 'a prog) option \<Rightarrow> 'a store \<Rightarrow> (nat \<times> 'a store) option" where
  "call_then p f g st =
     (if p < length (st_promises st) then
        let n = length (st_promises st)
        in map_option (Pair n)
             (handle p \<lparr>d_onFulfilled = f, d_onRejected = g, d_promise = n\<rparr>
                (st\<lparr>st_promises := st_promises st @ [new_promise]\<rparr>))
      else None)"

text \<open>What happens with the outcome of a frame.\<close>

definition returned :: "('a \<Rightarrow> 'a then_member) \<Rightarrow> for_what \<Rightarrow> 'a pval \<Rightarrow> 'a store \<Rightarrow> ('a frames \<times> 'a store) option" where
  "returned then_prop w v st =
     (case w of For_reaction t \<Rightarrow> resolve_promise then_prop t v st | _ \<Rightarrow> Some ([], st))"

definition thrown_out :: "for_what \<Rightarrow> 'a pval \<Rightarrow> 'a store \<Rightarrow> 'a store option" where
  "thrown_out w v st =
     (case w of
        For_reaction t \<Rightarrow> reject_promise t v st
      | For_executor r \<Rightarrow> call_reject r v st
      | For_script \<Rightarrow> Some st)"

definition run_job :: "('a \<Rightarrow> 'a then_member) \<Rightarrow> 'a job \<Rightarrow> 'a store \<Rightarrow> ('a frames \<times> 'a store) option" where
  "run_job then_prop j st =
     (case j of
        React n r \<Rightarrow>
          let p = st_promises st ! n; e = (if p_state p = 1 then d_onFulfilled r else d_onRejected r)
          in (case e of
                Some f \<Rightarrow> Some ([(f (p_value p), For_reaction (d_promise r))], st)
              | None \<Rightarrow>
                  if p_state p = 1 then resolve_promise then_prop (d_promise r) (p_value p) st
                  else map_option (Pair []) (reject_promise (d_promise r) (p_value p) st))
      | CheckUnhandled e \<Rightarrow>
          Some ([], if p_handled (st_promises st ! e) then st
                    else st\<lparr>st_reported := st_reported st @ [p_value (st_promises st ! e)]\<rparr>))"

type_synonym 'a machine = "'a frames \<times> 'a store"

definition push_frames :: "'a frames \<Rightarrow> ('a frames \<times> 'a store) option \<Rightarrow> 'a machine option" where
  "push_frames fs r = map_option (\<lambda>(new, st). (new @ fs, st)) r"

fun step :: "('a \<Rightarrow> 'a then_member) \<Rightarrow> 'a machine \<Rightarrow> 'a machine option" where
  "step then_prop ([], st) =
     (case st_jobs st of
        [] \<Rightarrow> None
      | j # js \<Rightarrow> push_frames [] (run_job then_prop j (st\<lparr>st_jobs := js\<rparr>)))"
| "step then_prop ((Return v, w) # fs, st) = push_frames fs (returned then_prop w v st)"
| "step then_prop ((Throw v, w) # fs, st) = map_option (Pair fs) (thrown_out w v st)"
| "step then_prop ((Resolve r v k, w) # fs, st) = push_frames ((k, w) # fs) (call_resolve then_prop r v st)"
| "step then_prop ((Reject r v k, w) # fs, st) = map_option (Pair ((k, w) # fs)) (call_reject r v st)"
| "step then_prop ((New e k, w) # fs, st) =
     (let (p, r, st) = call_new st in Some ((e r, For_executor r) # (k p, w) # fs, st))"
| "step then_prop ((Then p f g k, w) # fs, st) =
     map_option (\<lambda>(n, st). ((k n, w) # fs, st)) (call_then p f g st)"

text \<open>A script runs, later another one: the machine starts with an empty store.\<close>

definition empty_store :: "'a store" where
  "empty_store = \<lparr>st_promises = [], st_resolvers = [], st_jobs = [], st_reported = []\<rparr>"

inductive reachable :: "('a \<Rightarrow> 'a then_member) \<Rightarrow> 'a machine \<Rightarrow> bool" for then_prop where
  start: "reachable then_prop ([], empty_store)"
| script: "reachable then_prop ([], st) \<Longrightarrow> reachable then_prop ([(c, For_script)], st)"
| step: "reachable then_prop m \<Longrightarrow> step then_prop m = Some m' \<Longrightarrow> reachable then_prop m'"

section \<open>The functions on promises\<close>

definition catch_p :: "nat \<Rightarrow> ('a pval \<Rightarrow> 'a prog) option \<Rightarrow> (nat \<Rightarrow> 'a prog) \<Rightarrow> 'a prog" where
  "catch_p p g k = Then p None g k"

definition resolve_p :: "'a pval \<Rightarrow> (nat \<Rightarrow> 'a prog) \<Rightarrow> 'a prog" where
  "resolve_p v k =
     (case v of Prom p \<Rightarrow> k p | _ \<Rightarrow> New (\<lambda>r. Resolve r v (Return Undefined)) k)"

definition reject_p :: "'a pval \<Rightarrow> (nat \<Rightarrow> 'a prog) \<Rightarrow> 'a prog" where
  "reject_p v k = New (\<lambda>r. Reject r v (Return Undefined)) k"

fun race_all :: "nat \<Rightarrow> nat list \<Rightarrow> 'a prog" where
  "race_all r [] = Return Undefined"
| "race_all r (p # ps) =
     Then p (Some (\<lambda>v. Resolve r v (Return Undefined))) (Some (\<lambda>v. Reject r v (Return Undefined)))
       (\<lambda>_. race_all r ps)"

definition race_p :: "nat list \<Rightarrow> (nat \<Rightarrow> 'a prog) \<Rightarrow> 'a prog" where
  "race_p ps k = New (\<lambda>r. race_all r ps) k"

text \<open>\<open>finally(t)\<close> for a function \<open>t\<close>, whose result is passed to what follows it.\<close>

definition finally_p :: "nat \<Rightarrow> (('a pval \<Rightarrow> 'a prog) \<Rightarrow> 'a prog) \<Rightarrow> (nat \<Rightarrow> 'a prog) \<Rightarrow> 'a prog" where
  "finally_p p t k =
     Then p
       (Some (\<lambda>e. t (\<lambda>x. resolve_p x (\<lambda>q. Then q (Some (\<lambda>_. Return e)) None (\<lambda>n. Return (Prom n))))))
       (Some (\<lambda>e. t (\<lambda>x. resolve_p x (\<lambda>q.
          Then q (Some (\<lambda>_. reject_p e (\<lambda>m. Return (Prom m)))) None (\<lambda>n. Return (Prom n))))))
       k"

section \<open>Who may settle a promise\<close>

text \<open>
  The owners of a promise: a resolver that has not been called, a deferred that waits or is
  queued, or a callback that runs. \<open>owners\<close> and \<open>frame_owners\<close> count, per promise, who may still
  settle it, \<open>pending\<close> the promises to be settled.
\<close>

definition waiting_on :: "'a promise_object \<Rightarrow> nat list" where
  "waiting_on p = (case p_deferreds p of None \<Rightarrow> [] | Some ds \<Rightarrow> map d_promise ds)"

definition waiting :: "'a promise_object list \<Rightarrow> nat multiset" where
  "waiting ps = mset (concat (map waiting_on ps))"

definition pending :: "'a promise_object list \<Rightarrow> nat multiset" where
  "pending ps = mset (filter (\<lambda>i. p_state (ps ! i) = 0) [0..<length ps])"

fun job_owner :: "'a job \<Rightarrow> nat list" where
  "job_owner (React n r) = [d_promise r]"
| "job_owner (CheckUnhandled n) = []"

definition unused :: "(nat \<times> bool) list \<Rightarrow> nat multiset" where
  "unused rs = mset (map fst (filter (\<lambda>r. \<not> snd r) rs))"

definition owners :: "'a store \<Rightarrow> nat multiset" where
  "owners st = unused (st_resolvers st) + waiting (st_promises st) + mset (concat (map job_owner (st_jobs st)))"

fun frame_owner :: "'a prog \<times> for_what \<Rightarrow> nat list" where
  "frame_owner (c, For_reaction t) = [t]"
| "frame_owner (c, For_executor r) = []"
| "frame_owner (c, For_script) = []"

definition frame_owners :: "'a frames \<Rightarrow> nat multiset" where
  "frame_owners fs = mset (concat (map frame_owner fs))"

lemma frame_owners_simps [simp]:
  "frame_owners [] = {#}"
  "frame_owners (f # fs) = mset (frame_owner f) + frame_owners fs"
  "frame_owners (fs @ gs) = frame_owners fs + frame_owners gs"
  by (simp_all add: frame_owners_def)

lemma waiting_update:
  "n < length ps \<Longrightarrow> waiting (ps[n := p]) + mset (waiting_on (ps ! n)) = waiting ps + mset (waiting_on p)"
proof (induction ps arbitrary: n)
  case (Cons q ps)
  then show ?case by (cases n) (simp_all add: waiting_def ac_simps)
qed simp

lemma waiting_update_same:
  "n < length ps \<Longrightarrow> waiting_on p = waiting_on (ps ! n) \<Longrightarrow> waiting (ps[n := p]) = waiting ps"
  using waiting_update [of n ps p] by simp

lemma count_pending: "count (pending ps) i = (if i < length ps \<and> p_state (ps ! i) = 0 then 1 else 0)"
  by (simp add: pending_def distinct_count_atmost_1 flip: distinct_count_atmost_1)

lemma pending_same:
  "length ps' = length ps \<Longrightarrow> (\<And>i. i < length ps \<Longrightarrow> p_state (ps' ! i) = 0 \<longleftrightarrow> p_state (ps ! i) = 0) \<Longrightarrow>
    pending ps' = pending ps"
  by (rule multiset_eqI) (auto simp: count_pending)

lemma pending_settled:
  assumes "t < length ps" "p_state (ps ! t) = 0" "p_state p \<noteq> 0"
  shows "pending ps = add_mset t (pending (ps[t := p]))"
  by (rule multiset_eqI) (use assms in \<open>auto simp: count_pending nth_list_update\<close>)

lemma pending_snoc: "pending (ps @ [p]) = pending ps + (if p_state p = 0 then {#length ps#} else {#})"
  by (rule multiset_eqI) (auto simp: count_pending nth_append less_Suc_eq)

lemma unused_use:
  assumes "r < length rs" "\<not> snd (rs ! r)"
  shows "unused rs = add_mset (fst (rs ! r)) (unused (rs[r := (fst (rs ! r), True)]))"
  using assms
proof (induction rs arbitrary: r)
  case (Cons q rs)
  then show ?case by (cases r) (auto simp: unused_def)
qed simp

section \<open>What settling keeps\<close>

definition job_ok :: "'a promise_object list \<Rightarrow> 'a job \<Rightarrow> bool" where
  "job_ok ps j = (case j of
     React n r \<Rightarrow> n < length ps \<and> p_state (ps ! n) \<in> {1, 2}
   | CheckUnhandled n \<Rightarrow> n < length ps \<and> p_state (ps ! n) = 2)"

definition states_ok :: "'a store \<Rightarrow> bool" where
  "states_ok st \<longleftrightarrow>
     (\<forall>p \<in> set (st_promises st). p_state p \<le> 3
        \<and> (p_state p = 0 \<longrightarrow> p_deferreds p \<noteq> None)
        \<and> (p_state p = 3 \<longrightarrow> (\<exists>m < length (st_promises st). p_value p = Prom m)))
     \<and> list_all (job_ok (st_promises st)) (st_jobs st)"

definition store_ok :: "'a store \<Rightarrow> bool" where
  "store_ok st \<longleftrightarrow> states_ok st \<and> (\<forall>p \<in> set (st_promises st). p_state p \<noteq> 0 \<longrightarrow> p_deferreds p = None)"

text \<open>\<open>calm\<close>: no promise has been settled.\<close>

definition calm :: "'a store \<Rightarrow> 'a store \<Rightarrow> bool" where
  "calm st st' \<longleftrightarrow> length (st_promises st') = length (st_promises st)
     \<and> (\<forall>i < length (st_promises st).
          p_state (st_promises st' ! i) = p_state (st_promises st ! i)
          \<and> p_value (st_promises st' ! i) = p_value (st_promises st ! i)
          \<and> (p_state (st_promises st ! i) \<noteq> 0 \<longrightarrow>
               p_deferreds (st_promises st' ! i) = p_deferreds (st_promises st ! i)))
     \<and> st_resolvers st' = st_resolvers st \<and> st_reported st' = st_reported st"

lemma calm_refl [simp]: "calm st st"
  by (simp add: calm_def)

lemma calm_trans: "calm st st1 \<Longrightarrow> calm st1 st2 \<Longrightarrow> calm st st2"
  by (simp add: calm_def)

lemma calm_pending: "calm st st' \<Longrightarrow> pending (st_promises st') = pending (st_promises st)"
  by (rule pending_same) (simp_all add: calm_def)

lemma chase_end: "chase ps n = Some m \<Longrightarrow> m < length ps \<and> p_state (ps ! m) \<noteq> 3"
proof -
  assume "chase ps n = Some m"
  then show ?thesis
    by (rule chase.raw_induct [where P = "\<lambda>ps n m. m < length ps \<and> p_state (ps ! m) \<noteq> 3", rotated])
       (auto split: if_splits pval.splits)
qed

lemma job_ok_calm:
  "calm st st' \<Longrightarrow> job_ok (st_promises st) j \<Longrightarrow> job_ok (st_promises st') j"
  by (auto simp: job_ok_def calm_def split: job.splits)

lemma promises_immediate [simp]: "st_promises (immediate j st) = st_promises st"
  "st_resolvers (immediate j st) = st_resolvers st" "st_reported (immediate j st) = st_reported st"
  "st_jobs (immediate j st) = st_jobs st @ [j]"
  by (simp_all add: immediate_def)

lemma promises_upd [simp]: "st_promises (upd_promise n f st) = (st_promises st)[n := f (st_promises st ! n)]"
  "st_resolvers (upd_promise n f st) = st_resolvers st" "st_reported (upd_promise n f st) = st_reported st"
  "st_jobs (upd_promise n f st) = st_jobs st"
  by (simp_all add: upd_promise_def)

lemma states_okI:
  assumes "\<And>i. i < length (st_promises st) \<Longrightarrow> p_state (st_promises st ! i) \<le> 3
        \<and> (p_state (st_promises st ! i) = 0 \<longrightarrow> p_deferreds (st_promises st ! i) \<noteq> None)
        \<and> (p_state (st_promises st ! i) = 3 \<longrightarrow>
             (\<exists>m < length (st_promises st). p_value (st_promises st ! i) = Prom m))"
    and "list_all (job_ok (st_promises st)) (st_jobs st)"
  shows "states_ok st"
  unfolding states_ok_def using assms by (auto simp: in_set_conv_nth)

lemma states_okD:
  assumes "states_ok st" "i < length (st_promises st)"
  shows "p_state (st_promises st ! i) \<le> 3"
    "p_state (st_promises st ! i) = 0 \<Longrightarrow> p_deferreds (st_promises st ! i) \<noteq> None"
    "p_state (st_promises st ! i) = 3 \<Longrightarrow> \<exists>m < length (st_promises st). p_value (st_promises st ! i) = Prom m"
  using assms nth_mem [OF assms(2)] unfolding states_ok_def by blast+

lemma handle_calm:
  assumes ok: "states_ok st" and run: "handle n d st = Some st'"
  shows "calm st st' \<and> states_ok st' \<and> owners st' = add_mset (d_promise d) (owners st)"
proof -
  let ?ps = "st_promises st"
  obtain m where m: "chase ?ps n = Some m" using run by (auto simp: handle_def split: option.splits)
  then have m_len: "m < length ?ps" "p_state (?ps ! m) \<noteq> 3" using chase_end by blast+
  note here = states_okD [OF ok m_len(1)]
  show ?thesis
  proof (cases "p_state (?ps ! m) = 0")
    case False
    let ?p = "(?ps ! m)\<lparr>p_handled := True\<rparr>"
    have st': "st' = immediate (React m d) (upd_promise m (\<lambda>p. p\<lparr>p_handled := True\<rparr>) st)"
      using run m False by (simp add: handle_def)
    have calm: "calm st st'" using m_len by (auto simp: st' calm_def nth_list_update)
    have "waiting (?ps[m := ?p]) = waiting ?ps"
      by (rule waiting_update_same) (use m_len in \<open>simp_all add: waiting_on_def\<close>)
    then have own: "owners st' = add_mset (d_promise d) (owners st)" by (simp add: st' owners_def)
    have "p_state (?ps ! m) \<in> {1, 2}" using here(1) False m_len(2) by auto
    then have "job_ok (st_promises st') (React m d)" using m_len by (simp add: job_ok_def st')
    moreover have "list_all (job_ok (st_promises st')) (st_jobs st)"
      using ok job_ok_calm [OF calm] by (auto simp: states_ok_def list_all_iff)
    ultimately have jobs: "list_all (job_ok (st_promises st')) (st_jobs st')" by (simp add: st')
    have "states_ok st'"
    proof (rule states_okI [OF _ jobs])
      fix i assume "i < length (st_promises st')"
      then have i: "i < length ?ps" by (simp add: st')
      from states_okD [OF ok i] m_len i show "p_state (st_promises st' ! i) \<le> 3
        \<and> (p_state (st_promises st' ! i) = 0 \<longrightarrow> p_deferreds (st_promises st' ! i) \<noteq> None)
        \<and> (p_state (st_promises st' ! i) = 3 \<longrightarrow> (\<exists>m < length (st_promises st'). p_value (st_promises st' ! i) = Prom m))"
        by (auto simp: st' nth_list_update)
    qed
    with calm own show ?thesis by blast
  next
    case True
    then obtain ds where ds: "p_deferreds (?ps ! m) = Some ds" using here(2) by blast
    let ?p = "(?ps ! m)\<lparr>p_deferreds := Some (ds @ [d])\<rparr>"
    have st': "st' = upd_promise m (\<lambda>p. p\<lparr>p_deferreds := Some (ds @ [d])\<rparr>) st"
      using run m True ds by (simp add: handle_def)
    have calm: "calm st st'" using m_len True by (auto simp: st' calm_def nth_list_update)
    have "waiting (?ps[m := ?p]) = add_mset (d_promise d) (waiting ?ps)"
      using waiting_update [OF m_len(1), of ?p] ds by (simp add: waiting_on_def)
    then have own: "owners st' = add_mset (d_promise d) (owners st)" by (simp add: st' owners_def)
    have jobs: "list_all (job_ok (st_promises st')) (st_jobs st')"
      using ok job_ok_calm [OF calm] by (auto simp: states_ok_def list_all_iff st')
    have "states_ok st'"
    proof (rule states_okI [OF _ jobs])
      fix i assume "i < length (st_promises st')"
      then have i: "i < length ?ps" by (simp add: st')
      from states_okD [OF ok i] m_len i show "p_state (st_promises st' ! i) \<le> 3
        \<and> (p_state (st_promises st' ! i) = 0 \<longrightarrow> p_deferreds (st_promises st' ! i) \<noteq> None)
        \<and> (p_state (st_promises st' ! i) = 3 \<longrightarrow> (\<exists>m < length (st_promises st'). p_value (st_promises st' ! i) = Prom m))"
        by (auto simp: st' nth_list_update)
    qed
    with calm own show ?thesis by blast
  qed
qed

lemma handle_all_calm:
  "states_ok st \<Longrightarrow> handle_all n ds st = Some st' \<Longrightarrow>
    calm st st' \<and> states_ok st' \<and> owners st' = owners st + mset (map d_promise ds)"
proof (induction ds arbitrary: st)
  case (Cons d ds)
  then obtain st1 where 1: "handle n d st = Some st1" "handle_all n ds st1 = Some st'"
    by (auto split: option.splits)
  from handle_calm [OF Cons.prems(1) 1(1)] Cons.IH [OF _ 1(2)] show ?case
    by (auto intro: calm_trans)
qed simp

text \<open>\<open>kept\<close>: a settled promise stays as it is.\<close>

definition kept :: "'a store \<Rightarrow> 'a store \<Rightarrow> bool" where
  "kept st st' \<longleftrightarrow> length (st_promises st) \<le> length (st_promises st')
     \<and> (\<forall>i < length (st_promises st). p_state (st_promises st ! i) \<noteq> 0 \<longrightarrow>
          p_state (st_promises st' ! i) = p_state (st_promises st ! i)
          \<and> p_value (st_promises st' ! i) = p_value (st_promises st ! i))"

lemma kept_refl [simp]: "kept st st"
  by (simp add: kept_def)

lemma kept_trans: "kept st st1 \<Longrightarrow> kept st1 st2 \<Longrightarrow> kept st st2"
  by (auto simp: kept_def)

lemma calm_kept: "calm st st' \<Longrightarrow> kept st st'"
  by (simp add: calm_def kept_def)

lemma store_ok_states: "store_ok st \<Longrightarrow> states_ok st"
  by (simp add: store_ok_def)

lemma finale_settles:
  assumes ok: "states_ok st" and e: "e < length (st_promises st)" "p_state (st_promises st ! e) \<noteq> 0"
    and others: "\<And>i. i < length (st_promises st) \<Longrightarrow> i \<noteq> e \<Longrightarrow> p_state (st_promises st ! i) \<noteq> 0 \<Longrightarrow>
        p_deferreds (st_promises st ! i) = None"
    and run: "finale e st = Some st'"
  shows "store_ok st' \<and> owners st' = owners st \<and> kept st st'
    \<and> pending (st_promises st') = pending (st_promises st)
    \<and> length (st_promises st') = length (st_promises st) \<and> st_resolvers st' = st_resolvers st"
proof -
  let ?ps = "st_promises st"
  obtain ds where ds: "p_deferreds (?ps ! e) = Some ds" using run by (auto simp: finale_def split: option.splits)
  let ?st = "if p_state (?ps ! e) = 2 \<and> ds = [] then immediate (CheckUnhandled e) st else st"
  obtain st1 where st1: "handle_all e ds ?st = Some st1" "st' = upd_promise e (\<lambda>p. p\<lparr>p_deferreds := None\<rparr>) st1"
    using run ds by (auto simp: finale_def Let_def)
  have ok1: "states_ok ?st" using ok e(1) by (auto simp: states_ok_def job_ok_def)
  have own1: "owners ?st = owners st" by (simp add: owners_def)
  have c1: "calm st ?st" by (simp add: calm_def)
  from handle_all_calm [OF ok1 st1(1)]
  have calm: "calm st st1" and ok2: "states_ok st1" and own: "owners st1 = owners st + mset (map d_promise ds)"
    using c1 own1 by (auto intro: calm_trans)
  have len: "length (st_promises st1) = length ?ps" using calm by (simp add: calm_def)
  have same: "p_state (st_promises st1 ! i) = p_state (?ps ! i)" "p_value (st_promises st1 ! i) = p_value (?ps ! i)"
    "p_state (?ps ! i) \<noteq> 0 \<Longrightarrow> p_deferreds (st_promises st1 ! i) = p_deferreds (?ps ! i)"
    if "i < length ?ps" for i using calm that by (simp_all add: calm_def)
  let ?p = "(st_promises st1 ! e)\<lparr>p_deferreds := None\<rparr>"
  have at: "st_promises st' ! i = (if i = e then ?p else st_promises st1 ! i)" if "i < length ?ps" for i
    using that by (simp add: st1(2) len)
  have states: "p_state (st_promises st' ! i) = p_state (?ps ! i)" "p_value (st_promises st' ! i) = p_value (?ps ! i)"
    if "i < length ?ps" for i using same(1,2) [OF that] at [OF that] by auto
  have len': "length (st_promises st') = length ?ps" by (simp add: st1(2) len)
  have jobs: "list_all (job_ok (st_promises st')) (st_jobs st')"
    using ok2 states same by (auto simp: states_ok_def list_all_iff job_ok_def st1(2) len nth_list_update split: job.splits)
  have sok: "states_ok st'"
  proof (rule states_okI [OF _ jobs])
    fix i assume "i < length (st_promises st')"
    then have i: "i < length ?ps" by (simp add: len')
    have "i < length (st_promises st1)" using i len by simp
    from states_okD [OF ok2 this] at [OF i] same(1) [OF e(1)] e(2) same(1) [OF i] same(1) [OF e(1)]
    show "p_state (st_promises st' ! i) \<le> 3
        \<and> (p_state (st_promises st' ! i) = 0 \<longrightarrow> p_deferreds (st_promises st' ! i) \<noteq> None)
        \<and> (p_state (st_promises st' ! i) = 3 \<longrightarrow> (\<exists>m < length (st_promises st'). p_value (st_promises st' ! i) = Prom m))"
      by (cases "i = e") (auto simp: len len')
  qed
  have "p_deferreds (st_promises st' ! i) = None" if "i < length ?ps" "p_state (st_promises st' ! i) \<noteq> 0" for i
    using at [OF that(1)] states(1) [OF that(1)] that(2) same(3) [OF that(1)] others [OF that(1)] by auto
  then have store: "store_ok st'"
    using sok len' by (auto simp: store_ok_def in_set_conv_nth)
  have "waiting (st_promises st') + mset (waiting_on (st_promises st1 ! e)) = waiting (st_promises st1) + mset (waiting_on ?p)"
    using waiting_update [of e "st_promises st1" ?p] e(1) len by (simp add: st1(2))
  moreover have "waiting_on (st_promises st1 ! e) = map d_promise ds" "waiting_on ?p = []"
    using same(3) [OF e] ds by (simp_all add: waiting_on_def)
  ultimately have w: "waiting (st_promises st') + mset (map d_promise ds) = waiting (st_promises st1)" by simp
  have "owners st' + mset (map d_promise ds) = owners st1"
    using w by (simp add: owners_def st1(2) ac_simps)
  then have "owners st' = owners st" using own by simp
  moreover have "kept st st'" using states len' by (simp add: kept_def)
  moreover have "pending (st_promises st') = pending ?ps" by (rule pending_same) (simp_all add: len' states)
  ultimately show ?thesis using store len' calm by (simp add: calm_def st1(2))
qed

text \<open>
  \<open>takes t st st'\<close>: the one who settles \<open>t\<close> has done so; nothing else was settled and all
  others are owned as before.
\<close>

definition takes :: "nat \<Rightarrow> 'a store \<Rightarrow> 'a store \<Rightarrow> bool" where
  "takes t st st' \<longleftrightarrow> store_ok st' \<and> kept st st' \<and> owners st' = owners st
     \<and> pending (st_promises st) = add_mset t (pending (st_promises st'))
     \<and> length (st_promises st') = length (st_promises st) \<and> st_resolvers st' = st_resolvers st"

lemma settle_takes:
  assumes ok: "store_ok st" and t: "t < length (st_promises st)" "p_state (st_promises st ! t) = 0"
    and k: "k = 1 \<or> k = 2 \<or> k = 3 \<and> (\<exists>m < length (st_promises st). v = Prom m)"
    and run: "settle_promise k t v st = Some st'"
  shows "takes t st st'"
proof -
  let ?ps = "st_promises st" and ?p = "(st_promises st ! t)\<lparr>p_state := k, p_value := v\<rparr>"
  let ?st = "upd_promise t (\<lambda>p. p\<lparr>p_state := k, p_value := v\<rparr>) st"
  have at: "st_promises ?st ! i = (if i = t then ?p else ?ps ! i)" if "i < length ?ps" for i
    using that by simp
  have k0: "k \<noteq> 0" "k \<le> 3" using k by auto
  have len: "length (st_promises ?st) = length ?ps" by simp
  have jobs: "list_all (job_ok (st_promises ?st)) (st_jobs ?st)"
    using ok t by (auto simp: store_ok_def states_ok_def list_all_iff job_ok_def nth_list_update split: job.splits)
  have sok: "states_ok ?st"
  proof (rule states_okI [OF _ jobs])
    fix i assume "i < length (st_promises ?st)"
    then have i: "i < length ?ps" by simp
    from states_okD [OF store_ok_states [OF ok] i] at [OF i] k k0
    show "p_state (st_promises ?st ! i) \<le> 3
        \<and> (p_state (st_promises ?st ! i) = 0 \<longrightarrow> p_deferreds (st_promises ?st ! i) \<noteq> None)
        \<and> (p_state (st_promises ?st ! i) = 3 \<longrightarrow> (\<exists>m < length (st_promises ?st). p_value (st_promises ?st ! i) = Prom m))"
      unfolding len by (cases "i = t") (auto simp del: promises_upd)
  qed
  have e: "t < length (st_promises ?st)" "p_state (st_promises ?st ! t) \<noteq> 0" using t k0 by simp_all
  have others: "p_deferreds (st_promises ?st ! i) = None"
    if "i < length (st_promises ?st)" "i \<noteq> t" "p_state (st_promises ?st ! i) \<noteq> 0" for i
    using ok that unfolding store_ok_def by auto
  have "finale t ?st = Some st'" using run by (simp add: settle_promise_def)
  from finale_settles [OF sok e others this]
  have fin: "store_ok st'" "owners st' = owners ?st" "kept ?st st'"
    "pending (st_promises st') = pending (st_promises ?st)"
    "length (st_promises st') = length ?ps" "st_resolvers st' = st_resolvers st" by auto
  have "waiting (st_promises ?st) = waiting ?ps"
    using waiting_update_same [OF t(1), of ?p] by (simp add: waiting_on_def)
  then have "owners ?st = owners st" by (simp add: owners_def)
  moreover have "kept st ?st" using t by (auto simp: kept_def nth_list_update)
  then have "kept st st'" using fin(3) by (rule kept_trans)
  moreover have "pending ?ps = add_mset t (pending (st_promises ?st))"
    using pending_settled [OF t, of ?p] k0 by simp
  ultimately show ?thesis using fin by (simp add: takes_def)
qed

section \<open>One owner each\<close>

text \<open>\<open>owned X st\<close>: those in the store and \<open>X\<close> are the owners, one for each pending promise.\<close>

definition owned :: "nat multiset \<Rightarrow> 'a store \<Rightarrow> bool" where
  "owned X st \<longleftrightarrow> store_ok st \<and> owners st + X = pending (st_promises st)"

definition reactions_free :: "'a frames \<Rightarrow> bool" where
  "reactions_free new \<longleftrightarrow> frame_owners new = {#}"

lemma reactions_free_executor [simp]: "reactions_free []" "reactions_free [(c, For_executor r)]"
  by (simp_all add: reactions_free_def)

lemma owned_pending:
  assumes "owned (add_mset t X) st"
  shows "t < length (st_promises st)" "p_state (st_promises st ! t) = 0" "store_ok st"
proof -
  have "pending (st_promises st) = add_mset t (owners st + X)" using assms by (simp add: owned_def)
  then have "0 < count (pending (st_promises st)) t" by simp
  then show "t < length (st_promises st)" "p_state (st_promises st ! t) = 0"
    by (simp_all add: count_pending split: if_splits)
  show "store_ok st" using assms by (simp add: owned_def)
qed

lemma settle_owned:
  assumes own: "owned (add_mset t X) st" and run: "settle_promise k t v st = Some st'"
    and k: "k = 1 \<or> k = 2 \<or> k = 3 \<and> (\<exists>m < length (st_promises st). v = Prom m)"
  shows "owned X st' \<and> kept st st'"
  using settle_takes [OF owned_pending(3,1,2) [OF own] k run] own
  by (simp add: takes_def owned_def)

lemma reject_owned:
  "owned (add_mset t X) st \<Longrightarrow> reject_promise t v st = Some st' \<Longrightarrow> owned X st' \<and> kept st st'"
  unfolding reject_promise_def by (rule settle_owned) auto

lemma store_ok_resolvers [simp]: "store_ok (st_resolvers_update f st) = store_ok st"
  by (simp add: store_ok_def states_ok_def)

lemma kept_resolvers [simp]: "kept (st_resolvers_update f st) st' = kept st st'"
  "kept st (st_resolvers_update f st') = kept st st'"
  by (simp_all add: kept_def)

lemma resolve_owned:
  assumes own: "owned (add_mset t X) st" and run: "resolve_promise tp t v st = Some (new, st')"
  shows "reactions_free new \<and> owned X st' \<and> kept st st'"
proof -
  have call: "reactions_free new \<and> owned X st' \<and> kept st st'"
    if "new = [(f (length (st_resolvers st)), For_executor (length (st_resolvers st)))]"
      "st' = st\<lparr>st_resolvers := st_resolvers st @ [(t, False)]\<rparr>" for f
    using own that by (simp add: owned_def owners_def unused_def ac_simps)
  show ?thesis
  proof (cases v)
    case (Prom p)
    then show ?thesis using run reject_owned [OF own] settle_owned [OF own, of 3 "Prom p" st']
      by (auto simp: resolve_promise_def split: if_splits)
  next
    case (Val x)
    then show ?thesis
      using run reject_owned [OF own] settle_owned [OF own, of 1 "Val x" st'] call
      by (auto simp: resolve_promise_def Let_def split: then_member.splits)
  qed (use run settle_owned [OF own, of 1 v st'] in \<open>auto simp: resolve_promise_def\<close>)
qed

lemma use_resolver_owned:
  assumes own: "owned X st" and r: "r < length (st_resolvers st)" "\<not> snd (st_resolvers st ! r)"
  shows "owned (add_mset (fst (st_resolvers st ! r)) X) (use_resolver r st)"
  using own unused_use [OF r] by (simp add: owned_def owners_def use_resolver_def ac_simps)

lemma kept_use_resolver [simp]: "kept (use_resolver r st) st' = kept st st'"
  by (simp add: use_resolver_def)

lemma call_resolve_owned:
  assumes own: "owned X st" and run: "call_resolve tp r v st = Some (new, st')"
  shows "reactions_free new \<and> owned X st' \<and> kept st st'"
proof (cases "snd (st_resolvers st ! r)")
  case True
  then show ?thesis using own run by (auto simp: call_resolve_def split: if_splits)
next
  case False
  then have r: "r < length (st_resolvers st)"
    and go: "resolve_promise tp (fst (st_resolvers st ! r)) v (use_resolver r st) = Some (new, st')"
    using run by (auto simp: call_resolve_def split: if_splits)
  from resolve_owned [OF use_resolver_owned [OF own r False] go] show ?thesis by simp
qed

lemma call_reject_owned:
  assumes own: "owned X st" and run: "call_reject r v st = Some st'"
  shows "owned X st' \<and> kept st st'"
proof (cases "snd (st_resolvers st ! r)")
  case True
  then show ?thesis using own run by (auto simp: call_reject_def split: if_splits)
next
  case False
  then have r: "r < length (st_resolvers st)"
    and go: "reject_promise (fst (st_resolvers st ! r)) v (use_resolver r st) = Some st'"
    using run by (auto simp: call_reject_def split: if_splits)
  from reject_owned [OF use_resolver_owned [OF own r False] go] show ?thesis by simp
qed

lemma waiting_snoc: "waiting (ps @ [new_promise]) = waiting ps"
  by (simp add: waiting_def waiting_on_def new_promise_def)

lemma job_ok_snoc: "job_ok ps j \<Longrightarrow> job_ok (ps @ [p]) j"
  by (auto simp: job_ok_def nth_append split: job.splits)

lemma states_ok_new:
  assumes "states_ok st"
  shows "states_ok (st\<lparr>st_promises := st_promises st @ [new_promise]\<rparr>)"
  using assms unfolding states_ok_def
  by (auto simp: list_all_iff new_promise_def less_Suc_eq intro: job_ok_snoc)

lemma store_ok_new:
  "store_ok st \<Longrightarrow> store_ok (st\<lparr>st_promises := st_promises st @ [new_promise]\<rparr>)"
  using states_ok_new [of st] by (auto simp: store_ok_def new_promise_def)

lemma kept_new: "kept st (st\<lparr>st_promises := st_promises st @ [new_promise]\<rparr>)"
  by (simp add: kept_def nth_append)

lemma pending_new: "pending (ps @ [new_promise]) = add_mset (length ps) (pending ps)"
  by (simp add: pending_snoc new_promise_def)

lemma call_new_owned:
  assumes own: "owned X st" and run: "call_new st = (p, r, st')"
  shows "owned X st' \<and> kept st st'"
proof -
  let ?st = "st\<lparr>st_promises := st_promises st @ [new_promise]\<rparr>"
  have st': "st' = ?st\<lparr>st_resolvers := st_resolvers st @ [(length (st_promises st), False)]\<rparr>"
    using run by (auto simp: call_new_def Let_def)
  have "store_ok ?st" using own by (simp add: owned_def store_ok_new)
  then have "store_ok st'" unfolding st' by simp
  moreover have "owners st' + X = pending (st_promises st')"
    using own by (simp add: st' owned_def owners_def unused_def waiting_snoc pending_new)
  moreover have "kept st st'" unfolding st' using kept_new [of st] by simp
  ultimately show ?thesis by (simp add: owned_def)
qed

lemma calm_store_ok:
  assumes "calm st st'" "states_ok st'" "store_ok st"
  shows "store_ok st'"
  using assms nth_mem [of _ "st_promises st"] by (auto simp: store_ok_def calm_def in_set_conv_nth [where xs = "st_promises st'"])

lemma call_then_owned:
  assumes own: "owned X st" and run: "call_then p f g st = Some (n, st')"
  shows "owned X st' \<and> kept st st'"
proof -
  let ?st = "st\<lparr>st_promises := st_promises st @ [new_promise]\<rparr>"
  let ?d = "\<lparr>d_onFulfilled = f, d_onRejected = g, d_promise = length (st_promises st)\<rparr>"
  have go: "handle p ?d ?st = Some st'"
    using run by (auto simp: call_then_def Let_def split: if_splits)
  have ok: "store_ok ?st" using own by (simp add: owned_def store_ok_new)
  from handle_calm [OF store_ok_states [OF ok] go]
  have c: "calm ?st st'" and s: "states_ok st'" and o: "owners st' = add_mset (length (st_promises st)) (owners ?st)"
    by auto
  have "owners ?st = owners st" by (simp add: owners_def waiting_snoc)
  then have "owners st' + X = pending (st_promises st')"
    using own o calm_pending [OF c] by (simp add: owned_def pending_new)
  moreover have "store_ok st'" by (rule calm_store_ok [OF c s ok])
  moreover have "kept st st'" by (rule kept_trans [OF kept_new calm_kept [OF c]])
  ultimately show ?thesis by (simp add: owned_def)
qed

lemma next_job_owned:
  assumes own: "owned X st" and j: "st_jobs st = j # js"
  shows "owned (mset (job_owner j) + X) (st\<lparr>st_jobs := js\<rparr>) \<and> kept st (st\<lparr>st_jobs := js\<rparr>)"
  using assms by (simp add: owned_def store_ok_def states_ok_def owners_def kept_def ac_simps)

lemma owned_reported [simp]: "owned X (st_reported_update f st) = owned X st"
  by (simp add: owned_def store_ok_def states_ok_def owners_def)

lemma kept_reported [simp]: "kept st (st_reported_update f st') = kept st st'"
  by (simp add: kept_def)

lemma run_job_owned:
  assumes own: "owned (mset (job_owner j) + X) st" and run: "run_job tp j st = Some (new, st')"
  shows "owned (frame_owners new + X) st' \<and> kept st st'"
proof (cases j)
  case (CheckUnhandled e)
  then show ?thesis using own run by (auto simp: run_job_def)
next
  case (React n r)
  let ?p = "st_promises st ! n"
  let ?e = "if p_state ?p = 1 then d_onFulfilled r else d_onRejected r"
  from own React have own': "owned (add_mset (d_promise r) X) st" by simp
  show ?thesis
  proof (cases ?e)
    case None
    then have go: "(if p_state ?p = 1 then resolve_promise tp (d_promise r) (p_value ?p) st
        else map_option (Pair []) (reject_promise (d_promise r) (p_value ?p) st)) = Some (new, st')"
      using run React by (simp add: run_job_def Let_def)
    show ?thesis
    proof (cases "p_state ?p = 1")
      case True
      from resolve_owned [OF own'] go True show ?thesis by (simp add: reactions_free_def)
    next
      case False
      from reject_owned [OF own'] go False show ?thesis by auto
    qed
  next
    case (Some f)
    then have "new = [(f (p_value ?p), For_reaction (d_promise r))]" "st' = st"
      using run React by (auto simp: run_job_def Let_def)
    then show ?thesis using own' by simp
  qed
qed

section \<open>The machine\<close>

definition sound :: "'a machine \<Rightarrow> bool" where
  "sound m \<longleftrightarrow> owned (frame_owners (fst m)) (snd m)"

lemma returned_owned:
  assumes own: "owned (mset (frame_owner (c, w)) + X) st" and run: "returned tp w v st = Some (new, st')"
  shows "owned (frame_owners new + X) st' \<and> kept st st'"
proof (cases w)
  case (For_reaction t)
  then have "owned (add_mset t X) st" "resolve_promise tp t v st = Some (new, st')"
    using own run by (simp_all add: returned_def)
  from resolve_owned [OF this] show ?thesis by (simp add: reactions_free_def)
qed (use own run in \<open>auto simp: returned_def\<close>)

lemma thrown_out_owned:
  assumes own: "owned (mset (frame_owner (c, w)) + X) st" and run: "thrown_out w v st = Some st'"
  shows "owned X st' \<and> kept st st'"
proof (cases w)
  case (For_reaction t)
  then have "owned (add_mset t X) st" "reject_promise t v st = Some st'"
    using own run by (simp_all add: thrown_out_def)
  from reject_owned [OF this] show ?thesis .
next
  case (For_executor r)
  then have "owned X st" "call_reject r v st = Some st'" using own run by (simp_all add: thrown_out_def)
  from call_reject_owned [OF this] show ?thesis .
qed (use own run in \<open>auto simp: thrown_out_def\<close>)

lemma frame_owner_code: "frame_owner (c, w) = frame_owner (c', w)"
  by (cases w) simp_all

lemma step_owned:
  assumes own: "owned (frame_owners fs) st" and run: "step tp (fs, st) = Some (fs', st')"
  shows "owned (frame_owners fs') st' \<and> kept st st'"
proof (cases fs)
  case Nil
  then obtain j js new where j: "st_jobs st = j # js"
    and go: "run_job tp j (st\<lparr>st_jobs := js\<rparr>) = Some (new, st')" and fs': "fs' = new"
    using run by (auto simp: push_frames_def split: list.splits)
  from next_job_owned [OF own j] Nil have "owned (mset (job_owner j) + {#}) (st\<lparr>st_jobs := js\<rparr>)"
    and k: "kept st (st\<lparr>st_jobs := js\<rparr>)" by simp_all
  from run_job_owned [OF this(1) go] kept_trans [OF k] show ?thesis by (simp add: fs')
next
  case (Cons f gs)
  obtain c w where f: "f = (c, w)" by (cases f)
  let ?X = "mset (frame_owner (c, w)) + frame_owners gs"
  have own': "owned ?X st" using own by (simp add: Cons f)
  have go: "step tp ((c, w) # gs, st) = Some (fs', st')" using run by (simp add: Cons f)
  show ?thesis
  proof (cases c)
    case (Return v)
    with go obtain new where "returned tp w v st = Some (new, st')" "fs' = new @ gs" by (auto simp: push_frames_def)
    with returned_owned [OF own'] show ?thesis by simp
  next
    case (Throw v)
    with go have "thrown_out w v st = Some st'" "fs' = gs" by auto
    with thrown_out_owned [OF own'] show ?thesis by simp
  next
    case (Resolve r v k)
    with go obtain new where new: "call_resolve tp r v st = Some (new, st')" "fs' = new @ (k, w) # gs"
      by (auto simp: push_frames_def)
    from call_resolve_owned [OF own' new(1)] show ?thesis
      by (simp add: new(2) reactions_free_def frame_owner_code [of k w c])
  next
    case (Reject r v k)
    with go have new: "call_reject r v st = Some st'" "fs' = (k, w) # gs" by auto
    from call_reject_owned [OF own' new(1)] show ?thesis
      by (simp add: new(2) frame_owner_code [of k w c])
  next
    case (New e k)
    obtain p r st1 where n: "call_new st = (p, r, st1)" by (cases "call_new st")
    with New go have new: "st' = st1" "fs' = (e r, For_executor r) # (k p, w) # gs" by (auto simp: Let_def)
    from call_new_owned [OF own' n] show ?thesis
      by (simp add: new frame_owner_code [of "k p" w c])
  next
    case (Then p f g k)
    with go obtain n where new: "call_then p f g st = Some (n, st')" "fs' = (k n, w) # gs" by auto
    from call_then_owned [OF own' new(1)] show ?thesis
      by (simp add: new(2) frame_owner_code [of "k n" w c])
  qed
qed

lemma sound_start: "sound ([], empty_store)"
  by (simp add: sound_def owned_def store_ok_def states_ok_def empty_store_def owners_def pending_def
      unused_def waiting_def)

lemma step_sound: "sound m \<Longrightarrow> step tp m = Some m' \<Longrightarrow> sound m' \<and> kept (snd m) (snd m')"
  using step_owned [of "fst m" "snd m" tp "fst m'" "snd m'"] by (simp add: sound_def)

lemma reachable_sound: "reachable tp m \<Longrightarrow> sound m"
proof (induction rule: reachable.induct)
  case start
  show ?case by (rule sound_start)
next
  case (script st c)
  then show ?case by (simp add: sound_def)
next
  case (step m m')
  then show ?case using step_sound by blast
qed

text \<open>What the machine comes to: steps, and new scripts when nothing runs.\<close>

inductive later :: "('a \<Rightarrow> 'a then_member) \<Rightarrow> 'a machine \<Rightarrow> 'a machine \<Rightarrow> bool" for then_prop where
  now: "later then_prop m m"
| script: "later then_prop m ([], st) \<Longrightarrow> later then_prop m ([(c, For_script)], st)"
| step: "later then_prop m m1 \<Longrightarrow> step then_prop m1 = Some m2 \<Longrightarrow> later then_prop m m2"

lemma later_kept: "later tp m m' \<Longrightarrow> sound m \<Longrightarrow> sound m' \<and> kept (snd m) (snd m')"
proof (induction rule: later.induct)
  case now
  then show ?case by simp
next
  case (script m st c)
  then show ?case by (simp add: sound_def)
next
  case (step m m1 m2)
  then show ?case using step_sound [of m1 tp m2] by (blast intro: kept_trans)
qed

lemma handle_all_settled:
  assumes "n < length (st_promises st)" "p_state (st_promises st ! n) = k" "k \<noteq> 0" "k \<noteq> 3"
  shows "\<exists>st'. handle_all n ds st = Some st' \<and> st_jobs st' = st_jobs st @ map (React n) ds
    \<and> (\<exists>h. st_promises st' = (st_promises st)[n := (st_promises st ! n)\<lparr>p_handled := h\<rparr>])"
  using assms
proof (induction ds arbitrary: st)
  case Nil
  have "st_promises st ! n = (st_promises st ! n)\<lparr>p_handled := p_handled (st_promises st ! n)\<rparr>" by simp
  then have "st_promises st = (st_promises st)[n := (st_promises st ! n)\<lparr>p_handled := p_handled (st_promises st ! n)\<rparr>]"
    by (metis list_update_id)
  then show ?case by (simp, blast)
next
  case (Cons d ds)
  let ?st = "immediate (React n d) (upd_promise n (\<lambda>p. p\<lparr>p_handled := True\<rparr>) st)"
  have "chase (st_promises st) n = Some n" using Cons.prems by (subst chase.simps) simp
  then have h: "handle n d st = Some ?st" using Cons.prems by (simp add: handle_def)
  have "n < length (st_promises ?st)" "p_state (st_promises ?st ! n) = k" using Cons.prems by simp_all
  from Cons.IH [OF this Cons.prems(3,4)] h Cons.prems(1) show ?case by auto
qed

text \<open>Runs of a given number of steps.\<close>

fun run_steps :: "('a \<Rightarrow> 'a then_member) \<Rightarrow> nat \<Rightarrow> 'a machine \<Rightarrow> 'a machine option" where
  "run_steps tp 0 m = Some m"
| "run_steps tp (Suc n) m = (case step tp m of None \<Rightarrow> None | Some m \<Rightarrow> run_steps tp n m)"

lemma run_steps_reachable: "run_steps tp n m = Some m' \<Longrightarrow> reachable tp m \<Longrightarrow> reachable tp m'"
  by (induction n arbitrary: m) (auto split: option.splits intro: reachable.step)

lemma later_trans: "later tp m1 m2 \<Longrightarrow> later tp m m1 \<Longrightarrow> later tp m m2"
  by (induction rule: later.induct) (auto intro: later.intros)

lemma run_steps_later: "run_steps tp n m = Some m' \<Longrightarrow> later tp m m'"
proof (induction n arbitrary: m)
  case 0
  then show ?case by (simp add: later.now)
next
  case (Suc n)
  then obtain m1 where "step tp m = Some m1" "run_steps tp n m1 = Some m'" by (auto split: option.splits)
  with Suc.IH [of m1] show ?case by (blast intro: later_trans later.now later.step)
qed

lemma script_reachable: "reachable tp ([(c, For_script)], empty_store)"
  by (rule reachable.script [OF reachable.start])

lemmas run_simps = call_new_def call_then_def call_resolve_def call_reject_def resolve_promise_def
  reject_promise_def settle_promise_def finale_def handle_def use_resolver_def new_promise_def push_frames_def returned_def
  thrown_out_def run_job_def immediate_def upd_promise_def empty_store_def Let_def chase.simps eval_nat_numeral

text \<open>A promise with one reaction, to be resolved twice; and two promises that adopt each other.\<close>

definition sample_script :: "nat prog" where
  "sample_script =
     New (\<lambda>r. Return Undefined)
       (\<lambda>p. Then p (Some Return) None (\<lambda>q. Resolve 0 (Val 7) (Resolve 0 (Val 8) (Return Undefined))))"

definition circle_script :: "'a prog \<Rightarrow> 'a prog" where
  "circle_script k =
     New (\<lambda>r. Return Undefined)
       (\<lambda>p. New (\<lambda>r. Return Undefined) (\<lambda>q. Resolve 0 (Prom 1) (Resolve 1 (Prom 0) k)))"

lemma sample_run:
  "run_steps (\<lambda>_. No_then) 3 ([(sample_script, For_script)], empty_store) =
     Some ([(Resolve 0 (Val 7) (Resolve 0 (Val 8) (Return Undefined)), For_script)],
       \<lparr>st_promises = [\<lparr>p_state = 0, p_handled = False, p_value = Undefined,
            p_deferreds = Some [\<lparr>d_onFulfilled = Some Return, d_onRejected = None, d_promise = 1\<rparr>]\<rparr>, new_promise],
        st_resolvers = [(0, False)], st_jobs = [], st_reported = []\<rparr>)"
  by (simp add: sample_script_def run_simps)

lemma sample_settled:
  "run_steps (\<lambda>_. No_then) 4 ([(sample_script, For_script)], empty_store) =
     Some ([(Resolve 0 (Val 8) (Return Undefined), For_script)],
       \<lparr>st_promises = [\<lparr>p_state = 1, p_handled = True, p_value = Val 7, p_deferreds = None\<rparr>, new_promise],
        st_resolvers = [(0, True)],
        st_jobs = [React 0 \<lparr>d_onFulfilled = Some Return, d_onRejected = None, d_promise = 1\<rparr>],
        st_reported = []\<rparr>)"
  by (simp add: sample_script_def run_simps)

lemma sample_ends:
  "run_steps (\<lambda>_. No_then) 4
       ([(Resolve 0 (Val 8) (Return Undefined), For_script)],
         \<lparr>st_promises = [\<lparr>p_state = 1, p_handled = True, p_value = Val 7, p_deferreds = None\<rparr>, new_promise],
          st_resolvers = [(0, True)],
          st_jobs = [React 0 \<lparr>d_onFulfilled = Some Return, d_onRejected = None, d_promise = 1\<rparr>],
          st_reported = []\<rparr>) =
     Some ([], \<lparr>st_promises = [\<lparr>p_state = 1, p_handled = True, p_value = Val 7, p_deferreds = None\<rparr>,
            \<lparr>p_state = 1, p_handled = False, p_value = Val (7 :: nat), p_deferreds = None\<rparr>],
        st_resolvers = [(0, True)], st_jobs = [], st_reported = []\<rparr>)"
  by (simp add: run_simps)

lemma circle_run:
  "run_steps tp 6 ([(circle_script k, For_script)], empty_store) =
     Some ([(k, For_script)],
       \<lparr>st_promises = [\<lparr>p_state = 3, p_handled = False, p_value = Prom 1, p_deferreds = None\<rparr>,
            \<lparr>p_state = 3, p_handled = False, p_value = Prom 0, p_deferreds = None\<rparr>],
        st_resolvers = [(0, True), (1, True)], st_jobs = [], st_reported = []\<rparr>)"
  by (simp add: circle_script_def run_simps)

lemma chase_circle:
  assumes closed: "\<And>n. n \<in> S \<Longrightarrow> n < length ps \<and> p_state (ps ! n) = 3 \<and> (\<exists>m \<in> S. p_value (ps ! n) = Prom m)"
    and n: "n \<in> S"
  shows "chase ps n = None"
proof -
  have no: False if "chase qs i = Some j" "qs = ps" "i \<in> S" for qs i j
    using chase.raw_induct [where P = "\<lambda>qs i j. qs = ps \<longrightarrow> i \<in> S \<longrightarrow> False", OF _ that(1)] that(2,3) closed
    by (fastforce split: if_splits pval.splits)
  then show ?thesis using n by (cases "chase ps n") auto
qed

section \<open>What promises promise\<close>

text \<open>C38. In every state that scripts can bring about, each pending promise has exactly one owner, and
  only pending promises have one: among the resolvers that have not been called, the deferreds that
  wait with a promise or are queued, and the callbacks that run, each pending promise occurs once.
  So no promise can be settled twice, and none is forgotten.\<close>

theorem pending_promise_has_one_owner:
  assumes "reachable then_prop (fs, st)"
  shows "owners st + frame_owners fs = pending (st_promises st)"
  using reachable_sound [OF assms] by (simp add: sound_def owned_def)

text \<open>C37. Once a promise is settled (fulfilled, rejected, or adopting another) its state and value never
  change, whatever scripts, callbacks and thenables do later.\<close>

theorem settled_promise_is_final:
  assumes "reachable then_prop (fs, st)" and "later then_prop (fs, st) (fs', st')"
    and "i < length (st_promises st)" and "p_state (st_promises st ! i) \<noteq> 0"
  shows "p_state (st_promises st' ! i) = p_state (st_promises st ! i)
    \<and> p_value (st_promises st' ! i) = p_value (st_promises st ! i)"
  using later_kept [OF assms(2) reachable_sound [OF assms(1)]] assms(3,4) by (simp add: kept_def)

text \<open>C39. Fulfilling or rejecting a pending promise always succeeds, calls no callback, and puts its
  reactions at the end of the queue in the order they were registered; rejecting one that has none
  queues the check that reports it.\<close>

theorem settling_queues_reactions:
  assumes "t < length (st_promises st)" "p_deferreds (st_promises st ! t) = Some ds" "k \<in> {1, 2}"
  shows "\<exists>st'. settle_promise k t v st = Some st'
    \<and> st_jobs st' = st_jobs st @ (if k = 2 \<and> ds = [] then [CheckUnhandled t] else map (React t) ds)
    \<and> p_state (st_promises st' ! t) = k \<and> p_value (st_promises st' ! t) = v
    \<and> p_deferreds (st_promises st' ! t) = None"
proof -
  let ?st = "upd_promise t (\<lambda>p. p\<lparr>p_state := k, p_value := v\<rparr>) st"
  let ?st1 = "if k = 2 \<and> ds = [] then immediate (CheckUnhandled t) ?st else ?st"
  have "t < length (st_promises ?st1)" "p_state (st_promises ?st1 ! t) = k" using assms by simp_all
  from handle_all_settled [OF this, of ds] assms(3) obtain st' h where h: "handle_all t ds ?st1 = Some st'"
    "st_jobs st' = st_jobs ?st1 @ map (React t) ds"
    "st_promises st' = (st_promises ?st1)[t := (st_promises ?st1 ! t)\<lparr>p_handled := h\<rparr>]" by auto
  have "settle_promise k t v st = Some (upd_promise t (\<lambda>p. p\<lparr>p_deferreds := None\<rparr>) st')"
    using h(1) assms by (simp add: settle_promise_def finale_def Let_def)
  then show ?thesis using h(2,3) assms by (cases "k = 2 \<and> ds = []") auto
qed

text \<open>A pending promise with a reaction: its resolver and the reaction are the owners.\<close>

theorem pending_promise_has_one_owner_witness:
  "\<exists>fs (st :: nat store). reachable (\<lambda>_. No_then) (fs, st) \<and> owners st + frame_owners fs = pending (st_promises st)
     \<and> pending (st_promises st) = {#0, 1#}"
proof -
  note r = run_steps_reachable [OF sample_run script_reachable]
  show ?thesis
    by (intro exI conjI, rule r, rule pending_promise_has_one_owner [OF r])
      (simp add: pending_def new_promise_def)
qed

theorem settled_promise_is_final_witness:
  "\<exists>fs fs' (st :: nat store) st'. reachable (\<lambda>_. No_then) (fs, st) \<and> later (\<lambda>_. No_then) (fs, st) (fs', st')
     \<and> p_state (st_promises st ! 0) = 1 \<and> p_value (st_promises st' ! 0) = Val 7 \<and> p_value (st_promises st' ! 1) = Val 7"
proof -
  note r = run_steps_reachable [OF sample_settled script_reachable]
  note l = run_steps_later [OF sample_ends]
  show ?thesis
    by (intro exI conjI, rule r, rule l) (use settled_promise_is_final [OF r l, of 0] in simp_all)
qed

theorem settling_queues_reactions_witness:
  "\<exists>st'. settle_promise 2 0 (Val (5 :: nat)) \<lparr>st_promises = [new_promise], st_resolvers = [], st_jobs = [CheckUnhandled 3], st_reported = []\<rparr>
       = Some st' \<and> st_jobs st' = [CheckUnhandled 3, CheckUnhandled 0]"
  using settling_queues_reactions [of 0
      "\<lparr>st_promises = [new_promise], st_resolvers = [], st_jobs = [CheckUnhandled 3], st_reported = []\<rparr>" "[]" 2 "Val (5 :: nat)"]
  by (auto simp: new_promise_def)

text \<open>Two promises that are resolved with each other adopt each other, and from then on a call of
  \<open>then\<close> on one of them never returns: following the adopted promises goes round in a circle.\<close>

lemma adoption_circle_hangs:
  fixes k :: "nat \<Rightarrow> 'a prog"
  shows "\<exists>st. reachable then_prop ([(Then 0 f g k, For_script)], st)
     \<and> map p_value (st_promises st) = [Prom 1, Prom 0] \<and> map p_state (st_promises st) = [3, 3]
     \<and> chase (st_promises st) 0 = None
     \<and> step then_prop ([(Then 0 f g k, For_script)], st) = None"
proof -
  let ?ps = "[\<lparr>p_state = 3, p_handled = False, p_value = Prom 1, p_deferreds = None\<rparr>,
      \<lparr>p_state = 3, p_handled = False, p_value = Prom 0, p_deferreds = None\<rparr>] :: 'a promise_object list"
  have chase: "chase (?ps @ qs) 0 = None" for qs
    by (rule chase_circle [where S = "{0, 1}"]) auto
  show ?thesis
    by (intro exI conjI, rule run_steps_reachable [OF circle_run script_reachable])
      (use chase [of "[]"] chase [of "[new_promise]"] in \<open>simp_all add: call_then_def handle_def Let_def\<close>)
qed

end
