(* ===== verification/SearchWidget.thy ===== *)
theory SearchWidget
  imports LunrBuilder
begin

text \<open>
  The search field of the second theme (the module \<open>Result\<close> in \<open>application.js\<close>): loading the
  documents, making their index, showing what a query finds page by page as the reader scrolls.

  \<^item> A document is an object that a later one may change: the documents are a list, an object
    being its index in it, and \<open>docs_\<close> (a Map) is an association list from locations to objects.
    Every load starts from fresh objects.
  \<^item> The elements made for the pages are a list, an element being its index; \<open>wi_list\<close> says which
    of them are in the list on the screen. The functions on \<open>stack_\<close> are data (\<open>thunk\<close>), with the
    values they captured.
  \<^item> What the layout decides (is there room, is the end near) is a parameter: a predicate on the
    elements on the screen. So is the emphasis of matches, \<open>mark value text\<close>, whose regular
    expression is put together from the query and a setting of the page.
  \<^item> The site keeps lunr's separator of words (its setting \<open>search.tokenizer\<close> is that expression)
    and loads no plugin for languages: asking for several throws. The listeners for clicks on the
    sections shown are left out.
\<close>

section \<open>Documents\<close>

record raw_doc =
  rd_location :: string
  rd_title :: string
  rd_text :: string

record entry =
  en_location :: string
  en_title :: string
  en_text :: string
  en_parent :: "nat option"
  en_done :: bool

record site_index =
  si_heap :: "entry list"
  si_map :: "(string \<times> nat) list"

text \<open>The text of a text node as HTML; \<open>\s+\<close> to a blank; no blank before punctuation.\<close>

definition html_char :: "char \<Rightarrow> string" where
  "html_char c =
     (if c = CHR ''&'' then ''&amp;'' else if c = CHR ''<'' then ''&lt;''
      else if c = CHR ''>'' then ''&gt;'' else if c = CHR 0xA0 then ''&nbsp;'' else [c])"

definition html_text :: "string \<Rightarrow> string" where
  "html_text s = concat (map html_char s)"

function one_blank :: "string \<Rightarrow> string" where
  "one_blank [] = []"
| "one_blank (c # s) =
     (if is_space c then CHR '' '' # one_blank (dropWhile is_space s) else c # one_blank s)"
  by pat_completeness auto
termination by (relation "measure length") (simp_all add: le_imp_less_Suc length_dropWhile_le)

function tight :: "string \<Rightarrow> string" where
  "tight [] = []"
| "tight (c # s) =
     (if is_space c then
        (case dropWhile is_space s of
           [] \<Rightarrow> c # s
         | d # r \<Rightarrow> if d \<in> set '',.:;!?'' then d # tight r else c # takeWhile is_space s @ tight (d # r))
      else c # tight s)"
  by pat_completeness auto
termination
proof (relation "measure length", simp_all)
  fix s d r assume "dropWhile is_space s = d # r"
  then have "Suc (length r) \<le> length s" using length_dropWhile_le [of is_space s] by simp
  then show "length r < Suc (length s)" "length r < length s" by simp_all
qed

definition clean_text :: "string \<Rightarrow> string" where
  "clean_text s = tight (one_blank (map (\<lambda>c. if c = CHR 0x0A then CHR '' '' else c) s))"

text \<open>The step of \<open>reduce\<close>: a section without a title of its own is that of its page.\<close>

definition adopt :: "string \<Rightarrow> string \<Rightarrow> entry \<Rightarrow> entry" where
  "adopt title text p = (if en_done p then p else p\<lparr>en_title := title, en_text := text, en_done := True\<rparr>)"

definition parent_of :: "string \<Rightarrow> (string \<times> nat) list \<Rightarrow> nat option" where
  "parent_of location m =
     (let o' = split_at CHR ''#'' location
      in if 1 < length o' \<and> o' ! 1 \<noteq> [] then map_of m (o' ! 0) else None)"

definition read_doc :: "raw_doc \<Rightarrow> site_index \<Rightarrow> site_index" where
  "read_doc t D =
     (let text = html_text (rd_text t);
          parent = parent_of (rd_location t) (si_map D);
          heap = (case parent of None \<Rightarrow> si_heap D
                  | Some p \<Rightarrow> (si_heap D)[p := adopt (rd_title t) text (si_heap D ! p)]);
          n = length heap;
          same = (case parent of None \<Rightarrow> False | Some p \<Rightarrow> en_title (heap ! p) = rd_title t)
      in \<lparr>si_heap = heap @ [\<lparr>en_location = rd_location t, en_title = rd_title t, en_text = clean_text text,
            en_parent = parent, en_done = False\<rparr>],
          si_map = (if same then si_map D else AList.update (rd_location t) n (si_map D))\<rparr>)"

definition read_docs :: "raw_doc list \<Rightarrow> site_index" where
  "read_docs ts = fold read_doc ts \<lparr>si_heap = [], si_map = []\<rparr>"

definition get_entry :: "site_index \<Rightarrow> string \<Rightarrow> entry option" where
  "get_entry D k = map_option (\<lambda>n. si_heap D ! n) (map_of (si_map D) k)"

definition parent_location :: "site_index \<Rightarrow> entry \<Rightarrow> string option" where
  "parent_location D n = map_option (\<lambda>p. en_location (si_heap D ! p)) (en_parent n)"

section \<open>The index\<close>

text \<open>The settings of a page: languages, whether its texts switch functions off, messages.\<close>

record settings =
  se_languages :: "string list"
  se_trimmer :: string
  se_stopwords :: string
  se_placeholder :: string
  se_none :: string
  se_one :: string
  se_other :: string

definition switched_on :: "string \<Rightarrow> bool" where
  "switched_on content \<longleftrightarrow> lower content \<noteq> ''false''"

definition widget_stages :: "settings \<Rightarrow> lunr_fn list" where
  "widget_stages cfg =
     (if switched_on (se_trimmer cfg) then [Trimmer] else [])
     @ (if switched_on (se_stopwords cfg) then [StopWordFilter] else [])"

definition widget_builder :: "'v numbers \<Rightarrow> settings \<Rightarrow> ('v, lunr_fn) lunr_builder run" where
  "widget_builder A cfg =
     (let b = (lunr_start A)\<lparr>bd_pipeline := add_stages (widget_stages cfg) []\<rparr>
      in if 1 < length (se_languages cfg) then fail LTypeError
         else then_run (add_field ''title'' \<lparr>fa_boost = Some (a_num A 10), fa_extractor = None\<rparr> b) (\<lambda>b.
              then_run (add_field ''text'' \<lparr>fa_boost = None, fa_extractor = None\<rparr> b) (\<lambda>b.
                ret (set_ref ''location'' b))))"

definition entry_doc :: "entry \<Rightarrow> document" where
  "entry_doc n =
     [(''location'', In_value (en_location n)), (''title'', In_value (en_title n)), (''text'', In_value (en_text n))]"

definition site_documents :: "site_index \<Rightarrow> (document \<times> 'v option) list" where
  "site_documents D = map (\<lambda>(k, n). (entry_doc (si_heap D ! n), None)) (si_map D)"

section \<open>What is on the screen\<close>

record shown =
  sh_href :: string
  sh_title :: string
  sh_teaser :: "string option"

record shown_item =
  it_page :: shown
  it_sections :: "shown list"

datatype thunk = Show_page nat | Show_section nat string string

record 'v widget =
  wi_docs :: site_index
  wi_index :: "(('v, lunr_fn) lunr_index \<times> ts_heap) option"
  wi_value :: "string option"
  wi_meta :: string
  wi_items :: "shown_item list"
  wi_list :: "nat list"
  wi_stack :: "thunk list"
  wi_loads :: nat
  wi_scrolls :: nat

definition new_widget :: "settings \<Rightarrow> 'v widget" where
  "new_widget cfg =
     \<lparr>wi_docs = \<lparr>si_heap = [], si_map = []\<rparr>, wi_index = None, wi_value = None, wi_meta = se_placeholder cfg,
      wi_items = [], wi_list = [], wi_stack = [], wi_loads = 0, wi_scrolls = 0\<rparr>"

definition on_screen :: "'v widget \<Rightarrow> shown_item list" where
  "on_screen w = map (\<lambda>i. wi_items w ! i) (wi_list w)"

text \<open>The documents have arrived: the function \<open>u\<close>.\<close>

definition load_site :: "'v::linorder numbers \<Rightarrow> settings \<Rightarrow> raw_doc list \<Rightarrow> 'v widget \<Rightarrow> 'v widget run" where
  "load_site A cfg ts w =
     (let D = read_docs ts; h = (case wi_index w of None \<Rightarrow> empty_heap | Some (ix, h) \<Rightarrow> h)
      in then_run (widget_builder A cfg) (\<lambda>b.
         then_run (add_docs lunr_act (site_documents D) b) (\<lambda>b.
         then_run (build_index A b h) (\<lambda>ixh.
           ret (w\<lparr>wi_docs := D, wi_stack := [], wi_index := Some ixh, wi_loads := wi_loads w - 1,
                  wi_scrolls := wi_scrolls w + 1\<rparr>)))))"

section \<open>Showing\<close>

text \<open>Where a text is cut: at a blank before the limit, or at the start.\<close>

fun cut_at :: "string \<Rightarrow> nat \<Rightarrow> nat" where
  "cut_at e 0 = 0"
| "cut_at e (Suc n) = (if e ! Suc n = CHR '' '' then Suc n else cut_at e n)"

definition teaser :: "string \<Rightarrow> nat \<Rightarrow> string" where
  "teaser e t = (if t < length e then take (cut_at e t) e @ ''...'' else e)"

definition show_page :: "(string \<Rightarrow> string \<Rightarrow> string) \<Rightarrow> string \<Rightarrow> entry \<Rightarrow> shown" where
  "show_page mark v r =
     \<lparr>sh_href = en_location r, sh_title = mark v (en_title r),
      sh_teaser = (if en_text r = [] then None else Some (mark v (en_text r)))\<rparr>"

definition show_section :: "(string \<Rightarrow> string \<Rightarrow> string) \<Rightarrow> string \<Rightarrow> entry \<Rightarrow> shown" where
  "show_section mark v e =
     \<lparr>sh_href = en_location e, sh_title = mark v (en_title e),
      sh_teaser = (if en_text e = [] then None else Some (teaser (mark v (en_text e)) 400))\<rparr>"

definition run_thunk :: "(string \<Rightarrow> string \<Rightarrow> string) \<Rightarrow> thunk \<Rightarrow> 'v widget \<Rightarrow> 'v widget run" where
  "run_thunk mark t w =
     (case t of
        Show_page i \<Rightarrow> ret (w\<lparr>wi_list := wi_list w @ [i]\<rparr>)
      | Show_section i v r \<Rightarrow>
          then_run (need (get_entry (wi_docs w) r)) (\<lambda>e.
            let it = wi_items w ! i
            in ret (w\<lparr>wi_items := (wi_items w)[i :=
                 it\<lparr>it_sections := it_sections it @ [show_section mark v e]\<rparr>]\<rparr>)))"

text \<open>The loop that fills the screen, and the one of a scroll listener, which takes ten at a time.\<close>

fun fill :: "(shown_item list \<Rightarrow> bool) \<Rightarrow> (string \<Rightarrow> string \<Rightarrow> string) \<Rightarrow> thunk list \<Rightarrow> 'v widget \<Rightarrow> 'v widget run" where
  "fill room mark [] w = ret (w\<lparr>wi_stack := []\<rparr>)"
| "fill room mark (t # ts) w =
     (if room (on_screen w) then then_run (run_thunk mark t w) (fill room mark ts)
      else ret (w\<lparr>wi_stack := t # ts\<rparr>))"

function scroll_loop ::
    "(shown_item list \<Rightarrow> bool) \<Rightarrow> (string \<Rightarrow> string \<Rightarrow> string) \<Rightarrow> thunk list \<Rightarrow> 'v widget \<Rightarrow> 'v widget run" where
  "scroll_loop near mark ts w =
     (if ts \<noteq> [] \<and> near (on_screen w) then
        (case fold_run (run_thunk mark) (take 10 ts) w of
           None \<Rightarrow> None
         | Some (Inl e) \<Rightarrow> fail e
         | Some (Inr w) \<Rightarrow> scroll_loop near mark (drop 10 ts) w)
      else ret (w\<lparr>wi_stack := ts\<rparr>))"
  by pat_completeness auto
termination by (relation "measure (\<lambda>(near, mark, ts, w). length ts)") auto

declare scroll_loop.simps [simp del]

definition on_scroll ::
    "(shown_item list \<Rightarrow> bool) \<Rightarrow> (string \<Rightarrow> string \<Rightarrow> string) \<Rightarrow> 'v widget \<Rightarrow> 'v widget run" where
  "on_scroll near mark w =
     fold_run (\<lambda>_ w. scroll_loop near mark (wi_stack w) w) [0..<wi_scrolls w] w"

section \<open>Typing\<close>

definition widget_query :: "string \<Rightarrow> string list \<Rightarrow> lunr_query" where
  "widget_query v fs =
     fold (\<lambda>e. query_term_clause e (empty_clause\<lparr>cl_wildcard := Some wildcard_TRAILING\<rparr>))
       (filter (\<lambda>e. e \<noteq> []) (split_at CHR '' '' (lower v))) \<lparr>q_clauses = [], q_allFields = fs\<rparr>"

text \<open>Pages in the order of their first result, with the results that are sections of them.\<close>

definition add_hit :: "site_index \<Rightarrow> string \<Rightarrow> (string \<times> string list) list \<Rightarrow> (string \<times> string list) list run" where
  "add_hit D r m =
     then_run (need (get_entry D r)) (\<lambda>n.
       case parent_location D n of
         Some p \<Rightarrow> ret (AList.update p ((case map_of m p of None \<Rightarrow> [] | Some l \<Rightarrow> l) @ [r]) m)
       | None \<Rightarrow> ret (AList.update (en_location n) (case map_of m (en_location n) of None \<Rightarrow> [] | Some l \<Rightarrow> l) m))"

definition add_item ::
    "(string \<Rightarrow> string \<Rightarrow> string) \<Rightarrow> string \<Rightarrow> site_index \<Rightarrow> string \<times> string list \<Rightarrow> shown_item list \<times> thunk list \<Rightarrow>
     (shown_item list \<times> thunk list) run" where
  "add_item mark v D g s =
     (case g of (k, hits) \<Rightarrow> case s of (items, stack) \<Rightarrow>
        then_run (need (get_entry D k)) (\<lambda>r.
          ret (items @ [\<lparr>it_page = show_page mark v r, it_sections = []\<rparr>],
               stack @ Show_page (length items) # map (Show_section (length items) v) hits)))"

definition replace_hash :: "string \<Rightarrow> string \<Rightarrow> string" where
  "replace_hash by_text s =
     (case dropWhile (\<lambda>c. c \<noteq> CHR ''#'') s of
        [] \<Rightarrow> s
      | c # r \<Rightarrow> takeWhile (\<lambda>c. c \<noteq> CHR ''#'') s @ by_text @ r)"

definition result_message :: "settings \<Rightarrow> nat \<Rightarrow> string" where
  "result_message cfg n =
     (if n = 0 then se_none cfg else if n = 1 then se_one cfg else replace_hash (nat_str n) (se_other cfg))"

datatype ui_event = Focus | Keyup | Other_event

definition update_widget ::
    "'v::linorder numbers \<Rightarrow> settings \<Rightarrow> (string \<Rightarrow> string \<Rightarrow> string) \<Rightarrow> (shown_item list \<Rightarrow> bool) \<Rightarrow>
     ui_event \<Rightarrow> string \<Rightarrow> 'v widget \<Rightarrow> 'v widget run" where
  "update_widget A cfg mark room e v w =
     (if e = Focus \<and> wi_index w = None then ret (w\<lparr>wi_loads := wi_loads w + 1\<rparr>)
      else if e = Other_event then ret w
      else
        (case wi_index w of
           None \<Rightarrow> ret w
         | Some (ix, h) \<Rightarrow>
             if wi_value w = Some v then ret w
             else
               let w = w\<lparr>wi_list := [], wi_value := Some v\<rparr>; D = wi_docs w
               in if v = [] then ret (w\<lparr>wi_meta := se_placeholder cfg\<rparr>)
                  else
                    then_run (index_query A lunr_act ix (widget_query v (ix_fields ix)) h) (\<lambda>(results, h).
                    then_run (fold_run (add_hit D) (map lr_ref results) []) (\<lambda>groups.
                    then_run (fold_run (add_item mark v D) groups ([], [])) (\<lambda>(items, stack).
                    then_run (fill room mark stack (w\<lparr>wi_index := Some (ix, h), wi_items := items\<rparr>)) (\<lambda>w.
                      ret (w\<lparr>wi_meta := result_message cfg (length groups)\<rparr>)))))))"

text \<open>What can happen, for a site with the documents \<open>ts\<close>.\<close>

inductive widget_run ::
    "'v::linorder numbers \<Rightarrow> settings \<Rightarrow> (string \<Rightarrow> string \<Rightarrow> string) \<Rightarrow> raw_doc list \<Rightarrow> 'v widget \<Rightarrow> bool"
    for A cfg mark ts where
  start: "widget_run A cfg mark ts (new_widget cfg)"
| typed: "widget_run A cfg mark ts w \<Longrightarrow> update_widget A cfg mark room e v w = ret w' \<Longrightarrow> widget_run A cfg mark ts w'"
| loaded: "widget_run A cfg mark ts w \<Longrightarrow> 0 < wi_loads w \<Longrightarrow> load_site A cfg ts w = ret w' \<Longrightarrow> widget_run A cfg mark ts w'"
| scrolled: "widget_run A cfg mark ts w \<Longrightarrow> on_scroll near mark w = ret w' \<Longrightarrow> widget_run A cfg mark ts w'"

end
