(* ===== verification/SearchWidgetProps.thy ===== *)
theory SearchWidgetProps
  imports SearchWidget
begin

text \<open>
  What the search field of the second theme shows: the documents and their index
  (\<open>docs_ok\<close>, \<open>widget_sound\<close>), the pages and sections of a result (\<open>grouped\<close>), and
  \<open>search_shows_selected\<close>, which says what the reader sees.
\<close>

section \<open>The documents\<close>

definition docs_ok :: "site_index \<Rightarrow> bool" where
  "docs_ok D \<longleftrightarrow> distinct (map fst (si_map D))
     \<and> (\<forall>k n. (k, n) \<in> set (si_map D) \<longrightarrow> n < length (si_heap D) \<and> en_location (si_heap D ! n) = k)
     \<and> (\<forall>i < length (si_heap D). \<forall>p. en_parent (si_heap D ! i) = Some p \<longrightarrow>
          p < length (si_heap D) \<and> en_location (si_heap D ! p) \<in> fst ` set (si_map D))"

lemma adopt_same [simp]: "en_location (adopt title text p) = en_location p" "en_parent (adopt title text p) = en_parent p"
  by (simp_all add: adopt_def)

lemma parent_of_SomeD: "parent_of l m = Some p \<Longrightarrow> \<exists>k. map_of m k = Some p"
  by (auto simp: parent_of_def Let_def split: if_splits)

lemma read_doc_ok:
  assumes ok: "docs_ok D"
  shows "docs_ok (read_doc t D)"
proof -
  let ?h = "si_heap D" and ?m = "si_map D" and ?parent = "parent_of (rd_location t) (si_map D)"
  define h1 where "h1 = (case ?parent of None \<Rightarrow> ?h
     | Some p \<Rightarrow> ?h[p := adopt (rd_title t) (html_text (rd_text t)) (?h ! p)])"
  let ?n = "\<lparr>en_location = rd_location t, en_title = rd_title t, en_text = clean_text (html_text (rd_text t)),
            en_parent = ?parent, en_done = False\<rparr>"
  have len: "length h1 = length ?h" by (simp add: h1_def split: option.split)
  have same: "en_location (h1 ! i) = en_location (?h ! i)" "en_parent (h1 ! i) = en_parent (?h ! i)"
    if "i < length ?h" for i
    using that unfolding h1_def
    by (cases ?parent; simp; metis adopt_same nth_list_update_eq nth_list_update_neq)+
  let ?D = "read_doc t D"
  have D: "si_heap ?D = h1 @ [?n]" "si_map ?D = ?m \<or> si_map ?D = AList.update (rd_location t) (length ?h) ?m"
    by (auto simp: read_doc_def Let_def h1_def split: option.split)
  have keys: "fst ` set ?m \<subseteq> fst ` set (si_map ?D)"
  proof
    fix k assume "k \<in> fst ` set ?m"
    then have "k \<in> set (map fst ?m)" by simp
    moreover have "set (map fst ?m) \<subseteq> set (map fst (AList.update (rd_location t) (length ?h) ?m))"
      unfolding update_keys by auto
    ultimately have "k \<in> set (map fst (si_map ?D))" using D(2) by (elim disjE) (simp_all only: subset_iff)
    then show "k \<in> fst ` set (si_map ?D)" by simp
  qed
  have entries: "n < length (si_heap ?D) \<and> en_location (si_heap ?D ! n) = k" if "(k, n) \<in> set (si_map ?D)" for k n
  proof (cases "(k, n) \<in> set ?m")
    case True
    then have "n < length ?h" "en_location (?h ! n) = k" using ok by (auto simp: docs_ok_def)
    then show ?thesis using same by (simp add: D(1) len nth_append)
  next
    case False
    then have "k = rd_location t \<and> n = length ?h" using that D(2) set_update [of k n] by metis
    then show ?thesis by (simp add: D(1) nth_append flip: len)
  qed
  have parents: "p < length (si_heap ?D) \<and> en_location (si_heap ?D ! p) \<in> fst ` set (si_map ?D)"
    if "i < length (si_heap ?D)" "en_parent (si_heap ?D ! i) = Some p" for i p
  proof -
    have "p < length ?h \<and> en_location (?h ! p) \<in> fst ` set ?m"
    proof (cases "i < length ?h")
      case True
      then have "en_parent (?h ! i) = Some p" using that same by (simp add: D(1) len nth_append)
      then show ?thesis using ok True by (simp add: docs_ok_def)
    next
      case False
      then have "i = length h1" using that(1) by (simp add: D(1) len)
      then have "?parent = Some p" using that by (simp add: D(1))
      then obtain k where "map_of ?m k = Some p" using parent_of_SomeD by blast
      then have k: "(k, p) \<in> set ?m" by (rule map_of_SomeD)
      then show ?thesis using ok by (force simp: docs_ok_def)
    qed
    then show ?thesis using keys same by (auto simp: D(1) len nth_append)
  qed
  have "distinct (map fst (si_map ?D))" using D(2) ok by (auto simp: docs_ok_def distinct_update)
  with entries parents show ?thesis unfolding docs_ok_def by blast
qed

lemma read_docs_ok: "docs_ok (read_docs ts)"
proof -
  have "docs_ok D \<Longrightarrow> docs_ok (fold read_doc ts D)" for D
    by (induction ts arbitrary: D) (simp_all add: read_doc_ok)
  then show ?thesis by (simp add: read_docs_def docs_ok_def)
qed

lemma get_entry_known:
  assumes "docs_ok D"
  shows "get_entry D k \<noteq> None \<longleftrightarrow> k \<in> fst ` set (si_map D)"
    "get_entry D k = Some e \<Longrightarrow> en_location e = k"
proof -
  show "get_entry D k \<noteq> None \<longleftrightarrow> k \<in> fst ` set (si_map D)"
    by (simp add: get_entry_def map_of_eq_None_iff)
  assume "get_entry D k = Some e"
  then obtain n where "map_of (si_map D) k = Some n" "e = si_heap D ! n" by (auto simp: get_entry_def)
  then show "en_location e = k" using assms map_of_SomeD [of "si_map D" k n] by (auto simp: docs_ok_def)
qed

lemma parent_location_known:
  assumes ok: "docs_ok D" and e: "get_entry D k = Some e" and p: "parent_location D e = Some l"
  shows "l \<in> fst ` set (si_map D)"
proof -
  obtain n where n: "map_of (si_map D) k = Some n" "e = si_heap D ! n" using e by (auto simp: get_entry_def)
  then have "n < length (si_heap D)" using ok map_of_SomeD [of "si_map D" k n] by (auto simp: docs_ok_def)
  then show ?thesis using ok p n(2) by (auto simp: docs_ok_def parent_location_def)
qed

section \<open>The pages of results\<close>

definition page_of :: "site_index \<Rightarrow> string \<Rightarrow> string" where
  "page_of D r =
     (case get_entry D r of None \<Rightarrow> r
      | Some n \<Rightarrow> (case parent_location D n of None \<Rightarrow> en_location n | Some p \<Rightarrow> p))"

definition is_section :: "site_index \<Rightarrow> string \<Rightarrow> bool" where
  "is_section D r \<longleftrightarrow> (case get_entry D r of None \<Rightarrow> False | Some n \<Rightarrow> parent_location D n \<noteq> None)"

text \<open>The first occurrences in a list.\<close>

definition firsts :: "'a list \<Rightarrow> 'a list" where
  "firsts xs = rev (remdups (rev xs))"

lemma firsts_simps [simp]: "set (firsts xs) = set xs" "distinct (firsts xs)" "firsts [] = []"
  by (simp_all add: firsts_def)

lemma firsts_snoc: "firsts (xs @ [x]) = (if x \<in> set xs then firsts xs else firsts xs @ [x])"
  by (simp add: firsts_def)

definition grouped :: "site_index \<Rightarrow> string list \<Rightarrow> (string \<times> string list) list" where
  "grouped D rs = map (\<lambda>p. (p, filter (\<lambda>r. is_section D r \<and> page_of D r = p) rs)) (firsts (map (page_of D) rs))"

lemma map_of_page_pairs: "map_of (map (\<lambda>p. (p, f p)) ps) k = (if k \<in> set ps then Some (f k) else None)"
  by (induction ps) auto

lemma update_pairs:
  "distinct ps \<Longrightarrow> AList.update k y (map (\<lambda>p. (p, f p)) ps) =
    (if k \<in> set ps then map (\<lambda>p. (p, if p = k then y else f p)) ps else map (\<lambda>p. (p, f p)) ps @ [(k, y)])"
  by (induction ps) auto

lemma add_hit_grouped:
  assumes r: "get_entry D r = Some n"
  shows "add_hit D r (grouped D rs) = ret (grouped D (rs @ [r]))"
proof -
  let ?ps = "firsts (map (page_of D) rs)"
  let ?f = "\<lambda>p. filter (\<lambda>r. is_section D r \<and> page_of D r = p) rs"
  have upd: "AList.update (page_of D r)
      ((case map_of (grouped D rs) (page_of D r) of None \<Rightarrow> [] | Some l \<Rightarrow> l) @ (if is_section D r then [r] else []))
      (grouped D rs) = grouped D (rs @ [r])"
  proof (cases "page_of D r \<in> page_of D ` set rs")
    case True
    then show ?thesis by (auto simp: grouped_def map_of_page_pairs update_pairs firsts_snoc)
  next
    case False
    then have "\<forall>x \<in> set rs. page_of D x \<noteq> page_of D r" by (metis image_eqI)
    then have "filter (\<lambda>x. is_section D x \<and> page_of D x = page_of D r) rs = []" by (simp add: filter_empty_conv)
    with False show ?thesis by (auto simp: grouped_def map_of_page_pairs update_pairs firsts_snoc)
  qed
  show ?thesis
  proof (cases "parent_location D n")
    case None
    then show ?thesis using r upd by (simp add: add_hit_def page_of_def is_section_def)
  next
    case (Some p)
    then show ?thesis using r upd by (simp add: add_hit_def page_of_def is_section_def)
  qed
qed

lemma hits_grouped:
  assumes "\<forall>r \<in> set rs. get_entry D r \<noteq> None"
  shows "fold_run (add_hit D) rs (grouped D qs) = ret (grouped D (qs @ rs))"
  using assms
proof (induction rs arbitrary: qs)
  case (Cons r rs)
  then obtain n where "get_entry D r = Some n" by auto
  then show ?case using Cons by (simp add: add_hit_grouped)
qed simp

section \<open>Showing them\<close>

lemma add_items:
  assumes "\<forall>g \<in> set gs. get_entry D (fst g) \<noteq> None"
  shows "fold_run (add_item mark v D) gs (items, stack) =
    ret (items @ map (\<lambda>g. \<lparr>it_page = show_page mark v (the (get_entry D (fst g))), it_sections = []\<rparr>) gs,
         stack @ concat (map (\<lambda>(i, g). Show_page i # map (Show_section i v) (snd g))
           (enumerate (length items) gs)))"
  using assms
proof (induction gs arbitrary: items stack)
  case (Cons g gs)
  then show ?case by (auto simp: add_item_def split_beta)
qed simp

definition finish :: "(string \<Rightarrow> string \<Rightarrow> string) \<Rightarrow> 'v widget \<Rightarrow> 'v widget run" where
  "finish mark w = fold_run (run_thunk mark) (wi_stack w) (w\<lparr>wi_stack := []\<rparr>)"

lemma fold_run_append: "fold_run f (xs @ ys) s = then_run (fold_run f xs s) (fold_run f ys)"
proof (induction xs arbitrary: s)
  case (Cons x xs)
  then show ?case by (simp add: then_run_def split: option.split sum.split)
qed simp

lemma run_thunk_stack:
  "run_thunk mark t (w\<lparr>wi_stack := ts\<rparr>) = then_run (run_thunk mark t w) (\<lambda>w. ret (w\<lparr>wi_stack := ts\<rparr>))"
  by (cases t; cases "\<exists>e. \<exists>r. get_entry (wi_docs w) r = Some e")
     (auto simp: run_thunk_def Let_def need_def split: option.split)

lemma run_thunks_stack:
  "fold_run (run_thunk mark) us (w\<lparr>wi_stack := ts\<rparr>) =
    then_run (fold_run (run_thunk mark) us w) (\<lambda>w. ret (w\<lparr>wi_stack := ts\<rparr>))"
proof (induction us arbitrary: w)
  case (Cons u us)
  show ?case
    by (cases "run_thunk mark u w" rule: option.exhaust; (cases "the (run_thunk mark u w)" rule: sum.exhaust)?)
       (simp_all add: run_thunk_stack Cons.IH)
qed simp

lemma run_thunks_meta:
  "fold_run (run_thunk mark) us (w\<lparr>wi_meta := m\<rparr>) =
    then_run (fold_run (run_thunk mark) us w) (\<lambda>w. ret (w\<lparr>wi_meta := m\<rparr>))"
proof (induction us arbitrary: w)
  case (Cons u us)
  have "run_thunk mark u (w\<lparr>wi_meta := m\<rparr>) = then_run (run_thunk mark u w) (\<lambda>w. ret (w\<lparr>wi_meta := m\<rparr>))"
    by (cases u; cases "\<exists>e. \<exists>r. get_entry (wi_docs w) r = Some e")
       (auto simp: run_thunk_def Let_def need_def split: option.split)
  then show ?case
    by (cases "run_thunk mark u w" rule: option.exhaust; (cases "the (run_thunk mark u w)" rule: sum.exhaust)?)
       (simp_all add: Cons.IH)
qed simp

lemma finish_meta: "finish mark (w\<lparr>wi_meta := m\<rparr>) = then_run (finish mark w) (\<lambda>w. ret (w\<lparr>wi_meta := m\<rparr>))"
proof -
  have "w\<lparr>wi_meta := m, wi_stack := []\<rparr> = (w\<lparr>wi_stack := []\<rparr>)\<lparr>wi_meta := m\<rparr>" by simp
  then show ?thesis unfolding finish_def by (simp only: run_thunks_meta) simp
qed

lemma fill_finish:
  "fill room mark ts w = ret w1 \<Longrightarrow> finish mark w1 = fold_run (run_thunk mark) ts (w\<lparr>wi_stack := []\<rparr>)"
proof (induction ts arbitrary: w)
  case Nil
  then show ?case by (auto simp: finish_def)
next
  case (Cons t ts)
  show ?case
  proof (cases "room (on_screen w)")
    case True
    then obtain w2 where 2: "run_thunk mark t w = ret w2" "fill room mark ts w2 = ret w1"
      using Cons.prems by (auto simp: then_run_def split: option.splits sum.splits)
    from Cons.IH [OF 2(2)] show ?thesis by (simp add: run_thunk_stack 2(1))
  next
    case False
    then show ?thesis using Cons.prems by (auto simp: finish_def)
  qed
qed

lemma scroll_finish:
  "scroll_loop near mark ts w = ret w1 \<Longrightarrow> finish mark w1 = fold_run (run_thunk mark) ts (w\<lparr>wi_stack := []\<rparr>)"
proof (induction near mark ts w rule: scroll_loop.induct)
  case (1 near mark ts w)
  show ?case
  proof (cases "ts \<noteq> [] \<and> near (on_screen w)")
    case True
    then obtain w2 where 2: "fold_run (run_thunk mark) (take 10 ts) w = ret w2"
      "scroll_loop near mark (drop 10 ts) w2 = ret w1"
      using "1.prems" by (subst (asm) scroll_loop.simps) (auto split: option.splits sum.splits)
    from "1.IH" [OF True 2(1) refl 2(2)]
    have "finish mark w1 = fold_run (run_thunk mark) (drop 10 ts) (w2\<lparr>wi_stack := []\<rparr>)" .
    moreover have "fold_run (run_thunk mark) ts (w\<lparr>wi_stack := []\<rparr>)
        = fold_run (run_thunk mark) (take 10 ts @ drop 10 ts) (w\<lparr>wi_stack := []\<rparr>)" by simp
    ultimately show ?thesis
      unfolding fold_run_append by (simp only: run_thunks_stack 2(1) then_run_simps)
  next
    case False
    then show ?thesis using "1.prems" by (subst (asm) scroll_loop.simps) (auto simp: finish_def)
  qed
qed

text \<open>Running all thunks of the pages \<open>gs\<close>, whose elements start at number \<open>k\<close>.\<close>

lemma run_sections:
  assumes "\<forall>r \<in> set rs. get_entry (wi_docs w) r \<noteq> None"
  shows "fold_run (run_thunk mark) (map (Show_section i v) rs) w =
    ret (w\<lparr>wi_items := (wi_items w)[i := (wi_items w ! i)\<lparr>it_sections := it_sections (wi_items w ! i)
       @ map (\<lambda>r. show_section mark v (the (get_entry (wi_docs w) r))) rs\<rparr>]\<rparr>)"
  using assms
proof (induction rs arbitrary: w)
  case (Cons r rs)
  then show ?case by (cases "i < length (wi_items w)") (auto simp: run_thunk_def Let_def list_update_beyond)
qed simp

lemma run_pages:
  assumes "\<forall>g \<in> set gs. \<forall>r \<in> set (snd g). get_entry D r \<noteq> None"
  shows "wi_docs w = D \<Longrightarrow> wi_list w = [0..<k] \<Longrightarrow>
    wi_items w = done_items @ map (\<lambda>g. \<lparr>it_page = pg g, it_sections = []\<rparr>) gs \<Longrightarrow> length done_items = k \<Longrightarrow>
    fold_run (run_thunk mark) (concat (map (\<lambda>(i, g). Show_page i # map (Show_section i v) (snd g)) (enumerate k gs))) w
      = ret (w\<lparr>wi_list := [0..<k + length gs], wi_items := done_items @ map (\<lambda>g. \<lparr>it_page = pg g,
            it_sections = map (\<lambda>r. show_section mark v (the (get_entry D r))) (snd g)\<rparr>) gs\<rparr>)"
  using assms
proof (induction gs arbitrary: w k done_items)
  case (Cons g gs)
  let ?it = "\<lparr>it_page = pg g, it_sections = map (\<lambda>r. show_section mark v (the (get_entry D r))) (snd g)\<rparr>"
  let ?w = "w\<lparr>wi_list := [0..<Suc k], wi_items := (done_items @ [?it])
      @ map (\<lambda>g. \<lparr>it_page = pg g, it_sections = []\<rparr>) gs\<rparr>"
  have "fold_run (run_thunk mark) (Show_page k # map (Show_section k v) (snd g)) w = ret ?w"
    using Cons.prems by (simp add: run_thunk_def run_sections nth_append list_update_append)
  moreover have "wi_docs ?w = D" using Cons.prems by simp
  note IH = Cons.IH [OF this, of "Suc k" "done_items @ [?it]"]
  ultimately have "fold_run (run_thunk mark) ((Show_page k # map (Show_section k v) (snd g))
      @ concat (map (\<lambda>(i, g). Show_page i # map (Show_section i v) (snd g)) (enumerate (Suc k) gs))) w
    = ret (w\<lparr>wi_list := [0..<Suc k + length gs], wi_items := (done_items @ [?it]) @ map (\<lambda>g. \<lparr>it_page = pg g,
            it_sections = map (\<lambda>r. show_section mark v (the (get_entry D r))) (snd g)\<rparr>) gs\<rparr>)"
    unfolding fold_run_append using IH Cons.prems by simp
  then show ?case by simp
qed simp

lemma on_scroll_finish: "on_scroll near mark w = ret w1 \<Longrightarrow> finish mark w1 = finish mark w"
proof -
  have "fold_run (\<lambda>_ w. scroll_loop near mark (wi_stack w) w) ks w = ret w1 \<Longrightarrow> finish mark w1 = finish mark w"
    for ks :: "nat list"
  proof (induction ks arbitrary: w)
    case (Cons k ks)
    then obtain w2 where "scroll_loop near mark (wi_stack w) w = ret w2"
      "fold_run (\<lambda>_ w. scroll_loop near mark (wi_stack w) w) ks w2 = ret w1"
      by (auto simp: then_run_def split: option.splits sum.splits)
    with Cons.IH scroll_finish show ?case by (fastforce simp: finish_def)
  qed simp
  then show "on_scroll near mark w = ret w1 \<Longrightarrow> finish mark w1 = finish mark w" by (simp add: on_scroll_def)
qed

text \<open>Thunks whose results are documents run.\<close>

fun thunk_ok :: "site_index \<Rightarrow> thunk \<Rightarrow> bool" where
  "thunk_ok D (Show_page i) = True"
| "thunk_ok D (Show_section i v r) = (get_entry D r \<noteq> None)"

lemma run_thunk_ok:
  "thunk_ok (wi_docs w) t \<Longrightarrow> \<exists>l its. run_thunk mark t w = ret (w\<lparr>wi_list := l, wi_items := its\<rparr>)"
proof (cases t)
  case (Show_page i)
  show ?thesis unfolding Show_page run_thunk_def by (simp, rule exI, rule exI [of _ "wi_items w"]) simp
next
  case (Show_section i v r)
  assume "thunk_ok (wi_docs w) t"
  then show ?thesis unfolding Show_section run_thunk_def
    by (auto simp: Let_def) (rule exI [of _ "wi_list w"], rule exI, simp)
qed

lemma run_thunks_ok:
  "list_all (thunk_ok (wi_docs w)) ts \<Longrightarrow>
    \<exists>l its. fold_run (run_thunk mark) ts w = ret (w\<lparr>wi_list := l, wi_items := its\<rparr>)"
proof (induction ts arbitrary: w)
  case Nil
  show ?case by (rule exI [of _ "wi_list w"], rule exI [of _ "wi_items w"]) simp
next
  case (Cons t ts)
  then obtain l its where "run_thunk mark t w = ret (w\<lparr>wi_list := l, wi_items := its\<rparr>)"
    using run_thunk_ok [of w t mark] by auto
  with Cons.IH [of "w\<lparr>wi_list := l, wi_items := its\<rparr>"] Cons.prems show ?case by auto
qed

lemma fill_ok:
  "list_all (thunk_ok (wi_docs w)) ts \<Longrightarrow> \<exists>l its k. fill room mark ts w =
    ret (w\<lparr>wi_list := l, wi_items := its, wi_stack := drop k ts\<rparr>)"
proof (induction ts arbitrary: w)
  case Nil
  show ?case by (rule exI [of _ "wi_list w"], rule exI [of _ "wi_items w"]) simp
next
  case (Cons t ts)
  show ?case
  proof (cases "room (on_screen w)")
    case True
    obtain l its where 1: "run_thunk mark t w = ret (w\<lparr>wi_list := l, wi_items := its\<rparr>)"
      using run_thunk_ok [of w t mark] Cons.prems by auto
    from Cons.IH [of "w\<lparr>wi_list := l, wi_items := its\<rparr>"] Cons.prems
    obtain l' its' k where "fill room mark ts (w\<lparr>wi_list := l, wi_items := its\<rparr>)
        = ret (w\<lparr>wi_list := l', wi_items := its', wi_stack := drop k ts\<rparr>)" by auto
    then show ?thesis using True 1 by (simp, intro exI [of _ l'] exI [of _ its'] exI [of _ "Suc k"]) simp
  next
    case False
    then show ?thesis
      by (simp, intro exI [of _ "wi_list w"] exI [of _ "wi_items w"] exI [of _ 0]) simp
  qed
qed

lemma list_all_drop: "list_all P xs \<Longrightarrow> list_all P (drop k xs)"
  by (auto simp: list_all_iff dest: in_set_dropD)

lemma scroll_ok:
  "list_all (thunk_ok (wi_docs w)) ts \<Longrightarrow> \<exists>l its k. scroll_loop near mark ts w =
    ret (w\<lparr>wi_list := l, wi_items := its, wi_stack := drop k ts\<rparr>)"
proof (induction near mark ts w rule: scroll_loop.induct)
  case (1 near mark ts w)
  show ?case
  proof (cases "ts \<noteq> [] \<and> near (on_screen w)")
    case True
    have "list_all (thunk_ok (wi_docs w)) (take 10 ts)" "list_all (thunk_ok (wi_docs w)) (drop 10 ts)"
      using "1.prems" by (auto simp: list_all_iff dest: in_set_takeD in_set_dropD)
    then obtain l its where run: "fold_run (run_thunk mark) (take 10 ts) w = ret (w\<lparr>wi_list := l, wi_items := its\<rparr>)"
      using run_thunks_ok by blast
    from "1.IH" [OF True run refl] \<open>list_all (thunk_ok (wi_docs w)) (drop 10 ts)\<close>
    obtain l' its' k where "scroll_loop near mark (drop 10 ts) (w\<lparr>wi_list := l, wi_items := its\<rparr>)
        = ret (w\<lparr>wi_list := l', wi_items := its', wi_stack := drop k (drop 10 ts)\<rparr>)" by auto
    then show ?thesis using True run
      by (subst scroll_loop.simps, simp, intro exI [of _ l'] exI [of _ its'] exI [of _ "k + 10"]) simp
  next
    case False
    then have "scroll_loop near mark ts w = ret (w\<lparr>wi_stack := ts\<rparr>)" by (subst scroll_loop.simps) auto
    then show ?thesis by (intro exI [of _ "wi_list w"] exI [of _ "wi_items w"] exI [of _ 0]) simp
  qed
qed

section \<open>The index of the site\<close>

definition site_setup :: "'v numbers \<Rightarrow> settings \<Rightarrow> ('v, lunr_fn) lunr_builder" where
  "site_setup A cfg =
     (lunr_start A)\<lparr>bd_pipeline := widget_stages cfg,
       bd_fields := [(''title'', \<lparr>fa_boost = Some (a_num A 10), fa_extractor = None\<rparr>),
                     (''text'', \<lparr>fa_boost = None, fa_extractor = None\<rparr>)],
       bd_ref := ''location''\<rparr>"

lemma widget_builder_setup:
  "length (se_languages cfg) \<le> 1 \<Longrightarrow> widget_builder A cfg = ret (site_setup A cfg)"
  by (simp add: widget_builder_def Let_def add_field_def set_ref_def site_setup_def add_stages_def lunr_start_def
      new_lunr_builder_def)

lemma site_setup_configured: "configured (site_setup A cfg)"
  by (simp add: configured_def site_setup_def lunr_start_def new_lunr_builder_def fresh_def)

lemma site_setup_fields: "map fst (bd_fields (site_setup A cfg)) = [''title'', ''text'']"
  by (simp add: site_setup_def)

lemma entry_doc_ref: "doc_ref (site_setup A cfg) (entry_doc n) = en_location n"
  by (simp add: doc_ref_def site_setup_def entry_doc_def member_of_def)

lemma site_refs:
  assumes "docs_ok D"
  shows "map (doc_ref (site_setup A cfg) \<circ> fst) (site_documents D) = map fst (si_map D)"
  using assms by (auto simp: site_documents_def docs_ok_def entry_doc_ref)

text \<open>
  What is asked of the data of a site: no digits in its terms (\<open>digits_confuse_token_sets\<close>), and
  an arithmetic that tells the numbers of its terms apart.
\<close>

definition site_ok :: "'v numbers \<Rightarrow> settings \<Rightarrow> raw_doc list \<Rightarrow> bool" where
  "site_ok A cfg ts \<longleftrightarrow> length (se_languages cfg) \<le> 1
     \<and> digit_free (site_setup A cfg) (map fst (site_documents (read_docs ts) :: (document \<times> 'v option) list))
     \<and> (\<forall>b. add_docs lunr_act (site_documents (read_docs ts)) (site_setup A cfg) = ret b \<longrightarrow> numbers_differ A b)"

section \<open>A state of the search field\<close>

definition widget_sound :: "'v numbers \<Rightarrow> settings \<Rightarrow> raw_doc list \<Rightarrow> 'v widget \<Rightarrow> bool" where
  "widget_sound A cfg ts w \<longleftrightarrow> list_all (thunk_ok (wi_docs w)) (wi_stack w)
     \<and> (case wi_index w of None \<Rightarrow> True
        | Some (ix, h) \<Rightarrow> wi_docs w = read_docs ts \<and> indexes (site_setup A cfg) (site_documents (read_docs ts)) ix h)"

lemma load_sound:
  assumes "site_ok A cfg ts"
  shows "\<exists>w'. load_site A cfg ts w = ret w' \<and> widget_sound A cfg ts w' \<and> wi_index w' \<noteq> None
    \<and> wi_value w' = wi_value w"
proof -
  let ?b = "site_setup A cfg" and ?ds = "site_documents (read_docs ts) :: (document \<times> 'a option) list"
  let ?h = "case wi_index w of None \<Rightarrow> empty_heap | Some (ix, h) \<Rightarrow> h"
  have ok: "widget_builder A cfg = ret ?b" "digit_free ?b (map fst ?ds)"
    "\<And>b. add_docs lunr_act ?ds ?b = ret b \<Longrightarrow> numbers_differ A b"
    using assms by (simp_all add: site_ok_def widget_builder_setup)
  obtain b1 where b1: "add_docs lunr_act ?ds ?b = ret b1"
    "numbers_differ A b1 \<longrightarrow> (\<exists>ix h1. build_index A b1 ?h = ret (ix, h1) \<and> indexes ?b ?ds ix h1)"
    using build_indexes [OF site_setup_configured ok(2), of A ?h] by blast
  then obtain ix h1 where ix: "build_index A b1 ?h = ret (ix, h1)" "indexes ?b ?ds ix h1" using ok(3) by blast
  show ?thesis
    using ix(2) by (simp add: load_site_def Let_def ok(1) b1(1) ix(1) widget_sound_def)
qed

lemma widget_clauses:
  "q_clauses (widget_query v fs) = map (\<lambda>e. \<lparr>cl_fields = Some fs, cl_boost = Some 1, cl_usePipeline = Some True,
       cl_wildcard = Some wildcard_TRAILING, cl_presence = Some OPTIONAL,
       cl_term = (if drop (length e - 1) e \<noteq> ''*'' then e @ ''*'' else e), cl_editDistance = None\<rparr>)
     (filter (\<lambda>e. e \<noteq> []) (split_at CHR '' '' (lower v)))"
proof -
  have "q_clauses (fold (\<lambda>e. query_term_clause e (empty_clause\<lparr>cl_wildcard := Some wildcard_TRAILING\<rparr>)) es q)
      = q_clauses q @ map (\<lambda>e. \<lparr>cl_fields = Some (q_allFields q), cl_boost = Some 1, cl_usePipeline = Some True,
       cl_wildcard = Some wildcard_TRAILING, cl_presence = Some OPTIONAL,
       cl_term = (if drop (length e - 1) e \<noteq> ''*'' then e @ ''*'' else e), cl_editDistance = None\<rparr>) es" for es q
    by (induction es arbitrary: q) (simp_all add: query_term_clause_def clause_add_def Let_def empty_clause_def
        or_default_def trailing_wildcard_def leading_wildcard_def)
  then show ?thesis by (simp add: widget_query_def)
qed

lemma widget_answerable: "list_all (answerable (site_setup A cfg)) (q_clauses (widget_query v [''title'', ''text'']))"
proof -
  have "field_names (site_setup A cfg) = {''title'', ''text''}" by (simp add: site_setup_def)
  then show ?thesis
    by (auto simp: widget_clauses list_all_iff answerable_def clause_fields_def)
qed

text \<open>The locations of the documents that a text selects.\<close>

definition selected_locations :: "'v numbers \<Rightarrow> settings \<Rightarrow> raw_doc list \<Rightarrow> string \<Rightarrow> string set" where
  "selected_locations A cfg ts v =
     {k \<in> fst ` set (si_map (read_docs ts)). \<exists>e. get_entry (read_docs ts) k = Some e
        \<and> doc_selected (site_setup A cfg) (widget_query v [''title'', ''text'']) (entry_doc e)}"

definition outline :: "'v widget \<Rightarrow> (string \<times> string list) list" where
  "outline w = map (\<lambda>it. (sh_href (it_page it), map sh_href (it_sections it))) (on_screen w)"

lemma selected_refs:
  assumes ok: "docs_ok (read_docs ts)"
  shows "doc_ref (site_setup A cfg) ` {e \<in> fst ` set (site_documents (read_docs ts)).
      doc_selected (site_setup A cfg) (widget_query v [''title'', ''text'']) e} = selected_locations A cfg ts v"
    (is "?l = ?r")
proof (intro set_eqI iffI)
  fix k assume "k \<in> ?l"
  then obtain l n where n: "(l, n) \<in> set (si_map (read_docs ts))" "k = en_location (si_heap (read_docs ts) ! n)"
    "doc_selected (site_setup A cfg) (widget_query v [''title'', ''text'']) (entry_doc (si_heap (read_docs ts) ! n))"
    by (auto simp: site_documents_def entry_doc_ref)
  then have "k = l" using ok by (simp add: docs_ok_def)
  moreover have "map_of (si_map (read_docs ts)) l = Some n" using n(1) ok by (simp add: docs_ok_def)
  ultimately show "k \<in> ?r" using n by (force simp: selected_locations_def get_entry_def)
next
  fix k assume "k \<in> ?r"
  then obtain n where n: "map_of (si_map (read_docs ts)) k = Some n"
    "doc_selected (site_setup A cfg) (widget_query v [''title'', ''text'']) (entry_doc (si_heap (read_docs ts) ! n))"
    by (auto simp: selected_locations_def get_entry_def)
  then have in_map: "(k, n) \<in> set (si_map (read_docs ts))" by (simp add: map_of_SomeD)
  then have "k = doc_ref (site_setup A cfg) (entry_doc (si_heap (read_docs ts) ! n))"
    using ok by (simp add: entry_doc_ref docs_ok_def)
  with in_map n(2) show "k \<in> ?l" by (force simp: site_documents_def)
qed

section \<open>Searching\<close>

lemma grouped_known:
  assumes ok: "docs_ok D" and rs: "\<forall>r \<in> set rs. get_entry D r \<noteq> None"
  shows "\<forall>g \<in> set (grouped D rs). get_entry D (fst g) \<noteq> None \<and> (\<forall>r \<in> set (snd g). get_entry D r \<noteq> None)"
proof -
  have "get_entry D (page_of D r) \<noteq> None" if "r \<in> set rs" for r
  proof -
    from rs that obtain n where n: "get_entry D r = Some n" by blast
    show ?thesis
    proof (cases "parent_location D n")
      case None
      then show ?thesis using n get_entry_known(2) [OF ok n] by (simp add: page_of_def)
    next
      case (Some p)
      then have "get_entry D p \<noteq> None"
        unfolding get_entry_known(1) [OF ok, of p] by (rule parent_location_known [OF ok n])
      then show ?thesis using n Some by (simp add: page_of_def)
    qed
  qed
  then show ?thesis using rs by (auto simp: grouped_def)
qed

lemma search_runs:
  assumes sound: "widget_sound A cfg ts w" and ix: "wi_index w = Some (ix, h)"
    and new: "wi_value w \<noteq> Some v" "v \<noteq> []" and e: "e \<noteq> Other_event"
  shows "\<exists>results h' w1 w2. index_query A lunr_act ix (widget_query v [''title'', ''text'']) h = ret (results, h')
    \<and> update_widget A cfg mark room e v w = ret w1 \<and> widget_sound A cfg ts w1
    \<and> finish mark w1 = ret w2 \<and> distinct (map lr_ref results)
    \<and> sorted_wrt (\<lambda>x y. lr_score y \<le> lr_score x) results
    \<and> lr_ref ` set results = selected_locations A cfg ts v
    \<and> outline w2 = grouped (read_docs ts) (map lr_ref results)
    \<and> wi_meta w1 = result_message cfg (length (outline w2))"
proof -
  let ?D = "read_docs ts" and ?b = "site_setup A cfg" and ?t = "widget_query v [''title'', ''text'']"
  have ok: "docs_ok ?D" by (rule read_docs_ok)
  have idx: "indexes ?b (site_documents ?D) ix h" and docs: "wi_docs w = ?D"
    using sound ix by (simp_all add: widget_sound_def)
  have fields: "distinct (map fst (bd_fields ?b))" by (simp add: site_setup_def)
  have refs: "distinct (map (doc_ref ?b \<circ> fst) (site_documents ?D :: (document \<times> 'a option) list))"
    unfolding site_refs [OF ok] using ok by (simp add: docs_ok_def)
  from indexes_answers [where A = A, OF idx fields refs widget_answerable [of A cfg v]]
  obtain results h' where q: "index_query A lunr_act ix ?t h = ret (results, h')"
    "indexes ?b (site_documents ?D) ix h'" "distinct (map lr_ref results)"
    "sorted_wrt (\<lambda>x y. lr_score y \<le> lr_score x) results" "lr_ref ` set results = selected_locations A cfg ts v"
    unfolding selected_refs [OF ok] by (elim exE conjE) (rule that)
  let ?gs = "grouped ?D (map lr_ref results)"
  have "\<forall>r \<in> set (map lr_ref results). get_entry ?D r \<noteq> None"
    using q(5) by (auto simp: selected_locations_def set_eq_iff image_iff)
  note known = grouped_known [OF ok this] hits_grouped [OF this, of "[]"]
  let ?items = "map (\<lambda>g. \<lparr>it_page = show_page mark v (the (get_entry ?D (fst g))), it_sections = []\<rparr>) ?gs"
  let ?stack = "concat (map (\<lambda>(i, g). Show_page i # map (Show_section i v) (snd g)) (enumerate 0 ?gs))"
  have groups: "fold_run (add_hit ?D) (map lr_ref results) [] = ret ?gs"
    using known(2) by (simp add: grouped_def)
  have items: "fold_run (add_item mark v ?D) ?gs ([], []) = ret (?items, ?stack)"
    using add_items [of ?gs ?D mark v "[]" "[]"] known(1) by simp
  let ?w = "w\<lparr>wi_list := [], wi_value := Some v, wi_index := Some (ix, h'), wi_items := ?items\<rparr>"
  have "list_all (thunk_ok (wi_docs ?w)) ?stack"
    using known(1) by (fastforce simp: docs list_all_iff enumerate_eq_zip dest: set_zip_rightD)
  then obtain l its k where fill: "fill room mark ?stack ?w = ret (?w\<lparr>wi_list := l, wi_items := its, wi_stack := drop k ?stack\<rparr>)"
    using fill_ok by blast
  let ?w1 = "?w\<lparr>wi_list := l, wi_items := its, wi_stack := drop k ?stack\<rparr>"
  let ?w2 = "(?w\<lparr>wi_stack := []\<rparr>)\<lparr>wi_list := [0..<length ?gs], wi_items := map (\<lambda>g.
      \<lparr>it_page = show_page mark v (the (get_entry ?D (fst g))),
       it_sections = map (\<lambda>r. show_section mark v (the (get_entry ?D r))) (snd g)\<rparr>) ?gs\<rparr>"
  have "fold_run (run_thunk mark) ?stack (?w\<lparr>wi_stack := []\<rparr>) = ret ?w2"
    using run_pages [of ?gs ?D "?w\<lparr>wi_stack := []\<rparr>" 0 "[]" _ mark v] known(1) by (simp add: docs)
  then have fin: "finish mark ?w1 = ret ?w2" using fill_finish [OF fill] by simp
  have "get_entry ?D (fst g) = Some (the (get_entry ?D (fst g)))" if "g \<in> set ?gs" for g
    using known(1) that by fastforce
  then have page: "en_location (the (get_entry ?D (fst g))) = fst g" if "g \<in> set ?gs" for g
    using get_entry_known(2) [OF ok] that by blast
  have "get_entry ?D r = Some (the (get_entry ?D r))" if "g \<in> set ?gs" "r \<in> set (snd g)" for g r
    using known(1) that by fastforce
  then have part: "en_location (the (get_entry ?D r)) = r" if "g \<in> set ?gs" "r \<in> set (snd g)" for g r
    using get_entry_known(2) [OF ok] that by blast
  have "on_screen ?w2 = wi_items ?w2" unfolding on_screen_def by (simp add: map_nth [of "wi_items ?w2", simplified])
  then have "outline ?w2 = map (\<lambda>g. (en_location (the (get_entry ?D (fst g))),
      map (\<lambda>r. en_location (the (get_entry ?D r))) (snd g))) ?gs"
    by (simp add: outline_def show_page_def show_section_def comp_def)
  also have "\<dots> = map (\<lambda>g. g) ?gs"
  proof (rule map_cong [OF refl])
    fix g assume g: "g \<in> set ?gs"
    have "map (\<lambda>r. en_location (the (get_entry ?D r))) (snd g) = map (\<lambda>r. r) (snd g)"
      by (rule map_cong [OF refl]) (rule part [OF g])
    with page [OF g] show "(en_location (the (get_entry ?D (fst g))),
        map (\<lambda>r. en_location (the (get_entry ?D r))) (snd g)) = g" by simp
  qed
  finally have outline: "outline ?w2 = ?gs" by simp
  let ?m = "result_message cfg (length ?gs)"
  have fs: "ix_fields ix = [''title'', ''text'']"
    using idx by (simp add: indexes_def site_setup_fields)
  have run: "update_widget A cfg mark room e v w = ret (?w1\<lparr>wi_meta := ?m\<rparr>)"
    using e new ix q(1) groups items fill by (simp add: update_widget_def Let_def fs docs)
  have fin': "finish mark (?w1\<lparr>wi_meta := ?m\<rparr>) = ret (?w2\<lparr>wi_meta := ?m\<rparr>)"
    unfolding finish_meta fin then_run_simps by (rule refl)
  have "outline (?w2\<lparr>wi_meta := ?m\<rparr>) = ?gs" using outline by (simp add: outline_def on_screen_def)
  moreover have "widget_sound A cfg ts (?w1\<lparr>wi_meta := ?m\<rparr>)"
    using list_all_drop [OF \<open>list_all (thunk_ok (wi_docs ?w)) ?stack\<close>, of k] q(2)
    by (simp add: widget_sound_def docs)
  ultimately show ?thesis
    by (intro exI [of _ results] exI [of _ h'] exI [of _ "?w1\<lparr>wi_meta := ?m\<rparr>"] exI [of _ "?w2\<lparr>wi_meta := ?m\<rparr>"])
       (use q(1,3,4,5) run fin' in simp)
qed

section \<open>All states of the search field\<close>

lemma update_sound:
  assumes sound: "widget_sound A cfg ts w"
  shows "\<exists>w'. update_widget A cfg mark room e v w = ret w' \<and> widget_sound A cfg ts w'"
proof (cases "wi_index w")
  case None
  then show ?thesis using sound by (simp add: update_widget_def widget_sound_def)
next
  case (Some ixh)
  obtain ix h where ix: "ixh = (ix, h)" by (cases ixh)
  show ?thesis
  proof (cases "e = Other_event \<or> wi_value w = Some v \<or> v = []")
    case True
    then show ?thesis using sound Some ix by (auto simp: update_widget_def widget_sound_def Let_def)
  next
    case False
    with search_runs [OF sound, of ix h v e mark room] Some ix show ?thesis by blast
  qed
qed

lemma scroll_sound:
  assumes sound: "widget_sound A cfg ts w"
  shows "\<exists>w'. on_scroll near mark w = ret w' \<and> widget_sound A cfg ts w'"
proof -
  have "widget_sound A cfg ts w \<Longrightarrow>
      \<exists>w'. fold_run (\<lambda>_ w. scroll_loop near mark (wi_stack w) w) ks w = ret w' \<and> widget_sound A cfg ts w'"
    for ks :: "nat list"
  proof (induction ks arbitrary: w)
    case (Cons k ks)
    then have thunks: "list_all (thunk_ok (wi_docs w)) (wi_stack w)" by (simp add: widget_sound_def)
    then obtain l its j where 1: "scroll_loop near mark (wi_stack w) w
        = ret (w\<lparr>wi_list := l, wi_items := its, wi_stack := drop j (wi_stack w)\<rparr>)"
      using scroll_ok by blast
    have "widget_sound A cfg ts (w\<lparr>wi_list := l, wi_items := its, wi_stack := drop j (wi_stack w)\<rparr>)"
      using Cons.prems list_all_drop [OF thunks, of j] by (cases "wi_index w") (simp_all add: widget_sound_def split: prod.splits)
    from Cons.IH [OF this] 1 show ?case by simp
  qed simp
  then show ?thesis using sound by (simp add: on_scroll_def)
qed

lemma widget_run_sound: "widget_run A cfg mark ts w \<Longrightarrow> site_ok A cfg ts \<Longrightarrow> widget_sound A cfg ts w"
proof (induction rule: widget_run.induct)
  case start
  show ?case by (simp add: widget_sound_def new_widget_def)
next
  case (typed w room e v w')
  with update_sound [of A cfg ts w mark room e v] show ?case by auto
next
  case (loaded w w')
  with load_sound [of A cfg ts w] show ?case by auto
next
  case (scrolled w near w')
  with scroll_sound [of A cfg ts w near mark] show ?case by auto
qed

section \<open>What the reader sees\<close>

text \<open>
  C9. On a site without digits in its terms and with at most one language, in an arithmetic that
  tells the numbers of the terms apart (\<open>site_ok\<close>), with the index loaded and whatever has been
  typed, loaded and scrolled before: the event of typing a new, non-empty text never throws, and
  what the reader sees after scrolling to the end are the pages of exactly the documents the text
  selects, each page once, in the order of the best result on it, and under each page its
  selected sections, in the order of their scores; the message counts the pages. A document is
  selected if one of the words typed, with a wildcard at its end, matches one of its terms.
\<close>

theorem search_shows_selected:
  assumes "widget_run A cfg mark ts w" and "site_ok A cfg ts"
    and "wi_index w = Some (ix, h)" and "wi_value w \<noteq> Some v" and "v \<noteq> []" and "e \<noteq> Other_event"
  shows "\<exists>results h' w1 w2. index_query A lunr_act ix (widget_query v [''title'', ''text'']) h = ret (results, h')
    \<and> update_widget A cfg mark room e v w = ret w1 \<and> finish mark w1 = ret w2
    \<and> distinct (map lr_ref results) \<and> sorted_wrt (\<lambda>x y. lr_score y \<le> lr_score x) results
    \<and> lr_ref ` set results = selected_locations A cfg ts v
    \<and> outline w2 = grouped (read_docs ts) (map lr_ref results)
    \<and> wi_meta w1 = result_message cfg (length (outline w2))"
  using search_runs [OF widget_run_sound [OF assms(1,2)] assms(3-6), of mark room] by blast

text \<open>Scrolling never throws, and however the layout lets it show more, what the reader will have seen at
  the end stays the same: nothing is skipped, repeated or put in another order.\<close>

lemma scrolling_keeps_results:
  assumes "widget_run A cfg mark ts w" and "site_ok A cfg ts"
  shows "\<exists>w1. on_scroll near mark w = ret w1 \<and> finish mark w1 = finish mark w"
  using scroll_sound [OF widget_run_sound [OF assms], of near mark] on_scroll_finish [of near mark w] by blast

text \<open>A site with a page of two sections and a page without; the first section gives the page its title.\<close>

definition english :: settings where
  "english = \<lparr>se_languages = [''en''], se_trimmer = ''True'', se_stopwords = ''True'', se_placeholder = ''Type'',
     se_none = ''No matching documents'', se_one = ''1 matching document'', se_other = ''# matching documents''\<rparr>"

definition guide_docs :: "raw_doc list" where
  "guide_docs =
     [\<lparr>rd_location = ''guide.html'', rd_title = ''Guide'', rd_text = ''Ports and updates''\<rparr>,
      \<lparr>rd_location = ''guide.html#ports'', rd_title = ''Ports'', rd_text = ''Open a port  , send''\<rparr>,
      \<lparr>rd_location = ''guide.html#updates'', rd_title = ''Updates'', rd_text = ''Send a file''\<rparr>,
      \<lparr>rd_location = ''tools.html'', rd_title = ''Tools'', rd_text = ''Other''\<rparr>]"

lemma guide_read:
  "read_docs guide_docs =
     \<lparr>si_heap =
        [\<lparr>en_location = ''guide.html'', en_title = ''Ports'', en_text = ''Open a port  , send'', en_parent = None, en_done = True\<rparr>,
         \<lparr>en_location = ''guide.html#ports'', en_title = ''Ports'', en_text = ''Open a port, send'', en_parent = Some 0, en_done = False\<rparr>,
         \<lparr>en_location = ''guide.html#updates'', en_title = ''Updates'', en_text = ''Send a file'', en_parent = Some 0, en_done = False\<rparr>,
         \<lparr>en_location = ''tools.html'', en_title = ''Tools'', en_text = ''Other'', en_parent = None, en_done = False\<rparr>],
      si_map = [(''guide.html'', 0), (''guide.html#updates'', 2), (''tools.html'', 3)]\<rparr>"
  by code_simp

lemma guide_ok: "site_ok int_numbers english guide_docs"
proof -
  have "digit_free (site_setup int_numbers english)
      (map fst (site_documents (read_docs guide_docs) :: (document \<times> int option) list))"
    unfolding guide_read by code_simp
  moreover have "numbers_differ int_numbers b" for b :: "(int, lunr_fn) lunr_builder"
    by (simp add: numbers_differ_def int_numbers_def int_arith_def arith.extend_def inj_on_def)
  ultimately show ?thesis by (simp add: site_ok_def english_def)
qed

lemma selected_locations_list:
  assumes ok: "docs_ok (read_docs ts)"
  shows "selected_locations A cfg ts v = fst ` {(k, n) \<in> set (si_map (read_docs ts)).
     doc_selected (site_setup A cfg) (widget_query v [''title'', ''text'']) (entry_doc (si_heap (read_docs ts) ! n))}"
proof -
  have "map_of (si_map (read_docs ts)) k = Some n \<longleftrightarrow> (k, n) \<in> set (si_map (read_docs ts))" for k n
    using ok by (simp add: docs_ok_def)
  then show ?thesis by (auto simp: selected_locations_def get_entry_def) force+
qed

lemma guide_filter:
  "filter (\<lambda>(k, n). doc_selected (site_setup int_numbers english) (widget_query ''Up'' [''title'', ''text''])
     (entry_doc (si_heap (read_docs guide_docs) ! n))) (si_map (read_docs guide_docs)) = [(''guide.html#updates'', 2)]"
  unfolding guide_read by code_simp

lemma guide_loaded:
  "\<exists>w ix h. widget_run int_numbers english mark guide_docs w \<and> wi_index w = Some (ix, h) \<and> wi_value w = None"
proof -
  let ?w = "(new_widget english :: int widget)\<lparr>wi_loads := 1\<rparr>"
  have "update_widget int_numbers english mark (\<lambda>_. True) Focus [] (new_widget english) = ret ?w"
    by (simp add: update_widget_def new_widget_def)
  with widget_run.start have run: "widget_run int_numbers english mark guide_docs ?w" by (rule widget_run.typed)
  obtain w where w: "load_site int_numbers english guide_docs ?w = ret w" "wi_index w \<noteq> None" "wi_value w = wi_value ?w"
    using load_sound [OF guide_ok, of ?w] by blast
  have "widget_run int_numbers english mark guide_docs w"
    by (rule widget_run.loaded [OF run _ w(1)]) simp
  moreover obtain ix h where "wi_index w = Some (ix, h)" using w(2) by auto
  ultimately show ?thesis using w(3) by (auto simp: new_widget_def)
qed

lemma guide_hits: "selected_locations int_numbers english guide_docs ''Up'' = {''guide.html#updates''}"
  unfolding selected_locations_list [OF read_docs_ok] using guide_filter
  by (simp flip: set_filter add: split_def)

theorem search_shows_selected_witness:
  "\<exists>w w1 w2. widget_run int_numbers english (\<lambda>_ t. t) guide_docs w
    \<and> update_widget int_numbers english (\<lambda>_ t. t) (\<lambda>_. False) Keyup ''Up'' w = ret w1
    \<and> finish (\<lambda>_ t. t) w1 = ret w2 \<and> outline w2 = [(''guide.html'', [''guide.html#updates''])]
    \<and> wi_meta w1 = ''1 matching document''"
proof -
  obtain w ix h where w: "widget_run int_numbers english (\<lambda>_ t. t) guide_docs w" "wi_index w = Some (ix, h)"
    "wi_value w = None" using guide_loaded by blast
  have "wi_value w \<noteq> Some ''Up''" "''Up'' \<noteq> []" "Keyup \<noteq> Other_event" using w(3) by simp_all
  from search_shows_selected [OF w(1) guide_ok w(2) this, of "\<lambda>_. False"]
  obtain results :: "int lunr_result list" and w1 w2 where r: "update_widget int_numbers english (\<lambda>_ t. t) (\<lambda>_. False) Keyup ''Up'' w = ret w1"
    "finish (\<lambda>_ t. t) w1 = ret w2" "distinct (map lr_ref results)" "lr_ref ` set results = {''guide.html#updates''}"
    "outline w2 = grouped (read_docs guide_docs) (map lr_ref results)"
    "wi_meta w1 = result_message english (length (outline w2))"
    unfolding guide_hits by (elim exE conjE) (rule that)
  have "map lr_ref results = [''guide.html#updates'']"
    using r(3,4) by (cases results; cases "tl results") auto
  then have "outline w2 = [(''guide.html'', [''guide.html#updates''])]"
    by (simp add: r(5) guide_read) code_simp
  with w(1) r(1,2,6) show ?thesis
    by (intro exI [of _ w] exI [of _ w1] exI [of _ w2]) (simp add: result_message_def english_def)
qed

lemma scrolling_keeps_results_witness:
  "\<exists>w w1 w2. widget_run int_numbers english (\<lambda>_ t. t) guide_docs w
    \<and> on_scroll (\<lambda>_. True) (\<lambda>_ t. t) w = ret w1 \<and> finish (\<lambda>_ t. t) w1 = finish (\<lambda>_ t. t) w \<and> wi_index w \<noteq> None"
proof -
  obtain w ix h where w: "widget_run int_numbers english (\<lambda>_ t. t) guide_docs w" "wi_index w = Some (ix, h)"
    using guide_loaded by blast
  with scrolling_keeps_results [OF w(1) guide_ok, of "\<lambda>_. True"] show ?thesis by blast
qed

text \<open>A text of blanks only has no words, and selects everything.\<close>

lemma blank_search_lists_all:
  "set v \<subseteq> {CHR '' ''} \<Longrightarrow> selected_locations A cfg ts v = fst ` set (si_map (read_docs ts))"
proof -
  assume "set v \<subseteq> {CHR '' ''}"
  then have "set (split_at CHR '' '' (lower v)) \<subseteq> {[]}"
    by (induction v) (auto simp: lower_def lower_char_def Let_def split: list.split)
  then have "filter (\<lambda>e. e \<noteq> []) (split_at CHR '' '' (lower v)) = []" by (auto simp: filter_empty_conv)
  then have "q_clauses (widget_query v [''title'', ''text'']) = []" by (simp add: widget_clauses)
  then have "doc_selected (site_setup A cfg) (widget_query v [''title'', ''text'']) (entry_doc e)" for e
    by (simp add: doc_selected_def isNegated_def)
  moreover have "\<exists>e. get_entry (read_docs ts) k = Some e" if "k \<in> fst ` set (si_map (read_docs ts))" for k
    using that get_entry_known(1) [OF read_docs_ok, of ts k] by auto
  ultimately show ?thesis by (auto simp: selected_locations_def)
qed

text \<open>A teaser is the text, or what comes before a blank near the limit (or nothing) and dots.\<close>

lemma cut_at_bounds: "cut_at e t \<le> t \<and> (cut_at e t = 0 \<or> e ! cut_at e t = CHR '' '')"
  by (induction t) auto

lemma teaser_bounds:
  "length (teaser e t) \<le> max (length e) (t + 3) \<and> (t < length e \<longrightarrow> length (teaser e t) \<le> t + 3)
    \<and> (\<exists>n. teaser e t = e \<or> teaser e t = take n e @ ''...'' \<and> (n = 0 \<or> e ! n = CHR '' ''))"
  using cut_at_bounds [of e t] by (auto simp: teaser_def)

text \<open>
  Emptying the search field does not empty the stack: what was not yet shown of the last results
  is shown when the reader scrolls, below the message of the empty field.
\<close>

lemma fill_no_room: "fill (\<lambda>_. False) mark ts w = ret (w\<lparr>wi_stack := ts\<rparr>)"
  by (cases ts) simp_all

lemma run_thunks_value:
  "fold_run (run_thunk mark) us (w\<lparr>wi_value := v\<rparr>) =
    then_run (fold_run (run_thunk mark) us w) (\<lambda>w. ret (w\<lparr>wi_value := v\<rparr>))"
proof (induction us arbitrary: w)
  case (Cons u us)
  have "run_thunk mark u (w\<lparr>wi_value := v\<rparr>) = then_run (run_thunk mark u w) (\<lambda>w. ret (w\<lparr>wi_value := v\<rparr>))"
    by (cases u; cases "\<exists>e. \<exists>r. get_entry (wi_docs w) r = Some e")
       (auto simp: run_thunk_def Let_def need_def split: option.split)
  then show ?case
    by (cases "run_thunk mark u w" rule: option.exhaust; (cases "the (run_thunk mark u w)" rule: sum.exhaust)?)
       (simp_all add: Cons.IH)
qed simp

lemma cleared_search_shows_old_results:
  assumes run: "widget_run A cfg mark ts w" and site: "site_ok A cfg ts" and ix: "wi_index w = Some (ix, h)"
    and new: "wi_value w \<noteq> Some v" "v \<noteq> []" and some: "selected_locations A cfg ts v \<noteq> {}"
  shows "\<exists>w1 w2 w3. update_widget A cfg mark (\<lambda>_. False) Keyup v w = ret w1
    \<and> update_widget A cfg mark (\<lambda>_. False) Keyup [] w1 = ret w2 \<and> wi_meta w2 = se_placeholder cfg
    \<and> wi_value w2 = Some [] \<and> on_screen w2 = [] \<and> finish mark w2 = ret w3 \<and> on_screen w3 \<noteq> []"
proof -
  from search_runs [OF widget_run_sound [OF run site] ix new ui_event.distinct(5), of mark "\<lambda>_. False"]
  obtain results :: "'a lunr_result list" and h' w1 w2 where
    r: "index_query A lunr_act ix (widget_query v [''title'', ''text'']) h = ret (results, h')"
    "update_widget A cfg mark (\<lambda>_. False) Keyup v w = ret w1" "finish mark w1 = ret w2"
    "lr_ref ` set results = selected_locations A cfg ts v" "outline w2 = grouped (read_docs ts) (map lr_ref results)"
    by (elim exE conjE) (rule that)
  have "results \<noteq> []" using r(4) some by auto
  then have "firsts (map (page_of (read_docs ts)) (map lr_ref results)) \<noteq> []"
    by (metis firsts_simps(1) list.map_disc_iff set_empty)
  then have shown: "on_screen w2 \<noteq> []" using r(5) by (auto simp: outline_def grouped_def)
  have w1: "wi_list w1 = [] \<and> wi_value w1 = Some v \<and> wi_index w1 \<noteq> None"
    using r(2) ix new
    by (auto simp: update_widget_def Let_def fill_no_room then_run_def split: option.splits sum.splits prod.splits)
  let ?w1 = "w1\<lparr>wi_value := Some [], wi_meta := se_placeholder cfg\<rparr>"
  have "update_widget A cfg mark (\<lambda>_. False) Keyup [] w1 = ret ?w1"
    using w1 new(2) by (auto simp: update_widget_def Let_def)
  moreover have "finish mark ?w1 = ret (w2\<lparr>wi_value := Some [], wi_meta := se_placeholder cfg\<rparr>)"
  proof -
    have "w1\<lparr>wi_value := Some [], wi_stack := []\<rparr> = (w1\<lparr>wi_stack := []\<rparr>)\<lparr>wi_value := Some []\<rparr>" by simp
    then have "finish mark (w1\<lparr>wi_value := Some []\<rparr>) = ret (w2\<lparr>wi_value := Some []\<rparr>)"
      using r(3) unfolding finish_def by (simp only: run_thunks_value) simp
    then show ?thesis by (simp add: finish_meta)
  qed
  ultimately show ?thesis
    using r(2) w1 shown
    by (intro exI [of _ w1] exI [of _ ?w1] exI [of _ "w2\<lparr>wi_value := Some [], wi_meta := se_placeholder cfg\<rparr>"])
       (simp add: on_screen_def)
qed

end
