(* ===== verification/Tasks.thy ===== *)
theory Tasks
  imports Prelude
begin

text \<open>
  The queues of tasks of the second theme's bundle (\<open>application.js\<close>): \<open>setImmediate\<close>, on which the
  promises rest, and \<open>nextTick\<close> of the module \<open>process\<close>.

  \<^item> A callback is an element of a type, with its arguments; what it does to the queue while it
    runs (and whether it throws) may be anything, and is chosen at each step.
  \<^item> \<open>im_posted\<close> are the numbers on their way as messages (of whichever kind the browser has), which
    arrive in their order. \<open>tk_timers\<close> are the timers that are set, which fire in any order.
  \<^item> The loop of \<open>nextTick\<close> is modelled step by step (\<open>tk_pc\<close> says where it is), as a callback that
    throws leaves it in the middle, to be taken up by the timer it set before.
  \<^item> \<open>im_ran\<close>, \<open>im_cleared\<close>, \<open>tk_ran\<close> and \<open>tk_asked\<close> record what has happened.
\<close>

section \<open>\<open>setImmediate\<close>\<close>

record 'a immediates =
  im_c :: "nat \<rightharpoonup> 'a"
  im_s :: nat
  im_l :: bool
  im_posted :: "nat list"
  im_ran :: "nat list"
  im_cleared :: "nat list"

datatype 'a im_act = Set_immediate 'a | Clear_immediate nat

definition new_immediates :: "'a immediates" where
  "new_immediates = \<lparr>im_c = (\<lambda>_. None), im_s = 1, im_l = False, im_posted = [], im_ran = [], im_cleared = []\<rparr>"

definition setImmediate :: "'a \<Rightarrow> 'a immediates \<Rightarrow> 'a immediates" where
  "setImmediate x st =
     st\<lparr>im_c := (im_c st)(im_s st \<mapsto> x), im_posted := im_posted st @ [im_s st], im_s := im_s st + 1\<rparr>"

definition clearImmediate :: "nat \<Rightarrow> 'a immediates \<Rightarrow> 'a immediates" where
  "clearImmediate e st = st\<lparr>im_c := (im_c st)(e := None), im_cleared := e # im_cleared st\<rparr>"

fun do_act :: "'a im_act \<Rightarrow> 'a immediates \<Rightarrow> 'a immediates" where
  "do_act (Set_immediate x) st = setImmediate x st"
| "do_act (Clear_immediate e) st = clearImmediate e st"

text \<open>A message arrives; \<open>acts\<close> is what the callback does. It may throw: \<open>finally\<close> runs either way.\<close>

definition run_if_present :: "nat \<Rightarrow> 'a im_act list \<Rightarrow> 'a immediates \<Rightarrow> 'a immediates" where
  "run_if_present e acts st =
     (if im_l st then st\<lparr>im_posted := im_posted st @ [e]\<rparr>
      else
        (case im_c st e of
           None \<Rightarrow> st
         | Some x \<Rightarrow>
             let st = fold do_act acts (st\<lparr>im_l := True, im_ran := im_ran st @ [e]\<rparr>)
             in st\<lparr>im_c := (im_c st)(e := None), im_l := False\<rparr>))"

inductive immediates_run :: "'a immediates \<Rightarrow> bool" where
  start: "immediates_run new_immediates"
| called: "immediates_run st \<Longrightarrow> immediates_run (do_act a st)"
| message: "immediates_run st \<Longrightarrow> im_posted st = e # es \<Longrightarrow>
    immediates_run (run_if_present e acts (st\<lparr>im_posted := es\<rparr>))"

text \<open>\<open>e\<close> is the callback that runs, if one does.\<close>

definition im_inv :: "nat option \<Rightarrow> 'a immediates \<Rightarrow> bool" where
  "im_inv e st \<longleftrightarrow> sorted_wrt (<) (im_ran st @ im_posted st) \<and> (\<forall>i \<in> set (im_ran st @ im_posted st). i < im_s st)
     \<and> (\<forall>i. im_c st i \<noteq> None \<longrightarrow> i \<in> set (im_posted st) \<or> e = Some i) \<and> (\<forall>i. e = Some i \<longrightarrow> i \<in> set (im_ran st))
     \<and> (\<forall>i. 1 \<le> i \<longrightarrow> i < im_s st \<longrightarrow>
          i \<in> set (im_ran st) \<or> i \<in> set (im_cleared st) \<or> i \<in> set (im_posted st) \<and> im_c st i \<noteq> None)"

lemma do_act_inv: "im_inv e st \<Longrightarrow> im_inv e (do_act a st) \<and> im_l (do_act a st) = im_l st \<and> im_ran (do_act a st) = im_ran st"
proof (cases a)
  case (Set_immediate x)
  assume "im_inv e st"
  then show ?thesis
    by (auto simp: Set_immediate setImmediate_def im_inv_def sorted_wrt_append less_Suc_eq)
next
  case (Clear_immediate i)
  assume "im_inv e st"
  then show ?thesis by (auto simp: Clear_immediate clearImmediate_def im_inv_def)
qed

lemma do_acts_inv:
  "im_inv e st \<Longrightarrow> im_inv e (fold do_act acts st) \<and> im_l (fold do_act acts st) = im_l st
    \<and> im_ran (fold do_act acts st) = im_ran st"
  by (induction acts arbitrary: st) (simp_all add: do_act_inv)

lemma message_inv:
  assumes inv: "im_inv None st" "\<not> im_l st" and posted: "im_posted st = e # es"
  shows "im_inv None (run_if_present e acts (st\<lparr>im_posted := es\<rparr>))
    \<and> \<not> im_l (run_if_present e acts (st\<lparr>im_posted := es\<rparr>))"
proof (cases "im_c st e")
  case None
  then show ?thesis using inv posted by (auto simp: run_if_present_def im_inv_def sorted_wrt_append)
next
  case (Some x)
  let ?st = "st\<lparr>im_posted := es, im_l := True, im_ran := im_ran st @ [e]\<rparr>"
  have "im_inv (Some e) ?st" using inv posted by (auto simp: im_inv_def sorted_wrt_append)
  from do_acts_inv [OF this, of acts]
  have after: "im_inv (Some e) (fold do_act acts ?st)" "e \<in> set (im_ran (fold do_act acts ?st))" by simp_all
  then have "e \<notin> set (im_posted (fold do_act acts ?st))"
    by (auto simp: im_inv_def sorted_wrt_append)
  with after show ?thesis using inv(2) Some
    by (auto simp: run_if_present_def Let_def im_inv_def)
qed

lemma immediates_run_inv: "immediates_run st \<Longrightarrow> im_inv None st \<and> \<not> im_l st"
proof (induction rule: immediates_run.induct)
  case start
  show ?case by (simp add: im_inv_def new_immediates_def)
next
  case (called st a)
  then show ?case using do_act_inv by blast
next
  case (message st e es acts)
  then show ?case using message_inv by blast
qed

section \<open>\<open>nextTick\<close>\<close>

datatype tick_pc = Idle | Outer nat nat | Inner nat nat

datatype tick_timer = Drain | Cleanup

record 'a ticks =
  tk_l :: "'a list"
  tk_c :: "'a list option"
  tk_u :: bool
  tk_f :: int
  tk_timers :: "(nat \<times> tick_timer) list"
  tk_next :: nat
  tk_pc :: tick_pc
  tk_ran :: "'a list"
  tk_asked :: "'a list"

definition new_ticks :: "'a ticks" where
  "new_ticks = \<lparr>tk_l = [], tk_c = None, tk_u = False, tk_f = -1, tk_timers = [], tk_next = 0, tk_pc = Idle,
     tk_ran = [], tk_asked = []\<rparr>"

definition set_timer :: "tick_timer \<Rightarrow> 'a ticks \<Rightarrow> 'a ticks" where
  "set_timer k st = st\<lparr>tk_timers := tk_timers st @ [(tk_next st, k)], tk_next := tk_next st + 1\<rparr>"

definition nextTick :: "'a \<Rightarrow> 'a ticks \<Rightarrow> 'a ticks" where
  "nextTick x st =
     (let st = st\<lparr>tk_l := tk_l st @ [x], tk_asked := tk_asked st @ [x]\<rparr>
      in if length (tk_l st) \<noteq> 1 \<or> tk_u st then st else set_timer Drain st)"

text \<open>The functions \<open>h\<close> up to its loop, \<open>d\<close>, and one turn of the loops in \<open>h\<close>.\<close>

definition drainQueue :: "'a ticks \<Rightarrow> 'a ticks" where
  "drainQueue st =
     (if tk_u st then st
      else (set_timer Cleanup st)\<lparr>tk_u := True, tk_pc := Outer (length (tk_l st)) (tk_next st)\<rparr>)"

definition cleanUpNextTick :: "'a ticks \<Rightarrow> 'a ticks" where
  "cleanUpNextTick st =
     (case tk_c st of
        Some cs \<Rightarrow>
          if tk_u st then
            let st = st\<lparr>tk_u := False\<rparr>;
                st = (if cs \<noteq> [] then st\<lparr>tk_l := cs @ tk_l st\<rparr> else st\<lparr>tk_f := -1\<rparr>)
            in if tk_l st \<noteq> [] then drainQueue st else st
          else st
      | None \<Rightarrow> st)"

text \<open>The callback run asks for \<open>ys\<close>, then throws or not.\<close>

definition loop_turn :: "'a list \<Rightarrow> bool \<Rightarrow> 'a ticks \<Rightarrow> 'a ticks" where
  "loop_turn ys throws st =
     (case tk_pc st of
        Idle \<Rightarrow> st
      | Outer t e \<Rightarrow>
          if t \<noteq> 0 then st\<lparr>tk_c := Some (tk_l st), tk_l := [], tk_pc := Inner t e\<rparr>
          else st\<lparr>tk_c := None, tk_u := False, tk_timers := filter (\<lambda>(i, k). i \<noteq> e) (tk_timers st), tk_pc := Idle\<rparr>
      | Inner t e \<Rightarrow>
          let st = st\<lparr>tk_f := tk_f st + 1\<rparr>
          in if tk_f st < int t then
               (case tk_c st of
                  None \<Rightarrow> st
                | Some cs \<Rightarrow>
                    let st = fold nextTick ys (st\<lparr>tk_ran := tk_ran st @ [cs ! nat (tk_f st)]\<rparr>)
                    in if throws then st\<lparr>tk_pc := Idle\<rparr> else st)
             else st\<lparr>tk_f := -1, tk_pc := Outer (length (tk_l st)) e\<rparr>)"

definition fire_timer :: "tick_timer \<Rightarrow> 'a ticks \<Rightarrow> 'a ticks" where
  "fire_timer k st = (case k of Drain \<Rightarrow> drainQueue st | Cleanup \<Rightarrow> cleanUpNextTick st)"

inductive ticks_run :: "'a ticks \<Rightarrow> bool" where
  start: "ticks_run new_ticks"
| asked: "ticks_run st \<Longrightarrow> tk_pc st = Idle \<Longrightarrow> ticks_run (nextTick x st)"
| fired: "ticks_run st \<Longrightarrow> tk_pc st = Idle \<Longrightarrow> (i, k) \<in> set (tk_timers st) \<Longrightarrow>
    ticks_run (fire_timer k (st\<lparr>tk_timers := remove1 (i, k) (tk_timers st)\<rparr>))"
| turn: "ticks_run st \<Longrightarrow> tk_pc st \<noteq> Idle \<Longrightarrow> ticks_run (loop_turn ys throws st)"

text \<open>The callbacks that still wait; what holds between the steps.\<close>

definition tk_waiting :: "'a ticks \<Rightarrow> 'a list" where
  "tk_waiting st =
     (case tk_pc st of
        Idle \<Rightarrow> if tk_u st then drop (nat (tk_f st + 1)) (the (tk_c st)) @ tk_l st else tk_l st
      | Outer t e \<Rightarrow> drop (nat (tk_f st + 1)) (tk_l st)
      | Inner t e \<Rightarrow> drop (nat (tk_f st + 1)) (the (tk_c st)) @ tk_l st)"

definition tk_inv :: "'a ticks \<Rightarrow> bool" where
  "tk_inv st \<longleftrightarrow> tk_asked st = tk_ran st @ tk_waiting st \<and> -1 \<le> tk_f st
     \<and> (case tk_pc st of
          Idle \<Rightarrow>
            if tk_u st then (\<exists>cs. tk_c st = Some cs \<and> tk_f st < int (length cs)) \<and> (\<exists>i. (i, Cleanup) \<in> set (tk_timers st))
            else tk_f st = -1 \<and> (tk_l st \<noteq> [] \<longrightarrow> (\<exists>i. (i, Drain) \<in> set (tk_timers st)))
        | Outer t e \<Rightarrow> tk_u st \<and> t = length (tk_l st) \<and> (tk_f st = -1 \<or> tk_f st < int t) \<and> (e, Cleanup) \<in> set (tk_timers st)
        | Inner t e \<Rightarrow> tk_u st \<and> (\<exists>cs. tk_c st = Some cs \<and> t = length cs) \<and> tk_f st < int t
            \<and> (e, Cleanup) \<in> set (tk_timers st))"

lemma nextTick_inv:
  assumes "tk_inv st" "case tk_pc st of Outer t e \<Rightarrow> False | _ \<Rightarrow> True"
  shows "tk_inv (nextTick x st) \<and> tk_pc (nextTick x st) = tk_pc st \<and> tk_u (nextTick x st) = tk_u st
    \<and> tk_f (nextTick x st) = tk_f st \<and> tk_c (nextTick x st) = tk_c st"
  using assms
  by (cases "tk_l st"; cases "tk_u st")
     (auto simp: nextTick_def set_timer_def tk_inv_def tk_waiting_def Let_def split: tick_pc.splits)

lemma nextTicks_inv:
  "tk_inv st \<Longrightarrow> tk_pc st = Inner t e \<Longrightarrow>
    tk_inv (fold nextTick ys st) \<and> tk_pc (fold nextTick ys st) = Inner t e \<and> tk_u (fold nextTick ys st) = tk_u st
    \<and> tk_f (fold nextTick ys st) = tk_f st \<and> tk_c (fold nextTick ys st) = tk_c st"
proof (induction ys arbitrary: st)
  case (Cons y ys)
  from nextTick_inv [OF Cons.prems(1), of y] Cons.prems(2)
  have "tk_inv (nextTick y st)" "tk_pc (nextTick y st) = Inner t e" "tk_u (nextTick y st) = tk_u st"
    "tk_f (nextTick y st) = tk_f st" "tk_c (nextTick y st) = tk_c st" by simp_all
  with Cons.IH [of "nextTick y st"] show ?case by simp
qed simp

lemma in_remove1: "(j, k') \<in> set xs \<Longrightarrow> k' \<noteq> k \<Longrightarrow> (j, k') \<in> set (remove1 (i, k) xs)"
  by simp

lemma drain_inv:
  assumes "tk_inv st" "tk_pc st = Idle" and "ts = tk_timers st \<or> ts = remove1 (i, Drain) (tk_timers st)"
  shows "tk_inv (drainQueue (st\<lparr>tk_timers := ts\<rparr>))"
proof (cases "tk_u st")
  case True
  with assms show ?thesis
    by (auto simp: drainQueue_def tk_inv_def tk_waiting_def intro: in_remove1)
next
  case False
  with assms show ?thesis
    by (auto simp: drainQueue_def tk_inv_def tk_waiting_def set_timer_def)
qed

lemma cleanup_inv:
  assumes inv: "tk_inv st" "tk_pc st = Idle"
  shows "tk_inv (cleanUpNextTick (st\<lparr>tk_timers := remove1 (i, Cleanup) (tk_timers st)\<rparr>))"
proof (cases "tk_u st")
  case True
  then obtain cs where cs: "tk_c st = Some cs" "tk_f st < int (length cs)" "-1 \<le> tk_f st"
    using inv by (auto simp: tk_inv_def)
  show ?thesis
  proof (cases "cs = []")
    case False
    then have "drop (nat (tk_f st + 1)) (cs @ tk_l st) = drop (nat (tk_f st + 1)) cs @ tk_l st"
      using cs by simp
    with False cs True inv show ?thesis
      by (auto simp: cleanUpNextTick_def drainQueue_def set_timer_def tk_inv_def tk_waiting_def Let_def)
  next
    case True2: True
    with cs True inv show ?thesis
      by (cases "tk_l st")
         (auto simp: cleanUpNextTick_def drainQueue_def set_timer_def tk_inv_def tk_waiting_def Let_def)
  qed
next
  case False
  with inv show ?thesis
    by (auto simp: cleanUpNextTick_def tk_inv_def tk_waiting_def intro: in_remove1 split: option.splits)
qed

lemma turn_inv:
  assumes inv: "tk_inv st" and pc: "tk_pc st \<noteq> Idle"
  shows "tk_inv (loop_turn ys throws st)"
proof (cases "tk_pc st")
  case Idle
  then show ?thesis using pc by simp
next
  case (Outer t e)
  then show ?thesis using inv by (auto simp: loop_turn_def tk_inv_def tk_waiting_def)
next
  case (Inner t e)
  then obtain cs where cs: "tk_c st = Some cs" "t = length cs" "tk_f st < int t" "-1 \<le> tk_f st" "tk_u st"
    using inv by (auto simp: tk_inv_def)
  show ?thesis
  proof (cases "tk_f st + 1 < int t")
    case False
    then show ?thesis using inv Inner cs by (auto simp: loop_turn_def tk_inv_def tk_waiting_def Let_def)
  next
    case True
    let ?n = "nat (tk_f st + 1)"
    let ?st = "st\<lparr>tk_f := tk_f st + 1, tk_ran := tk_ran st @ [cs ! ?n]\<rparr>"
    have "?n < length cs" "nat (tk_f st + 1 + 1) = Suc ?n" using True cs by simp_all
    then have "drop ?n cs = cs ! ?n # drop (nat (tk_f st + 1 + 1)) cs" by (simp add: Cons_nth_drop_Suc)
    then have "tk_inv ?st" using inv Inner cs True by (auto simp: tk_inv_def tk_waiting_def)
    from nextTicks_inv [OF this, of t e ys] Inner
    have after: "tk_inv (fold nextTick ys ?st)" "tk_pc (fold nextTick ys ?st) = Inner t e"
      "tk_u (fold nextTick ys ?st)" "tk_f (fold nextTick ys ?st) = tk_f st + 1" "tk_c (fold nextTick ys ?st) = Some cs"
      using cs by simp_all
    then have "tk_inv ((fold nextTick ys ?st)\<lparr>tk_pc := Idle\<rparr>)"
      by (auto simp: tk_inv_def tk_waiting_def)
    with after True Inner cs show ?thesis by (simp add: loop_turn_def Let_def)
  qed
qed

lemma ticks_run_inv: "ticks_run st \<Longrightarrow> tk_inv st"
proof (induction rule: ticks_run.induct)
  case start
  show ?case by (simp add: tk_inv_def tk_waiting_def new_ticks_def)
next
  case (asked st x)
  then show ?case using nextTick_inv [of st x] by simp
next
  case (fired st i k)
  then show ?case using drain_inv [of st _ i] cleanup_inv [of st i] by (cases k) (auto simp: fire_timer_def)
next
  case (turn st ys throws)
  then show ?case by (simp add: turn_inv)
qed

section \<open>What the queues promise\<close>

text \<open>Callbacks given to \<open>setImmediate\<close> run at most once and in the order of the calls, whatever they
  do and whichever of them throw; each one given has run, has been cleared, or is still to be run.\<close>

lemma immediates_in_order:
  assumes "immediates_run st"
  shows "sorted_wrt (<) (im_ran st @ im_posted st)
    \<and> (\<forall>i. 1 \<le> i \<and> i < im_s st \<longrightarrow>
         i \<in> set (im_ran st) \<or> i \<in> set (im_cleared st) \<or> i \<in> set (im_posted st) \<and> im_c st i \<noteq> None)"
  using immediates_run_inv [OF assms] by (simp add: im_inv_def)

lemma immediates_in_order_witness:
  "\<exists>st :: nat immediates. immediates_run st \<and> sorted_wrt (<) (im_ran st @ im_posted st)
    \<and> im_ran st = [1] \<and> im_posted st = [2, 3] \<and> im_cleared st = [2]"
proof -
  let ?s2 = "do_act (Set_immediate 8) (do_act (Set_immediate 7) new_immediates) :: nat immediates"
  have posted: "im_posted ?s2 = 1 # [2]" by (simp add: setImmediate_def new_immediates_def)
  have "immediates_run ?s2" by (intro immediates_run.intros)
  note r = immediates_run.message [OF this posted, of "[Clear_immediate 2, Set_immediate 9]"]
  show ?thesis
    by (intro exI conjI, rule r, rule conjunct1 [OF immediates_in_order [OF r]])
       (simp_all add: run_if_present_def setImmediate_def clearImmediate_def new_immediates_def Let_def)
qed

text \<open>C40. Callbacks given to \<open>nextTick\<close> run exactly in the order they were given, each once, also when one
  of them throws in the middle of the loop: those that have run and those that wait are all that
  were given. While one waits, the loop is running or a timer that takes it up is set.\<close>

theorem ticks_in_order:
  assumes "ticks_run st"
  shows "\<exists>rest. tk_asked st = tk_ran st @ rest
    \<and> (rest \<noteq> [] \<longrightarrow> tk_pc st \<noteq> Idle \<or> (\<exists>i. (i, if tk_u st then Cleanup else Drain) \<in> set (tk_timers st)))"
  using ticks_run_inv [OF assms] by (cases "tk_pc st") (auto simp: tk_inv_def tk_waiting_def)

theorem ticks_in_order_witness:
  "\<exists>st :: nat ticks. ticks_run st \<and> (\<exists>rest. tk_asked st = tk_ran st @ rest) \<and> tk_asked st = [5, 6] \<and> tk_ran st = [5]
    \<and> tk_pc st = Idle \<and> tk_u st"
proof -
  let ?s1 = "nextTick 6 (nextTick 5 new_ticks) :: nat ticks"
  have 1: "tk_pc ?s1 = Idle" "(0, Drain) \<in> set (tk_timers ?s1)"
    by (auto simp: nextTick_def new_ticks_def set_timer_def Let_def)
  have "ticks_run ?s1"
    by (rule ticks_run.asked [OF ticks_run.asked [OF ticks_run.start]])
       (simp_all add: nextTick_def new_ticks_def set_timer_def Let_def)
  let ?s2 = "fire_timer Drain (?s1\<lparr>tk_timers := remove1 (0, Drain) (tk_timers ?s1)\<rparr>)"
  note 2 = ticks_run.fired [OF \<open>ticks_run ?s1\<close> 1]
  have pc2: "tk_pc ?s2 \<noteq> Idle"
    by (simp add: fire_timer_def drainQueue_def nextTick_def new_ticks_def set_timer_def Let_def)
  note 3 = ticks_run.turn [OF 2 pc2, of "[]" False]
  have pc3: "tk_pc (loop_turn [] False ?s2) \<noteq> Idle"
    by (simp add: loop_turn_def fire_timer_def drainQueue_def nextTick_def new_ticks_def set_timer_def Let_def)
  note 4 = ticks_run.turn [OF 3 pc3, of "[]" True]
  from ticks_in_order [OF 4]
  have "\<exists>rest. tk_asked (loop_turn [] True (loop_turn [] False ?s2)) = tk_ran (loop_turn [] True (loop_turn [] False ?s2)) @ rest"
    by blast
  with 4 show ?thesis
    by (intro exI [of _ "loop_turn [] True (loop_turn [] False ?s2)"])
       (simp add: loop_turn_def fire_timer_def drainQueue_def nextTick_def new_ticks_def set_timer_def Let_def)
qed

end
