(* ===== verification/SourceFacts.thy ===== *)
theory SourceFacts
  imports Prelude "HOL-Library.Word"
begin

text \<open>
  The facts about the repository in the header of the second theme (the adapters of \<open>Source\<close> in
  \<open>application.js\<close>): the hash of an address (\<open>url_hash\<close> is the method \<open>hash_\<close>, \<open>fetch_facts\<close> is \<open>fetch_\<close>), the pages of repositories GitHub answers with, and
  the cookie the facts are kept in.

  \<^item> The answer of GitHub to the request of a page is a parameter: an array of repositories, or
    something else. How a number is written (\<open>format_\<close>, which rounds) is a parameter, too.
  \<^item> The address of a link tells the user and, perhaps, the repository: \<open>name_\<close> is \<open>None\<close> when it is
    undefined. Reading it by a regular expression, and the lifetime of cookies, are left out.
\<close>

section \<open>The code\<close>

text \<open>\<open>t = (t << 5) - t + e.charCodeAt(n), t |= 0\<close>: the last makes it 32 bits wide again.\<close>

fun hash_step :: "char \<Rightarrow> 32 word \<Rightarrow> 32 word" where
  "hash_step c t = push_bit 5 t - t + of_char c"

definition url_hash :: "string \<Rightarrow> 32 word" where
  "url_hash e = fold hash_step e 0"

record repository =
  re_name :: string
  re_stars :: nat
  re_forks :: nat

datatype page_answer = Not_array | Repositories "repository list"

text \<open>\<open>None\<close>: it goes on for ever. \<open>Inl ()\<close> is the TypeError.\<close>

partial_function (option) fetch_page ::
    "(nat \<Rightarrow> string) \<Rightarrow> (nat \<Rightarrow> string) \<Rightarrow> (nat \<Rightarrow> page_answer) \<Rightarrow> string option \<Rightarrow> nat \<Rightarrow> (unit + string list) option" where
  "fetch_page fmt dec answer name r =
     (case answer r of
        Not_array \<Rightarrow> Some (Inl ())
      | Repositories e \<Rightarrow>
          (case name of
             None \<Rightarrow> Some (Inr [dec (length e) @ '' Repositories''])
           | Some nm \<Rightarrow>
               (case find (\<lambda>x. re_name x = nm) e of
                  Some t \<Rightarrow> Some (Inr [fmt (re_stars t) @ '' Stars'', fmt (re_forks t) @ '' Forks''])
                | None \<Rightarrow> if length e = 30 then fetch_page fmt dec answer name (r + 1) else Some (Inr []))))"

definition fetch_facts ::
    "(nat \<Rightarrow> string) \<Rightarrow> (nat \<Rightarrow> string) \<Rightarrow> (nat \<Rightarrow> page_answer) \<Rightarrow> string option \<Rightarrow> (unit + string list) option" where
  "fetch_facts fmt dec answer name = fetch_page fmt dec answer name 0"

text \<open>The promise of \<open>fetch\<close>: the facts, or \<open>None\<close> while it is pending, and the cookies after it.\<close>

definition fetch_source ::
    "string \<Rightarrow> (unit + string list) option \<Rightarrow> (string \<rightharpoonup> string list) \<Rightarrow> string list option \<times> (string \<rightharpoonup> string list)" where
  "fetch_source salt result cookies =
     (let key = salt @ ''.cache-source''
      in case cookies key of
           Some e \<Rightarrow> (Some e, cookies)
         | None \<Rightarrow>
             (case result of
                Some (Inr e) \<Rightarrow> (Some e, cookies(key \<mapsto> e))
              | _ \<Rightarrow> (None, cookies)))"

section \<open>The hash\<close>

lemma hash_step_mult: "hash_step c t = 31 * t + of_char c"
  by (simp add: push_bit_eq_mult algebra_simps)

lemma hash_fold: "fold hash_step s t = 31 ^ length s * t + horner_sum of_char 31 (rev s)"
  by (induction s arbitrary: t) (simp_all add: hash_step_mult horner_sum_append algebra_simps del: hash_step.simps)

text \<open>The loop with shifts computes, in the wrap-around arithmetic of 32 bits, the value at 31 of the polynomial
  whose coefficients are the codes of the characters, the last one first.\<close>

lemma hash_is_polynomial: "url_hash s = horner_sum of_char 31 (rev s)"
  by (simp add: url_hash_def hash_fold)

lemma hash_collision: "url_hash ''Aa'' = url_hash ''BB''"
  by (simp add: hash_is_polynomial)

section \<open>The pages\<close>

definition full_without :: "page_answer \<Rightarrow> string \<Rightarrow> bool" where
  "full_without a nm \<longleftrightarrow> (\<exists>e. a = Repositories e \<and> length e = 30 \<and> find (\<lambda>x. re_name x = nm) e = None)"

lemma fetch_skips:
  "full_without (answer r) nm \<Longrightarrow> fetch_page fmt dec answer (Some nm) r = fetch_page fmt dec answer (Some nm) (r + 1)"
  by (subst fetch_page.simps) (auto simp: full_without_def)

lemma fetch_from:
  "(\<And>i. i < k \<Longrightarrow> full_without (answer (r + i)) nm) \<Longrightarrow>
    fetch_page fmt dec answer (Some nm) r = fetch_page fmt dec answer (Some nm) (r + k)"
proof (induction k arbitrary: r)
  case (Suc k)
  have "full_without (answer r) nm" using Suc.prems [of 0] by simp
  then have "fetch_page fmt dec answer (Some nm) r = fetch_page fmt dec answer (Some nm) (r + 1)" by (rule fetch_skips)
  also have "\<dots> = fetch_page fmt dec answer (Some nm) (r + 1 + k)"
    by (rule Suc.IH) (use Suc.prems [of "Suc i" for i] in simp)
  finally show ?case by simp
qed simp

text \<open>Asking for a repository ends at the first page that has it or is not full, and gives its stars and
  forks there (nothing, when the last page does not have it).\<close>

lemma fetch_ends_at_page:
  assumes "\<And>i. i < k \<Longrightarrow> full_without (answer i) nm" and "\<not> full_without (answer k) nm"
  shows "fetch_facts fmt dec answer (Some nm) = Some
    (case answer k of
       Not_array \<Rightarrow> Inl ()
     | Repositories e \<Rightarrow> Inr (case find (\<lambda>x. re_name x = nm) e of
           None \<Rightarrow> [] | Some t \<Rightarrow> [fmt (re_stars t) @ '' Stars'', fmt (re_forks t) @ '' Forks'']))"
proof -
  have "fetch_facts fmt dec answer (Some nm) = fetch_page fmt dec answer (Some nm) (0 + k)"
    unfolding fetch_facts_def by (rule fetch_from) (simp add: assms(1))
  also have "\<dots> = Some
    (case answer k of
       Not_array \<Rightarrow> Inl ()
     | Repositories e \<Rightarrow> Inr (case find (\<lambda>x. re_name x = nm) e of
           None \<Rightarrow> [] | Some t \<Rightarrow> [fmt (re_stars t) @ '' Stars'', fmt (re_forks t) @ '' Forks'']))"
    using assms(2) by (subst fetch_page.simps) (auto simp: full_without_def split: page_answer.split option.split)
  finally show ?thesis .
qed

lemma failed_source_is_pending: "cookies (salt @ ''.cache-source'') = None \<Longrightarrow> fetch_source salt (Some (Inl ())) cookies = (None, cookies)"
  by (simp add: fetch_source_def)

end
